(* ===== verification/Prelude.thy ===== *)
theory Prelude
  imports Main "HOL-Library.Word"
begin

text \<open>
  What every component of the model shares.

  \<^item> Machine types of the platform the model fixes (LP64 x86-64, signed \<open>char\<close>):
    bytes, \<open>uint16_t\<close>, \<open>uint32_t\<close> and \<open>unsigned\<close>, \<open>uint64_t\<close> and \<open>size_t\<close>.
  \<^item> \<open>fault\<close>: what stops the C program (a null or dangling dereference, an access outside an
    array, an uninitialised read, a signed overflow, \<open>exit\<close>). A C function that may stop returns
    \<open>fault + 'a\<close>, and \<open>rbind\<close> sequences such functions.
  \<^item> \<open>'a heap\<close>: the live objects of one C type by address. Addresses are never reused, so a
    pointer to a freed object stays dangling for ever.
  \<^item> \<open>'a carr\<close>: a C array of known length.
  \<^item> Pointer paths (\<open>path\<close>) and doubly linked lists (\<open>dll\<close>), read through pointer fields.
\<close>

named_theorems res_simps "evaluating sequences of faulting operations"
named_theorems mem_simps "loads, stores and allocation in typed heaps"

section \<open>Machine types\<close>

type_synonym byte = "8 word"
type_synonym u16 = "16 word"
type_synonym u32 = "32 word"
type_synonym u64 = "64 word"
type_synonym addr = nat

abbreviation NULL :: addr where
  "NULL \<equiv> 0"

section \<open>Faults and their propagation\<close>

datatype fault =
    NullDeref
  | Dangling
  | BadFree
  | OutOfBounds
  | Unterminated
  | Uninit
  | BadCast
  | Overflow
  | Deadlock
  | Diverge
  | Exit int

type_synonym 'a res = "fault + 'a"

definition rbind :: "'a res \<Rightarrow> ('a \<Rightarrow> 'b res) \<Rightarrow> 'b res" where
  "rbind m f = (case m of Inl e \<Rightarrow> Inl e | Inr x \<Rightarrow> f x)"

lemma rbind_Inl [simp, res_simps]: "rbind (Inl e) f = Inl e"
  by (simp add: rbind_def)

lemma rbind_Inr [simp, res_simps]: "rbind (Inr x) f = f x"
  by (simp add: rbind_def)

lemma rbind_eq_Inr [res_simps]: "rbind m f = Inr y \<longleftrightarrow> (\<exists>x. m = Inr x \<and> f x = Inr y)"
  by (simp add: rbind_def split: sum.split)

lemma rbind_assoc: "rbind (rbind m f) g = rbind m (\<lambda>x. rbind (f x) g)"
  by (simp add: rbind_def split: sum.split)

lemma rbind_cong [fundef_cong]:
  "m = m' \<Longrightarrow> (\<And>x. m' = Inr x \<Longrightarrow> f x = f' x) \<Longrightarrow> rbind m f = rbind m' f'"
  by (simp add: rbind_def split: sum.split)

lemma rbind_if_distrib: "rbind (if b then m else m') f = (if b then rbind m f else rbind m' f)"
  by simp

section \<open>Typed heaps\<close>

record 'a heap =
  cells :: "addr \<Rightarrow> 'a option"
  brk :: addr

definition heap_empty :: "'a heap" where
  "heap_empty = \<lparr>cells = (\<lambda>_. None), brk = 1\<rparr>"

definition heap_ok :: "'a heap \<Rightarrow> bool" where
  "heap_ok h \<longleftrightarrow> 0 < brk h \<and> (\<forall>p. cells h p \<noteq> None \<longrightarrow> 0 < p \<and> p < brk h)"

definition live :: "'a heap \<Rightarrow> addr \<Rightarrow> bool" where
  "live h p \<longleftrightarrow> p \<noteq> NULL \<and> cells h p \<noteq> None"

definition load :: "'a heap \<Rightarrow> addr \<Rightarrow> 'a res" where
  "load h p =
     (if p = NULL then Inl NullDeref
      else case cells h p of None \<Rightarrow> Inl Dangling | Some v \<Rightarrow> Inr v)"

definition store :: "'a heap \<Rightarrow> addr \<Rightarrow> 'a \<Rightarrow> 'a heap res" where
  "store h p v = rbind (load h p) (\<lambda>_. Inr (h\<lparr>cells := (cells h)(p := Some v)\<rparr>))"

text \<open>\<open>free(NULL)\<close> does nothing; freeing what is not live is an error.\<close>

definition dealloc :: "'a heap \<Rightarrow> addr \<Rightarrow> 'a heap res" where
  "dealloc h p =
     (if p = NULL then Inr h
      else case cells h p of None \<Rightarrow> Inl BadFree
           | Some _ \<Rightarrow> Inr (h\<lparr>cells := (cells h)(p := None)\<rparr>))"

text \<open>
  An allocation may fail. Which ones do is decided by a schedule, one entry per call; where the
  schedule has run out, allocation succeeds.
\<close>

definition alloc_ok :: "bool list \<Rightarrow> bool" where
  "alloc_ok sch \<longleftrightarrow> (case sch of [] \<Rightarrow> True | b # _ \<Rightarrow> b)"

definition calloc :: "'a \<Rightarrow> bool list \<Rightarrow> 'a heap \<Rightarrow> addr \<times> bool list \<times> 'a heap" where
  "calloc v sch h =
     (if alloc_ok sch
      then (brk h, tl sch, \<lparr>cells = (cells h)(brk h := Some v), brk = Suc (brk h)\<rparr>)
      else (NULL, tl sch, h))"

lemma alloc_ok_Nil [simp]: "alloc_ok []"
  by (simp add: alloc_ok_def)

lemma alloc_ok_Cons [simp]: "alloc_ok (b # bs) \<longleftrightarrow> b"
  by (simp add: alloc_ok_def)

lemma load_Inr_iff [mem_simps]: "load h p = Inr v \<longleftrightarrow> p \<noteq> NULL \<and> cells h p = Some v"
  by (auto simp: load_def split: option.splits)

lemma load_live: "live h p \<Longrightarrow> load h p = Inr (the (cells h p))"
  by (auto simp: load_def live_def)

lemma load_NULL [simp]: "load h NULL = Inl NullDeref"
  by (simp add: load_def)

lemma store_live: "live h p \<Longrightarrow> store h p v = Inr (h\<lparr>cells := (cells h)(p := Some v)\<rparr>)"
  by (simp add: store_def load_live)

lemma load_dead: "p \<noteq> NULL \<Longrightarrow> cells h p = None \<Longrightarrow> load h p = Inl Dangling"
  by (simp add: load_def)

lemma dealloc_live: "live h p \<Longrightarrow> dealloc h p = Inr (h\<lparr>cells := (cells h)(p := None)\<rparr>)"
  by (auto simp: dealloc_def live_def)

lemma heap_ok_empty [simp]: "heap_ok heap_empty"
  by (simp add: heap_ok_def heap_empty_def)

lemma heap_ok_store: "heap_ok h \<Longrightarrow> store h p v = Inr h' \<Longrightarrow> heap_ok h'"
  by (auto simp: heap_ok_def store_def mem_simps rbind_eq_Inr split: if_splits)

lemma heap_ok_dealloc: "heap_ok h \<Longrightarrow> dealloc h p = Inr h' \<Longrightarrow> heap_ok h'"
  by (auto simp: heap_ok_def dealloc_def split: if_splits option.splits)

lemma heap_ok_calloc: "heap_ok h \<Longrightarrow> calloc v sch h = (p, sch', h') \<Longrightarrow> heap_ok h'"
  by (auto simp: heap_ok_def calloc_def less_Suc_eq split: if_splits)

lemma heap_ok_fresh: "heap_ok h \<Longrightarrow> cells h (brk h) = None"
  unfolding heap_ok_def by (metis less_irrefl)

lemma heap_ok_live_lt: "heap_ok h \<Longrightarrow> live h p \<Longrightarrow> p < brk h"
  by (simp add: heap_ok_def live_def)

section \<open>Arrays of known length\<close>

record 'a carr =
  alen :: nat
  adat :: "nat \<Rightarrow> 'a"

definition aget :: "'a carr \<Rightarrow> nat \<Rightarrow> 'a res" where
  "aget a i = (if i < alen a then Inr (adat a i) else Inl OutOfBounds)"

definition aset :: "'a carr \<Rightarrow> nat \<Rightarrow> 'a \<Rightarrow> 'a carr res" where
  "aset a i v = (if i < alen a then Inr (a\<lparr>adat := (adat a)(i := v)\<rparr>) else Inl OutOfBounds)"

definition azero :: "nat \<Rightarrow> 'a \<Rightarrow> 'a carr" where
  "azero n v = \<lparr>alen = n, adat = (\<lambda>_. v)\<rparr>"

text \<open>The elements \<open>a[i], \<dots>, a[i + n - 1]\<close>.\<close>

definition aslice :: "'a carr \<Rightarrow> nat \<Rightarrow> nat \<Rightarrow> 'a list" where
  "aslice a i n = map (adat a) [i..<i + n]"

lemma length_aslice [simp]: "length (aslice a i n) = n"
  by (simp add: aslice_def)

lemma aslice_0 [simp]: "aslice a i 0 = []"
  by (simp add: aslice_def)

lemma aslice_Suc: "aslice a i (Suc n) = aslice a i n @ [adat a (i + n)]"
  by (simp add: aslice_def)

lemma nth_aslice: "k < n \<Longrightarrow> aslice a i n ! k = adat a (i + k)"
  by (simp add: aslice_def)

lemma aslice_upd_outside:
  "j < i \<or> i + n \<le> j \<Longrightarrow> aslice (a\<lparr>adat := (adat a)(j := v)\<rparr>) i n = aslice a i n"
  by (auto simp: aslice_def)

section \<open>Pointer chains\<close>

text \<open>
  \<open>path nx p xs q\<close>: following the pointer field \<open>nx\<close> from \<open>p\<close> visits exactly \<open>xs\<close>
  and then stands at \<open>q\<close>. A list is a path to \<open>NULL\<close>; a doubly linked list is a list
  through \<open>nx\<close> from its head and the reversed list through \<open>pv\<close> from its tail.
\<close>

fun path :: "(addr \<Rightarrow> addr) \<Rightarrow> addr \<Rightarrow> addr list \<Rightarrow> addr \<Rightarrow> bool" where
  "path nx p [] q \<longleftrightarrow> p = q"
| "path nx p (x # xs) q \<longleftrightarrow> p = x \<and> x \<noteq> NULL \<and> path nx (nx x) xs q"

lemma path_NULL [simp]: "path nx NULL xs q \<longleftrightarrow> xs = [] \<and> q = NULL"
  by (cases xs) auto

lemma path_append [simp]: "path nx p (xs @ ys) q \<longleftrightarrow> (\<exists>r. path nx p xs r \<and> path nx r ys q)"
  by (induction xs arbitrary: p) auto

lemma path_nonnull:
  "p \<noteq> NULL \<Longrightarrow> path nx p xs NULL \<longleftrightarrow> (\<exists>ys. xs = p # ys \<and> path nx (nx p) ys NULL)"
  by (cases xs) auto

lemma path_cong: "(\<And>x. x \<in> set xs \<Longrightarrow> nx x = nx' x) \<Longrightarrow> path nx p xs q = path nx' p xs q"
  by (induction xs arbitrary: p) auto

lemma path_upd [simp]: "a \<notin> set xs \<Longrightarrow> path (nx(a := v)) p xs q = path nx p xs q"
  by (rule path_cong) auto

lemma path_not_NULL: "path nx p xs q \<Longrightarrow> NULL \<notin> set xs"
  by (induction xs arbitrary: p) auto

lemma path_unique: "path nx p xs NULL \<Longrightarrow> path nx p ys NULL \<Longrightarrow> xs = ys"
  by (induction xs arbitrary: p ys) (auto simp: path_nonnull)

lemma path_start: "path nx p xs NULL \<Longrightarrow> p = (case xs of [] \<Rightarrow> NULL | x # _ \<Rightarrow> x)"
  by (cases xs) auto

lemma path_hd: "xs \<noteq> [] \<Longrightarrow> path nx p xs q \<Longrightarrow> p = hd xs"
  by (cases xs) auto

text \<open>Redirecting the last pointer of a path moves its end.\<close>

lemma path_redirect_last:
  assumes "path nx p xs q" "distinct xs" "xs \<noteq> []"
  shows "path (nx(last xs := q')) p xs q'"
proof -
  from assms(3) obtain ys y where xs: "xs = ys @ [y]"
    by (metis append_butlast_last_id)
  with assms show ?thesis by auto
qed

definition dll :: "(addr \<Rightarrow> addr) \<Rightarrow> (addr \<Rightarrow> addr) \<Rightarrow> addr \<Rightarrow> addr list \<Rightarrow> addr \<Rightarrow> bool" where
  "dll nx pv h xs t \<longleftrightarrow> path nx h xs NULL \<and> path pv t (rev xs) NULL \<and> distinct xs"

lemma dll_Nil [simp]: "dll nx pv h [] t \<longleftrightarrow> h = NULL \<and> t = NULL"
  by (auto simp: dll_def)

lemma dll_cong:
  "(\<And>x. x \<in> set xs \<Longrightarrow> nx x = nx' x) \<Longrightarrow> (\<And>x. x \<in> set xs \<Longrightarrow> pv x = pv' x) \<Longrightarrow>
   dll nx pv h xs t = dll nx' pv' h xs t"
  using path_cong [of xs nx nx'] path_cong [of "rev xs" pv pv'] by (simp add: dll_def)

lemma dll_distinct: "dll nx pv h xs t \<Longrightarrow> distinct xs"
  by (simp add: dll_def)

lemma dll_not_NULL: "dll nx pv h xs t \<Longrightarrow> NULL \<notin> set xs"
  by (auto simp: dll_def dest: path_not_NULL)

lemma dll_head: "dll nx pv h xs t \<Longrightarrow> h = (case xs of [] \<Rightarrow> NULL | x # _ \<Rightarrow> x)"
  by (auto simp: dll_def dest: path_start)

lemma dll_tail: "dll nx pv h xs t \<Longrightarrow> xs \<noteq> [] \<Longrightarrow> t = last xs"
  by (cases xs rule: rev_cases) (auto simp: dll_def)

text \<open>Appending at the tail: the old tail points to the new element, which points back.\<close>

lemma dll_append:
  assumes "dll nx pv h xs t" "xs \<noteq> []" "a \<noteq> NULL" "a \<notin> set xs"
  shows "dll (nx(a := NULL, t := a)) (pv(a := t)) h (xs @ [a]) a"
proof -
  from assms(2) obtain ys y where xs: "xs = ys @ [y]"
    by (metis append_butlast_last_id)
  from assms xs show ?thesis by (auto simp: dll_def)
qed

text \<open>Pushing at the front: the old head, if any, points back to the new element.\<close>

lemma dll_push:
  assumes "dll nx pv h xs t" "a \<noteq> NULL" "a \<notin> set xs"
  shows "dll (nx(a := h)) (if h = NULL then pv(a := NULL) else pv(a := NULL, h := a)) a (a # xs)
           (if h = NULL then a else t)"
proof (cases xs)
  case Nil
  with assms show ?thesis by (auto simp: dll_def)
next
  case (Cons x ys)
  with assms show ?thesis by (auto simp: dll_def)
qed

text \<open>Unlinking an element: its neighbours point past it.\<close>

lemma dll_delete:
  assumes "dll nx pv h (ys @ d # zs) t"
  shows "dll (if pv d = NULL then nx else nx(pv d := nx d))
             (if nx d = NULL then pv else pv(nx d := pv d))
             (if pv d = NULL then nx d else h) (ys @ zs)
             (if nx d = NULL then pv d else t)"
    and "pv d = (if ys = [] then NULL else last ys)"
    and "nx d = (if zs = [] then NULL else hd zs)"
proof -
  show pd: "pv d = (if ys = [] then NULL else last ys)"
    using assms by (cases ys rule: rev_cases) (auto simp: dll_def)
  show nd: "nx d = (if zs = [] then NULL else hd zs)"
    using assms by (cases zs) (auto simp: dll_def)
  have nn: "NULL \<notin> set ys" "NULL \<notin> set zs"
    using dll_not_NULL [OF assms] by auto
  show "dll (if pv d = NULL then nx else nx(pv d := nx d))
             (if nx d = NULL then pv else pv(nx d := pv d))
             (if pv d = NULL then nx d else h) (ys @ zs)
             (if nx d = NULL then pv d else t)"
    using assms pd nd nn
    by (cases ys rule: rev_cases; cases zs) (auto simp: dll_def)
qed

end
