(* ===== verification/Doubles.thy ===== *)
theory Doubles
  imports Prelude
begin

text \<open>
  The C type \<open>double\<close>: IEEE 754 binary64 with rounding to nearest, ties to even, on the bit
  patterns themselves. The program stores, compares, adds, subtracts, multiplies and divides
  doubles, converts a \<open>size_t\<close> to \<open>double\<close> and a \<open>double\<close> to \<open>int\<close>; these are the operations
  defined here, and all of them compute.

  Every finite double is an integer multiple of \<open>2 ^ -1074\<close>. \<open>dunits\<close> is that multiple for a
  magnitude (the low 63 bits), \<open>dval\<close> adds the sign. \<open>dround n d\<close> is the magnitude nearest to
  \<open>n / d\<close> units. The order of magnitudes as numbers is the order of the values
  (\<open>dunits_less_iff\<close>), a representable value rounds to itself (\<open>dround_exact\<close>).
\<close>

unbundle bit_operations_syntax

type_synonym double = "64 word"

named_theorems double_defs "the definitions of the double operations"

section \<open>Bit patterns\<close>

definition inf_mag :: nat where
  "inf_mag = 2047 * 2 ^ 52"

definition dsign :: "double \<Rightarrow> bool" where
  "dsign x \<longleftrightarrow> 2 ^ 63 \<le> unat x"

definition dmag :: "double \<Rightarrow> nat" where
  "dmag x = unat x mod 2 ^ 63"

definition dpack :: "bool \<Rightarrow> nat \<Rightarrow> double" where
  "dpack s m = (if s then 2 ^ 63 else 0) + of_nat m"

definition is_nan :: "double \<Rightarrow> bool" where
  "is_nan x \<longleftrightarrow> inf_mag < dmag x"

definition is_inf :: "double \<Rightarrow> bool" where
  "is_inf x \<longleftrightarrow> dmag x = inf_mag"

definition is_fin :: "double \<Rightarrow> bool" where
  "is_fin x \<longleftrightarrow> dmag x < inf_mag"

definition dnan :: double where
  "dnan = dpack False (inf_mag + 2 ^ 51)"

definition done1 :: double where
  "done1 = dpack False (1023 * 2 ^ 52)"

definition dzero :: double where
  "dzero = 0"

section \<open>Values\<close>

definition dunits :: "nat \<Rightarrow> nat" where
  "dunits m = (let e = m div 2 ^ 52 in
     if e = 0 then m else (2 ^ 52 + m mod 2 ^ 52) * 2 ^ (e - 1))"

definition dval :: "double \<Rightarrow> int" where
  "dval x = (if dsign x then - int (dunits (dmag x)) else int (dunits (dmag x)))"

text \<open>The order of the bit patterns, sign and magnitude; both zeros are equal.\<close>

definition dkey :: "double \<Rightarrow> int" where
  "dkey x = (if dsign x then - int (dmag x) else int (dmag x))"

definition dlt :: "double \<Rightarrow> double \<Rightarrow> bool" where
  "dlt x y \<longleftrightarrow> \<not> is_nan x \<and> \<not> is_nan y \<and> dkey x < dkey y"

definition dgt :: "double \<Rightarrow> double \<Rightarrow> bool" where
  "dgt x y \<longleftrightarrow> dlt y x"

section \<open>Rounding\<close>

fun bitlen :: "nat \<Rightarrow> nat" where
  "bitlen n = (if n = 0 then 0 else Suc (bitlen (n div 2)))"

declare bitlen.simps [simp del]

text \<open>\<open>n / d\<close> to the nearest integer, a tie to the even one.\<close>

definition rne :: "nat \<Rightarrow> nat \<Rightarrow> nat" where
  "rne n d = (let q = n div d; r = n mod d in
     if 2 * r < d \<or> 2 * r = d \<and> even q then q else Suc q)"

definition dround :: "nat \<Rightarrow> nat \<Rightarrow> nat" where
  "dround n d = (let e = bitlen (n div d) - 53 in
     min inf_mag (e * 2 ^ 52 + rne n (d * 2 ^ e)))"

section \<open>Operations\<close>

definition dneg :: "double \<Rightarrow> double" where
  "dneg x = x XOR 2 ^ 63"

definition dadd :: "double \<Rightarrow> double \<Rightarrow> double" where
  "dadd x y =
     (if is_nan x \<or> is_nan y \<or> is_inf x \<and> is_inf y \<and> dsign x \<noteq> dsign y then dnan
      else if is_inf x then x
      else if is_inf y then y
      else let v = dval x + dval y in
        if v = 0 then dpack (dsign x \<and> dsign y) 0
        else dpack (v < 0) (dround (nat \<bar>v\<bar>) 1))"

definition dsub :: "double \<Rightarrow> double \<Rightarrow> double" where
  "dsub x y = dadd x (dneg y)"

definition dmul :: "double \<Rightarrow> double \<Rightarrow> double" where
  "dmul x y =
     (if is_nan x \<or> is_nan y \<or> is_inf x \<and> dmag y = 0 \<or> dmag x = 0 \<and> is_inf y then dnan
      else if is_inf x \<or> is_inf y then dpack (dsign x \<noteq> dsign y) inf_mag
      else dpack (dsign x \<noteq> dsign y) (dround (dunits (dmag x) * dunits (dmag y)) (2 ^ 1074)))"

definition ddiv :: "double \<Rightarrow> double \<Rightarrow> double" where
  "ddiv x y =
     (if is_nan x \<or> is_nan y \<or> is_inf x \<and> is_inf y \<or> dmag x = 0 \<and> dmag y = 0 then dnan
      else if is_inf x \<or> dmag y = 0 then dpack (dsign x \<noteq> dsign y) inf_mag
      else if is_inf y then dpack (dsign x \<noteq> dsign y) 0
      else dpack (dsign x \<noteq> dsign y) (dround (dunits (dmag x) * 2 ^ 1074) (dunits (dmag y))))"

text \<open>Conversion of an unsigned integer, and the cast to \<open>int\<close>: truncation towards zero, undefined
  when the truncated value is not an \<open>int\<close>.\<close>

definition dof_nat :: "nat \<Rightarrow> double" where
  "dof_nat n = dpack False (dround (n * 2 ^ 1074) 1)"

definition d_to_int :: "double \<Rightarrow> int res" where
  "d_to_int x =
     (let t = int (dunits (dmag x) div 2 ^ 1074); v = (if dsign x then - t else t) in
      if is_fin x \<and> - (2 ^ 31) \<le> v \<and> v < 2 ^ 31 then Inr v else Inl BadCast)"

section \<open>Bit-pattern lemmas\<close>

lemma dmag_lt: "dmag x < 2 ^ 63"
  by (simp add: dmag_def)

lemma dmag_dpack [simp]: "m < 2 ^ 63 \<Longrightarrow> dmag (dpack s m) = m"
  by (auto simp: dmag_def dpack_def unat_word_ariths unat_of_nat)

lemma dsign_dpack [simp]: "m < 2 ^ 63 \<Longrightarrow> dsign (dpack s m) = s"
  by (auto simp: dsign_def dpack_def unat_word_ariths unat_of_nat)

lemma inf_mag_lt: "inf_mag < 2 ^ 63"
  by (simp add: inf_mag_def)

lemma inf_mag_pos: "0 < inf_mag"
  by (simp add: inf_mag_def)

lemma dmag_done1 [simp]: "dmag done1 = 1023 * 2 ^ 52"
  unfolding done1_def by (rule dmag_dpack) simp

lemma double_eqI: "dsign x = dsign y \<Longrightarrow> dmag x = dmag y \<Longrightarrow> x = y"
proof -
  assume s: "dsign x = dsign y" and m: "dmag x = dmag y"
  have l: "unat x < 2 ^ 64" "unat y < 2 ^ 64"
    using unsigned_less [of x] unsigned_less [of y] by simp_all
  have "unat z = (if dsign z then 2 ^ 63 else 0) + dmag z" if "unat z < 2 ^ 64" for z :: double
  proof (cases "2 ^ 63 \<le> unat z")
    case True
    then have "unat z - 2 ^ 63 < 2 ^ 63"
      using that by simp
    then have "unat z mod 2 ^ 63 = unat z - 2 ^ 63"
      using True by (metis le_mod_geq mod_less)
    with True show ?thesis by (simp add: dsign_def dmag_def)
  next
    case False
    then show ?thesis by (simp add: dsign_def dmag_def)
  qed
  with l s m have "unat x = unat y" by metis
  then show "x = y" by (simp add: word_unat_eq_iff)
qed

section \<open>Order\<close>

lemma dunits_small: "m < 2 ^ 52 \<Longrightarrow> dunits m = m"
  by (simp add: dunits_def)

lemma dunits_normal:
  "f < 2 ^ 52 \<Longrightarrow> dunits (Suc e * 2 ^ 52 + f) = (2 ^ 52 + f) * 2 ^ e"
proof -
  assume f: "f < 2 ^ 52"
  have "(Suc e * 2 ^ 52 + f) mod 2 ^ 52 = f"
    using f by (simp only: mod_mult_self3 mod_less)
  moreover have "(Suc e * 2 ^ 52 + f) div 2 ^ 52 = Suc e"
    using f div_mult_self3 [of "2 ^ 52" f "Suc e"] by simp
  ultimately show ?thesis by (simp add: dunits_def)
qed

text \<open>A magnitude is subnormal, or an exponent field and a fraction.\<close>

lemma mag_cases:
  obtains "m < 2 ^ 52" | e f where "m = Suc e * 2 ^ 52 + f" "f < (2 ^ 52 :: nat)"
proof (cases "m < 2 ^ 52")
  case False
  then have "m div 2 ^ 52 \<noteq> 0" by (simp add: div_eq_0_iff)
  then obtain e where e: "m div 2 ^ 52 = Suc e" using not0_implies_Suc by blast
  have "m = Suc e * 2 ^ 52 + m mod 2 ^ 52" using e by (metis div_mult_mod_eq)
  then show ?thesis by (rule that(2)) simp
qed (use that in simp)

lemma dunits_Suc: "dunits m < dunits (Suc m)"
proof (cases m rule: mag_cases)
  case 1
  show ?thesis
  proof (cases "Suc m < 2 ^ 52")
    case True
    with 1 show ?thesis by (simp add: dunits_small)
  next
    case False
    with 1 have "Suc m = Suc 0 * 2 ^ 52 + 0" by simp
    then show ?thesis using 1 dunits_normal [of 0 0] by (simp add: dunits_small)
  qed
next
  case (2 e f)
  show ?thesis
  proof (cases "Suc f < 2 ^ 52")
    case True
    then have "dunits (Suc m) = (2 ^ 52 + Suc f) * 2 ^ e"
      using dunits_normal [of "Suc f" e] 2 by simp
    with 2 show ?thesis using dunits_normal [of f e] by simp
  next
    case False
    with 2 have f: "Suc f = 2 ^ 52" by simp
    then have "Suc m = Suc (Suc e) * 2 ^ 52 + 0" using 2 by simp
    then have "dunits (Suc m) = 2 ^ 52 * 2 ^ Suc e"
      using dunits_normal [of 0 "Suc e"] by simp
    moreover have "dunits m = (2 ^ 52 + f) * 2 ^ e" using dunits_normal [of f e] 2 by simp
    moreover have "(2 ^ 52 + f) * 2 ^ e < (2 ^ 52 + Suc f) * 2 ^ e" by simp
    ultimately show ?thesis using f by simp
  qed
qed

lemma strict_mono_dunits: "strict_mono dunits"
  by (simp add: strict_mono_Suc_iff dunits_Suc)

lemma dunits_less_iff [simp]: "dunits m < dunits n \<longleftrightarrow> m < n"
  by (rule strict_mono_less [OF strict_mono_dunits])

lemma dunits_le_iff [simp]: "dunits m \<le> dunits n \<longleftrightarrow> m \<le> n"
  by (rule strict_mono_less_eq [OF strict_mono_dunits])

lemma dunits_eq_iff [simp]: "dunits m = dunits n \<longleftrightarrow> m = n"
  by (rule strict_mono_eq [OF strict_mono_dunits])

lemma dunits_0 [simp]: "dunits 0 = 0"
  by (simp add: dunits_def)

lemma dunits_pos [simp]: "0 < dunits m \<longleftrightarrow> 0 < m"
  using dunits_less_iff [of 0 m] by simp

lemma dkey_less_iff: "dkey x < dkey y \<longleftrightarrow> dval x < dval y"
proof -
  have "dunits (dmag x) = 0 \<longleftrightarrow> dmag x = 0" for x
    using dunits_eq_iff [of "dmag x" 0] by simp
  then show ?thesis
    using dunits_pos [of "dmag x"] dunits_pos [of "dmag y"]
    by (auto simp: dkey_def dval_def simp del: dunits_pos) 
qed

lemma dround_le_inf: "dround n d \<le> inf_mag"
  by (simp add: dround_def Let_def)

lemma dround_lt: "dround n d < 2 ^ 63"
  using dround_le_inf inf_mag_lt by (rule le_less_trans)

section \<open>Rounding lemmas\<close>

lemma bitlen_0 [simp]: "bitlen 0 = 0"
  by (simp add: bitlen.simps)

lemma bitlen_pos: "0 < n \<Longrightarrow> bitlen n = Suc (bitlen (n div 2))"
  by (subst bitlen.simps) simp

lemma bitlen_eq: "2 ^ k \<le> n \<Longrightarrow> n < 2 ^ Suc k \<Longrightarrow> bitlen n = Suc k"
proof (induction k arbitrary: n)
  case 0
  then have "n = 1" by simp
  then show ?case by (simp add: bitlen_pos)
next
  case (Suc k)
  then have "2 ^ k \<le> n div 2" "n div 2 < 2 ^ Suc k" "0 < n" by auto
  with Suc.IH show ?case by (simp add: bitlen_pos)
qed

lemma bitlen_le: "n < 2 ^ k \<Longrightarrow> bitlen n \<le> k"
proof (induction k arbitrary: n)
  case (Suc k)
  show ?case
  proof (cases "n = 0")
    case False
    with Suc show ?thesis by (simp add: bitlen_pos)
  qed simp
qed simp

lemma bitlen_bounds: "0 < n \<Longrightarrow> 2 ^ (bitlen n - 1) \<le> n \<and> n < 2 ^ bitlen n"
proof (induction n rule: bitlen.induct)
  case (1 n)
  show ?case
  proof (cases "n = 1")
    case True
    then show ?thesis by (simp add: bitlen_pos)
  next
    case False
    with 1 have IH: "2 ^ (bitlen (n div 2) - 1) \<le> n div 2" "n div 2 < 2 ^ bitlen (n div 2)" by auto
    from False 1 have "0 < n div 2" by auto
    then have "bitlen (n div 2) = Suc (bitlen (n div 2) - 1)" by (simp add: bitlen_pos)
    then have "(2::nat) ^ bitlen (n div 2) = 2 * 2 ^ (bitlen (n div 2) - 1)" by (metis power_Suc)
    with IH 1 show ?thesis by (simp add: bitlen_pos) linarith
  qed
qed

lemma bitlen_lt: "n < 2 ^ bitlen n"
  by (cases "n = 0") (simp_all add: bitlen_bounds)

lemma bitlen_mono: "m \<le> n \<Longrightarrow> bitlen m \<le> bitlen n"
  by (rule bitlen_le) (rule le_less_trans [OF _ bitlen_lt])

lemma rne_exact: "0 < d \<Longrightarrow> rne (k * d) d = k"
  by (simp add: rne_def)

lemma rne_scale: "0 < k \<Longrightarrow> rne (n * k) (d * k) = rne n d"
  by (simp add: rne_def Let_def mult_mod_left [symmetric] mult.assoc [symmetric])

lemma rne_ge: "n div d \<le> rne n d"
  by (simp add: rne_def Let_def)

lemma rne_le: "rne n d \<le> Suc (n div d)"
  by (simp add: rne_def Let_def)

lemma rne_mono: "n \<le> n' \<Longrightarrow> 0 < d \<Longrightarrow> rne n d \<le> rne n' d"
proof -
  assume le: "n \<le> n'" and d: "0 < d"
  show "rne n d \<le> rne n' d"
  proof (cases "n div d = n' div d")
    case True
    then have "n mod d \<le> n' mod d"
      using le by (metis add_le_cancel_left div_mult_mod_eq)
    with True show ?thesis by (auto simp: rne_def Let_def)
  next
    case False
    then have "Suc (n div d) \<le> n' div d"
      using le div_le_mono [OF le, of d] by simp
    then show ?thesis using rne_le [of n d] rne_ge [of n' d] by linarith
  qed
qed

lemma dround_scale: "0 < k \<Longrightarrow> dround (n * k) (d * k) = dround n d"
  using rne_scale [of k n "d * 2 ^ (bitlen (n div d) - 53)"]
  by (simp add: dround_def Let_def mult_ac)

text \<open>What is representable is not changed by rounding.\<close>

lemma dround_exact:
  assumes "m \<le> inf_mag" "0 < k"
  shows "dround (dunits m * k) k = m"
proof -
  have q: "dunits m * k div k = dunits m" using assms(2) by simp
  show ?thesis
  proof (cases m rule: mag_cases)
    case 1
    then have "bitlen (dunits m) \<le> 53"
      by (intro bitlen_le) (simp add: dunits_small)
    then show ?thesis using assms q rne_exact [of k m] 1
      by (simp add: dround_def dunits_small)
  next
    case (2 e f)
    then have u: "dunits m = (2 ^ 52 + f) * 2 ^ e" using dunits_normal by simp
    have "2 ^ (52 + e) \<le> dunits m" "dunits m < 2 ^ Suc (52 + e)"
      using 2(2) by (simp_all add: u power_add)
    then have "bitlen (dunits m) = Suc (52 + e)" by (rule bitlen_eq)
    then have b: "bitlen (dunits m) - 53 = e" by simp
    have "rne (dunits m * k) (k * 2 ^ e) = rne ((2 ^ 52 + f) * (k * 2 ^ e)) (k * 2 ^ e)"
      by (simp add: u mult_ac)
    also have "\<dots> = 2 ^ 52 + f" using assms(2) by (intro rne_exact) simp
    finally have "e * 2 ^ 52 + rne (dunits m * k) (k * 2 ^ e) = m" using 2(1) by simp
    then show ?thesis using assms(1) unfolding dround_def Let_def q b by (simp only: min.absorb2)
  qed
qed

text \<open>Rounding is monotone in the exact quotient.\<close>

lemma dround_mono_num:
  assumes "n \<le> n'" "0 < d"
  shows "dround n d \<le> dround n' d"
proof -
  define q q' e e' where "q = n div d" and "q' = n' div d"
    and "e = bitlen q - 53" and "e' = bitlen q' - 53"
  have qq: "q \<le> q'" using assms by (simp add: q_def q'_def div_le_mono)
  then have ee: "e \<le> e'" by (simp add: e_def e'_def bitlen_mono diff_le_mono)
  have "e * 2 ^ 52 + rne n (d * 2 ^ e) \<le> e' * 2 ^ 52 + rne n' (d * 2 ^ e')"
  proof (cases "e = e'")
    case True
    then show ?thesis using assms by (simp add: rne_mono)
  next
    case False
    with ee have lt: "Suc e \<le> e'" by simp
    have "0 < q'"
      using lt by (cases "q' = 0") (simp_all add: e'_def)
    then have "2 ^ (bitlen q' - 1) \<le> q'" using bitlen_bounds by blast
    moreover have "bitlen q' - 1 = 52 + e'" using lt by (simp add: e'_def)
    ultimately have "2 ^ 52 * 2 ^ e' \<le> q'" by (simp add: power_add)
    then have "2 ^ 52 \<le> q' div 2 ^ e'" by (simp add: less_eq_div_iff_mult_less_eq)
    then have "2 ^ 52 \<le> n' div (d * 2 ^ e')" by (simp add: q'_def div_mult2_eq)
    then have hi: "2 ^ 52 \<le> rne n' (d * 2 ^ e')" using rne_ge le_trans by blast
    have "q < 2 ^ (53 + e)"
      by (rule less_le_trans [OF bitlen_lt]) (simp add: e_def power_increasing)
    then have "q div 2 ^ e < 2 ^ 53" by (simp add: less_mult_imp_div_less power_add)
    then have "n div (d * 2 ^ e) < 2 ^ 53" by (simp add: q_def div_mult2_eq)
    then have lo: "rne n (d * 2 ^ e) \<le> 2 ^ 53" using rne_le [of n "d * 2 ^ e"] by simp
    have "Suc e * 2 ^ 52 \<le> e' * 2 ^ 52" using lt by (rule mult_le_mono1)
    with hi lo show ?thesis by simp
  qed
  then show ?thesis by (simp add: dround_def Let_def q_def q'_def e_def e'_def min_def)
qed

lemma dround_mono:
  assumes "n * d' \<le> n' * d" "0 < d" "0 < d'"
  shows "dround n d \<le> dround n' d'"
proof -
  have "dround n d = dround (n * d') (d * d')" using assms dround_scale by simp
  also have "\<dots> \<le> dround (n' * d) (d * d')" using assms by (intro dround_mono_num) simp_all
  also have "\<dots> = dround (n' * d) (d' * d)" by (simp add: mult.commute)
  also have "\<dots> = dround n' d'" using assms dround_scale by simp
  finally show ?thesis .
qed

section \<open>Integers and quotients\<close>

lemma dunits_done1: "dunits (dmag done1) = 2 ^ 1074"
proof -
  have "dunits (Suc 1022 * 2 ^ 52 + 0) = (2 ^ 52 + 0) * 2 ^ 1022" by (rule dunits_normal) simp
  then show ?thesis unfolding dmag_done1 by (simp flip: power_add)
qed

lemma is_nan_dpack [simp]: "m < 2 ^ 63 \<Longrightarrow> is_nan (dpack s m) \<longleftrightarrow> inf_mag < m"
  and is_inf_dpack [simp]: "m < 2 ^ 63 \<Longrightarrow> is_inf (dpack s m) \<longleftrightarrow> m = inf_mag"
  and is_fin_dpack [simp]: "m < 2 ^ 63 \<Longrightarrow> is_fin (dpack s m) \<longleftrightarrow> m < inf_mag"
  by (simp_all add: is_nan_def is_inf_def is_fin_def)

lemma dpack_id: "dpack (dsign x) (dmag x) = x"
  using dmag_lt [of x] by (intro double_eqI) simp_all

lemma is_nan_dnan [simp]: "is_nan dnan"
proof -
  have "inf_mag + 2 ^ 51 < 2 ^ 63" by (simp add: inf_mag_def)
  then show ?thesis by (simp add: dnan_def)
qed

text \<open>Every natural number below \<open>2 ^ 53\<close> is a double.\<close>

lemma nat_representable:
  assumes "n < 2 ^ 53"
  obtains m where "m < inf_mag" "dunits m = n * 2 ^ 1074"
proof (cases "n = 0")
  case True
  then show ?thesis using that [of 0] by (simp add: inf_mag_def)
next
  case False
  define k where "k = bitlen n - 1"
  have b: "2 ^ k \<le> n" "n < 2 ^ Suc k"
    using False bitlen_bounds [of n] bitlen_pos [of n] by (simp_all add: k_def)
  have k: "k \<le> 52"
  proof (rule ccontr)
    assume "\<not> k \<le> 52"
    then have "(2 :: nat) ^ 53 \<le> 2 ^ k" by (intro power_increasing) simp_all
    with b(1) assms show False by simp
  qed
  define f where "f = n * 2 ^ (52 - k) - 2 ^ 52"
  have lo: "2 ^ 52 \<le> n * 2 ^ (52 - k)"
  proof -
    have "(2 :: nat) ^ 52 = 2 ^ k * 2 ^ (52 - k)" using k by (simp flip: power_add)
    also have "\<dots> \<le> n * 2 ^ (52 - k)" using b(1) by simp
    finally show ?thesis .
  qed
  have hi: "n * 2 ^ (52 - k) < 2 ^ 53"
  proof -
    have "n * 2 ^ (52 - k) < 2 ^ Suc k * 2 ^ (52 - k)" using b(2) by simp
    also have "\<dots> = 2 ^ 53" using k by (simp flip: power_add)
    finally show ?thesis .
  qed
  have f: "f < 2 ^ 52" "2 ^ 52 + f = n * 2 ^ (52 - k)" using lo hi by (simp_all add: f_def)
  have "dunits (Suc (1022 + k) * 2 ^ 52 + f) = n * 2 ^ (52 - k) * 2 ^ (1022 + k)"
    using dunits_normal [OF f(1), of "1022 + k"] f(2) by simp
  also have "\<dots> = n * 2 ^ 1074"
    using k by (simp add: mult.assoc flip: power_add)
  finally have u: "dunits (Suc (1022 + k) * 2 ^ 52 + f) = n * 2 ^ 1074" .
  have "Suc (1022 + k) * 2 ^ 52 \<le> 1075 * 2 ^ 52" using k by (intro mult_le_mono1) simp
  then have "Suc (1022 + k) * 2 ^ 52 + f < inf_mag" using f(1) by (simp add: inf_mag_def)
  with u show ?thesis by (intro that) simp_all
qed

lemma dof_nat_exact:
  assumes "n < 2 ^ 53"
  shows "is_fin (dof_nat n)" "\<not> dsign (dof_nat n)" "dunits (dmag (dof_nat n)) = n * 2 ^ 1074"
proof -
  from assms obtain m where m: "m < inf_mag" "dunits m = n * 2 ^ 1074" by (rule nat_representable)
  then have "dround (n * 2 ^ 1074) 1 = m" using dround_exact [of m 1] by simp
  then have "dof_nat n = dpack False m" by (simp add: dof_nat_def)
  moreover have "m < 2 ^ 63" using m(1) inf_mag_lt by simp
  ultimately show "is_fin (dof_nat n)" "\<not> dsign (dof_nat n)" "dunits (dmag (dof_nat n)) = n * 2 ^ 1074"
    using m by simp_all
qed

lemma d_to_int_of_nat: "n < 2 ^ 31 \<Longrightarrow> d_to_int (dof_nat n) = Inr (int n)"
  using dof_nat_exact [of n] by (simp add: d_to_int_def Let_def)

lemma is_nan_done1 [simp]: "\<not> is_nan done1" and is_inf_done1 [simp]: "\<not> is_inf done1"
  and dsign_done1 [simp]: "\<not> dsign done1"
  by (simp_all add: done1_def inf_mag_def)

lemma dmul_done1: "is_fin x \<Longrightarrow> dmul done1 x = x"
proof -
  assume fin: "is_fin x"
  have "dround (2 ^ 1074 * dunits (dmag x)) (2 ^ 1074) = dmag x"
    using dround_exact [of "dmag x" "2 ^ 1074"] fin by (simp add: is_fin_def mult.commute)
  moreover have "\<not> is_nan x" "\<not> is_inf x" "dmag done1 \<noteq> 0"
    using fin by (simp_all add: is_fin_def is_nan_def is_inf_def)
  ultimately show ?thesis
    using dpack_id [of x] unfolding dmul_def dunits_done1 by (simp del: dmag_done1)
qed

lemma ddiv_same: "is_fin x \<Longrightarrow> dmag x \<noteq> 0 \<Longrightarrow> ddiv x x = done1"
proof -
  assume fin: "is_fin x" and nz: "dmag x \<noteq> 0"
  then have u: "0 < dunits (dmag x)" by simp
  have "dround (dunits (dmag x) * 2 ^ 1074) (dunits (dmag x)) = dround (2 ^ 1074 * dunits (dmag x)) (1 * dunits (dmag x))"
    by (simp only: mult.commute mult_1)
  also have "\<dots> = dround (dunits (dmag done1) * 1) 1"
    unfolding dround_scale [OF u] dunits_done1 by (simp only: mult_1_right)
  also have "\<dots> = 1023 * 2 ^ 52" unfolding dmag_done1 by (rule dround_exact) (simp_all add: inf_mag_def)
  finally show ?thesis
    using fin nz by (simp add: ddiv_def is_nan_def is_inf_def is_fin_def done1_def)
qed

text \<open>A quotient of a difference by itself is 1, or not a number.\<close>

lemma dsub_cong: "dval x = dval y \<Longrightarrow> is_fin x \<Longrightarrow> is_fin y \<Longrightarrow>
   dsub x z = dsub y z \<or> dmag (dsub x z) = 0 \<and> dmag (dsub y z) = 0"
  by (auto simp: dsub_def dadd_def is_fin_def is_nan_def is_inf_def Let_def)

lemma is_nan_ddiv_same:
  assumes "\<not> (is_fin x \<and> dmag x \<noteq> 0)" "x = y \<or> dmag x = 0 \<and> dmag y = 0"
  shows "is_nan (ddiv x y)"
proof (cases "dmag x = 0")
  case True
  then show ?thesis using assms(2) by (auto simp: ddiv_def)
next
  case False
  with assms have xy: "x = y" "inf_mag \<le> dmag x" by (auto simp: is_fin_def)
  then have "is_nan x \<or> is_inf x" by (auto simp: is_nan_def is_inf_def)
  with xy(1) show ?thesis by (auto simp: ddiv_def)
qed

lemma dround_0: "0 < d \<Longrightarrow> dround 0 d = 0"
  by (simp add: dround_def rne_def)

lemma dmul_nan: "is_nan x \<Longrightarrow> is_nan (dmul x y)"
  by (simp add: dmul_def)

lemma d_to_int_nan: "is_nan x \<Longrightarrow> d_to_int x = Inl BadCast"
  by (simp add: d_to_int_def Let_def is_nan_def is_fin_def)

end
