(* ===== verification/Common.thy ===== *)
theory Common
  imports Prelude Doubles "HOL-Library.Multiset"
begin

text \<open>
  \<open>include/aggregator/aggregator-common.h\<close>: the return codes, the stream types, samples and tag
  lists, and the stream identifier. An identifier is the exclusive or of the djb2 hashes of the
  namespace, the name and every tag.

  A \<open>char*\<close> argument is the list of the bytes from where it points to the end of its object, so
  that reading past the object is the fault \<open>Unterminated\<close>. \<open>cstring\<close> is the text before the
  terminator.
\<close>

section \<open>Types\<close>

datatype aggregator_return_t =
    AGGREGATOR_SUCCESS
  | AGGREGATOR_ERR_INVALID_NAME
  | AGGREGATOR_ERR_ALLOCATION
  | AGGREGATOR_ERR_INVALID_ARGS
  | AGGREGATOR_ERR_INVALID_PROVIDER
  | AGGREGATOR_ERR_INVALID_STREAM
  | AGGREGATOR_ERR_INVALID_VALUE
  | AGGREGATOR_ERR_INVALID_BACKEND
  | AGGREGATOR_ERR_INVALID_CONFIG
  | AGGREGATOR_ERR_INVALID_TOKEN
  | AGGREGATOR_ERR_FROM_MERCURY
  | AGGREGATOR_ERR_FROM_ARGOBOTS
  | AGGREGATOR_ERR_OP_UNSUPPORTED
  | AGGREGATOR_ERR_OP_FORBIDDEN
  | AGGREGATOR_ERR_OTHER

text \<open>The enumerators as integers; responses carry them as an \<open>int32_t\<close>.\<close>

primrec ret_code :: "aggregator_return_t \<Rightarrow> u32" where
  "ret_code AGGREGATOR_SUCCESS = 0"
| "ret_code AGGREGATOR_ERR_INVALID_NAME = 1"
| "ret_code AGGREGATOR_ERR_ALLOCATION = 2"
| "ret_code AGGREGATOR_ERR_INVALID_ARGS = 3"
| "ret_code AGGREGATOR_ERR_INVALID_PROVIDER = 4"
| "ret_code AGGREGATOR_ERR_INVALID_STREAM = 5"
| "ret_code AGGREGATOR_ERR_INVALID_VALUE = 6"
| "ret_code AGGREGATOR_ERR_INVALID_BACKEND = 7"
| "ret_code AGGREGATOR_ERR_INVALID_CONFIG = 8"
| "ret_code AGGREGATOR_ERR_INVALID_TOKEN = 9"
| "ret_code AGGREGATOR_ERR_FROM_MERCURY = 10"
| "ret_code AGGREGATOR_ERR_FROM_ARGOBOTS = 11"
| "ret_code AGGREGATOR_ERR_OP_UNSUPPORTED = 12"
| "ret_code AGGREGATOR_ERR_OP_FORBIDDEN = 13"
| "ret_code AGGREGATOR_ERR_OTHER = 14"

lemma ret_code_inj [simp]: "ret_code r = ret_code r' \<longleftrightarrow> r = r'"
  by (cases r; cases r'; simp)

datatype aggregator_stream_type_t =
    AGGREGATOR_TYPE_COUNTER
  | AGGREGATOR_TYPE_TIMER
  | AGGREGATOR_TYPE_GAUGE

definition STREAM_BUFFER_SIZE :: nat where
  "STREAM_BUFFER_SIZE = 160000000"

record aggregator_stream_sample =
  time :: double
  val :: double
  sample_id :: u64

definition zero_sample :: aggregator_stream_sample where
  "zero_sample = \<lparr>time = 0, val = 0, sample_id = 0\<rparr>"

text \<open>\<open>taglist\<close> points to an array of \<open>num_tags\<close> pointers to strings.\<close>

record aggregator_taglist =
  taglist :: addr
  num_tags :: int

type_synonym aggregator_stream_id_t = u32

section \<open>Strings\<close>

fun cstring :: "byte list \<Rightarrow> byte list" where
  "cstring [] = []"
| "cstring (b # bs) = (if b = 0 then [] else b # cstring bs)"

definition terminated :: "byte list \<Rightarrow> bool" where
  "terminated s \<longleftrightarrow> 0 \<in> set s"

fun strlen :: "byte list \<Rightarrow> nat res" where
  "strlen [] = Inl Unterminated"
| "strlen (b # bs) = (if b = 0 then Inr 0 else rbind (strlen bs) (\<lambda>n. Inr (Suc n)))"

text \<open>\<open>strcpy(dst, src)\<close> writes the text and its terminator over the start of \<open>dst\<close>.\<close>

definition strcpy :: "byte list \<Rightarrow> byte list \<Rightarrow> byte list res" where
  "strcpy dst src = rbind (strlen src) (\<lambda>n.
     if n < length dst then Inr (take n src @ 0 # drop (Suc n) dst) else Inl OutOfBounds)"

section \<open>The identifier of a stream\<close>

text \<open>
  \<open>c = *str++\<close> sign-extends the (signed) \<open>char\<close> to the \<open>uint32_t\<close> variable \<open>c\<close>, which the loop
  condition then tests.
\<close>

fun aggregator_hash_loop :: "byte list \<Rightarrow> u32 \<Rightarrow> u32 res" where
  "aggregator_hash_loop [] hash = Inl Unterminated"
| "aggregator_hash_loop (b # str) hash =
     (let c = (scast b :: u32) in
      if c = 0 then Inr hash
      else aggregator_hash_loop str ((push_bit 5 hash + hash) + c))"

definition aggregator_hash :: "byte list \<Rightarrow> u32 res" where
  "aggregator_hash str = aggregator_hash_loop str 5381"

text \<open>The loop over the tags reads \<open>taglist[i]\<close> for \<open>i = 0, \<dots>, num_tags - 1\<close>.\<close>

function tag_loop :: "byte list list \<Rightarrow> int \<Rightarrow> nat \<Rightarrow> u32 \<Rightarrow> u32 res" where
  "tag_loop tags n i idv =
     (if int i < n then
        if i < length tags then
          rbind (aggregator_hash (tags ! i)) (\<lambda>temp_id. tag_loop tags n (Suc i) (idv XOR temp_id))
        else Inl OutOfBounds
      else Inr idv)"
  by pat_completeness auto
termination
  by (relation "measure (\<lambda>(tags, n, i, idv). nat n - i)") auto

declare tag_loop.simps [simp del]

definition aggregator_id_from_string_identifiers ::
  "byte list \<Rightarrow> byte list \<Rightarrow> byte list list \<Rightarrow> int \<Rightarrow> aggregator_stream_id_t res" where
  "aggregator_id_from_string_identifiers ns name tags n =
     rbind (aggregator_hash ns) (\<lambda>idv.
     rbind (aggregator_hash name) (\<lambda>temp_id.
     tag_loop tags n 0 (idv XOR temp_id)))"

section \<open>Strings: lemmas\<close>

lemma cstring_no_NUL: "0 \<notin> set (cstring s)"
  by (induction s) auto

lemma strlen_Inr_iff: "strlen s = Inr n \<longleftrightarrow> terminated s \<and> n = length (cstring s)"
  by (induction s arbitrary: n) (auto simp: terminated_def rbind_eq_Inr)

lemma strlen_terminated: "terminated s \<Longrightarrow> strlen s = Inr (length (cstring s))"
  by (simp add: strlen_Inr_iff)

lemma strlen_unterminated: "\<not> terminated s \<Longrightarrow> strlen s = Inl Unterminated"
  by (induction s) (auto simp: terminated_def)

lemma take_cstring: "terminated s \<Longrightarrow> take (length (cstring s)) s = cstring s"
  by (induction s) (auto simp: terminated_def)

lemma cstring_length_le: "terminated s \<Longrightarrow> length (cstring s) < length s"
  by (induction s) (auto simp: terminated_def)

lemma cstring_append_NUL: "0 \<notin> set t \<Longrightarrow> cstring (t @ 0 # r) = t"
  by (induction t) auto

lemma strcpy_ok:
  assumes "terminated src" "length (cstring src) < length dst"
  shows "\<exists>r. strcpy dst src = Inr r \<and> cstring r = cstring src \<and> length r = length dst \<and> terminated r"
  using assms cstring_append_NUL [OF cstring_no_NUL, of src]
  by (auto simp: strcpy_def strlen_terminated take_cstring terminated_def)

lemma strcpy_overflow:
  "terminated src \<Longrightarrow> length dst \<le> length (cstring src) \<Longrightarrow> strcpy dst src = Inl OutOfBounds"
  by (simp add: strcpy_def strlen_terminated)

lemma strcpy_Inr_iff:
  "strcpy dst src = Inr r \<longleftrightarrow>
     terminated src \<and> length (cstring src) < length dst \<and>
     r = cstring src @ 0 # drop (Suc (length (cstring src))) dst"
  by (cases "terminated src")
    (auto simp: strcpy_def strlen_terminated strlen_unterminated take_cstring)

section \<open>The hash as a polynomial\<close>

definition djb2_step :: "u32 \<Rightarrow> byte \<Rightarrow> u32" where
  "djb2_step h b = 33 * h + scast b"

definition djb2 :: "byte list \<Rightarrow> u32" where
  "djb2 t = foldl djb2_step 5381 t"

lemma scast_byte_eq_0 [simp]: "(scast (b :: byte) :: u32) = 0 \<longleftrightarrow> b = 0"
proof
  assume "(scast b :: u32) = 0"
  then have "scast (scast b :: u32) = (scast (0 :: u32) :: byte)" by simp
  then show "b = 0" by (simp add: scast_down_scast_id is_down)
qed simp

lemma hash_step: "(push_bit 5 h + h) + scast b = djb2_step h b"
  by (simp add: djb2_step_def push_bit_eq_mult algebra_simps)

lemma aggregator_hash_loop_eq:
  "aggregator_hash_loop s h =
     (if terminated s then Inr (foldl djb2_step h (cstring s)) else Inl Unterminated)"
  by (induction s arbitrary: h) (auto simp: terminated_def hash_step Let_def)

lemma aggregator_hash_eq:
  "aggregator_hash s = (if terminated s then Inr (djb2 (cstring s)) else Inl Unterminated)"
  by (simp add: aggregator_hash_def djb2_def aggregator_hash_loop_eq)

lemma foldl_djb2_step_poly:
  "foldl djb2_step h t =
     33 ^ length t * h + (\<Sum>i<length t. 33 ^ (length t - Suc i) * scast (t ! i))"
proof (induction t rule: rev_induct)
  case Nil
  then show ?case by simp
next
  case (snoc b t)
  have "(\<Sum>i<length t. 33 ^ (length t - i) * scast ((t @ [b]) ! i)) =
        33 * (\<Sum>i<length t. 33 ^ (length t - Suc i) * (scast (t ! i) :: u32))"
    unfolding sum_distrib_left
  proof (rule sum.cong [OF refl])
    fix i assume "i \<in> {..<length t}"
    then have i: "i < length t" by simp
    then have "length t - i = Suc (length t - Suc i)" by simp
    then show "33 ^ (length t - i) * scast ((t @ [b]) ! i) =
      33 * (33 ^ (length t - Suc i) * (scast (t ! i) :: u32))"
      using i by (simp add: nth_append)
  qed
  then show ?case
    using snoc.IH by (simp add: djb2_step_def [of _ b] algebra_simps)
qed

section \<open>The identifier as an exclusive or\<close>

definition xor_all :: "u32 list \<Rightarrow> u32" where
  "xor_all hs = fold (XOR) hs 0"

lemma fold_xor: "fold (XOR) hs (h :: u32) = h XOR fold (XOR) hs 0"
proof (induction hs arbitrary: h)
  case (Cons a hs)
  show ?case
    using Cons.IH [of "a XOR h"] Cons.IH [of a]
    by (simp add: xor.assoc xor.left_commute)
qed simp

lemma xor_all_Cons [simp]: "xor_all (h # hs) = h XOR xor_all hs"
  using fold_xor [of hs h] by (simp add: xor_all_def)

lemma xor_all_Nil [simp]: "xor_all [] = 0"
  by (simp add: xor_all_def)

lemma xor_all_mset: "mset hs = mset hs' \<Longrightarrow> xor_all hs = xor_all hs'"
  unfolding xor_all_def
  by (rule fold_multiset_equiv [THEN fun_cong]) (auto simp: fun_eq_iff xor.left_commute)

definition tags_ok :: "byte list list \<Rightarrow> int \<Rightarrow> bool" where
  "tags_ok tags n \<longleftrightarrow>
     nat n \<le> length tags \<and> (\<forall>t \<in> set (take (nat n) tags). terminated t)"

lemma tag_loop_eq:
  "tags_ok tags n \<Longrightarrow> i \<le> nat n \<Longrightarrow>
     tag_loop tags n i idv =
       Inr (idv XOR xor_all (map (\<lambda>t. djb2 (cstring t)) (drop i (take (nat n) tags))))"
proof (induction tags n i idv rule: tag_loop.induct)
  case (1 tags n i idv)
  show ?case
  proof (cases "int i < n")
    case True
    with 1 have i: "i < nat n" "i < length tags" by (auto simp: tags_ok_def)
    then have "drop i (take (nat n) tags) = tags ! i # drop (Suc i) (take (nat n) tags)"
      by (metis Cons_nth_drop_Suc length_take min_less_iff_conj nth_take)
    moreover have "terminated (tags ! i)"
      using 1(2) i nth_mem [of i "take (nat n) tags"] by (auto simp: tags_ok_def)
    ultimately show ?thesis
      using True i 1 by (subst tag_loop.simps) (simp add: aggregator_hash_eq xor.assoc)
  next
    case False
    with 1 show ?thesis by (subst tag_loop.simps) simp
  qed
qed

text \<open>What the identifier is: no order among the tags, and none between namespace and name.\<close>

definition stream_id_spec :: "byte list \<Rightarrow> byte list \<Rightarrow> byte list list \<Rightarrow> u32" where
  "stream_id_spec ns name tags =
     xor_all (map (\<lambda>t. djb2 (cstring t)) (ns # name # tags))"

lemma id_from_strings_eq:
  assumes "terminated ns" "terminated name" "tags_ok tags n"
  shows "aggregator_id_from_string_identifiers ns name tags n =
           Inr (stream_id_spec ns name (take (nat n) tags))"
  using assms
  by (simp add: aggregator_id_from_string_identifiers_def aggregator_hash_eq tag_loop_eq
      stream_id_spec_def xor.assoc)

lemma stream_id_spec_mset:
  "mset (ns # name # tags) = mset (ns' # name' # tags') \<Longrightarrow>
   stream_id_spec ns name tags = stream_id_spec ns' name' tags'"
  unfolding stream_id_spec_def by (rule xor_all_mset) (metis mset_map)

end
