(* ===== verification/Uthash.thy ===== *)
theory Uthash
  imports Common
begin

text \<open>
  The hash table of \<open>src/uthash.h\<close>, as the macros the program expands: \<open>HASH_FIND\<close>,
  \<open>HASH_ADD\<close>, \<open>HASH_DEL\<close> and what they are made of, with the default hash function
  \<open>HASH_JEN\<close>, no Bloom filter and fatal out-of-memory.

  The table is intrusive. Every element embeds a \<open>UT_hash_handle\<close> that links it into two doubly
  linked lists: all elements in the order of insertion (\<open>prv\<close>, \<open>nxt\<close>) and the elements of its
  bucket (\<open>hh_prev\<close>, \<open>hh_next\<close>). The head pointer is the program's own variable.

  An element and the handle inside it have one address here, so \<open>ELMT_FROM_HH\<close> and
  \<open>HH_FROM_ELMT\<close> are the identity and the table's \<open>hho\<close> is left out. \<open>elem\<close> is the part of the
  program's structure the macros see: the key field and the handle.
  A \<open>while\<close> loop over a chain takes as fuel the number of addresses ever allocated: a walk that
  takes more steps than that has come back to an element and never ends.
\<close>

section \<open>Structures\<close>

record UT_hash_handle =
  tbl :: addr
  prv :: addr
  nxt :: addr
  hh_prev :: addr
  hh_next :: addr
  key :: addr
  keylen :: u32
  hashv :: u32

record UT_hash_bucket =
  hh_head :: addr
  bcount :: u32
  expand_mult :: u32

record UT_hash_table =
  buckets :: addr
  num_buckets :: u32
  log2_num_buckets :: u32
  num_items :: u32
  tail :: addr
  ideal_chain_maxlen :: u32
  nonideal_items :: u32
  ineff_expands :: u32
  noexpand :: u32
  signature :: u32

record elem =
  sid :: u32
  hh :: UT_hash_handle

record 'e ut_mem =
  oom :: "bool list"
  elems :: "'e heap"
  tbls :: "UT_hash_table heap"
  bkts :: "UT_hash_bucket list heap"

definition HASH_INITIAL_NUM_BUCKETS :: u32 where
  "HASH_INITIAL_NUM_BUCKETS = 32"

definition HASH_INITIAL_NUM_BUCKETS_LOG2 :: u32 where
  "HASH_INITIAL_NUM_BUCKETS_LOG2 = 5"

definition HASH_BKT_CAPACITY_THRESH :: u32 where
  "HASH_BKT_CAPACITY_THRESH = 10"

definition HASH_SIGNATURE :: u32 where
  "HASH_SIGNATURE = 0xa0111fe1"

definition zero_bucket :: UT_hash_bucket where
  "zero_bucket = \<lparr>hh_head = NULL, bcount = 0, expand_mult = 0\<rparr>"

definition zero_table :: UT_hash_table where
  "zero_table = \<lparr>buckets = NULL, num_buckets = 0, log2_num_buckets = 0, num_items = 0, tail = NULL,
     ideal_chain_maxlen = 0, nonideal_items = 0, ineff_expands = 0, noexpand = 0, signature = 0\<rparr>"

definition zero_handle :: UT_hash_handle where
  "zero_handle = \<lparr>tbl = NULL, prv = NULL, nxt = NULL, hh_prev = NULL, hh_next = NULL,
     key = NULL, keylen = 0, hashv = 0\<rparr>"

section \<open>The Jenkins hash\<close>

text \<open>The bytes of a \<open>uint32_t\<close> in memory (little endian).\<close>

definition id_bytes :: "u32 \<Rightarrow> byte list" where
  "id_bytes w = [ucast w, ucast (drop_bit 8 w), ucast (drop_bit 16 w), ucast (drop_bit 24 w)]"

definition HASH_JEN_MIX :: "u32 \<Rightarrow> u32 \<Rightarrow> u32 \<Rightarrow> u32 \<times> u32 \<times> u32" where
  "HASH_JEN_MIX a b c =
     (let a = (a - b - c) XOR drop_bit 13 c;
          b = (b - c - a) XOR push_bit 8 a;
          c = (c - a - b) XOR drop_bit 13 b;
          a = (a - b - c) XOR drop_bit 12 c;
          b = (b - c - a) XOR push_bit 16 a;
          c = (c - a - b) XOR drop_bit 5 b;
          a = (a - b - c) XOR drop_bit 3 c;
          b = (b - c - a) XOR push_bit 10 a;
          c = (c - a - b) XOR drop_bit 15 b
      in (a, b, c))"

text \<open>\<open>(unsigned)key[n] << s\<close>.\<close>

definition kb :: "byte list \<Rightarrow> nat \<Rightarrow> nat \<Rightarrow> u32" where
  "kb k n s = push_bit s (ucast (k ! n))"

text \<open>The loop over blocks of twelve bytes: what is left of the key, and the three accumulators.\<close>

function jen_loop :: "byte list \<Rightarrow> u32 \<Rightarrow> u32 \<Rightarrow> u32 \<Rightarrow> byte list \<times> u32 \<times> u32 \<times> u32" where
  "jen_loop k i j h =
     (if 12 \<le> length k then
        let i = i + (kb k 0 0 + kb k 1 8 + kb k 2 16 + kb k 3 24);
            j = j + (kb k 4 0 + kb k 5 8 + kb k 6 16 + kb k 7 24);
            h = h + (kb k 8 0 + kb k 9 8 + kb k 10 16 + kb k 11 24);
            (i', j', h') = HASH_JEN_MIX i j h
        in jen_loop (drop 12 k) i' j' h'
      else (k, i, j, h))"
  by pat_completeness auto
termination
  by (relation "measure (\<lambda>(k, i, j, h). length k)") auto

declare jen_loop.simps [simp del]

text \<open>The \<open>switch\<close> on the number of bytes left falls through from its entry to case 1.\<close>

definition jen_tail :: "byte list \<Rightarrow> u32 \<Rightarrow> u32 \<Rightarrow> u32 \<Rightarrow> u32 \<times> u32 \<times> u32" where
  "jen_tail k i j h =
     (let n = length k;
          h = (if 11 \<le> n then h + kb k 10 24 else h);
          h = (if 10 \<le> n then h + kb k 9 16 else h);
          h = (if 9 \<le> n then h + kb k 8 8 else h);
          j = (if 8 \<le> n then j + kb k 7 24 else j);
          j = (if 7 \<le> n then j + kb k 6 16 else j);
          j = (if 6 \<le> n then j + kb k 5 8 else j);
          j = (if 5 \<le> n then j + kb k 4 0 else j);
          i = (if 4 \<le> n then i + kb k 3 24 else i);
          i = (if 3 \<le> n then i + kb k 2 16 else i);
          i = (if 2 \<le> n then i + kb k 1 8 else i);
          i = (if 1 \<le> n then i + kb k 0 0 else i)
      in (i, j, h))"

definition HASH_JEN :: "byte list \<Rightarrow> u32" where
  "HASH_JEN k =
     (let (k', i, j, h) = jen_loop k 0x9e3779b9 0x9e3779b9 0xfeedbeef;
          h = h + of_nat (length k);
          (i, j, h) = jen_tail k' i j h;
          (i, j, h) = HASH_JEN_MIX i j h
      in h)"

definition HASH_TO_BKT :: "u32 \<Rightarrow> u32 \<Rightarrow> u32" where
  "HASH_TO_BKT hv num_bkts = hv AND (num_bkts - 1)"

section \<open>Access to the structures\<close>

definition get_hh :: "addr \<Rightarrow> ('a elem_scheme, 'b) ut_mem_scheme \<Rightarrow> UT_hash_handle res" where
  "get_hh p s = rbind (load (elems s) p) (\<lambda>e. Inr (hh e))"

definition upd_hh :: "addr \<Rightarrow> (UT_hash_handle \<Rightarrow> UT_hash_handle) \<Rightarrow>
    ('a elem_scheme, 'b) ut_mem_scheme \<Rightarrow> ('a elem_scheme, 'b) ut_mem_scheme res" where
  "upd_hh p f s =
     rbind (load (elems s) p) (\<lambda>e.
     rbind (store (elems s) p (e\<lparr>hh := f (hh e)\<rparr>)) (\<lambda>h. Inr (s\<lparr>elems := h\<rparr>)))"

definition get_tbl :: "addr \<Rightarrow> ('a elem_scheme, 'b) ut_mem_scheme \<Rightarrow> UT_hash_table res" where
  "get_tbl t s = load (tbls s) t"

definition upd_tbl :: "addr \<Rightarrow> (UT_hash_table \<Rightarrow> UT_hash_table) \<Rightarrow>
    ('a elem_scheme, 'b) ut_mem_scheme \<Rightarrow> ('a elem_scheme, 'b) ut_mem_scheme res" where
  "upd_tbl t f s =
     rbind (load (tbls s) t) (\<lambda>T.
     rbind (store (tbls s) t (f T)) (\<lambda>h. Inr (s\<lparr>tbls := h\<rparr>)))"

definition get_bkt :: "addr \<Rightarrow> u32 \<Rightarrow> ('a elem_scheme, 'b) ut_mem_scheme \<Rightarrow> UT_hash_bucket res" where
  "get_bkt b i s =
     rbind (load (bkts s) b) (\<lambda>B. if unat i < length B then Inr (B ! unat i) else Inl OutOfBounds)"

definition upd_bkt :: "addr \<Rightarrow> u32 \<Rightarrow> (UT_hash_bucket \<Rightarrow> UT_hash_bucket) \<Rightarrow>
    ('a elem_scheme, 'b) ut_mem_scheme \<Rightarrow> ('a elem_scheme, 'b) ut_mem_scheme res" where
  "upd_bkt b i f s =
     rbind (load (bkts s) b) (\<lambda>B.
       if unat i < length B then
         rbind (store (bkts s) b (B[unat i := f (B ! unat i)])) (\<lambda>h. Inr (s\<lparr>bkts := h\<rparr>))
       else Inl OutOfBounds)"

definition fuel :: "('a elem_scheme, 'b) ut_mem_scheme \<Rightarrow> nat" where
  "fuel s = Suc (brk (elems s))"

section \<open>Lookup\<close>

fun HASH_FIND_IN_BKT :: "nat \<Rightarrow> addr \<Rightarrow> byte list \<Rightarrow> u32 \<Rightarrow> u32 \<Rightarrow>
    ('a elem_scheme, 'b) ut_mem_scheme \<Rightarrow> addr res" where
  "HASH_FIND_IN_BKT 0 out keyptr keylen_in hashval s = Inl Diverge"
| "HASH_FIND_IN_BKT (Suc n) out keyptr keylen_in hashval s =
     (if out = NULL then Inr NULL
      else
        rbind (get_hh out s) (\<lambda>h.
          if hashv h = hashval \<and> keylen h = keylen_in then
            rbind (load (elems s) (key h)) (\<lambda>k.
              if id_bytes (sid k) = keyptr then Inr out
              else HASH_FIND_IN_BKT n (hh_next h) keyptr keylen_in hashval s)
          else HASH_FIND_IN_BKT n (hh_next h) keyptr keylen_in hashval s))"

definition HASH_FIND :: "addr \<Rightarrow> u32 \<Rightarrow> ('a elem_scheme, 'b) ut_mem_scheme \<Rightarrow> addr res" where
  "HASH_FIND head idv s =
     (if head = NULL then Inr NULL
      else
        let hv = HASH_JEN (id_bytes idv) in
        rbind (get_hh head s) (\<lambda>h.
        rbind (get_tbl (tbl h) s) (\<lambda>T.
        rbind (get_bkt (buckets T) (HASH_TO_BKT hv (num_buckets T)) s) (\<lambda>B.
          HASH_FIND_IN_BKT (fuel s) (hh_head B) (id_bytes idv) 4 hv s))))"

section \<open>Insertion\<close>

definition HASH_MAKE_TABLE :: "addr \<Rightarrow> ('a elem_scheme, 'b) ut_mem_scheme \<Rightarrow>
    ('a elem_scheme, 'b) ut_mem_scheme res" where
  "HASH_MAKE_TABLE head s =
     (let (t, sch, ts) = calloc zero_table (oom s) (tbls s); s = s\<lparr>oom := sch, tbls := ts\<rparr> in
      rbind (upd_hh head (\<lambda>h. h\<lparr>tbl := t\<rparr>) s) (\<lambda>s.
        if t = NULL then Inl (Exit (- 1))
        else
          rbind (upd_tbl t (\<lambda>T. T\<lparr>tail := head, num_buckets := HASH_INITIAL_NUM_BUCKETS,
                   log2_num_buckets := HASH_INITIAL_NUM_BUCKETS_LOG2\<rparr>) s) (\<lambda>s.
          let (b, sch, bs) = calloc (replicate (unat HASH_INITIAL_NUM_BUCKETS) zero_bucket) (oom s) (bkts s);
              s = s\<lparr>oom := sch, bkts := bs\<rparr> in
          rbind (upd_tbl t (\<lambda>T. T\<lparr>buckets := b, signature := HASH_SIGNATURE\<rparr>) s) (\<lambda>s.
            if b = NULL then Inl (Exit (- 1)) else Inr s))))"

definition HASH_APPEND_LIST :: "addr \<Rightarrow> addr \<Rightarrow> ('a elem_scheme, 'b) ut_mem_scheme \<Rightarrow>
    ('a elem_scheme, 'b) ut_mem_scheme res" where
  "HASH_APPEND_LIST head add s =
     rbind (upd_hh add (\<lambda>h. h\<lparr>nxt := NULL\<rparr>) s) (\<lambda>s.
     rbind (get_hh head s) (\<lambda>hd.
     rbind (get_tbl (tbl hd) s) (\<lambda>T.
     rbind (upd_hh add (\<lambda>h. h\<lparr>prv := tail T\<rparr>) s) (\<lambda>s.
     rbind (upd_hh (tail T) (\<lambda>h. h\<lparr>nxt := add\<rparr>) s) (\<lambda>s.
     upd_tbl (tbl hd) (\<lambda>T. T\<lparr>tail := add\<rparr>) s)))))"

text \<open>
  Expansion. \<open>expand_count\<close> counts an item beyond the ideal chain length, given the new bucket
  \<open>B\<close> (number \<open>i\<close>) it goes to, with its own count raised. \<open>expand_move\<close> is the body of the inner loop: one handle \<open>thh\<close> goes to the front of
  its bucket in the new array \<open>nb\<close>. \<open>expand_chain\<close> is the inner loop over one old bucket,
  \<open>expand_outer n i\<close> the outer loop over the \<open>n\<close> old buckets from number \<open>i\<close>.
\<close>

definition expand_count :: "UT_hash_bucket \<Rightarrow> u32 \<Rightarrow> addr \<Rightarrow> addr \<Rightarrow> u32 \<Rightarrow>
    ('a elem_scheme, 'b) ut_mem_scheme \<Rightarrow> ('a elem_scheme, 'b) ut_mem_scheme res" where
  "expand_count B ideal t nb i s =
     (if ideal < bcount B then
        rbind (upd_tbl t (\<lambda>T. T\<lparr>nonideal_items := nonideal_items T + 1\<rparr>) s) (\<lambda>s.
          if expand_mult B * ideal < bcount B
          then upd_bkt nb i (\<lambda>B. B\<lparr>expand_mult := expand_mult B + 1\<rparr>) s
          else Inr s)
      else Inr s)"

definition expand_move :: "addr \<Rightarrow> addr \<Rightarrow> addr \<Rightarrow> ('a elem_scheme, 'b) ut_mem_scheme \<Rightarrow>
    ('a elem_scheme, 'b) ut_mem_scheme res" where
  "expand_move thh t nb s =
     rbind (get_hh thh s) (\<lambda>h.
     rbind (get_tbl t s) (\<lambda>T.
     let i = HASH_TO_BKT (hashv h) (num_buckets T * 2) in
     rbind (upd_bkt nb i (\<lambda>B. B\<lparr>bcount := bcount B + 1\<rparr>) s) (\<lambda>s.
     rbind (get_bkt nb i s) (\<lambda>B.
     rbind (expand_count B (ideal_chain_maxlen T) t nb i s) (\<lambda>s.
     rbind (upd_hh thh (\<lambda>h. h\<lparr>hh_prev := NULL, hh_next := hh_head B\<rparr>) s) (\<lambda>s.
     rbind (if hh_head B \<noteq> NULL then upd_hh (hh_head B) (\<lambda>h. h\<lparr>hh_prev := thh\<rparr>) s else Inr s) (\<lambda>s.
     upd_bkt nb i (\<lambda>B. B\<lparr>hh_head := thh\<rparr>) s)))))))"

fun expand_chain :: "nat \<Rightarrow> addr \<Rightarrow> addr \<Rightarrow> addr \<Rightarrow> ('a elem_scheme, 'b) ut_mem_scheme \<Rightarrow>
    ('a elem_scheme, 'b) ut_mem_scheme res" where
  "expand_chain 0 thh t nb s = Inl Diverge"
| "expand_chain (Suc n) thh t nb s =
     (if thh = NULL then Inr s
      else
        rbind (get_hh thh s) (\<lambda>h.
        rbind (expand_move thh t nb s) (\<lambda>s.
        expand_chain n (hh_next h) t nb s)))"

fun expand_outer :: "nat \<Rightarrow> nat \<Rightarrow> addr \<Rightarrow> addr \<Rightarrow> ('a elem_scheme, 'b) ut_mem_scheme \<Rightarrow>
    ('a elem_scheme, 'b) ut_mem_scheme res" where
  "expand_outer 0 i t nb s = Inr s"
| "expand_outer (Suc n) i t nb s =
     rbind (get_tbl t s) (\<lambda>T.
     rbind (get_bkt (buckets T) (of_nat i) s) (\<lambda>B.
     rbind (expand_chain (fuel s) (hh_head B) t nb s) (\<lambda>s.
     expand_outer n (Suc i) t nb s)))"

definition HASH_EXPAND_BUCKETS :: "addr \<Rightarrow> ('a elem_scheme, 'b) ut_mem_scheme \<Rightarrow>
    ('a elem_scheme, 'b) ut_mem_scheme res" where
  "HASH_EXPAND_BUCKETS t s =
     rbind (get_tbl t s) (\<lambda>T.
     let (nb, sch, bs) = calloc (replicate (2 * unat (num_buckets T)) zero_bucket) (oom s) (bkts s);
         s = s\<lparr>oom := sch, bkts := bs\<rparr> in
     if nb = NULL then Inl (Exit (- 1))
     else
       rbind (upd_tbl t (\<lambda>T. T\<lparr>ideal_chain_maxlen :=
                drop_bit (unat (log2_num_buckets T + 1)) (num_items T) +
                (if num_items T AND (num_buckets T * 2 - 1) \<noteq> 0 then 1 else 0),
              nonideal_items := 0\<rparr>) s) (\<lambda>s.
       rbind (expand_outer (unat (num_buckets T)) 0 t nb s) (\<lambda>s.
       rbind (get_tbl t s) (\<lambda>T.
       rbind (dealloc (bkts s) (buckets T)) (\<lambda>bs.
       rbind (upd_tbl t (\<lambda>T. T\<lparr>num_buckets := num_buckets T * 2,
                log2_num_buckets := log2_num_buckets T + 1, buckets := nb,
                ineff_expands := (if drop_bit 1 (num_items T) < nonideal_items T
                                  then ineff_expands T + 1 else 0)\<rparr>) (s\<lparr>bkts := bs\<rparr>)) (\<lambda>s.
       upd_tbl t (\<lambda>T. if 1 < ineff_expands T then T\<lparr>noexpand := 1\<rparr> else T) s))))))"

definition HASH_ADD_TO_BKT :: "addr \<Rightarrow> u32 \<Rightarrow> addr \<Rightarrow> ('a elem_scheme, 'b) ut_mem_scheme \<Rightarrow>
    ('a elem_scheme, 'b) ut_mem_scheme res" where
  "HASH_ADD_TO_BKT b i addhh s =
     rbind (upd_bkt b i (\<lambda>B. B\<lparr>bcount := bcount B + 1\<rparr>) s) (\<lambda>s.
     rbind (get_bkt b i s) (\<lambda>B.
     rbind (upd_hh addhh (\<lambda>h. h\<lparr>hh_next := hh_head B, hh_prev := NULL\<rparr>) s) (\<lambda>s.
     rbind (if hh_head B \<noteq> NULL then upd_hh (hh_head B) (\<lambda>h. h\<lparr>hh_prev := addhh\<rparr>) s else Inr s) (\<lambda>s.
     rbind (upd_bkt b i (\<lambda>B. B\<lparr>hh_head := addhh\<rparr>) s) (\<lambda>s.
     rbind (get_hh addhh s) (\<lambda>h.
     if (expand_mult B + 1) * HASH_BKT_CAPACITY_THRESH \<le> bcount B then
       rbind (get_tbl (tbl h) s) (\<lambda>T.
         if noexpand T = 0 then HASH_EXPAND_BUCKETS (tbl h) s else Inr s)
     else Inr s))))))"

definition HASH_ADD_TO_TABLE :: "addr \<Rightarrow> u32 \<Rightarrow> addr \<Rightarrow> ('a elem_scheme, 'b) ut_mem_scheme \<Rightarrow>
    ('a elem_scheme, 'b) ut_mem_scheme res" where
  "HASH_ADD_TO_TABLE head hashval add s =
     rbind (get_hh head s) (\<lambda>h.
     rbind (upd_tbl (tbl h) (\<lambda>T. T\<lparr>num_items := num_items T + 1\<rparr>) s) (\<lambda>s.
     rbind (get_tbl (tbl h) s) (\<lambda>T.
     HASH_ADD_TO_BKT (buckets T) (HASH_TO_BKT hashval (num_buckets T)) add s)))"

text \<open>The new head pointer and the new memory.\<close>

definition HASH_ADD :: "addr \<Rightarrow> addr \<Rightarrow> ('a elem_scheme, 'b) ut_mem_scheme \<Rightarrow>
    (addr \<times> ('a elem_scheme, 'b) ut_mem_scheme) res" where
  "HASH_ADD head add s =
     rbind (load (elems s) add) (\<lambda>e.
     let hv = HASH_JEN (id_bytes (sid e)) in
     rbind (upd_hh add (\<lambda>h. h\<lparr>hashv := hv, key := add, keylen := 4\<rparr>) s) (\<lambda>s.
     if head = NULL then
       rbind (upd_hh add (\<lambda>h. h\<lparr>nxt := NULL, prv := NULL\<rparr>) s) (\<lambda>s.
       rbind (HASH_MAKE_TABLE add s) (\<lambda>s.
       rbind (HASH_ADD_TO_TABLE add hv add s) (\<lambda>s. Inr (add, s))))
     else
       rbind (get_hh head s) (\<lambda>hd.
       rbind (upd_hh add (\<lambda>h. h\<lparr>tbl := tbl hd\<rparr>) s) (\<lambda>s.
       rbind (HASH_APPEND_LIST head add s) (\<lambda>s.
       rbind (HASH_ADD_TO_TABLE head hv add s) (\<lambda>s. Inr (head, s)))))))"

section \<open>Deletion\<close>

definition HASH_DEL_IN_BKT :: "addr \<Rightarrow> u32 \<Rightarrow> addr \<Rightarrow> ('a elem_scheme, 'b) ut_mem_scheme \<Rightarrow>
    ('a elem_scheme, 'b) ut_mem_scheme res" where
  "HASH_DEL_IN_BKT b i delhh s =
     rbind (upd_bkt b i (\<lambda>B. B\<lparr>bcount := bcount B - 1\<rparr>) s) (\<lambda>s.
     rbind (get_bkt b i s) (\<lambda>B.
     rbind (get_hh delhh s) (\<lambda>d.
     rbind (if hh_head B = delhh then upd_bkt b i (\<lambda>B. B\<lparr>hh_head := hh_next d\<rparr>) s else Inr s) (\<lambda>s.
     rbind (if hh_prev d \<noteq> NULL then upd_hh (hh_prev d) (\<lambda>h. h\<lparr>hh_next := hh_next d\<rparr>) s else Inr s) (\<lambda>s.
     if hh_next d \<noteq> NULL then upd_hh (hh_next d) (\<lambda>h. h\<lparr>hh_prev := hh_prev d\<rparr>) s else Inr s)))))"

definition HASH_DELETE :: "addr \<Rightarrow> addr \<Rightarrow> ('a elem_scheme, 'b) ut_mem_scheme \<Rightarrow>
    (addr \<times> ('a elem_scheme, 'b) ut_mem_scheme) res" where
  "HASH_DELETE head delptr s =
     rbind (get_hh delptr s) (\<lambda>d.
     if prv d = NULL \<and> nxt d = NULL then
       rbind (get_hh head s) (\<lambda>h.
       rbind (get_tbl (tbl h) s) (\<lambda>T.
       rbind (dealloc (bkts s) (buckets T)) (\<lambda>bs.
       rbind (dealloc (tbls s) (tbl h)) (\<lambda>ts.
       Inr (NULL, s\<lparr>bkts := bs, tbls := ts\<rparr>)))))
     else
       rbind (get_hh head s) (\<lambda>h.
       rbind (get_tbl (tbl h) s) (\<lambda>T.
       rbind (if delptr = tail T then upd_tbl (tbl h) (\<lambda>T. T\<lparr>tail := prv d\<rparr>) s else Inr s) (\<lambda>s.
       rbind (if prv d \<noteq> NULL then upd_hh (prv d) (\<lambda>h. h\<lparr>nxt := nxt d\<rparr>) s else Inr s) (\<lambda>s.
       let head' = (if prv d \<noteq> NULL then head else nxt d) in
       rbind (if nxt d \<noteq> NULL then upd_hh (nxt d) (\<lambda>h. h\<lparr>prv := prv d\<rparr>) s else Inr s) (\<lambda>s.
       rbind (get_hh head' s) (\<lambda>h.
       rbind (get_tbl (tbl h) s) (\<lambda>T.
       rbind (HASH_DEL_IN_BKT (buckets T) (HASH_TO_BKT (hashv d) (num_buckets T)) delptr s) (\<lambda>s.
       rbind (upd_tbl (tbl h) (\<lambda>T. T\<lparr>num_items := num_items T - 1\<rparr>) s) (\<lambda>s.
       Inr (head', s)))))))))))"

end
