(* ===== verification/Uthash_View.thy ===== *)
theory Uthash_View
  imports Uthash
begin

text \<open>
  The memory of a hash table seen through its pointer fields. \<open>NX\<close>, \<open>PV\<close>, \<open>HN\<close>, \<open>HP\<close> are the
  four link fields of the handles as functions of the address, \<open>HV\<close> the stored hash values,
  \<open>SID\<close> the keys, \<open>TT\<close> and \<open>BB\<close> the tables and bucket arrays. \<open>put_hh\<close>, \<open>put_tbl\<close> and
  \<open>put_bkts\<close> are the updates the macros make; under the liveness of what they dereference the
  access functions of the model are these total functions (\<open>view_run\<close>), and every view of an
  update is a function update (\<open>view_simps\<close>).

  \<open>ut_frame\<close> is what the macros never change: the elements but for their handles, and the rest of
  the memory. \<open>bkts_ok\<close> says that the buckets hold a set of elements.
\<close>

named_theorems view_run "operations on live objects, as total updates"
named_theorems view_simps "views of updated memory"

section \<open>Views\<close>

definition HH :: "('a elem_scheme, 'b) ut_mem_scheme \<Rightarrow> addr \<Rightarrow> UT_hash_handle" where
  "HH s p = hh (the (cells (elems s) p))"

definition SID :: "('a elem_scheme, 'b) ut_mem_scheme \<Rightarrow> addr \<Rightarrow> u32" where
  "SID s p = sid (the (cells (elems s) p))"

definition NX :: "('a elem_scheme, 'b) ut_mem_scheme \<Rightarrow> addr \<Rightarrow> addr" where
  "NX s p = nxt (HH s p)"

definition PV :: "('a elem_scheme, 'b) ut_mem_scheme \<Rightarrow> addr \<Rightarrow> addr" where
  "PV s p = prv (HH s p)"

definition HN :: "('a elem_scheme, 'b) ut_mem_scheme \<Rightarrow> addr \<Rightarrow> addr" where
  "HN s p = hh_next (HH s p)"

definition HP :: "('a elem_scheme, 'b) ut_mem_scheme \<Rightarrow> addr \<Rightarrow> addr" where
  "HP s p = hh_prev (HH s p)"

definition HV :: "('a elem_scheme, 'b) ut_mem_scheme \<Rightarrow> addr \<Rightarrow> u32" where
  "HV s p = hashv (HH s p)"

definition TB :: "('a elem_scheme, 'b) ut_mem_scheme \<Rightarrow> addr \<Rightarrow> addr" where
  "TB s p = tbl (HH s p)"

definition KY :: "('a elem_scheme, 'b) ut_mem_scheme \<Rightarrow> addr \<Rightarrow> addr" where
  "KY s p = key (HH s p)"

definition KL :: "('a elem_scheme, 'b) ut_mem_scheme \<Rightarrow> addr \<Rightarrow> u32" where
  "KL s p = keylen (HH s p)"

definition TT :: "('a elem_scheme, 'b) ut_mem_scheme \<Rightarrow> addr \<Rightarrow> UT_hash_table" where
  "TT s t = the (cells (tbls s) t)"

definition BB :: "('a elem_scheme, 'b) ut_mem_scheme \<Rightarrow> addr \<Rightarrow> UT_hash_bucket list" where
  "BB s b = the (cells (bkts s) b)"

definition put_hh :: "addr \<Rightarrow> UT_hash_handle \<Rightarrow> ('a elem_scheme, 'b) ut_mem_scheme \<Rightarrow>
    ('a elem_scheme, 'b) ut_mem_scheme" where
  "put_hh p h s = s\<lparr>elems := (elems s)\<lparr>cells :=
     (cells (elems s))(p := Some ((the (cells (elems s) p))\<lparr>hh := h\<rparr>))\<rparr>\<rparr>"

definition put_tbl :: "addr \<Rightarrow> UT_hash_table \<Rightarrow> ('a elem_scheme, 'b) ut_mem_scheme \<Rightarrow>
    ('a elem_scheme, 'b) ut_mem_scheme" where
  "put_tbl t T s = s\<lparr>tbls := (tbls s)\<lparr>cells := (cells (tbls s))(t := Some T)\<rparr>\<rparr>"

definition put_bkts :: "addr \<Rightarrow> UT_hash_bucket list \<Rightarrow> ('a elem_scheme, 'b) ut_mem_scheme \<Rightarrow>
    ('a elem_scheme, 'b) ut_mem_scheme" where
  "put_bkts b B s = s\<lparr>bkts := (bkts s)\<lparr>cells := (cells (bkts s))(b := Some B)\<rparr>\<rparr>"

definition new_tbl :: "UT_hash_table \<Rightarrow> ('a elem_scheme, 'b) ut_mem_scheme \<Rightarrow>
    ('a elem_scheme, 'b) ut_mem_scheme" where
  "new_tbl T s = s\<lparr>oom := tl (oom s), tbls :=
     \<lparr>cells = (cells (tbls s))(brk (tbls s) := Some T), brk = Suc (brk (tbls s))\<rparr>\<rparr>"

definition new_bkts :: "UT_hash_bucket list \<Rightarrow> ('a elem_scheme, 'b) ut_mem_scheme \<Rightarrow>
    ('a elem_scheme, 'b) ut_mem_scheme" where
  "new_bkts B s = s\<lparr>oom := tl (oom s), bkts :=
     \<lparr>cells = (cells (bkts s))(brk (bkts s) := Some B), brk = Suc (brk (bkts s))\<rparr>\<rparr>"

definition del_tbl :: "addr \<Rightarrow> ('a elem_scheme, 'b) ut_mem_scheme \<Rightarrow>
    ('a elem_scheme, 'b) ut_mem_scheme" where
  "del_tbl t s = s\<lparr>tbls := (tbls s)\<lparr>cells := (cells (tbls s))(t := None)\<rparr>\<rparr>"

definition del_bkts :: "addr \<Rightarrow> ('a elem_scheme, 'b) ut_mem_scheme \<Rightarrow>
    ('a elem_scheme, 'b) ut_mem_scheme" where
  "del_bkts b s = s\<lparr>bkts := (bkts s)\<lparr>cells := (cells (bkts s))(b := None)\<rparr>\<rparr>"

text \<open>The elements without their handles.\<close>

definition payload :: "('a elem_scheme, 'b) ut_mem_scheme \<Rightarrow> addr \<Rightarrow> 'a elem_scheme option" where
  "payload s p = map_option (\<lambda>e. e\<lparr>hh := zero_handle\<rparr>) (cells (elems s) p)"

definition ut_frame :: "('a elem_scheme, 'b) ut_mem_scheme \<Rightarrow> ('a elem_scheme, 'b) ut_mem_scheme \<Rightarrow> bool" where
  "ut_frame s s' \<longleftrightarrow> payload s' = payload s \<and> brk (elems s') = brk (elems s) \<and>
     ut_mem.more s' = ut_mem.more s"

definition ut_mem_ok :: "('a elem_scheme, 'b) ut_mem_scheme \<Rightarrow> bool" where
  "ut_mem_ok s \<longleftrightarrow> heap_ok (elems s) \<and> heap_ok (tbls s) \<and> heap_ok (bkts s)"

section \<open>Running the access functions\<close>

lemma get_hh_live [view_run]: "live (elems s) p \<Longrightarrow> get_hh p s = Inr (HH s p)"
  by (simp add: get_hh_def load_live HH_def)

lemma upd_hh_live [view_run]: "live (elems s) p \<Longrightarrow> upd_hh p f s = Inr (put_hh p (f (HH s p)) s)"
  by (simp add: upd_hh_def load_live store_live HH_def put_hh_def)

lemma get_tbl_live [view_run]: "live (tbls s) t \<Longrightarrow> get_tbl t s = Inr (TT s t)"
  by (simp add: get_tbl_def load_live TT_def)

lemma upd_tbl_live [view_run]: "live (tbls s) t \<Longrightarrow> upd_tbl t f s = Inr (put_tbl t (f (TT s t)) s)"
  by (simp add: upd_tbl_def load_live store_live TT_def put_tbl_def)

lemma get_bkt_live [view_run]:
  "live (bkts s) b \<Longrightarrow> unat i < length (BB s b) \<Longrightarrow> get_bkt b i s = Inr (BB s b ! unat i)"
  by (simp add: get_bkt_def load_live BB_def)

lemma upd_bkt_live [view_run]:
  "live (bkts s) b \<Longrightarrow> unat i < length (BB s b) \<Longrightarrow>
   upd_bkt b i f s = Inr (put_bkts b ((BB s b)[unat i := f (BB s b ! unat i)]) s)"
  by (simp add: upd_bkt_def load_live store_live BB_def put_bkts_def)

section \<open>Views of updates\<close>

lemma HH_put [view_simps]:
  "HH (put_hh p h s) = (HH s)(p := h)"
  "HH (put_tbl t T s) = HH s"
  "HH (put_bkts b B s) = HH s"
  by (auto simp: HH_def put_hh_def put_tbl_def put_bkts_def fun_eq_iff)

lemma SID_put [view_simps]:
  "SID (put_hh p h s) = SID s"
  "SID (put_tbl t T s) = SID s"
  "SID (put_bkts b B s) = SID s"
  by (auto simp: SID_def put_hh_def put_tbl_def put_bkts_def fun_eq_iff)

lemma NX_put [view_simps]:
  "NX (put_hh p h s) = (NX s)(p := nxt h)"
  "NX (put_tbl t T s) = NX s"
  "NX (put_bkts b B s) = NX s"
  by (auto simp: NX_def view_simps fun_eq_iff)

lemma PV_put [view_simps]:
  "PV (put_hh p h s) = (PV s)(p := prv h)"
  "PV (put_tbl t T s) = PV s"
  "PV (put_bkts b B s) = PV s"
  by (auto simp: PV_def view_simps fun_eq_iff)

lemma HN_put [view_simps]:
  "HN (put_hh p h s) = (HN s)(p := hh_next h)"
  "HN (put_tbl t T s) = HN s"
  "HN (put_bkts b B s) = HN s"
  by (auto simp: HN_def view_simps fun_eq_iff)

lemma HP_put [view_simps]:
  "HP (put_hh p h s) = (HP s)(p := hh_prev h)"
  "HP (put_tbl t T s) = HP s"
  "HP (put_bkts b B s) = HP s"
  by (auto simp: HP_def view_simps fun_eq_iff)

lemma HV_put [view_simps]:
  "HV (put_hh p h s) = (HV s)(p := hashv h)"
  "HV (put_tbl t T s) = HV s"
  "HV (put_bkts b B s) = HV s"
  by (auto simp: HV_def view_simps fun_eq_iff)

lemma TB_put [view_simps]:
  "TB (put_hh p h s) = (TB s)(p := tbl h)"
  "TB (put_tbl t T s) = TB s"
  "TB (put_bkts b B s) = TB s"
  by (auto simp: TB_def view_simps fun_eq_iff)

lemma KY_put [view_simps]:
  "KY (put_hh p h s) = (KY s)(p := key h)"
  "KY (put_tbl t T s) = KY s"
  "KY (put_bkts b B s) = KY s"
  by (auto simp: KY_def view_simps fun_eq_iff)

lemma KL_put [view_simps]:
  "KL (put_hh p h s) = (KL s)(p := keylen h)"
  "KL (put_tbl t T s) = KL s"
  "KL (put_bkts b B s) = KL s"
  by (auto simp: KL_def view_simps fun_eq_iff)

text \<open>A field of a handle, folded back into its view.\<close>

lemma handle_views [view_simps]:
  "nxt (HH s p) = NX s p" "prv (HH s p) = PV s p" "hh_next (HH s p) = HN s p"
  "hh_prev (HH s p) = HP s p" "hashv (HH s p) = HV s p" "tbl (HH s p) = TB s p"
  "key (HH s p) = KY s p" "keylen (HH s p) = KL s p"
  by (simp_all add: NX_def PV_def HN_def HP_def HV_def TB_def KY_def KL_def)

lemma put_tbl_same: "live (tbls s) t \<Longrightarrow> put_tbl t (TT s t) s = s"
  by (auto simp: put_tbl_def TT_def live_def fun_upd_idem)

lemma put_bkts_same: "live (bkts s) b \<Longrightarrow> put_bkts b (BB s b) s = s"
  by (auto simp: put_bkts_def BB_def live_def fun_upd_idem)

lemma TT_put [view_simps]:
  "TT (put_hh p h s) = TT s"
  "TT (put_tbl t T s) = (TT s)(t := T)"
  "TT (put_bkts b B s) = TT s"
  by (auto simp: TT_def put_hh_def put_tbl_def put_bkts_def fun_eq_iff)

lemma BB_put [view_simps]:
  "BB (put_hh p h s) = BB s"
  "BB (put_tbl t T s) = BB s"
  "BB (put_bkts b B s) = (BB s)(b := B)"
  by (auto simp: BB_def put_hh_def put_tbl_def put_bkts_def fun_eq_iff)

lemma live_put [view_simps]:
  "live (elems s) p \<Longrightarrow> live (elems (put_hh p h s)) = live (elems s)"
  "live (elems (put_tbl t T s)) = live (elems s)"
  "live (elems (put_bkts b B s)) = live (elems s)"
  "live (tbls (put_hh p h s)) = live (tbls s)"
  "live (tbls s) t \<Longrightarrow> live (tbls (put_tbl t T s)) = live (tbls s)"
  "live (tbls (put_bkts b B s)) = live (tbls s)"
  "live (bkts (put_hh p h s)) = live (bkts s)"
  "live (bkts (put_tbl t T s)) = live (bkts s)"
  "live (bkts s) b \<Longrightarrow> live (bkts (put_bkts b B s)) = live (bkts s)"
  by (auto simp: live_def put_hh_def put_tbl_def put_bkts_def fun_eq_iff)

lemma brk_put [view_simps]:
  "brk (elems (put_hh p h s)) = brk (elems s)"
  "brk (elems (put_tbl t T s)) = brk (elems s)"
  "brk (elems (put_bkts b B s)) = brk (elems s)"
  by (simp_all add: put_hh_def put_tbl_def put_bkts_def)

lemma oom_put [view_simps]:
  "oom (put_hh p h s) = oom s"
  "oom (put_tbl t T s) = oom s"
  "oom (put_bkts b B s) = oom s"
  by (simp_all add: put_hh_def put_tbl_def put_bkts_def)

lemma fuel_put [view_simps]:
  "fuel (put_hh p h s) = fuel s"
  "fuel (put_tbl t T s) = fuel s"
  "fuel (put_bkts b B s) = fuel s"
  by (simp_all add: fuel_def view_simps)

lemma ut_mem_ok_put:
  "live (elems s) p \<Longrightarrow> ut_mem_ok (put_hh p h s) \<longleftrightarrow> ut_mem_ok s"
  "live (tbls s) t \<Longrightarrow> ut_mem_ok (put_tbl t T s) \<longleftrightarrow> ut_mem_ok s"
  "live (bkts s) b \<Longrightarrow> ut_mem_ok (put_bkts b B s) \<longleftrightarrow> ut_mem_ok s"
  by (auto simp: ut_mem_ok_def heap_ok_def live_def put_hh_def put_tbl_def put_bkts_def
      split: if_splits)

lemma ut_frame_refl [simp]: "ut_frame s s"
  by (simp add: ut_frame_def)

lemma ut_frame_trans: "ut_frame s s' \<Longrightarrow> ut_frame s' s'' \<Longrightarrow> ut_frame s s''"
  by (simp add: ut_frame_def)

lemma ut_frame_put [view_simps]:
  "live (elems s) p \<Longrightarrow> ut_frame s0 (put_hh p h s) \<longleftrightarrow> ut_frame s0 s"
  "ut_frame s0 (put_tbl t T s) \<longleftrightarrow> ut_frame s0 s"
  "ut_frame s0 (put_bkts b B s) \<longleftrightarrow> ut_frame s0 s"
proof -
  show "ut_frame s0 (put_hh p h s) \<longleftrightarrow> ut_frame s0 s" if "live (elems s) p"
  proof -
    from that have "payload (put_hh p h s) = payload s"
      by (auto simp: payload_def put_hh_def live_def fun_eq_iff)
    then show ?thesis by (simp add: ut_frame_def put_hh_def)
  qed
  have "payload (put_tbl t T s) = payload s" "payload (put_bkts b B s) = payload s"
    by (simp_all add: payload_def put_tbl_def put_bkts_def fun_eq_iff)
  then show "ut_frame s0 (put_tbl t T s) \<longleftrightarrow> ut_frame s0 s" "ut_frame s0 (put_bkts b B s) \<longleftrightarrow> ut_frame s0 s"
    by (simp_all add: ut_frame_def put_tbl_def put_bkts_def)
qed

lemma ut_frame_live: "ut_frame s s' \<Longrightarrow> live (elems s') p = live (elems s) p"
proof -
  assume "ut_frame s s'"
  then have "payload s' p = payload s p" by (simp add: ut_frame_def)
  then have "cells (elems s') p = None \<longleftrightarrow> cells (elems s) p = None"
    by (metis (no_types, lifting) None_eq_map_option_iff payload_def)
  then show ?thesis by (simp add: live_def)
qed

lemma ut_frame_SID: "ut_frame s s' \<Longrightarrow> live (elems s) p \<Longrightarrow> SID s' p = SID s p"
proof -
  assume "ut_frame s s'" "live (elems s) p"
  then have eq: "payload s' p = payload s p" by (simp add: ut_frame_def)
  from \<open>live (elems s) p\<close> obtain y where y: "cells (elems s) p = Some y" by (auto simp: live_def)
  with eq obtain z where z: "cells (elems s') p = Some z"
    and "z\<lparr>hh := zero_handle\<rparr> = y\<lparr>hh := zero_handle\<rparr>"
    by (auto simp: payload_def)
  then have "sid (z\<lparr>hh := zero_handle\<rparr>) = sid (y\<lparr>hh := zero_handle\<rparr>)" by simp
  with y z show ?thesis by (simp add: SID_def)
qed

section \<open>Views of allocation and deallocation\<close>

lemma elem_views_alloc [view_simps]:
  "HH (new_tbl T s) = HH s" "SID (new_tbl T s) = SID s" "NX (new_tbl T s) = NX s" "PV (new_tbl T s) = PV s" "HN (new_tbl T s) = HN s" "HP (new_tbl T s) = HP s" "HV (new_tbl T s) = HV s" "TB (new_tbl T s) = TB s" "KY (new_tbl T s) = KY s" "KL (new_tbl T s) = KL s"
  "HH (new_bkts B s) = HH s" "SID (new_bkts B s) = SID s" "NX (new_bkts B s) = NX s" "PV (new_bkts B s) = PV s" "HN (new_bkts B s) = HN s" "HP (new_bkts B s) = HP s" "HV (new_bkts B s) = HV s" "TB (new_bkts B s) = TB s" "KY (new_bkts B s) = KY s" "KL (new_bkts B s) = KL s"
  "HH (del_tbl t s) = HH s" "SID (del_tbl t s) = SID s" "NX (del_tbl t s) = NX s" "PV (del_tbl t s) = PV s" "HN (del_tbl t s) = HN s" "HP (del_tbl t s) = HP s" "HV (del_tbl t s) = HV s" "TB (del_tbl t s) = TB s" "KY (del_tbl t s) = KY s" "KL (del_tbl t s) = KL s"
  "HH (del_bkts b s) = HH s" "SID (del_bkts b s) = SID s" "NX (del_bkts b s) = NX s" "PV (del_bkts b s) = PV s" "HN (del_bkts b s) = HN s" "HP (del_bkts b s) = HP s" "HV (del_bkts b s) = HV s" "TB (del_bkts b s) = TB s" "KY (del_bkts b s) = KY s" "KL (del_bkts b s) = KL s"
  by (simp_all add: fun_eq_iff HH_def SID_def NX_def PV_def HN_def HP_def HV_def TB_def KY_def KL_def
      new_tbl_def new_bkts_def del_tbl_def del_bkts_def)

lemma TT_alloc [view_simps]:
  "TT (new_tbl T s) = (TT s)(brk (tbls s) := T)"
  "TT (new_bkts B s) = TT s" "TT (del_bkts b s) = TT s"
  "u \<noteq> t \<Longrightarrow> TT (del_tbl t s) u = TT s u"
  by (auto simp: TT_def new_tbl_def new_bkts_def del_bkts_def del_tbl_def fun_eq_iff)

lemma BB_alloc [view_simps]:
  "BB (new_bkts B s) = (BB s)(brk (bkts s) := B)"
  "BB (new_tbl T s) = BB s" "BB (del_tbl t s) = BB s"
  "u \<noteq> b \<Longrightarrow> BB (del_bkts b s) u = BB s u"
  by (auto simp: BB_def new_tbl_def new_bkts_def del_bkts_def del_tbl_def fun_eq_iff)

lemma live_alloc [view_simps]:
  "live (elems (new_tbl T s)) = live (elems s)" "live (elems (new_bkts B s)) = live (elems s)"
  "live (elems (del_tbl t s)) = live (elems s)" "live (elems (del_bkts b s)) = live (elems s)"
  "live (tbls (new_bkts B s)) = live (tbls s)" "live (tbls (del_bkts b s)) = live (tbls s)"
  "live (bkts (new_tbl T s)) = live (bkts s)" "live (bkts (del_tbl t s)) = live (bkts s)"
  "live (tbls (new_tbl T s)) q \<longleftrightarrow> q \<noteq> NULL \<and> (q = brk (tbls s) \<or> live (tbls s) q)"
  "live (bkts (new_bkts B s)) q \<longleftrightarrow> q \<noteq> NULL \<and> (q = brk (bkts s) \<or> live (bkts s) q)"
  "live (tbls (del_tbl t s)) q \<longleftrightarrow> q \<noteq> t \<and> live (tbls s) q"
  "live (bkts (del_bkts b s)) q \<longleftrightarrow> q \<noteq> b \<and> live (bkts s) q"
  by (auto simp: live_def fun_eq_iff new_tbl_def new_bkts_def del_tbl_def del_bkts_def)

lemma misc_alloc [view_simps]:
  "fuel (new_tbl T s) = fuel s" "fuel (new_bkts B s) = fuel s"
  "fuel (del_tbl t s) = fuel s" "fuel (del_bkts b s) = fuel s"
  "oom (new_tbl T s) = tl (oom s)" "oom (new_bkts B s) = tl (oom s)"
  "oom (del_tbl t s) = oom s" "oom (del_bkts b s) = oom s"
  "brk (bkts (new_tbl T s)) = brk (bkts s)" "brk (bkts (put_tbl t T s)) = brk (bkts s)"
  "brk (bkts (put_hh p h s)) = brk (bkts s)" "brk (tbls (put_hh p h s)) = brk (tbls s)"
  by (simp_all add: fuel_def new_tbl_def new_bkts_def del_tbl_def del_bkts_def put_tbl_def put_hh_def)

lemma ut_mem_ok_alloc:
  "ut_mem_ok s \<Longrightarrow> ut_mem_ok (new_tbl T s)" "ut_mem_ok s \<Longrightarrow> ut_mem_ok (new_bkts B s)"
  "ut_mem_ok s \<Longrightarrow> ut_mem_ok (del_tbl t s)" "ut_mem_ok s \<Longrightarrow> ut_mem_ok (del_bkts b s)"
  by (auto simp: ut_mem_ok_def heap_ok_def new_tbl_def new_bkts_def del_tbl_def del_bkts_def less_Suc_eq)

lemma ut_frame_alloc [view_simps]:
  "ut_frame s0 (new_tbl T s) = ut_frame s0 s" "ut_frame s0 (new_bkts B s) = ut_frame s0 s"
  "ut_frame s0 (del_tbl t s) = ut_frame s0 s" "ut_frame s0 (del_bkts b s) = ut_frame s0 s"
proof -
  have "payload (new_tbl T s) = payload s" "payload (new_bkts B s) = payload s"
    "payload (del_tbl t s) = payload s" "payload (del_bkts b s) = payload s"
    by (simp_all add: fun_eq_iff payload_def new_tbl_def new_bkts_def del_tbl_def del_bkts_def)
  then show "ut_frame s0 (new_tbl T s) = ut_frame s0 s" "ut_frame s0 (new_bkts B s) = ut_frame s0 s"
    "ut_frame s0 (del_tbl t s) = ut_frame s0 s" "ut_frame s0 (del_bkts b s) = ut_frame s0 s"
    by (simp_all add: ut_frame_def new_tbl_def new_bkts_def del_tbl_def del_bkts_def)
qed

lemma calloc_tbl_ok:
  "alloc_ok (oom s) \<Longrightarrow> calloc T (oom s) (tbls s) =
     (brk (tbls s), tl (oom s), tbls (new_tbl T s))"
  by (simp add: calloc_def new_tbl_def)

lemma calloc_bkts_ok:
  "alloc_ok (oom s) \<Longrightarrow> calloc B (oom s) (bkts s) =
     (brk (bkts s), tl (oom s), bkts (new_bkts B s))"
  by (simp add: calloc_def new_bkts_def)

lemma new_fold:
  "s\<lparr>oom := tl (oom s), tbls := tbls (new_tbl T s)\<rparr> = new_tbl T s"
  "s\<lparr>oom := tl (oom s), bkts := bkts (new_bkts B s)\<rparr> = new_bkts B s"
  by (simp_all add: new_tbl_def new_bkts_def)

lemma dealloc_bkts_live:
  "live (bkts s) b \<Longrightarrow> dealloc (bkts s) b = Inr (bkts (del_bkts b s))"
  by (simp add: dealloc_live del_bkts_def)

lemma dealloc_tbls_live:
  "live (tbls s) t \<Longrightarrow> dealloc (tbls s) t = Inr (tbls (del_tbl t s))"
  by (simp add: dealloc_live del_tbl_def)

lemma del_fold:
  "s\<lparr>bkts := bkts (del_bkts b s)\<rparr> = del_bkts b s"
  "s\<lparr>bkts := bkts (del_bkts b s), tbls := tbls (del_tbl t s)\<rparr> = del_tbl t (del_bkts b s)"
  by (simp_all add: del_bkts_def del_tbl_def)

lemma fresh_not_live: "ut_mem_ok s \<Longrightarrow> \<not> live (bkts s) (brk (bkts s)) \<and> \<not> live (tbls s) (brk (tbls s))"
  by (auto simp: ut_mem_ok_def live_def heap_ok_fresh)

lemma brk_nonnull: "ut_mem_ok s \<Longrightarrow> 0 < brk (bkts s) \<and> 0 < brk (tbls s)"
  by (auto simp: ut_mem_ok_def heap_ok_def)

section \<open>Buckets\<close>

definition bkts_ok :: "(addr \<Rightarrow> addr) \<Rightarrow> (addr \<Rightarrow> addr) \<Rightarrow> (addr \<Rightarrow> u32) \<Rightarrow>
    UT_hash_bucket list \<Rightarrow> nat \<Rightarrow> addr set \<Rightarrow> (nat \<Rightarrow> addr list) \<Rightarrow> bool" where
  "bkts_ok hn hp hv B n P cs \<longleftrightarrow> length B = n \<and>
     (\<forall>i<n. (\<exists>tl. dll hn hp (hh_head (B ! i)) (cs i) tl) \<and>
        bcount (B ! i) = of_nat (length (cs i)) \<and>
        set (cs i) = {x \<in> P. unat (hv x) mod n = i})"

lemma bkts_ok_cong:
  assumes "\<And>x. x \<in> P \<Longrightarrow> hn x = hn' x \<and> hp x = hp' x \<and> hv x = hv' x"
  shows "bkts_ok hn hp hv B n P cs \<longleftrightarrow> bkts_ok hn' hp' hv' B n P cs"
proof -
  have "set (cs i) = {x \<in> P. unat (hv x) mod n = i} \<Longrightarrow> dll hn hp h (cs i) tl = dll hn' hp' h (cs i) tl"
    for i h tl
    by (rule dll_cong) (use assms in auto)
  moreover have "{x \<in> P. unat (hv x) mod n = i} = {x \<in> P. unat (hv' x) mod n = i}" for i
    using assms by auto
  ultimately show ?thesis unfolding bkts_ok_def by (metis (no_types, lifting))
qed

lemma bkts_ok_empty: "bkts_ok hn hp hv (replicate n zero_bucket) n {} (\<lambda>_. [])"
  by (simp add: bkts_ok_def zero_bucket_def)

text \<open>Pushing an element at the front of its bucket.\<close>

lemma bkts_ok_push:
  assumes ok: "bkts_ok hn hp hv B n P cs" and x: "x \<notin> P" "x \<noteq> NULL" "0 < n"
    and i: "i = unat (hv x) mod n"
    and b: "hh_head b = x" "bcount b = bcount (B ! i) + 1"
    and h: "h = hh_head (B ! i)"
    and hp': "hp' = (if h = NULL then hp(x := NULL) else hp(x := NULL, h := x))"
  shows "bkts_ok (hn(x := h)) hp' hv (B[i := b]) n (insert x P) (cs(i := x # cs i))"
proof -
  have i_n: "i < n" using x i by simp
  have len: "length B = n" using ok by (simp add: bkts_ok_def)
  have sub: "set (cs j) \<subseteq> P" if "j < n" for j using ok that by (auto simp: bkts_ok_def)
  have hd: "h \<in> set (cs i)" if "h \<noteq> NULL"
    using ok i_n that dll_head [of hn hp h "cs i"] h
    by (cases "cs i") (auto simp: bkts_ok_def)
  have "(\<exists>tl. dll (hn(x := h)) hp' (hh_head (B[i := b] ! j)) ((cs(i := x # cs i)) j) tl) \<and>
        bcount (B[i := b] ! j) = of_nat (length ((cs(i := x # cs i)) j)) \<and>
        set ((cs(i := x # cs i)) j) = {y \<in> insert x P. unat (hv y) mod n = j}"
    if j: "j < n" for j
  proof (cases "j = i")
    case True
    obtain tl where d: "dll hn hp h (cs i) tl" using ok i_n h by (auto simp: bkts_ok_def)
    have "x \<notin> set (cs i)" using sub [OF i_n] x by auto
    from dll_push [OF d x(2) this] show ?thesis
      using True ok i_n b len i by (auto simp: bkts_ok_def hp')
  next
    case False
    obtain tl where d: "dll hn hp (hh_head (B ! j)) (cs j) tl" using ok j by (auto simp: bkts_ok_def)
    have "x \<notin> set (cs j)" using sub [OF j] x by auto
    moreover have "h \<notin> set (cs j)" if "h \<noteq> NULL"
      using hd [OF that] ok i_n j False by (auto simp: bkts_ok_def)
    ultimately have "dll (hn(x := h)) hp' (hh_head (B ! j)) (cs j) tl"
      using d by (subst dll_cong [of _ _ hn _ hp]) (auto simp: hp')
    then show ?thesis using False ok j i by (auto simp: bkts_ok_def)
  qed
  then show ?thesis using len by (simp add: bkts_ok_def)
qed

text \<open>Unlinking an element from its bucket.\<close>

lemma bkts_ok_delete:
  assumes ok: "bkts_ok hn hp hv B n P cs" and d: "d \<in> P" "0 < n"
    and i: "i = unat (hv d) mod n"
    and b: "hh_head b = (if hh_head (B ! i) = d then hn d else hh_head (B ! i))"
      "bcount b = bcount (B ! i) - 1"
    and hn': "hn' = (if hp d = NULL then hn else hn(hp d := hn d))"
    and hp': "hp' = (if hn d = NULL then hp else hp(hn d := hp d))"
  shows "bkts_ok hn' hp' hv (B[i := b]) n (P - {d}) (cs(i := remove1 d (cs i)))"
proof -
  have i_n: "i < n" using d i by simp
  have len: "length B = n" using ok by (simp add: bkts_ok_def)
  obtain tl where dl: "dll hn hp (hh_head (B ! i)) (cs i) tl" using ok i_n by (auto simp: bkts_ok_def)
  have dist: "distinct (cs i)" using dl by (rule dll_distinct)
  have "d \<in> set (cs i)" using ok i_n d i by (auto simp: bkts_ok_def)
  then obtain ys zs where cs: "cs i = ys @ d # zs" by (meson split_list)
  note D = dll_delete [OF dl [unfolded cs]]
  have nbr: "hp d \<in> set (cs i)" if "hp d \<noteq> NULL" "hp d = (if ys = [] then NULL else last ys)"
    using that cs by (auto split: if_splits)
  have nbr': "hn d \<in> set (cs i)" if "hn d \<noteq> NULL" "hn d = (if zs = [] then NULL else hd zs)"
    using that cs by (auto split: if_splits)
  have rem: "remove1 d (cs i) = ys @ zs" using cs dist by (simp add: remove1_append)
  have head: "hh_head b = (if hp d = NULL then hn d else hh_head (B ! i))"
  proof (cases ys)
    case Nil
    then show ?thesis using b(1) D(2) dll_head [OF dl] cs by simp
  next
    case (Cons y ys')
    then have "hh_head (B ! i) = y" using dll_head [OF dl] cs by simp
    moreover have "y \<noteq> d" using dist cs Cons by auto
    moreover have "last ys \<in> set ys" using Cons by simp
    then have "hp d \<noteq> NULL"
      using D(2) Cons dll_not_NULL [OF dl] cs by (metis Un_iff list.distinct(1) set_append)
    ultimately show ?thesis using b(1) by simp
  qed
  have "(\<exists>tl. dll hn' hp' (hh_head (B[i := b] ! j)) ((cs(i := remove1 d (cs i))) j) tl) \<and>
        bcount (B[i := b] ! j) = of_nat (length ((cs(i := remove1 d (cs i))) j)) \<and>
        set ((cs(i := remove1 d (cs i))) j) = {y \<in> P - {d}. unat (hv y) mod n = j}"
    if j: "j < n" for j
  proof (cases "j = i")
    case True
    have "bcount b = of_nat (length (remove1 d (cs i)))"
      using b(2) ok i_n cs rem by (simp add: bkts_ok_def)
    moreover have "set (remove1 d (cs i)) = {y \<in> P - {d}. unat (hv y) mod n = i}"
      using dist ok i_n by (auto simp: bkts_ok_def)
    moreover have "\<exists>tl. dll hn' hp' (hh_head b) (remove1 d (cs i)) tl"
      using D(1) unfolding rem head hn' hp' by blast
    ultimately show ?thesis using True len i_n by simp
  next
    case False
    obtain tl where dj: "dll hn hp (hh_head (B ! j)) (cs j) tl" using ok j by (auto simp: bkts_ok_def)
    have disj: "set (cs i) \<inter> set (cs j) = {}" using ok i_n j False by (auto simp: bkts_ok_def)
    have "dll hn' hp' (hh_head (B ! j)) (cs j) tl"
      using dj disj nbr nbr' D(2,3)
      by (subst dll_cong [of _ _ hn _ hp]) (auto simp: hn' hp')
    then show ?thesis using False ok j i by (auto simp: bkts_ok_def)
  qed
  then show ?thesis using len by (simp add: bkts_ok_def)
qed

end
