(* ===== verification/Uthash_Find.thy ===== *)
theory Uthash_Find
  imports Uthash_View
begin

text \<open>
  The invariant of a hash table and the correctness of \<open>HASH_FIND\<close>.

  \<open>ut_inv s head xs\<close>: the table reached from \<open>head\<close> holds exactly the elements \<open>xs\<close>, in this
  order of insertion, with pairwise different keys. It is stated over the views: the
  application-order list is doubly linked from \<open>head\<close> to the table's \<open>tail\<close>, the buckets partition
  the elements by hash value, the handles point back to their table and key, and the counters agree.
  The number of buckets is a power of two and \<open>num_items\<close> does not overflow.
\<close>

section \<open>Keys and bucket numbers\<close>

lemma id_bytes_inj [simp]: "id_bytes v = id_bytes w \<longleftrightarrow> v = w"
proof
  assume eq: "id_bytes v = id_bytes w"
  have byte: "bit v (8 * k + j) = bit w (8 * k + j)"
    if "(ucast (drop_bit (8 * k) v) :: byte) = ucast (drop_bit (8 * k) w)" "j < 8" for k j
  proof -
    have "bit (ucast (drop_bit (8 * k) v) :: byte) j = bit (ucast (drop_bit (8 * k) w) :: byte) j"
      using that by simp
    then show ?thesis using that(2) by (simp add: bit_ucast_iff bit_drop_bit_eq)
  qed
  show "v = w"
  proof (rule bit_word_eqI)
    fix n assume "n < LENGTH(32)"
    then have n: "n < 32" by simp
    then have "n div 8 < 4" "n mod 8 < 8" by auto
    then consider "n div 8 = 0" | "n div 8 = 1" | "n div 8 = 2" | "n div 8 = 3" by linarith
    then have "(ucast (drop_bit (8 * (n div 8)) v) :: byte) = ucast (drop_bit (8 * (n div 8)) w)"
      by cases (use eq in \<open>simp_all add: id_bytes_def\<close>)
    from byte [OF this \<open>n mod 8 < 8\<close>] show "bit v n = bit w n" by simp
  qed
qed simp

lemma HASH_TO_BKT_mod: "n < 32 \<Longrightarrow> unat (HASH_TO_BKT hv (2 ^ n)) = unat hv mod 2 ^ n"
proof -
  assume "n < 32"
  have "HASH_TO_BKT hv (2 ^ n) = take_bit n hv"
    by (simp add: HASH_TO_BKT_def take_bit_eq_mask mask_eq_exp_minus_1)
  then have "unat (HASH_TO_BKT hv (2 ^ n)) = take_bit n (unat hv)"
    by (simp only: unsigned_take_bit_eq)
  then show ?thesis by (simp only: take_bit_eq_mod)
qed

lemma unat_pow2: "n < 32 \<Longrightarrow> unat (2 ^ n :: u32) = 2 ^ n"
proof -
  assume "n < 32"
  then have "(2 :: nat) ^ n < 2 ^ 32" by (intro power_strict_increasing) simp_all
  moreover have "(2 ^ n :: u32) = of_nat (2 ^ n)" by simp
  ultimately show ?thesis by (simp only: unat_of_nat) simp
qed

section \<open>The invariant\<close>

definition member_ok :: "('a elem_scheme, 'b) ut_mem_scheme \<Rightarrow> addr \<Rightarrow> addr \<Rightarrow> bool" where
  "member_ok s t x \<longleftrightarrow> live (elems s) x \<and> TB s x = t \<and> KY s x = x \<and>
     KL s x = 4 \<and> HV s x = HASH_JEN (id_bytes (SID s x))"

definition table_ok :: "('a elem_scheme, 'b) ut_mem_scheme \<Rightarrow> addr \<Rightarrow> addr list \<Rightarrow> addr \<Rightarrow> nat \<Rightarrow>
    (nat \<Rightarrow> addr list) \<Rightarrow> bool" where
  "table_ok s head xs t L cs \<longleftrightarrow>
     live (tbls s) t \<and> live (bkts s) (buckets (TT s t)) \<and>
     dll (NX s) (PV s) head xs (tail (TT s t)) \<and>
     (\<forall>x \<in> set xs. member_ok s t x) \<and> distinct (map (SID s) xs) \<and>
     L < 32 \<and> num_buckets (TT s t) = 2 ^ L \<and> log2_num_buckets (TT s t) = of_nat L \<and>
     num_items (TT s t) = of_nat (length xs) \<and> length xs < 2 ^ 32 \<and>
     bkts_ok (HN s) (HP s) (HV s) (BB s (buckets (TT s t))) (2 ^ L) (set xs) cs"

definition ut_inv :: "('a elem_scheme, 'b) ut_mem_scheme \<Rightarrow> addr \<Rightarrow> addr list \<Rightarrow> bool" where
  "ut_inv s head xs \<longleftrightarrow> ut_mem_ok s \<and>
     (if xs = [] then head = NULL else \<exists>t L cs. table_ok s head xs t L cs)"

text \<open>How many times the bucket array has doubled, starting from \<open>2 ^ 5\<close>.\<close>

definition ut_log2 :: "('a elem_scheme, 'b) ut_mem_scheme \<Rightarrow> addr \<Rightarrow> nat" where
  "ut_log2 s head = (if head = NULL then 5 else unat (log2_num_buckets (TT s (tbl (HH s head)))))"

text \<open>The abstraction: the address of the element with a key.\<close>

definition ut_lookup :: "('a elem_scheme, 'b) ut_mem_scheme \<Rightarrow> addr list \<Rightarrow> u32 \<Rightarrow> addr" where
  "ut_lookup s xs idv = (case find (\<lambda>x. SID s x = idv) xs of None \<Rightarrow> NULL | Some x \<Rightarrow> x)"

lemma ut_inv_Nil [simp]: "ut_inv s head [] \<longleftrightarrow> ut_mem_ok s \<and> head = NULL"
  by (simp add: ut_inv_def)

lemma table_ok_head: "table_ok s head (x # xs) t L cs \<Longrightarrow> head = x"
  by (auto simp: table_ok_def dest: dll_head)

lemma table_log2:
  assumes "table_ok s head xs t L cs" "xs \<noteq> []"
  shows "tbl (HH s head) = t" "ut_log2 s head = L"
proof -
  from assms have "head \<in> set xs" by (cases xs) (auto dest: table_ok_head)
  with assms(1) have "tbl (HH s head) = t" "head \<noteq> NULL" by (auto simp: table_ok_def member_ok_def view_simps live_def)
  moreover from assms(1) have "unat (log2_num_buckets (TT s t)) = L" by (auto simp: table_ok_def unat_of_nat)
  ultimately show "tbl (HH s head) = t" "ut_log2 s head = L" by (simp_all add: ut_log2_def)
qed

lemma ut_inv_mem_ok: "ut_inv s head xs \<Longrightarrow> ut_mem_ok s"
  by (simp add: ut_inv_def)

lemma ut_inv_live: "ut_inv s head xs \<Longrightarrow> x \<in> set xs \<Longrightarrow> live (elems s) x"
  by (cases xs) (auto simp: ut_inv_def table_ok_def member_ok_def)

lemma ut_inv_distinct: "ut_inv s head xs \<Longrightarrow> distinct xs"
  by (cases "xs = []") (auto simp: ut_inv_def table_ok_def dest: dll_distinct)

lemma ut_inv_distinct_ids: "ut_inv s head xs \<Longrightarrow> distinct (map (SID s) xs)"
  by (cases "xs = []") (auto simp: ut_inv_def table_ok_def)

lemma ut_inv_head: "ut_inv s head xs \<Longrightarrow> head = (case xs of [] \<Rightarrow> NULL | x # _ \<Rightarrow> x)"
  by (cases xs) (auto simp: ut_inv_def dest: table_ok_head)

lemma ut_inv_NULL_iff: "ut_inv s head xs \<Longrightarrow> head = NULL \<longleftrightarrow> xs = []"
  using ut_inv_head [of s head xs] ut_inv_live [of s head xs head]
  by (cases xs) (auto simp: live_def)

lemma ut_inv_length: "ut_inv s head xs \<Longrightarrow> length xs < 2 ^ 32"
  by (cases "xs = []") (auto simp: ut_inv_def table_ok_def)

lemma ut_lookup_in: "x \<in> set xs \<Longrightarrow> distinct (map (SID s) xs) \<Longrightarrow> ut_lookup s xs (SID s x) = x"
proof (induction xs)
  case (Cons y ys)
  show ?case
  proof (cases "x = y")
    case False
    with Cons.prems have x: "x \<in> set ys" by simp
    then have "SID s x \<noteq> SID s y" using Cons.prems(2) by (auto simp: image_iff)
    with x Cons show ?thesis by (auto simp: ut_lookup_def)
  qed (simp add: ut_lookup_def)
qed simp

lemma ut_lookup_notin: "idv \<notin> SID s ` set xs \<Longrightarrow> ut_lookup s xs idv = NULL"
  by (induction xs) (auto simp: ut_lookup_def)

lemma ut_lookup_cases:
  "(ut_lookup s xs idv = NULL \<and> idv \<notin> SID s ` set xs) \<or>
   (ut_lookup s xs idv \<in> set xs \<and> SID s (ut_lookup s xs idv) = idv)"
proof (cases "find (\<lambda>x. SID s x = idv) xs")
  case None
  then have "idv \<notin> SID s ` set xs" by (auto simp: find_None_iff)
  with None show ?thesis by (simp add: ut_lookup_def)
next
  case (Some x)
  then have "x \<in> set xs" "SID s x = idv" by (auto simp: find_Some_iff)
  with Some show ?thesis by (simp add: ut_lookup_def)
qed

section \<open>Walking a bucket\<close>

lemma find_in_bkt_path:
  assumes "path (HN s) out ys NULL" "\<And>y. y \<in> set ys \<Longrightarrow> member_ok s t y" "length ys < n"
  shows "HASH_FIND_IN_BKT n out (id_bytes idv) 4 (HASH_JEN (id_bytes idv)) s =
         Inr (case find (\<lambda>y. SID s y = idv) ys of None \<Rightarrow> NULL | Some y \<Rightarrow> y)"
  using assms
proof (induction ys arbitrary: out n)
  case Nil
  then show ?case by (cases n) auto
next
  case (Cons y ys)
  then obtain m where n: "n = Suc m" by (cases n) auto
  from Cons.prems have out: "out = y" "y \<noteq> NULL" and m: "member_ok s t y"
    and rest: "path (HN s) (HN s y) ys NULL" by auto
  from m have ly: "live (elems s) y" and ky: "key (HH s y) = y" "keylen (HH s y) = 4"
    and hv: "hashv (HH s y) = HASH_JEN (id_bytes (SID s y))"
    by (simp_all add: member_ok_def view_simps)
  have IH: "HASH_FIND_IN_BKT m (HN s y) (id_bytes idv) 4 (HASH_JEN (id_bytes idv)) s =
         Inr (case find (\<lambda>y. SID s y = idv) ys of None \<Rightarrow> NULL | Some y \<Rightarrow> y)"
    using Cons.prems n by (intro Cons.IH rest) auto
  have "load (elems s) y = Inr (the (cells (elems s) y))" by (rule load_live [OF ly])
  then show ?case
    using IH out ly ky hv by (auto simp: n view_run SID_def HN_def)
qed

lemma distinct_bounded_length:
  assumes "distinct xs" "\<And>x. x \<in> set xs \<Longrightarrow> x < (m :: nat)"
  shows "length xs \<le> m"
proof -
  have "set xs \<subseteq> {..<m}" using assms(2) by auto
  then have "card (set xs) \<le> m" using card_mono [of "{..<m}" "set xs"] by simp
  then show ?thesis using assms(1) by (simp add: distinct_card)
qed

lemma live_length_fuel:
  assumes "ut_mem_ok s" "distinct ys" "\<And>y. y \<in> set ys \<Longrightarrow> live (elems s) y"
  shows "length ys < fuel s"
proof -
  have "length ys \<le> brk (elems s)"
    using assms by (intro distinct_bounded_length) (auto simp: ut_mem_ok_def intro: heap_ok_live_lt)
  then show ?thesis by (simp add: fuel_def)
qed

lemma find_bucket_eq:
  assumes "set ys = {x \<in> set xs. P x}" "\<And>x. x \<in> set xs \<Longrightarrow> Q x \<Longrightarrow> P x"
    "\<And>x y. x \<in> set xs \<Longrightarrow> y \<in> set xs \<Longrightarrow> Q x \<Longrightarrow> Q y \<Longrightarrow> x = y"
  shows "find Q ys = find Q xs"
proof (cases "find Q xs")
  case None
  then have "find Q ys = None" using assms(1) by (auto simp: find_None_iff)
  with None show ?thesis by simp
next
  case (Some x)
  then have x: "x \<in> set xs" "Q x" by (auto simp: find_Some_iff)
  then have "x \<in> set ys" using assms by auto
  then obtain y where y: "find Q ys = Some y" using x by (metis find_None_iff not_None_eq)
  then have "y \<in> set ys" "Q y" by (auto simp: find_Some_iff)
  then have "y = x" using assms x by auto
  with y Some show ?thesis by simp
qed

text \<open>\<open>HASH_FIND\<close> returns the element of the table with the key, or \<open>NULL\<close>, and always returns.\<close>

lemma HASH_FIND_correct:
  assumes inv: "ut_inv s head xs"
  shows "HASH_FIND head idv s = Inr (ut_lookup s xs idv)"
proof (cases "xs = []")
  case True
  with inv show ?thesis by (simp add: HASH_FIND_def ut_lookup_def)
next
  case False
  with inv obtain t L cs where tab: "table_ok s head xs t L cs" and ok: "ut_mem_ok s"
    by (auto simp: ut_inv_def)
  define hv where "hv = HASH_JEN (id_bytes idv)"
  define T where "T = TT s t"
  define i where "i = unat hv mod 2 ^ L"
  have head: "head \<in> set xs" using False ut_inv_head [OF inv] by (cases xs) auto
  from tab have mem: "member_ok s t x" if "x \<in> set xs" for x using that by (auto simp: table_ok_def)
  have lh: "live (elems s) head" "tbl (HH s head) = t" using mem [OF head] by (auto simp: member_ok_def view_simps)
  from tab have L: "L < 32" and nb: "num_buckets T = 2 ^ L"
    and lt: "live (tbls s) t" and lb: "live (bkts s) (buckets T)"
    and bk: "bkts_ok (HN s) (HP s) (HV s) (BB s (buckets T)) (2 ^ L) (set xs) cs"
    by (auto simp: table_ok_def T_def)
  have i: "i < 2 ^ L" by (simp add: i_def)
  have bi: "unat (HASH_TO_BKT hv (num_buckets T)) = i" using L nb by (simp add: HASH_TO_BKT_mod i_def)
  from bk i have len: "length (BB s (buckets T)) = 2 ^ L"
    and set: "set (cs i) = {x \<in> set xs. unat (HV s x) mod 2 ^ L = i}"
    and "\<exists>tl. dll (HN s) (HP s) (hh_head (BB s (buckets T) ! i)) (cs i) tl"
    by (auto simp: bkts_ok_def)
  then have path: "path (HN s) (hh_head (BB s (buckets T) ! i)) (cs i) NULL"
    and dist: "distinct (cs i)" by (auto simp: dll_def)
  have mem': "member_ok s t y" if "y \<in> set (cs i)" for y using that set mem by auto
  have "length (cs i) < fuel s"
    using ok dist mem' by (intro live_length_fuel) (auto simp: member_ok_def)
  with path mem' have "HASH_FIND_IN_BKT (fuel s) (hh_head (BB s (buckets T) ! i)) (id_bytes idv) 4 hv s =
      Inr (case find (\<lambda>y. SID s y = idv) (cs i) of None \<Rightarrow> NULL | Some y \<Rightarrow> y)"
    unfolding hv_def by (intro find_in_bkt_path)
  moreover have "find (\<lambda>y. SID s y = idv) (cs i) = find (\<lambda>y. SID s y = idv) xs"
  proof (rule find_bucket_eq [OF set])
    fix x assume "x \<in> set xs" "SID s x = idv"
    then show "unat (HV s x) mod 2 ^ L = i" using mem by (simp add: member_ok_def i_def hv_def)
  next
    fix x y assume "x \<in> set xs" "y \<in> set xs" "SID s x = idv" "SID s y = idv"
    then show "x = y" using ut_inv_distinct_ids [OF inv] by (auto simp: distinct_map inj_on_def)
  qed
  ultimately show ?thesis
    using lh lt lb bi len i live_def [of "elems s" head]
    by (simp add: HASH_FIND_def view_run T_def [symmetric] hv_def [symmetric] ut_lookup_def)
qed

end
