(* ===== verification/Uthash_Expand.thy ===== *)
theory Uthash_Expand
  imports Uthash_Find
begin

text \<open>
  Doubling the bucket array. \<open>HASH_EXPAND_BUCKETS\<close> moves every element into one of twice as many
  buckets: \<open>expand_move\<close> is right for one element, \<open>expand_chain\<close> for an old bucket and
  \<open>expand_outer\<close> for all of them; the table then satisfies the invariant with one more doubling
  and the same elements in the same order. All three terminate within their fuel.
\<close>

section \<open>What expansion leaves alone\<close>

definition exp_frame :: "('a elem_scheme, 'b) ut_mem_scheme \<Rightarrow> addr \<Rightarrow> addr \<Rightarrow>
    ('a elem_scheme, 'b) ut_mem_scheme \<Rightarrow> bool" where
  "exp_frame s t nb s' \<longleftrightarrow>
     NX s' = NX s \<and> PV s' = PV s \<and> HV s' = HV s \<and> SID s' = SID s \<and>
     TB s' = TB s \<and> KY s' = KY s \<and> KL s' = KL s \<and>
     (\<exists>k. TT s' = (TT s)(t := (TT s t)\<lparr>nonideal_items := k\<rparr>)) \<and>
     (\<forall>b. b \<noteq> nb \<longrightarrow> BB s' b = BB s b) \<and>
     live (elems s') = live (elems s) \<and> live (tbls s') = live (tbls s) \<and>
     live (bkts s') = live (bkts s) \<and> oom s' = oom s \<and> fuel s' = fuel s \<and>
     ut_frame s s' \<and> (ut_mem_ok s \<longrightarrow> ut_mem_ok s')"

lemma exp_frame_refl: "exp_frame s t nb s"
  by (auto simp: exp_frame_def intro: exI [of _ "nonideal_items (TT s t)"])

lemma exp_frame_trans: "exp_frame s t nb s' \<Longrightarrow> exp_frame s' t nb s'' \<Longrightarrow> exp_frame s t nb s''"
  by (auto simp: exp_frame_def intro: ut_frame_trans)

lemma exp_frame_same:
  assumes "exp_frame s t nb s'"
  shows "NX s' = NX s" "PV s' = PV s" "HV s' = HV s" "SID s' = SID s"
    "TB s' = TB s" "KY s' = KY s" "KL s' = KL s"
    "live (elems s') = live (elems s)" "live (tbls s') = live (tbls s)"
    "live (bkts s') = live (bkts s)" "oom s' = oom s" "fuel s' = fuel s"
    "num_buckets (TT s' t) = num_buckets (TT s t)" "buckets (TT s' t) = buckets (TT s t)"
    "log2_num_buckets (TT s' t) = log2_num_buckets (TT s t)" "tail (TT s' t) = tail (TT s t)"
    "num_items (TT s' t) = num_items (TT s t)" "b \<noteq> nb \<Longrightarrow> BB s' b = BB s b"
  using assms by (auto simp: exp_frame_def)

section \<open>Moving one element\<close>

text \<open>
  The multiplier of a bucket is raised at most once for each element that goes in, so that it does not exceed the
  length of the bucket's chain.
\<close>

definition mult_ok :: "UT_hash_bucket list \<Rightarrow> nat \<Rightarrow> (nat \<Rightarrow> addr list) \<Rightarrow> bool" where
  "mult_ok B n cs \<longleftrightarrow> (\<forall>i < n. unat (expand_mult (B ! i)) \<le> length (cs i))"

lemma unat_plus_one_le: "unat (w + 1) \<le> Suc (unat w)" for w :: u32
  by (simp add: unat_word_ariths)

lemma mult_ok_push:
  assumes "mult_ok B n cs" "length B = n" "i < n" "unat (expand_mult b) \<le> Suc (unat (expand_mult (B ! i)))"
  shows "mult_ok (B[i := b]) n (cs(i := x # cs i))"
  using assms by (auto simp: mult_ok_def nth_list_update intro: order_trans)

lemma expand_count_ok:
  assumes "live (tbls s) t" "live (bkts s) nb" "unat i < length (BB s nb)"
  shows "\<exists>k em. unat em \<le> Suc (unat (expand_mult (BB s nb ! unat i))) \<and> expand_count B ideal t nb i s =
         Inr (put_bkts nb ((BB s nb)[unat i := (BB s nb ! unat i)\<lparr>expand_mult := em\<rparr>])
               (put_tbl t ((TT s t)\<lparr>nonideal_items := k\<rparr>) s))"
proof -
  have same: "put_bkts nb ((BB s nb)[unat i := (BB s nb ! unat i)\<lparr>expand_mult := expand_mult (BB s nb ! unat i)\<rparr>])
       (put_tbl t T s) = put_tbl t T s" for T
    using assms put_bkts_same [of "put_tbl t T s" nb] by (simp add: view_simps)
  have same': "put_tbl t ((TT s t)\<lparr>nonideal_items := nonideal_items (TT s t)\<rparr>) s = s"
    using assms put_tbl_same [of s t] by simp
  show ?thesis
  proof (cases "ideal < bcount B")
    case False
    then show ?thesis using same [of "TT s t"] same' put_tbl_same [OF assms(1)]
      by (intro exI [of _ "nonideal_items (TT s t)"] exI [of _ "expand_mult (BB s nb ! unat i)"])
        (simp add: expand_count_def)
  next
    case c: True
    show ?thesis
    proof (cases "expand_mult B * ideal < bcount B")
      case True
      then show ?thesis using c assms unat_plus_one_le
        by (intro exI [of _ "nonideal_items (TT s t) + 1"] exI [of _ "expand_mult (BB s nb ! unat i) + 1"])
          (simp add: expand_count_def view_run view_simps)
    next
      case False
      then show ?thesis using c assms same
        by (intro exI [of _ "nonideal_items (TT s t) + 1"] exI [of _ "expand_mult (BB s nb ! unat i)"])
          (simp add: expand_count_def view_run view_simps)
    qed
  qed
qed

lemma expand_move_ok:
  assumes x: "live (elems s) x" "x \<notin> P" and P: "\<And>y. y \<in> P \<Longrightarrow> live (elems s) y"
    and t: "live (tbls s) t" and nb: "live (bkts s) nb"
    and L: "num_buckets (TT s t) = 2 ^ L" "L < 31"
    and ok: "bkts_ok (HN s) (HP s) (HV s) (BB s nb) (2 ^ Suc L) P ds"
  shows "\<exists>s' ds'. expand_move x t nb s = Inr s' \<and>
           bkts_ok (HN s') (HP s') (HV s') (BB s' nb) (2 ^ Suc L) (insert x P) ds' \<and>
           (\<forall>y. y \<noteq> x \<longrightarrow> HN s' y = HN s y) \<and> exp_frame s t nb s' \<and>
           (mult_ok (BB s nb) (2 ^ Suc L) ds \<longrightarrow> mult_ok (BB s' nb) (2 ^ Suc L) ds')"
proof -
  define w where "w = HASH_TO_BKT (HV s x) (num_buckets (TT s t) * 2)"
  define i where "i = unat w"
  have i: "i = unat (HV s x) mod 2 ^ Suc L"
    using L HASH_TO_BKT_mod [of "Suc L" "HV s x"] by (simp add: i_def w_def mult.commute)
  then have i_n: "i < 2 ^ Suc L" by simp
  have len: "length (BB s nb) = 2 ^ Suc L" using ok by (simp add: bkts_ok_def)
  have x0: "x \<noteq> NULL" "t \<noteq> NULL" "nb \<noteq> NULL" using x t nb by (auto simp: live_def)
  define b1 where "b1 = (BB s nb ! i)\<lparr>bcount := bcount (BB s nb ! i) + 1\<rparr>"
  define h where "h = hh_head (BB s nb ! i)"
  have h_live: "live (elems s) h" "h \<noteq> x" if "h \<noteq> NULL"
  proof -
    obtain tl where "dll (HN s) (HP s) h (ds i) tl" using ok i_n by (auto simp: bkts_ok_def h_def)
    then have "h \<in> set (ds i)" using that dll_head by (cases "ds i") fastforce+
    then have "h \<in> P" using ok i_n by (auto simp: bkts_ok_def)
    with P x show "live (elems s) h" "h \<noteq> x" by auto
  qed
  define s1 where "s1 = put_bkts nb ((BB s nb)[i := b1]) s"
  have s1: "live (tbls s1) t" "live (bkts s1) nb" "unat w < length (BB s1 nb)"
    "BB s1 nb ! i = b1" "upd_bkt nb w (\<lambda>B. B\<lparr>bcount := bcount B + 1\<rparr>) s = Inr s1"
    using t nb x0 len i_n by (auto simp: s1_def view_simps view_run i_def b1_def)
  have TT1: "TT s1 = TT s" by (simp add: s1_def view_simps)
  obtain k em where em: "unat em \<le> Suc (unat (expand_mult b1))" and mid: "expand_count b1 (ideal_chain_maxlen (TT s t)) t nb w s1 =
         Inr (put_bkts nb ((BB s1 nb)[i := b1\<lparr>expand_mult := em\<rparr>])
               (put_tbl t ((TT s t)\<lparr>nonideal_items := k\<rparr>) s1))"
    using expand_count_ok [OF s1(1,2,3), of b1 "ideal_chain_maxlen (TT s t)"]
    unfolding i_def [symmetric] s1(4) TT1 by blast
  define s2 where "s2 = put_bkts nb ((BB s1 nb)[i := b1\<lparr>expand_mult := em\<rparr>])
               (put_tbl t ((TT s t)\<lparr>nonideal_items := k\<rparr>) s1)"
  define s3 where "s3 = put_hh x ((HH s x)\<lparr>hh_prev := NULL, hh_next := h\<rparr>) s2"
  define s4 where "s4 = (if h \<noteq> NULL then put_hh h ((HH s h)\<lparr>hh_prev := x\<rparr>) s3 else s3)"
  define b where "b = b1\<lparr>expand_mult := em, hh_head := x\<rparr>"
  define s5 where "s5 = put_bkts nb ((BB s nb)[i := b]) s4"
  have lx: "live (elems s2) x" "HH s2 x = HH s x"
    using x by (simp_all add: s2_def s1_def view_simps)
  have run: "expand_move x t nb s = Inr s5"
  proof -
    have g: "get_hh x s = Inr (HH s x)" "get_tbl t s = Inr (TT s t)" "get_bkt nb w s1 = Inr b1"
      "upd_hh x (\<lambda>h'. h'\<lparr>hh_prev := NULL, hh_next := h\<rparr>) s2 = Inr s3"
      using x t s1 lx by (simp_all add: view_run i_def [symmetric] s3_def)
    have h1: "hh_head b1 = h" by (simp add: b1_def h_def)
    have u: "(if h \<noteq> NULL then upd_hh h (\<lambda>h. h\<lparr>hh_prev := x\<rparr>) s3 else Inr s3) = Inr s4"
      using h_live x t nb by (auto simp: s4_def s3_def s2_def s1_def view_run view_simps)
    have B4: "BB s4 nb = (BB s nb)[i := b1\<lparr>expand_mult := em\<rparr>]" "live (bkts s4) nb"
      using nb x0 by (auto simp: s4_def s3_def s2_def s1_def view_simps)
    have v: "upd_bkt nb w (\<lambda>B. B\<lparr>hh_head := x\<rparr>) s4 = Inr s5"
      using B4 len i_n by (simp add: view_run i_def [symmetric] s5_def b_def)
    show ?thesis
      using g h1 u v s1(5) mid
      by (cases "h = NULL")
        (simp_all add: expand_move_def Let_def handle_views(5) w_def [symmetric] s2_def [symmetric])
  qed
  have HN5: "HN s5 = (HN s)(x := h)"
    using h_live x0 by (auto simp: s5_def s4_def s3_def s2_def s1_def view_simps fun_eq_iff)
  have HP5: "HP s5 = (if h = NULL then (HP s)(x := NULL) else (HP s)(x := NULL, h := x))"
    using h_live x0 by (auto simp: s5_def s4_def s3_def s2_def s1_def view_simps fun_eq_iff)
  have BB5: "BB s5 = (BB s)(nb := (BB s nb)[i := b])"
    by (auto simp: s5_def s4_def s3_def s2_def s1_def view_simps fun_eq_iff)
  have HV5: "HV s5 = HV s"
    using h_live x0 by (auto simp: s5_def s4_def s3_def s2_def s1_def view_simps fun_eq_iff)
  have new: "bkts_ok (HN s5) (HP s5) (HV s5) (BB s5 nb) (2 ^ Suc L) (insert x P) (ds(i := x # ds i))"
    unfolding HN5 HV5 BB5 fun_upd_same
    by (rule bkts_ok_push [OF ok x(2) x0(1) _ i]) (simp_all add: b_def b1_def h_def HP5)
  have fr: "exp_frame s t nb s5"
    unfolding exp_frame_def
  proof (intro conjI)
    show "\<exists>k. TT s5 = (TT s)(t := (TT s t)\<lparr>nonideal_items := k\<rparr>)"
      by (rule exI [of _ k]) (auto simp: s5_def s4_def s3_def s2_def s1_def view_simps)
    show "ut_frame s s5"
      using x x0 h_live by (auto simp: s5_def s4_def s3_def s2_def s1_def view_simps)
    show "ut_mem_ok s \<longrightarrow> ut_mem_ok s5"
      using x x0 h_live t nb
      by (auto simp: s5_def s4_def s3_def s2_def s1_def view_simps ut_mem_ok_put)
  qed (use x x0 h_live t nb in \<open>auto simp: s5_def s4_def s3_def s2_def s1_def view_simps fun_eq_iff\<close>)
  have "mult_ok (BB s5 nb) (2 ^ Suc L) (ds(i := x # ds i))" if "mult_ok (BB s nb) (2 ^ Suc L) ds"
    unfolding BB5 fun_upd_same by (rule mult_ok_push [OF that len i_n]) (use em in \<open>simp add: b_def b1_def\<close>)
  then show ?thesis
    using run new fr HN5 by (intro exI [of _ s5] exI [of _ "ds(i := x # ds i)"]) simp
qed

section \<open>Moving a bucket, and all of them\<close>

lemma expand_chain_ok:
  assumes "path (HN s) x ys NULL" "distinct ys" "set ys \<inter> P = {}"
    "\<And>y. y \<in> set ys \<union> P \<Longrightarrow> live (elems s) y" "length ys < n"
    "live (tbls s) t" "live (bkts s) nb" "num_buckets (TT s t) = 2 ^ L" "L < 31"
    "bkts_ok (HN s) (HP s) (HV s) (BB s nb) (2 ^ Suc L) P ds"
  shows "\<exists>s' ds'. expand_chain n x t nb s = Inr s' \<and>
           bkts_ok (HN s') (HP s') (HV s') (BB s' nb) (2 ^ Suc L) (set ys \<union> P) ds' \<and>
           (\<forall>y. y \<notin> set ys \<longrightarrow> HN s' y = HN s y) \<and> exp_frame s t nb s' \<and>
           (mult_ok (BB s nb) (2 ^ Suc L) ds \<longrightarrow> mult_ok (BB s' nb) (2 ^ Suc L) ds')"
  using assms
proof (induction ys arbitrary: x n s P ds)
  case Nil
  then obtain m where "n = Suc m" by (cases n) auto
  with Nil show ?case using exp_frame_refl [of s t nb] by auto
next
  case (Cons y ys)
  obtain m where n: "n = Suc m" using Cons.prems(5) by (cases n) auto
  have x: "x = y" "y \<noteq> NULL" and rest: "path (HN s) (HN s y) ys NULL" using Cons.prems(1) by auto
  have ly: "live (elems s) y" "y \<notin> P" using Cons.prems(3,4) by auto
  obtain s1 ds1 where run: "expand_move y t nb s = Inr s1"
    and ok1: "bkts_ok (HN s1) (HP s1) (HV s1) (BB s1 nb) (2 ^ Suc L) (insert y P) ds1"
    and hn: "\<forall>z. z \<noteq> y \<longrightarrow> HN s1 z = HN s z" and fr: "exp_frame s t nb s1"
    and mu: "mult_ok (BB s nb) (2 ^ Suc L) ds \<longrightarrow> mult_ok (BB s1 nb) (2 ^ Suc L) ds1"
    using expand_move_ok [OF ly _ Cons.prems(6,7,8,9,10)] Cons.prems(4) by auto
  note same = exp_frame_same [OF fr]
  have "path (HN s1) (HN s y) ys NULL"
    using rest hn Cons.prems(2) by (subst path_cong [of ys _ "HN s"]) auto
  moreover have "set ys \<inter> insert y P = {}" using Cons.prems(2,3) by auto
  moreover have "length ys < m" using Cons.prems(5) n by simp
  ultimately obtain s2 ds2 where run2: "expand_chain m (HN s y) t nb s1 = Inr s2"
    and ok2: "bkts_ok (HN s2) (HP s2) (HV s2) (BB s2 nb) (2 ^ Suc L) (set ys \<union> insert y P) ds2"
    and hn2: "\<forall>z. z \<notin> set ys \<longrightarrow> HN s2 z = HN s1 z" and fr2: "exp_frame s1 t nb s2"
    and mu2: "mult_ok (BB s1 nb) (2 ^ Suc L) ds1 \<longrightarrow> mult_ok (BB s2 nb) (2 ^ Suc L) ds2"
    using Cons.IH [of s1 "HN s y" "insert y P" m ds1] Cons.prems ok1 same by auto
  have "expand_chain n x t nb s = Inr s2"
    using run run2 x ly by (simp add: n view_run handle_views)
  moreover have "exp_frame s t nb s2" using fr fr2 by (rule exp_frame_trans)
  ultimately show ?case using ok2 hn hn2 mu mu2 by (intro exI [of _ s2] exI [of _ ds2]) auto
qed

lemma expand_outer_ok:
  assumes "\<And>k. k \<in> {i..<i + n} \<Longrightarrow> path (HN s) (hh_head (BB s b ! k)) (cs k) NULL \<and> distinct (cs k) \<and>
             set (cs k) \<inter> P = {}"
    "\<And>j k. j \<in> {i..<i + n} \<Longrightarrow> k \<in> {i..<i + n} \<Longrightarrow> j \<noteq> k \<Longrightarrow> set (cs j) \<inter> set (cs k) = {}"
    "\<And>y. y \<in> P \<union> (\<Union>k \<in> {i..<i + n}. set (cs k)) \<Longrightarrow> live (elems s) y"
    "live (tbls s) t" "live (bkts s) nb" "live (bkts s) b" "b \<noteq> nb" "b = buckets (TT s t)"
    "i + n = 2 ^ L" "length (BB s b) = 2 ^ L" "num_buckets (TT s t) = 2 ^ L" "L < 31" "ut_mem_ok s"
    "bkts_ok (HN s) (HP s) (HV s) (BB s nb) (2 ^ Suc L) P ds"
  shows "\<exists>s' ds'. expand_outer n i t nb s = Inr s' \<and>
           bkts_ok (HN s') (HP s') (HV s') (BB s' nb) (2 ^ Suc L) (P \<union> (\<Union>k \<in> {i..<i + n}. set (cs k))) ds' \<and>
           exp_frame s t nb s' \<and> (mult_ok (BB s nb) (2 ^ Suc L) ds \<longrightarrow> mult_ok (BB s' nb) (2 ^ Suc L) ds')"
  using assms
proof (induction n arbitrary: i s P ds)
  case 0
  then show ?case using exp_frame_refl [of s t nb] by auto
next
  case (Suc n)
  have ii: "i \<in> {i..<i + Suc n}" by simp
  have i: "i < 2 ^ L" using Suc.prems(9) by simp
  also have "(2 :: nat) ^ L < 2 ^ 32" using Suc.prems(12) by (intro power_strict_increasing) simp_all
  finally have ui: "unat (of_nat i :: u32) = i" by (simp add: unat_of_nat)
  have ci: "path (HN s) (hh_head (BB s b ! i)) (cs i) NULL" "distinct (cs i)" "set (cs i) \<inter> P = {}"
    using Suc.prems(1) [OF ii] by simp_all
  have li: "live (elems s) y" if "y \<in> set (cs i) \<union> P" for y
    using Suc.prems(3) [of y] that ii by blast
  have "length (cs i) < fuel s"
    using Suc.prems(13) ci(2) li by (intro live_length_fuel) auto
  then obtain s1 ds1 where run: "expand_chain (fuel s) (hh_head (BB s b ! i)) t nb s = Inr s1"
    and ok1: "bkts_ok (HN s1) (HP s1) (HV s1) (BB s1 nb) (2 ^ Suc L) (set (cs i) \<union> P) ds1"
    and hn: "\<forall>z. z \<notin> set (cs i) \<longrightarrow> HN s1 z = HN s z" and fr: "exp_frame s t nb s1"
    and mu: "mult_ok (BB s nb) (2 ^ Suc L) ds \<longrightarrow> mult_ok (BB s1 nb) (2 ^ Suc L) ds1"
    using expand_chain_ok [OF ci li _ Suc.prems(4,5,11,12,14)] by blast
  note same = exp_frame_same [OF fr]
  have bb: "BB s1 b = BB s b" using same(18) [of b] Suc.prems(7) by simp
  have range: "{Suc i..<Suc i + n} \<subseteq> {i..<i + Suc n}" "{i..<i + Suc n} = insert i {Suc i..<Suc i + n}" by auto
  have chains: "path (HN s1) (hh_head (BB s1 b ! k)) (cs k) NULL \<and> distinct (cs k) \<and>
             set (cs k) \<inter> (set (cs i) \<union> P) = {}" if k: "k \<in> {Suc i..<Suc i + n}" for k
  proof -
    have k': "k \<in> {i..<i + Suc n}" "k \<noteq> i" using k by auto
    have "set (cs k) \<inter> set (cs i) = {}" using Suc.prems(2) [OF k'(1) ii k'(2)] .
    moreover from this have "path (HN s1) h (cs k) NULL = path (HN s) h (cs k) NULL" for h
      using hn by (intro path_cong) auto
    ultimately show ?thesis using Suc.prems(1) [OF k'(1)] bb by auto
  qed
  have ex: "\<exists>s' ds'. expand_outer n (Suc i) t nb s1 = Inr s' \<and>
           bkts_ok (HN s') (HP s') (HV s') (BB s' nb) (2 ^ Suc L)
             ((set (cs i) \<union> P) \<union> (\<Union>k \<in> {Suc i..<Suc i + n}. set (cs k))) ds' \<and>
           exp_frame s1 t nb s' \<and> (mult_ok (BB s1 nb) (2 ^ Suc L) ds1 \<longrightarrow> mult_ok (BB s' nb) (2 ^ Suc L) ds')"
  proof (rule Suc.IH [OF chains])
    show "set (cs j) \<inter> set (cs k) = {}"
      if "j \<in> {Suc i..<Suc i + n}" "k \<in> {Suc i..<Suc i + n}" "j \<noteq> k" for j k
      using Suc.prems(2) [of j k] that range(1) by blast
    show "live (elems s1) y" if "y \<in> set (cs i) \<union> P \<union> (\<Union>k \<in> {Suc i..<Suc i + n}. set (cs k))" for y
      using Suc.prems(3) [of y] that range same(8) ii by auto
    show "ut_mem_ok s1" using fr Suc.prems(13) by (simp add: exp_frame_def)
  qed (use Suc.prems same bb ok1 in auto)
  then obtain s2 ds2 where run2: "expand_outer n (Suc i) t nb s1 = Inr s2"
    and ok2: "bkts_ok (HN s2) (HP s2) (HV s2) (BB s2 nb) (2 ^ Suc L)
             ((set (cs i) \<union> P) \<union> (\<Union>k \<in> {Suc i..<Suc i + n}. set (cs k))) ds2"
    and fr2: "exp_frame s1 t nb s2" and mu2: "mult_ok (BB s1 nb) (2 ^ Suc L) ds1 \<longrightarrow> mult_ok (BB s2 nb) (2 ^ Suc L) ds2"
    by blast
  have "expand_outer (Suc n) i t nb s = Inr s2"
    using run run2 ui i Suc.prems(4,6,8,10) by (simp add: view_run)
  moreover have "(set (cs i) \<union> P) \<union> (\<Union>k \<in> {Suc i..<Suc i + n}. set (cs k)) =
      P \<union> (\<Union>k \<in> {i..<i + Suc n}. set (cs k))"
    unfolding range(2) by auto
  ultimately show ?case using ok2 exp_frame_trans [OF fr fr2] mu mu2 by (intro exI [of _ s2] exI [of _ ds2]) simp
qed

end
