(* ===== verification/Uthash_Add.thy ===== *)
theory Uthash_Add
  imports Uthash_Expand
begin

text \<open>
  The correctness of expansion and of insertion. \<open>HASH_EXPAND_BUCKETS\<close> keeps a table's elements
  and doubles its buckets; \<open>HASH_ADD\<close> appends a new element, into an existing table or into a new
  one, and both stop the program (\<open>exit(-1)\<close>) when an allocation fails. The one bound is on the
  number of doublings: a table of \<open>2 ^ 31\<close> buckets cannot double in an \<open>unsigned\<close>.
\<close>

section \<open>A table without its order\<close>

text \<open>
  What the buckets need of a table: it holds the set \<open>P\<close> of elements. \<open>bkt_frame\<close> is what linking into a
  bucket and expansion leave alone: the list of all elements, and other tables.
\<close>

definition table_core :: "('a elem_scheme, 'b) ut_mem_scheme \<Rightarrow> addr set \<Rightarrow> addr \<Rightarrow> nat \<Rightarrow> (nat \<Rightarrow> addr list) \<Rightarrow> bool" where
  "table_core s P t L cs \<longleftrightarrow>
     live (tbls s) t \<and> live (bkts s) (buckets (TT s t)) \<and> (\<forall>x \<in> P. member_ok s t x) \<and>
     L < 32 \<and> num_buckets (TT s t) = 2 ^ L \<and> log2_num_buckets (TT s t) = of_nat L \<and>
     bkts_ok (HN s) (HP s) (HV s) (BB s (buckets (TT s t))) (2 ^ L) P cs"

lemma table_ok_core:
  "table_ok s head xs t L cs \<longleftrightarrow> table_core s (set xs) t L cs \<and> dll (NX s) (PV s) head xs (tail (TT s t)) \<and>
     distinct (map (SID s) xs) \<and> num_items (TT s t) = of_nat (length xs) \<and> length xs < 2 ^ 32"
  by (auto simp: table_ok_def table_core_def)

definition bkt_frame :: "('a elem_scheme, 'b) ut_mem_scheme \<Rightarrow> addr \<Rightarrow> ('a elem_scheme, 'b) ut_mem_scheme \<Rightarrow> bool" where
  "bkt_frame s t s' \<longleftrightarrow>
     NX s' = NX s \<and> PV s' = PV s \<and> HV s' = HV s \<and> TB s' = TB s \<and> KY s' = KY s \<and> KL s' = KL s \<and>
     live (elems s') = live (elems s) \<and> live (tbls s') = live (tbls s) \<and>
     tail (TT s' t) = tail (TT s t) \<and> num_items (TT s' t) = num_items (TT s t) \<and> (\<forall>u. u \<noteq> t \<longrightarrow> TT s' u = TT s u) \<and>
     (\<forall>c. live (bkts s) c \<and> c \<noteq> buckets (TT s t) \<longrightarrow> live (bkts s') c \<and> BB s' c = BB s c) \<and>
     (buckets (TT s' t) = buckets (TT s t) \<or> \<not> live (bkts s) (buckets (TT s' t)))"

lemma bkt_frame_trans: "bkt_frame s t s' \<Longrightarrow> bkt_frame s' t s'' \<Longrightarrow> live (bkts s) (buckets (TT s t)) \<Longrightarrow> bkt_frame s t s''"
  by (auto simp: bkt_frame_def)

lemma table_core_chain:
  assumes "table_core s P t L cs" "k < 2 ^ L"
  shows "path (HN s) (hh_head (BB s (buckets (TT s t)) ! k)) (cs k) NULL" "distinct (cs k)"
    "set (cs k) = {x \<in> P. unat (HV s x) mod 2 ^ L = k}"
  using assms by (auto simp: table_core_def bkts_ok_def dll_def)

text \<open>The memory before and after the items move to the new buckets.\<close>

definition expand_pre :: "addr \<Rightarrow> ('a elem_scheme, 'b) ut_mem_scheme \<Rightarrow> ('a elem_scheme, 'b) ut_mem_scheme" where
  "expand_pre t s = put_tbl t ((TT s t)\<lparr>ideal_chain_maxlen :=
       drop_bit (unat (log2_num_buckets (TT s t) + 1)) (num_items (TT s t)) +
       (if num_items (TT s t) AND (num_buckets (TT s t) * 2 - 1) \<noteq> 0 then 1 else 0), nonideal_items := 0\<rparr>)
     (new_bkts (replicate (2 * unat (num_buckets (TT s t))) zero_bucket) s)"

definition expand_tbl :: "addr \<Rightarrow> UT_hash_table \<Rightarrow> UT_hash_table" where
  "expand_tbl nb T = (let T = T\<lparr>num_buckets := num_buckets T * 2, log2_num_buckets := log2_num_buckets T + 1, buckets := nb,
       ineff_expands := (if drop_bit 1 (num_items T) < nonideal_items T then ineff_expands T + 1 else 0)\<rparr>
     in if 1 < ineff_expands T then T\<lparr>noexpand := 1\<rparr> else T)"

definition expand_post :: "addr \<Rightarrow> addr \<Rightarrow> ('a elem_scheme, 'b) ut_mem_scheme \<Rightarrow> ('a elem_scheme, 'b) ut_mem_scheme" where
  "expand_post t nb s = put_tbl t (expand_tbl nb (TT s t)) (del_bkts (buckets (TT s t)) s)"

lemma put_tbl_put [simp]: "put_tbl t T (put_tbl t T' s) = put_tbl t T s"
  by (simp add: put_tbl_def)

lemma HASH_EXPAND_run:
  assumes "live (tbls s) t" "alloc_ok (oom s)" "ut_mem_ok s"
    and "expand_outer (unat (num_buckets (TT s t))) 0 t (brk (bkts s)) (expand_pre t s) = Inr s3"
    and "live (tbls s3) t" "live (bkts s3) (buckets (TT s3 t))"
  shows "HASH_EXPAND_BUCKETS t s = Inr (expand_post t (brk (bkts s)) s3)"
proof -
  define nb where "nb = brk (bkts s)"
  define B0 where "B0 = replicate (2 * unat (num_buckets (TT s t))) zero_bucket"
  have nb0: "nb \<noteq> NULL" using brk_nonnull [OF assms(3)] by (simp add: nb_def)
  have 1: "calloc B0 (oom s) (bkts s) = (nb, tl (oom s), bkts (new_bkts B0 s))"
    using calloc_bkts_ok [OF assms(2), of B0] by (simp add: nb_def)
  have l: "live (tbls (new_bkts B0 s)) t" "TT (new_bkts B0 s) t = TT s t" using assms(1) by (simp_all add: view_simps)
  have "HASH_EXPAND_BUCKETS t s = rbind (expand_outer (unat (num_buckets (TT s t))) 0 t nb (expand_pre t s)) (\<lambda>s.
       rbind (get_tbl t s) (\<lambda>T.
       rbind (dealloc (bkts s) (buckets T)) (\<lambda>bs.
       rbind (upd_tbl t (\<lambda>T. T\<lparr>num_buckets := num_buckets T * 2,
                log2_num_buckets := log2_num_buckets T + 1, buckets := nb,
                ineff_expands := (if drop_bit 1 (num_items T) < nonideal_items T
                                  then ineff_expands T + 1 else 0)\<rparr>) (s\<lparr>bkts := bs\<rparr>)) (\<lambda>s.
       upd_tbl t (\<lambda>T. if 1 < ineff_expands T then T\<lparr>noexpand := 1\<rparr> else T) s))))"
    using nb0 assms(1) l unfolding HASH_EXPAND_BUCKETS_def B0_def [symmetric] get_tbl_live [OF assms(1)] rbind_Inr 1 Let_def prod.case
    by (simp add: new_fold upd_tbl_live expand_pre_def B0_def del: One_nat_def)
  also have "\<dots> = Inr (expand_post t nb s3)"
  proof -
    have l3: "live (tbls (del_bkts (buckets (TT s3 t)) s3)) t" using assms(5) by (simp add: view_simps)
    have 2: "get_tbl t s3 = Inr (TT s3 t)" "dealloc (bkts s3) (buckets (TT s3 t)) = Inr (bkts (del_bkts (buckets (TT s3 t)) s3))"
      "s3\<lparr>bkts := bkts (del_bkts (buckets (TT s3 t)) s3)\<rparr> = del_bkts (buckets (TT s3 t)) s3"
      using assms(5,6) by (simp_all add: get_tbl_live dealloc_bkts_live del_fold)
    show ?thesis unfolding assms(4) [folded nb_def] rbind_Inr 2
      using l3 by (simp add: upd_tbl_live expand_post_def expand_tbl_def Let_def view_simps del: One_nat_def)
  qed
  finally show ?thesis by (simp only: nb_def)
qed

lemma expand_pre_views:
  assumes "live (tbls s) t" "live (bkts s) b" "b = buckets (TT s t)" "ut_mem_ok s"
  shows "HN (expand_pre t s) = HN s" "HP (expand_pre t s) = HP s" "HV (expand_pre t s) = HV s" "NX (expand_pre t s) = NX s"
    "PV (expand_pre t s) = PV s" "SID (expand_pre t s) = SID s" "TB (expand_pre t s) = TB s" "KY (expand_pre t s) = KY s"
    "KL (expand_pre t s) = KL s" "live (elems (expand_pre t s)) = live (elems s)" "live (tbls (expand_pre t s)) = live (tbls s)"
    "oom (expand_pre t s) = tl (oom s)" "ut_mem_ok (expand_pre t s)" "ut_frame s (expand_pre t s)"
    "BB (expand_pre t s) (brk (bkts s)) = replicate (2 * unat (num_buckets (TT s t))) zero_bucket"
    "live (bkts (expand_pre t s)) (brk (bkts s))" "b \<noteq> brk (bkts s)"
    "live (bkts s) c \<Longrightarrow> live (bkts (expand_pre t s)) c \<and> BB (expand_pre t s) c = BB s c"
    "num_buckets (TT (expand_pre t s) t) = num_buckets (TT s t)" "buckets (TT (expand_pre t s) t) = b"
    "log2_num_buckets (TT (expand_pre t s) t) = log2_num_buckets (TT s t)" "tail (TT (expand_pre t s) t) = tail (TT s t)"
    "num_items (TT (expand_pre t s) t) = num_items (TT s t)" "u \<noteq> t \<Longrightarrow> TT (expand_pre t s) u = TT s u"
proof -
  note f = fresh_not_live [OF assms(4)] brk_nonnull [OF assms(4)]
  show "live (bkts s) c \<Longrightarrow> live (bkts (expand_pre t s)) c \<and> BB (expand_pre t s) c = BB s c"
  proof -
    assume c: "live (bkts s) c"
    then have "c \<noteq> brk (bkts s)" "c \<noteq> NULL" using f by (auto simp: live_def)
    then show ?thesis using c assms(1) by (simp add: expand_pre_def view_simps)
  qed
  show "b \<noteq> brk (bkts s)" using assms(2) f by auto
qed (use assms brk_nonnull [OF assms(4)] in \<open>simp_all add: expand_pre_def view_simps ut_mem_ok_put ut_mem_ok_alloc\<close>)

lemma expand_moved:
  assumes tab: "table_core s P t L cs" and mem: "ut_mem_ok s" and L: "L < 31"
  shows "\<exists>s3 ds. expand_outer (unat (num_buckets (TT s t))) 0 t (brk (bkts s)) (expand_pre t s) = Inr s3 \<and>
    bkts_ok (HN s3) (HP s3) (HV s3) (BB s3 (brk (bkts s))) (2 ^ Suc L) P ds \<and> exp_frame (expand_pre t s) t (brk (bkts s)) s3 \<and>
    mult_ok (BB s3 (brk (bkts s))) (2 ^ Suc L) ds"
proof -
  define b nb where "b = buckets (TT s t)" and "nb = brk (bkts s)"
  from tab have lt: "live (tbls s) t" and lb: "live (bkts s) b" and nbk: "num_buckets (TT s t) = 2 ^ L"
    and mo: "\<forall>x \<in> P. member_ok s t x" and bk: "bkts_ok (HN s) (HP s) (HV s) (BB s b) (2 ^ L) P cs"
    by (simp_all add: table_core_def b_def)
  have un: "unat (num_buckets (TT s t)) = 2 ^ L" using L by (simp only: nbk unat_pow2)
  note v = expand_pre_views [OF lt lb b_def mem, folded nb_def, unfolded un] and ch = table_core_chain [OF tab, folded b_def]
  have P: "{} \<union> (\<Union>k \<in> {0..<0 + 2 ^ L}. set (cs k)) = P" using ch(3) by auto
  have "\<exists>s' ds'. expand_outer (2 ^ L) 0 t nb (expand_pre t s) = Inr s' \<and>
           bkts_ok (HN s') (HP s') (HV s') (BB s' nb) (2 ^ Suc L) ({} \<union> (\<Union>k \<in> {0..<0 + 2 ^ L}. set (cs k))) ds' \<and>
           exp_frame (expand_pre t s) t nb s' \<and> (mult_ok (BB (expand_pre t s) nb) (2 ^ Suc L) (\<lambda>_. []) \<longrightarrow> mult_ok (BB s' nb) (2 ^ Suc L) ds')"
  proof (rule expand_outer_ok [where b = b and L = L and ds = "\<lambda>_. []"])
    show "path (HN (expand_pre t s)) (hh_head (BB (expand_pre t s) b ! k)) (cs k) NULL \<and> distinct (cs k) \<and> set (cs k) \<inter> {} = {}"
      if "k \<in> {0..<0 + 2 ^ L}" for k
      using ch [of k] that v lb by simp
    show "set (cs j) \<inter> set (cs k) = {}" if "j \<in> {0..<0 + 2 ^ L}" "k \<in> {0..<0 + 2 ^ L}" "j \<noteq> k" for j k
      using ch(3) [of j] ch(3) [of k] that by auto
    show "live (elems (expand_pre t s)) y" if "y \<in> {} \<union> (\<Union>k \<in> {0..<0 + 2 ^ L}. set (cs k))" for y
      using that mo unfolding P v(10) by (simp add: member_ok_def)
    show "bkts_ok (HN (expand_pre t s)) (HP (expand_pre t s)) (HV (expand_pre t s)) (BB (expand_pre t s) nb) (2 ^ Suc L) {} (\<lambda>_. [])"
      unfolding v by (simp add: bkts_ok_empty)
  qed (use lt lb nbk L v bk in \<open>simp_all add: bkts_ok_def\<close>)
  moreover have "mult_ok (BB (expand_pre t s) nb) (2 ^ Suc L) (\<lambda>_. [])" unfolding v by (simp add: mult_ok_def zero_bucket_def)
  ultimately show ?thesis unfolding P un nb_def by blast
qed

lemma expand_post_views:
  assumes "live (tbls s) t" "b = buckets (TT s t)" "live (bkts s) b"
  shows "HN (expand_post t nb s) = HN s" "HP (expand_post t nb s) = HP s" "HV (expand_post t nb s) = HV s" "NX (expand_post t nb s) = NX s"
    "PV (expand_post t nb s) = PV s" "SID (expand_post t nb s) = SID s" "TB (expand_post t nb s) = TB s" "KY (expand_post t nb s) = KY s"
    "KL (expand_post t nb s) = KL s" "live (elems (expand_post t nb s)) = live (elems s)" "live (tbls (expand_post t nb s)) = live (tbls s)"
    "oom (expand_post t nb s) = oom s" "ut_mem_ok s \<Longrightarrow> ut_mem_ok (expand_post t nb s)" "ut_frame s' s \<Longrightarrow> ut_frame s' (expand_post t nb s)"
    "c \<noteq> b \<Longrightarrow> live (bkts (expand_post t nb s)) c = live (bkts s) c \<and> BB (expand_post t nb s) c = BB s c"
    "TT (expand_post t nb s) = (TT s)(t := expand_tbl nb (TT s t))"
  using assms by (auto simp: expand_post_def view_simps ut_mem_ok_put ut_mem_ok_alloc)

lemma expand_tbl_fields:
  "num_buckets (expand_tbl nb T) = num_buckets T * 2" "log2_num_buckets (expand_tbl nb T) = log2_num_buckets T + 1"
  "buckets (expand_tbl nb T) = nb" "tail (expand_tbl nb T) = tail T" "num_items (expand_tbl nb T) = num_items T"
  by (simp_all add: expand_tbl_def Let_def)

lemma HASH_EXPAND_core:
  assumes tab: "table_core s P t L cs" and mem: "ut_mem_ok s" and L: "L < 31"
    and al: "alloc_ok (oom s)"
  shows "\<exists>s' cs'. HASH_EXPAND_BUCKETS t s = Inr s' \<and> table_core s' P t (Suc L) cs' \<and> bkt_frame s t s' \<and>
           ut_mem_ok s' \<and> ut_frame s s' \<and> SID s' = SID s \<and> oom s' = tl (oom s) \<and> mult_ok (BB s' (buckets (TT s' t))) (2 ^ Suc L) cs'"
proof -
  define b nb where "b = buckets (TT s t)" and "nb = brk (bkts s)"
  from tab have lt: "live (tbls s) t" and lb: "live (bkts s) b" and mo: "\<forall>x \<in> P. member_ok s t x"
    and nbk: "num_buckets (TT s t) = 2 ^ L" "log2_num_buckets (TT s t) = of_nat L"
    by (simp_all add: table_core_def b_def)
  note v = expand_pre_views [OF lt lb b_def mem, folded nb_def]
  from expand_moved [OF tab mem L] obtain s3 ds where run3: "expand_outer (unat (num_buckets (TT s t))) 0 t nb (expand_pre t s) = Inr s3"
    and ok3: "bkts_ok (HN s3) (HP s3) (HV s3) (BB s3 nb) (2 ^ Suc L) P ds" and fr: "exp_frame (expand_pre t s) t nb s3"
    and mu: "mult_ok (BB s3 nb) (2 ^ Suc L) ds"
    by (auto simp: nb_def)
  note w = exp_frame_same [OF fr, unfolded v(1-14,19-23)]
  have fr': "ut_frame s s3" "ut_mem_ok s3" "u \<noteq> t \<Longrightarrow> TT s3 u = TT s u" for u
    using fr v(13,14) v(24) by (auto simp: exp_frame_def intro: ut_frame_trans)
  have l3: "live (tbls s3) t" "b = buckets (TT s3 t)" "live (bkts s3) b" "live (bkts s3) nb" using lt lb w v(16,18) by simp_all
  have run: "HASH_EXPAND_BUCKETS t s = Inr (expand_post t nb s3)"
    unfolding nb_def by (rule HASH_EXPAND_run [OF lt al mem]) (use run3 l3 in \<open>simp_all add: nb_def\<close>)
  define s' where "s' = expand_post t nb s3"
  note x = expand_post_views [OF l3(1-3), where nb = nb, folded s'_def]
  have T: "num_buckets (TT s' t) = 2 ^ Suc L" "log2_num_buckets (TT s' t) = of_nat (Suc L)" "buckets (TT s' t) = nb"
    "tail (TT s' t) = tail (TT s t)" "num_items (TT s' t) = num_items (TT s t)"
    using nbk w by (simp_all add: x(16) expand_tbl_fields)
  have "table_core s' P t (Suc L) ds"
    using mo L lt ok3 x(15) [where c = nb] v(17) l3(4) w by (auto simp: table_core_def member_ok_def T x(1-11))
  moreover have "bkt_frame s t s'"
  proof -
    have "live (bkts s') c \<and> BB s' c = BB s c" if "live (bkts s) c" "c \<noteq> b" for c
      using that x(15) [where c = c] v(18) [where c = c] w(10) w(18) [where b = c] fresh_not_live [OF mem] by (metis nb_def)
    then show ?thesis
      using w fr'(3) T fresh_not_live [OF mem] by (simp add: bkt_frame_def x(1-11,16) b_def nb_def)
  qed
  moreover have "mult_ok (BB s' (buckets (TT s' t))) (2 ^ Suc L) ds"
    using mu x(15) [where c = nb] v(17) by (simp add: T(3))
  ultimately show ?thesis using run fr' x(13) x(14) [where s' = s] w x(6,12) unfolding s'_def by auto
qed

lemma HASH_EXPAND_ok:
  assumes tab: "table_ok s head xs t L cs" and mem: "ut_mem_ok s" and L: "L < 31"
    and al: "alloc_ok (oom s)"
  shows "\<exists>s' cs'. HASH_EXPAND_BUCKETS t s = Inr s' \<and> table_ok s' head xs t (Suc L) cs' \<and>
           ut_mem_ok s' \<and> ut_frame s s' \<and> SID s' = SID s \<and> oom s' = tl (oom s)"
proof -
  have "table_core s (set xs) t L cs" using tab by (simp add: table_ok_core)
  from HASH_EXPAND_core [OF this mem L al] tab show ?thesis unfolding table_ok_core bkt_frame_def by metis
qed

lemma HASH_EXPAND_oom:
  assumes "live (tbls s) t" "\<not> alloc_ok (oom s)"
  shows "HASH_EXPAND_BUCKETS t s = Inl (Exit (- 1))"
  using assms by (simp add: HASH_EXPAND_BUCKETS_def view_run calloc_def)


section \<open>Linking an element into its bucket\<close>

text \<open>The schedule of allocation outcomes has no failure.\<close>

definition no_oom :: "('a elem_scheme, 'b) ut_mem_scheme \<Rightarrow> bool" where
  "no_oom s \<longleftrightarrow> False \<notin> set (oom s)"

lemma no_oom_alloc_ok: "no_oom s \<Longrightarrow> alloc_ok (oom s)"
  by (cases "oom s") (auto simp: no_oom_def)

lemma set_tl_subset: "set (tl xs) \<subseteq> set xs"
  by (cases xs) auto

definition push_bkt :: "addr \<Rightarrow> nat \<Rightarrow> addr \<Rightarrow> ('a elem_scheme, 'b) ut_mem_scheme \<Rightarrow>
    ('a elem_scheme, 'b) ut_mem_scheme" where
  "push_bkt b i add s =
     (let B = BB s b ! i;
          s1 = put_bkts b ((BB s b)[i := B\<lparr>bcount := bcount B + 1\<rparr>]) s;
          s2 = put_hh add ((HH s1 add)\<lparr>hh_next := hh_head B, hh_prev := NULL\<rparr>) s1;
          s3 = (if hh_head B \<noteq> NULL then put_hh (hh_head B) ((HH s2 (hh_head B))\<lparr>hh_prev := add\<rparr>) s2 else s2)
      in put_bkts b ((BB s b)[i := B\<lparr>bcount := bcount B + 1, hh_head := add\<rparr>]) s3)"

lemma HASH_ADD_TO_BKT_run:
  assumes "live (bkts s) b" "unat i < length (BB s b)" "live (elems s) add"
    "hh_head (BB s b ! unat i) = NULL \<or> live (elems s) (hh_head (BB s b ! unat i))"
    "live (tbls s) (TB s add)" "hh_head (BB s b ! unat i) \<noteq> add"
  shows "HASH_ADD_TO_BKT b i add s =
      (if (expand_mult (BB s b ! unat i) + 1) * HASH_BKT_CAPACITY_THRESH \<le> bcount (BB s b ! unat i) + 1
          \<and> noexpand (TT s (TB s add)) = 0
       then HASH_EXPAND_BUCKETS (TB s add) (push_bkt b (unat i) add s)
       else Inr (push_bkt b (unat i) add s))"
  using assms
  by (cases "hh_head (BB s b ! unat i) = NULL")
     (simp_all add: HASH_ADD_TO_BKT_def push_bkt_def view_run view_simps Let_def)

lemma push_bkt_views:
  assumes "live (bkts s) b" "live (elems s) add"
    "hh_head (BB s b ! i) = NULL \<or> live (elems s) (hh_head (BB s b ! i))"
    "hh_head (BB s b ! i) \<noteq> add"
  shows "NX (push_bkt b i add s) = NX s" "PV (push_bkt b i add s) = PV s"
    "HV (push_bkt b i add s) = HV s" "TB (push_bkt b i add s) = TB s"
    "KY (push_bkt b i add s) = KY s" "KL (push_bkt b i add s) = KL s"
    "SID (push_bkt b i add s) = SID s" "TT (push_bkt b i add s) = TT s"
    "live (elems (push_bkt b i add s)) = live (elems s)"
    "live (tbls (push_bkt b i add s)) = live (tbls s)"
    "live (bkts (push_bkt b i add s)) = live (bkts s)"
    "oom (push_bkt b i add s) = oom s" "ut_frame s (push_bkt b i add s)"
    "ut_mem_ok (push_bkt b i add s) = ut_mem_ok s"
    "HN (push_bkt b i add s) = (HN s)(add := hh_head (BB s b ! i))"
    "BB (push_bkt b i add s) b =
       (BB s b)[i := (BB s b ! i)\<lparr>bcount := bcount (BB s b ! i) + 1, hh_head := add\<rparr>]"
    "HP (push_bkt b i add s) =
       (if hh_head (BB s b ! i) = NULL then (HP s)(add := NULL)
        else (HP s)(add := NULL, hh_head (BB s b ! i) := add))"
  using assms
  by (cases "hh_head (BB s b ! i) = NULL"; auto simp: push_bkt_def Let_def view_simps ut_mem_ok_put)+


lemma push_bkt_other: "c \<noteq> b \<Longrightarrow> BB (push_bkt b i add s) c = BB s c"
  by (simp add: push_bkt_def Let_def view_simps)

text \<open>An element that is set up for a table is linked into its bucket; the buckets may double.\<close>

lemma HASH_ADD_TO_BKT_core:
  assumes core: "table_core s P t L cs" and x: "member_ok s t x" "x \<notin> P" and mem: "ut_mem_ok s"
    and L: "L < 31 \<or> L = 31 \<and> mult_ok (BB s (buckets (TT s t))) (2 ^ L) cs \<and> length (cs (unat (HV s x) mod 2 ^ L)) < 9"
  shows "case HASH_ADD_TO_BKT (buckets (TT s t)) (HASH_TO_BKT (HV s x) (num_buckets (TT s t))) x s of
      Inl e \<Rightarrow> e = Exit (- 1) \<and> \<not> alloc_ok (oom s)
    | Inr s' \<Rightarrow> \<exists>L' cs'. table_core s' (insert x P) t L' cs' \<and> bkt_frame s t s' \<and> ut_mem_ok s' \<and> ut_frame s s' \<and> SID s' = SID s \<and>
        (L' = L \<and> oom s' = oom s \<or> L' = Suc L \<and> alloc_ok (oom s) \<and> oom s' = tl (oom s)) \<and>
        (mult_ok (BB s (buckets (TT s t))) (2 ^ L) cs \<longrightarrow> mult_ok (BB s' (buckets (TT s' t))) (2 ^ L') cs')"
proof -
  define b where "b = buckets (TT s t)"
  define i where "i = unat (HV s x) mod 2 ^ L"
  define s2 where "s2 = push_bkt b i x s"
  from core have lt: "live (tbls s) t" and lb: "live (bkts s) b" and mo: "\<And>y. y \<in> P \<Longrightarrow> member_ok s t y"
    and nb: "num_buckets (TT s t) = 2 ^ L" and bk: "bkts_ok (HN s) (HP s) (HV s) (BB s b) (2 ^ L) P cs"
    by (simp_all add: table_core_def b_def)
  have lx: "live (elems s) x" "TB s x = t" "x \<noteq> NULL" using x by (auto simp: member_ok_def live_def)
  have i: "i < 2 ^ L" by (simp add: i_def)
  have bi: "unat (HASH_TO_BKT (HV s x) (2 ^ L)) = i" using core by (simp add: HASH_TO_BKT_mod i_def table_core_def)
  have len: "length (BB s b) = 2 ^ L" using bk by (simp add: bkts_ok_def)
  have hh: "hh_head (BB s b ! i) = NULL \<or> hh_head (BB s b ! i) \<in> P"
  proof -
    from bk i obtain tl where d: "dll (HN s) (HP s) (hh_head (BB s b ! i)) (cs i) tl" and sub: "set (cs i) \<subseteq> P"
      by (auto simp: bkts_ok_def)
    from dll_head [OF d] sub show ?thesis by (cases "cs i") auto
  qed
  have "live (elems s) y" if "y \<in> P" for y using mo [OF that] by (simp add: member_ok_def)
  with lb lx hh x(2) have pre: "live (bkts s) b" "live (elems s) x" "hh_head (BB s b ! i) = NULL \<or> live (elems s) (hh_head (BB s b ! i))"
    "hh_head (BB s b ! i) \<noteq> x" by metis+
  note v = push_bkt_views [OF pre, folded s2_def]
  have core2: "table_core s2 (insert x P) t L (cs(i := x # cs i))"
  proof -
    have "bkts_ok (HN s2) (HP s2) (HV s2) (BB s2 b) (2 ^ L) (insert x P) (cs(i := x # cs i))"
      unfolding v by (rule bkts_ok_push [OF bk]) (use x(2) lx i in \<open>simp_all add: i_def\<close>)
    then show ?thesis using core x(1) by (auto simp: table_core_def member_ok_def v b_def)
  qed
  have "BB s2 c = BB s c" if "c \<noteq> b" for c unfolding s2_def by (rule push_bkt_other [OF that])
  then have fr2: "bkt_frame s t s2" unfolding bkt_frame_def v(1-11) b_def by simp
  have m2: "ut_mem_ok s2" using mem v by simp
  have run: "HASH_ADD_TO_BKT b (HASH_TO_BKT (HV s x) (2 ^ L)) x s =
      (if (expand_mult (BB s b ! i) + 1) * HASH_BKT_CAPACITY_THRESH \<le> bcount (BB s b ! i) + 1 \<and> noexpand (TT s t) = 0
       then HASH_EXPAND_BUCKETS t s2 else Inr s2)"
    using HASH_ADD_TO_BKT_run [of s b "HASH_TO_BKT (HV s x) (2 ^ L)" x] pre len i lt lx(2) by (simp add: bi s2_def)
  have lt2: "live (tbls s2) t" using lt v by simp
  have mu2: "mult_ok (BB s2 b) (2 ^ L) (cs(i := x # cs i))" if "mult_ok (BB s b) (2 ^ L) cs"
    unfolding v by (rule mult_ok_push [OF that len i]) simp
  have L31: "L < 31" if "(expand_mult (BB s b ! i) + 1) * HASH_BKT_CAPACITY_THRESH \<le> bcount (BB s b ! i) + 1"
  proof (rule ccontr)
    assume "\<not> L < 31"
    with L have m: "mult_ok (BB s b) (2 ^ L) cs" and c: "length (cs i) < 9" unfolding b_def i_def by blast+
    have e: "unat (expand_mult (BB s b ! i)) \<le> 8" using m i c by (fastforce simp: mult_ok_def)
    have "bcount (BB s b ! i) = of_nat (length (cs i))" using bk i by (simp add: bkts_ok_def)
    then have "unat (bcount (BB s b ! i) + 1) = length (cs i) + 1" using c by (simp add: unat_word_ariths unat_of_nat)
    moreover have "unat ((expand_mult (BB s b ! i) + 1) * HASH_BKT_CAPACITY_THRESH) = (unat (expand_mult (BB s b ! i)) + 1) * 10"
      using e by (simp add: HASH_BKT_CAPACITY_THRESH_def unat_word_ariths)
    ultimately show False using that c by (simp add: word_le_nat_alt)
  qed
  show ?thesis
  proof (cases "(expand_mult (BB s b ! i) + 1) * HASH_BKT_CAPACITY_THRESH \<le> bcount (BB s b ! i) + 1 \<and> noexpand (TT s t) = 0")
    case full: True
    show ?thesis
    proof (cases "alloc_ok (oom s)")
      case True
      with v have "alloc_ok (oom s2)" by simp
      from HASH_EXPAND_core [OF core2 m2 L31 [OF conjunct1 [OF full]] this] obtain s' cs' where e: "HASH_EXPAND_BUCKETS t s2 = Inr s'"
        "table_core s' (insert x P) t (Suc L) cs'" "bkt_frame s2 t s'" "ut_mem_ok s'" "ut_frame s2 s'" "SID s' = SID s2"
        "oom s' = tl (oom s2)" "mult_ok (BB s' (buckets (TT s' t))) (2 ^ Suc L) cs'" by blast
      have "bkt_frame s t s'" by (rule bkt_frame_trans [OF fr2 e(3)]) (use lb b_def in simp)
      moreover have "ut_frame s s'" by (rule ut_frame_trans [OF v(13) e(5)])
      moreover have "HASH_ADD_TO_BKT b (HASH_TO_BKT (HV s x) (2 ^ L)) x s = Inr s'" unfolding run if_P [OF full] e(1) ..
      moreover have "SID s' = SID s" "oom s' = tl (oom s)" using e(6,7) v by simp_all
      ultimately show ?thesis using e(2,4,8) True unfolding nb b_def [symmetric]
        by (simp del: power_Suc) (intro exI [of _ "Suc L"] exI [of _ cs'], simp)
    next
      case False
      with full run show ?thesis unfolding nb b_def [symmetric] by (simp add: HASH_EXPAND_oom [OF lt2] v)
    qed
  next
    case False
    have "HASH_ADD_TO_BKT b (HASH_TO_BKT (HV s x) (2 ^ L)) x s = Inr s2" unfolding run if_not_P [OF False] ..
    moreover have "buckets (TT s2 t) = b" using v by (simp add: b_def)
    ultimately show ?thesis using core2 fr2 m2 v(7,12,13) mu2 unfolding nb b_def [symmetric] by auto
  qed
qed

text \<open>
  \<open>add_result\<close>: what insertion promises. With no failing allocation the memory ends in \<open>P\<close>;
  otherwise it may also end in the \<open>exit(-1)\<close> of \<open>uthash_fatal\<close>.
\<close>

definition add_result :: "('a elem_scheme, 'b) ut_mem_scheme \<Rightarrow> 'r res \<Rightarrow> ('r \<Rightarrow> bool) \<Rightarrow> bool" where
  "add_result s r P \<longleftrightarrow> (case r of Inl e \<Rightarrow> e = Exit (- 1) \<and> \<not> no_oom s | Inr x \<Rightarrow> P x)"

lemma add_result_Inr [simp]: "add_result s (Inr x) P \<longleftrightarrow> P x"
  by (simp add: add_result_def)

lemma add_result_Inl [simp]: "add_result s (Inl e) P \<longleftrightarrow> e = Exit (- 1) \<and> \<not> no_oom s"
  by (simp add: add_result_def)

definition ut_step :: "('a elem_scheme, 'b) ut_mem_scheme \<Rightarrow> ('a elem_scheme, 'b) ut_mem_scheme \<Rightarrow> bool" where
  "ut_step s s' \<longleftrightarrow> ut_mem_ok s' \<and> ut_frame s s' \<and> SID s' = SID s \<and> set (oom s') \<subseteq> set (oom s)"

lemma ut_step_trans: "ut_step s s' \<Longrightarrow> ut_step s' s'' \<Longrightarrow> ut_step s s''"
  by (auto simp: ut_step_def intro: ut_frame_trans)

lemma ut_step_no_oom: "ut_step s s' \<Longrightarrow> no_oom s \<Longrightarrow> no_oom s'"
  by (auto simp: ut_step_def no_oom_def)

lemma HASH_EXPAND_step:
  assumes "table_ok s head xs t L cs" "ut_mem_ok s" "L < 31"
  shows "add_result s (HASH_EXPAND_BUCKETS t s)
           (\<lambda>s'. \<exists>cs'. table_ok s' head xs t (Suc L) cs' \<and> ut_step s s')"
proof (cases "alloc_ok (oom s)")
  case True
  from HASH_EXPAND_ok [OF assms True] obtain s' cs' where
    "HASH_EXPAND_BUCKETS t s = Inr s'" "table_ok s' head xs t (Suc L) cs'"
    "ut_mem_ok s'" "ut_frame s s'" "SID s' = SID s" "oom s' = tl (oom s)" by blast
  then show ?thesis by (auto simp: ut_step_def dest: subsetD [OF set_tl_subset])
next
  case False
  with assms show ?thesis by (auto simp: HASH_EXPAND_oom table_ok_def dest: no_oom_alloc_ok)
qed

text \<open>
  The element may stand anywhere in the list of all elements when its bucket gets it. With the link the
  invariant holds; what is left is the test whether the buckets are to be expanded.
\<close>

lemma push_pending:
  assumes pend: "live (tbls s) t" "live (bkts s) (buckets (TT s t))"
      "dll (NX s) (PV s) head (us @ add # vs) (tail (TT s t))"
      "\<forall>x \<in> set (us @ add # vs). member_ok s t x" "distinct (map (SID s) (us @ add # vs))"
      "num_buckets (TT s t) = 2 ^ L" "log2_num_buckets (TT s t) = of_nat L"
      "num_items (TT s t) = of_nat (length us + length vs)" "length (us @ add # vs) < 2 ^ 32"
      "bkts_ok (HN s) (HP s) (HV s) (BB s (buckets (TT s t))) (2 ^ L) (set us \<union> set vs) cs"
    and mem: "ut_mem_ok s" and L: "L < 31" and hv: "hv = HV s add"
    and b: "b = buckets (TT s t)" and i_def: "i = unat hv mod 2 ^ L"
    and s1_def: "s1 = put_tbl t ((TT s t)\<lparr>num_items := num_items (TT s t) + 1\<rparr>) s" and s2_def: "s2 = push_bkt b i add s1"
  shows "table_ok s2 head (us @ add # vs) t L (cs(i := add # cs i))" "ut_step s s2" "oom s2 = oom s"
    "get_hh head s = Inr (HH s head)" "tbl (HH s head) = t"
    "upd_tbl t (\<lambda>T. T\<lparr>num_items := num_items T + 1\<rparr>) s = Inr s1" "get_tbl t s1 = Inr (TT s1 t)"
    "unat (HASH_TO_BKT hv (num_buckets (TT s1 t))) = i" "buckets (TT s1 t) = b"
    "live (bkts s1) b" "i < length (BB s1 b)" "live (elems s1) add" "hh_head (BB s1 b ! i) = NULL \<or> live (elems s1) (hh_head (BB s1 b ! i))"
    "live (tbls s1) (TB s1 add)" "hh_head (BB s1 b ! i) \<noteq> add" "TB s1 add = t" "TT s1 t = (TT s t)\<lparr>num_items := num_items (TT s t) + 1\<rparr>"
    "BB s1 b = BB s b" "live (tbls s2) = live (tbls s)" "live (bkts s2) = live (bkts s)"
proof -
  note b_def = b
  have dist: "distinct (us @ add # vs)" and nn: "NULL \<notin> set (us @ add # vs)" and hd: "head \<in> set (us @ add # vs)"
    using dll_distinct [OF pend(3)] dll_not_NULL [OF pend(3)] dll_head [OF pend(3)]
    by (cases us; simp)+
  have mo: "live (elems s) x" "TB s x = t" "KY s x = x" "KL s x = 4"
    "HV s x = HASH_JEN (id_bytes (SID s x))" if "x \<in> set (us @ add # vs)" for x
    using pend(4) that by (auto simp: member_ok_def)
  have i: "i < 2 ^ L" by (simp add: i_def)
  have bi: "unat (HASH_TO_BKT hv (2 ^ L)) = i" using L by (simp add: HASH_TO_BKT_mod i_def)
  have lenB: "length (BB s b) = 2 ^ L" using pend(10) by (simp add: bkts_ok_def b_def)
  have hh: "hh_head (BB s b ! i) = NULL \<or> hh_head (BB s b ! i) \<in> set us \<union> set vs"
  proof -
    from pend(10) i obtain tl where d: "dll (HN s) (HP s) (hh_head (BB s b ! i)) (cs i) tl"
      and sub: "set (cs i) \<subseteq> set us \<union> set vs" by (auto simp: bkts_ok_def b_def)
    from dll_head [OF d] sub show ?thesis by (cases "cs i") auto
  qed
  have hha: "hh_head (BB s b ! i) \<noteq> add" using hh dist nn by auto
  have s1: "live (tbls s1) = live (tbls s)" "live (elems s1) = live (elems s)" "live (bkts s1) = live (bkts s)"
    "TT s1 t = (TT s t)\<lparr>num_items := num_items (TT s t) + 1\<rparr>" "BB s1 = BB s" "NX s1 = NX s" "PV s1 = PV s"
    "HN s1 = HN s" "HP s1 = HP s" "HV s1 = HV s" "TB s1 = TB s" "KY s1 = KY s" "KL s1 = KL s"
    "SID s1 = SID s" "oom s1 = oom s" "ut_mem_ok s1"
    using pend(1) mem by (simp_all add: s1_def view_simps ut_mem_ok_put)
  have pre: "live (bkts s1) b" "live (elems s1) add"
    "hh_head (BB s1 b ! i) = NULL \<or> live (elems s1) (hh_head (BB s1 b ! i))" "hh_head (BB s1 b ! i) \<noteq> add"
    using pend(2) mo(1) hh hha by (auto simp: s1 b_def)
  note v = push_bkt_views [OF pre, folded s2_def, unfolded s1]
  show "table_ok s2 head (us @ add # vs) t L (cs(i := add # cs i))"
  proof -
    have "bkts_ok (HN s2) (HP s2) (HV s2) (BB s2 b) (2 ^ L) (insert add (set us \<union> set vs)) (cs(i := add # cs i))"
      unfolding v
      by (rule bkts_ok_push [OF pend(10) [folded b_def]])
         (use dist nn i hv in \<open>auto simp: i_def\<close>)
    then show ?thesis
      using pend L v(8) s1(4) by (auto simp: table_ok_def member_ok_def v b_def)
  qed
  show "ut_step s s2"
  proof -
    have "ut_frame s s1" by (simp add: s1_def view_simps)
    then show ?thesis using v(13,14) mem by (auto simp: ut_step_def v s1 intro: ut_frame_trans)
  qed
  show "oom s2 = oom s" by (simp add: v s1)
  show "get_hh head s = Inr (HH s head)" "tbl (HH s head) = t" using mo [OF hd] by (simp_all add: view_run view_simps)
  show "upd_tbl t (\<lambda>T. T\<lparr>num_items := num_items T + 1\<rparr>) s = Inr s1" using pend(1) by (simp add: view_run s1_def)
  show "get_tbl t s1 = Inr (TT s1 t)" using pend(1) s1 by (simp add: view_run)
  show "unat (HASH_TO_BKT hv (num_buckets (TT s1 t))) = i" "buckets (TT s1 t) = b" by (simp_all add: s1 pend(6) bi b)
  show "live (bkts s1) b" "live (elems s1) add" "hh_head (BB s1 b ! i) = NULL \<or> live (elems s1) (hh_head (BB s1 b ! i))"
    "hh_head (BB s1 b ! i) \<noteq> add" by (rule pre)+
  show "i < length (BB s1 b)" "TB s1 add = t" "live (tbls s1) (TB s1 add)" using i lenB mo(2) [of add] pend(1) by (simp_all add: s1)
  show "TT s1 t = (TT s t)\<lparr>num_items := num_items (TT s t) + 1\<rparr>" "BB s1 b = BB s b" by (simp_all add: s1)
  show "live (tbls s2) = live (tbls s)" "live (bkts s2) = live (bkts s)" by (simp_all add: v s1)
qed

lemma HASH_ADD_TO_TABLE_at:
  assumes pend: "live (tbls s) t" "live (bkts s) (buckets (TT s t))"
      "dll (NX s) (PV s) head (us @ add # vs) (tail (TT s t))"
      "\<forall>x \<in> set (us @ add # vs). member_ok s t x" "distinct (map (SID s) (us @ add # vs))"
      "num_buckets (TT s t) = 2 ^ L" "log2_num_buckets (TT s t) = of_nat L"
      "num_items (TT s t) = of_nat (length us + length vs)" "length (us @ add # vs) < 2 ^ 32"
      "bkts_ok (HN s) (HP s) (HV s) (BB s (buckets (TT s t))) (2 ^ L) (set us \<union> set vs) cs"
    and mem: "ut_mem_ok s" and L: "L < 31" and hv: "hv = HV s add"
  shows "add_result s (HASH_ADD_TO_TABLE head hv add s)
           (\<lambda>s'. \<exists>L' cs'. table_ok s' head (us @ add # vs) t L' cs' \<and> L' \<le> Suc L \<and> ut_step s s')"
proof -
  define b where "b = buckets (TT s t)"
  define i where "i = unat hv mod 2 ^ L"
  define s1 where "s1 = put_tbl t ((TT s t)\<lparr>num_items := num_items (TT s t) + 1\<rparr>) s"
  define s2 where "s2 = push_bkt b i add s1"
  note P = push_pending [OF pend mem L hv b_def i_def s1_def s2_def]
  let ?full = "(expand_mult (BB s b ! i) + 1) * HASH_BKT_CAPACITY_THRESH \<le> bcount (BB s b ! i) + 1 \<and> noexpand (TT s t) = 0"
  have run: "HASH_ADD_TO_TABLE head hv add s = (if ?full then HASH_EXPAND_BUCKETS t s2 else Inr s2)"
  proof -
    note R = HASH_ADD_TO_BKT_run [of s1 b "HASH_TO_BKT hv (num_buckets (TT s1 t))" add, unfolded P(8), OF P(10-15), folded s2_def]
    show ?thesis unfolding HASH_ADD_TO_TABLE_def P(4) rbind_Inr P(5-7) P(9) R unfolding P(16-18) by simp
  qed
  show ?thesis
  proof (cases ?full)
    case True
    have "add_result s2 (HASH_EXPAND_BUCKETS t s2)
           (\<lambda>s'. \<exists>cs'. table_ok s' head (us @ add # vs) t (Suc L) cs' \<and> ut_step s2 s')"
      using P(1,2) L by (intro HASH_EXPAND_step) (auto simp: ut_step_def)
    then show ?thesis
      using True run P(2)
      by (auto simp: add_result_def intro: ut_step_trans dest: ut_step_no_oom split: sum.splits)
  next
    case False
    have "L \<le> Suc L" by simp
    with P(1,2) False run show ?thesis by auto
  qed
qed

lemma HASH_ADD_TO_TABLE_ok:
  assumes pend: "live (tbls s) t" "live (bkts s) (buckets (TT s t))"
      "dll (NX s) (PV s) head (xs @ [add]) (tail (TT s t))"
      "\<forall>x \<in> set (xs @ [add]). member_ok s t x" "distinct (map (SID s) (xs @ [add]))"
      "num_buckets (TT s t) = 2 ^ L" "log2_num_buckets (TT s t) = of_nat L"
      "num_items (TT s t) = of_nat (length xs)" "length (xs @ [add]) < 2 ^ 32"
      "bkts_ok (HN s) (HP s) (HV s) (BB s (buckets (TT s t))) (2 ^ L) (set xs) cs"
    and mem: "ut_mem_ok s" and L: "L < 31" and hv: "hv = HV s add"
  shows "add_result s (HASH_ADD_TO_TABLE head hv add s)
           (\<lambda>s'. \<exists>L' cs'. table_ok s' head (xs @ [add]) t L' cs' \<and> L' \<le> Suc L \<and> ut_step s s')"
  using HASH_ADD_TO_TABLE_at [of s t head xs add "[]" L cs hv] assms by simp



section \<open>Insertion\<close>

lemma HASH_APPEND_LIST_run:
  assumes tab: "table_ok s head xs t L cs" and xs: "xs \<noteq> []"
    and a: "live (elems s) add" "add \<notin> set xs"
  shows "HASH_APPEND_LIST head add s = Inr
    (put_tbl t ((TT s t)\<lparr>tail := add\<rparr>)
      (put_hh (last xs) ((HH s (last xs))\<lparr>nxt := add\<rparr>)
        (put_hh add ((HH s add)\<lparr>nxt := NULL, prv := last xs\<rparr>)
          (put_hh add ((HH s add)\<lparr>nxt := NULL\<rparr>) s))))"
proof -
  have hd: "head \<in> set xs" using tab xs by (cases xs) (auto dest: table_ok_head)
  with tab have "live (elems s) head" "TB s head = t" "head \<noteq> add"
    using a by (auto simp: table_ok_def member_ok_def)
  moreover have "tail (TT s t) = last xs" using tab xs by (auto simp: table_ok_def dest: dll_tail)
  moreover have "live (elems s) (last xs)" "last xs \<noteq> add" "live (tbls s) t"
    using tab xs a last_in_set [of xs] by (auto simp: table_ok_def member_ok_def)
  ultimately show ?thesis
    using a by (simp add: HASH_APPEND_LIST_def view_run view_simps)
qed

text \<open>What \<open>HASH_ADD\<close> has done when the new element stands at the end of the list and not yet in its bucket.\<close>

lemma append_pending:
  assumes inv: "table_ok s head xs t L cs" and mem: "ut_mem_ok s" and xs: "xs \<noteq> []"
    and a: "live (elems s) add" "add \<notin> set xs" "SID s add \<notin> SID s ` set xs"
  obtains s1 s2 s3 where
    "load (elems s) add = Inr (the (cells (elems s) add))" "head \<noteq> NULL"
    "upd_hh add (\<lambda>h. h\<lparr>hashv := HASH_JEN (id_bytes (SID s add)), key := add, keylen := 4\<rparr>) s = Inr s1"
    "get_hh head s1 = Inr (HH s head)" "tbl (HH s head) = t" "upd_hh add (\<lambda>h. h\<lparr>tbl := t\<rparr>) s1 = Inr s2"
    "HASH_APPEND_LIST head add s2 = Inr s3"
    "live (tbls s3) t" "live (bkts s3) (buckets (TT s3 t))"
    "dll (NX s3) (PV s3) head (xs @ [add]) (tail (TT s3 t))"
    "\<forall>x \<in> set (xs @ [add]). member_ok s3 t x" "distinct (map (SID s3) (xs @ [add]))"
    "num_buckets (TT s3 t) = 2 ^ L" "log2_num_buckets (TT s3 t) = of_nat L" "num_items (TT s3 t) = of_nat (length xs)"
    "bkts_ok (HN s3) (HP s3) (HV s3) (BB s3 (buckets (TT s3 t))) (2 ^ L) (set xs) cs"
    "HASH_JEN (id_bytes (SID s add)) = HV s3 add" "ut_step s s3" "no_oom s3 = no_oom s"
    "live (tbls s3) = live (tbls s)" "live (bkts s3) = live (bkts s)"
proof -
  define hv where "hv = HASH_JEN (id_bytes (SID s add))"
  define h where "h = (HH s add)\<lparr>hashv := hv, key := add, keylen := 4\<rparr>"
  define s1 where "s1 = put_hh add h s"
  define s2 where "s2 = put_hh add (h\<lparr>tbl := t\<rparr>) s1"
  define s3 where "s3 = put_tbl t ((TT s2 t)\<lparr>tail := add\<rparr>)
      (put_hh (last xs) ((HH s2 (last xs))\<lparr>nxt := add\<rparr>)
        (put_hh add ((HH s2 add)\<lparr>nxt := NULL, prv := last xs\<rparr>)
          (put_hh add ((HH s2 add)\<lparr>nxt := NULL\<rparr>) s2)))"
  have hd: "head \<in> set xs" using inv xs by (cases xs) (auto dest: table_ok_head)
  have a0: "add \<noteq> NULL" using a by (auto simp: live_def)
  have lst: "last xs \<in> set xs" "last xs \<noteq> add" using xs a by auto
  have lt: "live (tbls s) t" and lhd: "live (elems s) head" "TB s head = t" "head \<noteq> add" "head \<noteq> NULL"
    and ll: "live (elems s) (last xs)"
    and d: "dll (NX s) (PV s) head xs (tail (TT s t))"
    using inv hd a lst by (auto simp: table_ok_def member_ok_def live_def)
  have tl: "tail (TT s t) = last xs" using dll_tail [OF d xs] .
  have tab2: "table_ok s2 head xs t L cs"
  proof -
    have *: "NX s2 = (NX s)(add := NX s add)" "PV s2 = (PV s)(add := PV s add)" "HN s2 = (HN s)(add := HN s add)"
      "HP s2 = (HP s)(add := HP s add)" "HV s2 = (HV s)(add := hv)" "TB s2 = (TB s)(add := t)" "KY s2 = (KY s)(add := add)"
      "KL s2 = (KL s)(add := 4)" "SID s2 = SID s" "TT s2 = TT s" "BB s2 = BB s"
      "live (tbls s2) = live (tbls s)" "live (bkts s2) = live (bkts s)" "live (elems s2) = live (elems s)"
      using a by (simp_all add: s2_def s1_def h_def view_simps)
    have "bkts_ok (HN s) (HP s) ((HV s)(add := hv)) (BB s (buckets (TT s t))) (2 ^ L) (set xs) cs"
      using inv a by (subst bkts_ok_cong [of _ _ "HN s" _ "HP s" _ "HV s"]) (auto simp: table_ok_def)
    then show ?thesis using inv a unfolding table_ok_def member_ok_def * by auto
  qed
  have v: "NX s3 = (NX s)(add := NULL, last xs := add)" "PV s3 = (PV s)(add := last xs)" "HN s3 = HN s"
      "HP s3 = HP s" "HV s3 = (HV s)(add := hv)" "TB s3 = (TB s)(add := t)" "KY s3 = (KY s)(add := add)"
      "KL s3 = (KL s)(add := 4)" "SID s3 = SID s" "TT s3 = (TT s)(t := (TT s t)\<lparr>tail := add\<rparr>)" "BB s3 = BB s"
      "live (tbls s3) = live (tbls s)" "live (bkts s3) = live (bkts s)" "live (elems s3) = live (elems s)"
      "oom s3 = oom s" "ut_mem_ok s3" "ut_frame s s3"
    using a ll lt lst(2) mem by (auto simp: s3_def s2_def s1_def h_def view_simps ut_mem_ok_put)
  show thesis
  proof (rule that [of s1 s2 s3])
    show "load (elems s) add = Inr (the (cells (elems s) add))" using a by (simp add: load_live)
    show "head \<noteq> NULL" by (rule lhd(4))
    show "upd_hh add (\<lambda>h. h\<lparr>hashv := HASH_JEN (id_bytes (SID s add)), key := add, keylen := 4\<rparr>) s = Inr s1"
      using a by (simp add: view_run s1_def h_def hv_def)
    show "get_hh head s1 = Inr (HH s head)" "tbl (HH s head) = t"
      using lhd a by (simp_all add: view_run view_simps s1_def)
    show "upd_hh add (\<lambda>h. h\<lparr>tbl := t\<rparr>) s1 = Inr s2"
      using a by (simp add: view_run view_simps s1_def s2_def)
    show "HASH_APPEND_LIST head add s2 = Inr s3"
      unfolding s3_def by (rule HASH_APPEND_LIST_run [OF tab2 xs]) (use a in \<open>auto simp: s2_def s1_def view_simps\<close>)
    show "dll (NX s3) (PV s3) head (xs @ [add]) (tail (TT s3 t))"
      using dll_append [OF d xs a0 a(2)] by (simp add: v tl)
    show "bkts_ok (HN s3) (HP s3) (HV s3) (BB s3 (buckets (TT s3 t))) (2 ^ L) (set xs) cs"
      using inv a by (subst bkts_ok_cong [of _ _ "HN s" _ "HP s" _ "HV s"]) (auto simp: table_ok_def v)
    show "\<forall>x\<in>set (xs @ [add]). member_ok s3 t x"
      using inv a by (auto simp: member_ok_def table_ok_def v hv_def)
    show "ut_step s s3" using v by (simp add: ut_step_def)
    show "no_oom s3 = no_oom s" using v by (simp add: no_oom_def)
  qed (use inv a v lt in \<open>simp_all add: table_ok_def hv_def\<close>)
qed

lemma HASH_ADD_existing:
  assumes inv: "table_ok s head xs t L cs" and mem: "ut_mem_ok s" and xs: "xs \<noteq> []"
    and a: "live (elems s) add" "add \<notin> set xs" "SID s add \<notin> SID s ` set xs"
    and bnd: "length xs + 1 < 2 ^ 32" and L: "L < 31"
  shows "add_result s (HASH_ADD head add s)
           (\<lambda>(head', s'). head' = head \<and> ut_step s s' \<and>
              (\<exists>L' cs'. table_ok s' head (xs @ [add]) t L' cs' \<and> L' \<le> Suc L))"
proof (rule append_pending [OF inv mem xs a])
  fix s1 s2 s3 assume p: "load (elems s) add = Inr (the (cells (elems s) add))" "head \<noteq> NULL"
    "upd_hh add (\<lambda>h. h\<lparr>hashv := HASH_JEN (id_bytes (SID s add)), key := add, keylen := 4\<rparr>) s = Inr s1"
    "get_hh head s1 = Inr (HH s head)" "tbl (HH s head) = t" "upd_hh add (\<lambda>h. h\<lparr>tbl := t\<rparr>) s1 = Inr s2"
    "HASH_APPEND_LIST head add s2 = Inr s3"
    and q: "live (tbls s3) t" "live (bkts s3) (buckets (TT s3 t))"
    "dll (NX s3) (PV s3) head (xs @ [add]) (tail (TT s3 t))"
    "\<forall>x \<in> set (xs @ [add]). member_ok s3 t x" "distinct (map (SID s3) (xs @ [add]))"
    "num_buckets (TT s3 t) = 2 ^ L" "log2_num_buckets (TT s3 t) = of_nat L" "num_items (TT s3 t) = of_nat (length xs)"
    "bkts_ok (HN s3) (HP s3) (HV s3) (BB s3 (buckets (TT s3 t))) (2 ^ L) (set xs) cs"
    "HASH_JEN (id_bytes (SID s add)) = HV s3 add" "ut_step s s3" "no_oom s3 = no_oom s"
  let ?hv = "HASH_JEN (id_bytes (SID s add))"
  have run: "HASH_ADD head add s = rbind (HASH_ADD_TO_TABLE head ?hv add s3) (\<lambda>s. Inr (head, s))"
    using p by (simp add: HASH_ADD_def Let_def SID_def)
  have len: "length (xs @ [add]) < 2 ^ 32" using bnd by simp
  have "ut_mem_ok s3" using q(11) by (simp add: ut_step_def)
  from HASH_ADD_TO_TABLE_ok [OF q(1-8) len q(9) this L q(10)] q(11,12) show ?thesis
    by (auto simp: run add_result_def intro: ut_step_trans split: sum.splits)
qed

text \<open>The table that \<open>HASH_MAKE_TABLE\<close> makes for its first element.\<close>

definition first_table :: "addr \<Rightarrow> addr \<Rightarrow> UT_hash_table" where
  "first_table add b = zero_table\<lparr>tail := add, num_buckets := HASH_INITIAL_NUM_BUCKETS,
     log2_num_buckets := HASH_INITIAL_NUM_BUCKETS_LOG2, buckets := b, signature := HASH_SIGNATURE\<rparr>"

text \<open>The memory with the new table, before its buckets are made, and after.\<close>

definition half_table :: "addr \<Rightarrow> ('a elem_scheme, 'b) ut_mem_scheme \<Rightarrow> ('a elem_scheme, 'b) ut_mem_scheme" where
  "half_table add s = put_tbl (brk (tbls s)) (zero_table\<lparr>tail := add, num_buckets := HASH_INITIAL_NUM_BUCKETS,
       log2_num_buckets := HASH_INITIAL_NUM_BUCKETS_LOG2\<rparr>)
     (put_hh add ((HH s add)\<lparr>tbl := brk (tbls s)\<rparr>) (new_tbl zero_table s))"

definition full_table :: "addr \<Rightarrow> ('a elem_scheme, 'b) ut_mem_scheme \<Rightarrow> ('a elem_scheme, 'b) ut_mem_scheme" where
  "full_table add s = put_tbl (brk (tbls s)) (first_table add (brk (bkts s)))
     (new_bkts (replicate (unat HASH_INITIAL_NUM_BUCKETS) zero_bucket) (half_table add s))"

lemma half_table_run:
  assumes "live (elems s) add" "ut_mem_ok s" "alloc_ok (oom s)"
  shows "(let (t, sch, ts) = calloc zero_table (oom s) (tbls s); s = s\<lparr>oom := sch, tbls := ts\<rparr> in
      rbind (upd_hh add (\<lambda>h. h\<lparr>tbl := t\<rparr>) s) (\<lambda>s. if t = NULL then E s
        else rbind (upd_tbl t (\<lambda>T. T\<lparr>tail := add, num_buckets := HASH_INITIAL_NUM_BUCKETS,
                   log2_num_buckets := HASH_INITIAL_NUM_BUCKETS_LOG2\<rparr>) s) (F t))) = F (brk (tbls s)) (half_table add s)"
  unfolding calloc_tbl_ok [OF assms(3)] Let_def prod.case new_fold
  using assms(1) brk_nonnull [OF assms(2)] by (simp add: view_run view_simps half_table_def)

lemma half_table_views:
  assumes "live (elems s) add" "ut_mem_ok s"
  shows "HH (half_table add s) = (HH s)(add := (HH s add)\<lparr>tbl := brk (tbls s)\<rparr>)" "ut_step s (half_table add s)"
    "live (tbls (half_table add s)) (brk (tbls s))" "oom (half_table add s) = tl (oom s)" "bkts (half_table add s) = bkts s"
    "TT (half_table add s) = (TT s)(brk (tbls s) := zero_table\<lparr>tail := add, num_buckets := HASH_INITIAL_NUM_BUCKETS,
       log2_num_buckets := HASH_INITIAL_NUM_BUCKETS_LOG2\<rparr>)"
    "u \<noteq> brk (tbls s) \<Longrightarrow> live (tbls (half_table add s)) u = live (tbls s) u"
proof -
  have l: "live (elems (new_tbl zero_table s)) add"
    "live (tbls (put_hh add ((HH s add)\<lparr>tbl := brk (tbls s)\<rparr>) (new_tbl zero_table s))) (brk (tbls s))"
    using assms(1) brk_nonnull [OF assms(2)] by (simp_all add: view_simps)
  show "bkts (half_table add s) = bkts s" by (simp add: half_table_def put_tbl_def put_hh_def new_tbl_def)
  show "ut_step s (half_table add s)"
    using assms l set_tl_subset [of "oom s"] by (simp add: half_table_def view_simps ut_step_def ut_mem_ok_put ut_mem_ok_alloc)
  show "live (tbls (half_table add s)) u = live (tbls s) u" if "u \<noteq> brk (tbls s)"
    using that l by (cases "u = NULL") (simp_all add: half_table_def view_simps, simp add: live_def)
  show "HH (half_table add s) = (HH s)(add := (HH s add)\<lparr>tbl := brk (tbls s)\<rparr>)" "oom (half_table add s) = tl (oom s)"
    "live (tbls (half_table add s)) (brk (tbls s))"
    "TT (half_table add s) = (TT s)(brk (tbls s) := zero_table\<lparr>tail := add, num_buckets := HASH_INITIAL_NUM_BUCKETS,
       log2_num_buckets := HASH_INITIAL_NUM_BUCKETS_LOG2\<rparr>)"
    using l by (simp_all add: half_table_def view_simps)
qed

lemma HASH_MAKE_TABLE_ok:
  assumes a: "live (elems s) add" and mem: "ut_mem_ok s"
  shows "add_result s (HASH_MAKE_TABLE add s)
           (\<lambda>s'. ut_step s s' \<and> live (tbls s') (brk (tbls s)) \<and> live (bkts s') (brk (bkts s)) \<and>
              TT s' (brk (tbls s)) = first_table add (brk (bkts s)) \<and>
              BB s' (brk (bkts s)) = replicate 32 zero_bucket \<and>
              HH s' = (HH s)(add := (HH s add)\<lparr>tbl := brk (tbls s)\<rparr>) \<and>
              alloc_ok (oom s) \<and> alloc_ok (tl (oom s)) \<and> oom s' = tl (tl (oom s)) \<and>
              (\<forall>u. live (tbls s) u \<longrightarrow> live (tbls s') u \<and> TT s' u = TT s u) \<and>
              (\<forall>c. live (bkts s) c \<longrightarrow> live (bkts s') c \<and> BB s' c = BB s c))"
proof (cases "alloc_ok (oom s)")
  case False
  obtain s' where "upd_hh add (\<lambda>h. h\<lparr>tbl := NULL\<rparr>) (s\<lparr>oom := tl (oom s), tbls := tbls s\<rparr>) = Inr s'"
    using a by (auto simp: upd_hh_def load_live store_live)
  with False show ?thesis
    by (auto simp: HASH_MAKE_TABLE_def calloc_def dest: no_oom_alloc_ok)
next
  case a1: True
  define t b s3 where "t = brk (tbls s)" and "b = brk (bkts s)" and "s3 = half_table add s"
  note v = half_table_views [OF a mem, folded s3_def t_def]
  have t0: "t \<noteq> NULL" "b \<noteq> NULL" using brk_nonnull [OF mem] by (simp_all add: t_def b_def)
  have half: "HASH_MAKE_TABLE add s = (let (b, sch, bs) = calloc (replicate (unat HASH_INITIAL_NUM_BUCKETS) zero_bucket) (oom s3) (bkts s3);
      s = s3\<lparr>oom := sch, bkts := bs\<rparr> in
      rbind (upd_tbl t (\<lambda>T. T\<lparr>buckets := b, signature := HASH_SIGNATURE\<rparr>) s) (\<lambda>s. if b = NULL then Inl (Exit (- 1)) else Inr s))"
    unfolding HASH_MAKE_TABLE_def s3_def t_def by (rule half_table_run [OF a mem a1])
  show ?thesis
  proof (cases "alloc_ok (oom s3)")
    case False
    then have "HASH_MAKE_TABLE add s = Inl (Exit (- 1))"
      using v(3) by (simp add: half calloc_def upd_tbl_live)
    moreover have "\<not> no_oom s"
      using False v(4) no_oom_alloc_ok [of s3] set_tl_subset [of "oom s"] by (auto simp: no_oom_def)
    ultimately show ?thesis by simp
  next
    case True
    define s5 where "s5 = full_table add s"
    note s5 = s5_def full_table_def s3_def [symmetric] t_def [symmetric] b_def [symmetric]
    have run: "HASH_MAKE_TABLE add s = Inr s5"
      unfolding half calloc_bkts_ok [OF True] Let_def prod.case new_fold
      using t0 v(3,5,6) by (simp add: view_run view_simps s5 first_table_def)
    have "ut_step s s5"
      using v(2,3) by (auto simp: ut_step_def s5 view_simps ut_mem_ok_put ut_mem_ok_alloc dest: subsetD [OF set_tl_subset])
    moreover have "HH s5 = (HH s)(add := (HH s add)\<lparr>tbl := t\<rparr>)" "oom s5 = tl (tl (oom s))"
      "live (tbls s5) t" "live (bkts s5) b" "TT s5 t = first_table add b" "BB s5 b = replicate 32 zero_bucket"
      using t0 v(1,3-6) by (simp_all add: s5 view_simps HASH_INITIAL_NUM_BUCKETS_def)
    moreover have "live (tbls s5) u \<and> TT s5 u = TT s u" if "live (tbls s) u" for u
    proof -
      have "u \<noteq> t" using that fresh_not_live [OF mem] by (auto simp: t_def)
      then show ?thesis using that v by (simp add: s5 view_simps)
    qed
    moreover have "live (bkts s5) c \<and> BB s5 c = BB s c" if "live (bkts s) c" for c
    proof -
      have "c \<noteq> b" "c \<noteq> NULL" using that fresh_not_live [OF mem] by (auto simp: b_def live_def)
      then show ?thesis using that v(5) by (simp add: s5 view_simps) (simp add: BB_def b_def)
    qed
    ultimately show ?thesis using a1 True v(4) by (simp add: run t_def b_def)
  qed
qed

text \<open>The first element, before it gets its table, and when it stands in the new table but not yet in its bucket.\<close>

definition first_elem :: "addr \<Rightarrow> ('a elem_scheme, 'b) ut_mem_scheme \<Rightarrow> ('a elem_scheme, 'b) ut_mem_scheme" where
  "first_elem add s = put_hh add ((HH s add)\<lparr>hashv := HASH_JEN (id_bytes (SID s add)), key := add, keylen := 4, nxt := NULL, prv := NULL\<rparr>) s"

lemma first_elem_ok:
  assumes "live (elems s) add" "ut_mem_ok s"
  shows "live (elems (first_elem add s)) add" "ut_mem_ok (first_elem add s)" "ut_step s (first_elem add s)"
    "no_oom (first_elem add s) = no_oom s" "live (tbls (first_elem add s)) = live (tbls s)" "live (bkts (first_elem add s)) = live (bkts s)"
    "load (elems s) add = Inr (the (cells (elems s) add))"
    "rbind (upd_hh add (\<lambda>h. h\<lparr>hashv := HASH_JEN (id_bytes (SID s add)), key := add, keylen := 4\<rparr>) s) (\<lambda>s.
       rbind (upd_hh add (\<lambda>h. h\<lparr>nxt := NULL, prv := NULL\<rparr>) s) F) = F (first_elem add s)"
proof -
  show "live (elems (first_elem add s)) add" "ut_mem_ok (first_elem add s)" "ut_step s (first_elem add s)"
    "no_oom (first_elem add s) = no_oom s" "live (tbls (first_elem add s)) = live (tbls s)" "live (bkts (first_elem add s)) = live (bkts s)"
    using assms by (simp_all add: first_elem_def view_simps ut_mem_ok_put ut_step_def no_oom_def)
  show "load (elems s) add = Inr (the (cells (elems s) add))" using assms by (simp add: load_live)
  show "rbind (upd_hh add (\<lambda>h. h\<lparr>hashv := HASH_JEN (id_bytes (SID s add)), key := add, keylen := 4\<rparr>) s) (\<lambda>s.
       rbind (upd_hh add (\<lambda>h. h\<lparr>nxt := NULL, prv := NULL\<rparr>) s) F) = F (first_elem add s)"
    using assms by (simp add: view_run view_simps first_elem_def) (simp add: put_hh_def HH_def)
qed

lemma first_pending:
  assumes a: "live (elems s) add" and mem: "ut_mem_ok s" and mk: "HASH_MAKE_TABLE add (first_elem add s) = Inr s3"
  obtains t where "live (tbls s3) t" "live (bkts s3) (buckets (TT s3 t))"
    "dll (NX s3) (PV s3) add [add] (tail (TT s3 t))"
    "\<forall>x \<in> set [add]. member_ok s3 t x" "distinct (map (SID s3) [add])"
    "num_buckets (TT s3 t) = 2 ^ 5" "log2_num_buckets (TT s3 t) = of_nat 5" "num_items (TT s3 t) = 0"
    "bkts_ok (HN s3) (HP s3) (HV s3) (BB s3 (buckets (TT s3 t))) (2 ^ 5) {} (\<lambda>_. [])"
    "BB s3 (buckets (TT s3 t)) = replicate 32 zero_bucket"
    "HASH_JEN (id_bytes (SID s add)) = HV s3 add" "ut_step s s3"
proof -
  define s2 where "s2 = first_elem add s"
  define t b where "t = brk (tbls s2)" and "b = brk (bkts s2)"
  note f = first_elem_ok [OF a mem, folded s2_def]
  have a0: "add \<noteq> NULL" using a by (auto simp: live_def)
  from HASH_MAKE_TABLE_ok [OF f(1,2)] mk [folded s2_def] have s3: "ut_step s2 s3" "live (tbls s3) t" "live (bkts s3) b"
    "TT s3 t = first_table add b" "BB s3 b = replicate 32 zero_bucket"
    "HH s3 = (HH s2)(add := (HH s2 add)\<lparr>tbl := t\<rparr>)"
    by (simp_all add: t_def b_def)
  have step3: "ut_step s s3" using f(3) s3(1) by (rule ut_step_trans)
  then have sid3: "SID s3 = SID s" and live3: "live (elems s3) add" using a ut_frame_live by (auto simp: ut_step_def)
  have h2: "HH s2 add = (HH s add)\<lparr>hashv := HASH_JEN (id_bytes (SID s add)), key := add, keylen := 4, nxt := NULL, prv := NULL\<rparr>"
    by (simp add: s2_def first_elem_def view_simps)
  have v3: "NX s3 add = NULL" "PV s3 add = NULL" "HV s3 add = HASH_JEN (id_bytes (SID s add))" "TB s3 add = t" "KY s3 add = add" "KL s3 add = 4"
    by (simp_all add: NX_def PV_def HV_def TB_def KY_def KL_def s3(6) h2)
  have T3: "num_buckets (TT s3 t) = 2 ^ 5" "log2_num_buckets (TT s3 t) = of_nat 5" "num_items (TT s3 t) = 0"
    "tail (TT s3 t) = add" "buckets (TT s3 t) = b"
    by (simp_all add: s3(4) first_table_def HASH_INITIAL_NUM_BUCKETS_def HASH_INITIAL_NUM_BUCKETS_LOG2_def zero_table_def)
  show thesis
  proof (rule that [of t])
    show "dll (NX s3) (PV s3) add [add] (tail (TT s3 t))" using a0 T3 v3 by (simp add: dll_def)
    show "bkts_ok (HN s3) (HP s3) (HV s3) (BB s3 (buckets (TT s3 t))) (2 ^ 5) {} (\<lambda>_. [])"
      using bkts_ok_empty [of _ _ _ 32] by (simp add: T3 s3(5))
    show "\<forall>x \<in> set [add]. member_ok s3 t x" using live3 v3 by (simp add: member_ok_def sid3)
  qed (use s3 T3 v3 step3 in simp_all)
qed

lemma HASH_ADD_first:
  assumes a: "live (elems s) add" and mem: "ut_mem_ok s"
  shows "add_result s (HASH_ADD NULL add s)
           (\<lambda>(head', s'). head' = add \<and> ut_step s s' \<and>
              (\<exists>t L' cs'. table_ok s' add [add] t L' cs' \<and> L' \<le> 6))"
proof -
  define hv where "hv = HASH_JEN (id_bytes (SID s add))"
  define s2 where "s2 = first_elem add s"
  note f = first_elem_ok [OF a mem, folded s2_def hv_def]
  have run: "HASH_ADD NULL add s = rbind (HASH_MAKE_TABLE add s2)
      (\<lambda>s. rbind (HASH_ADD_TO_TABLE add hv add s) (\<lambda>s. Inr (add, s)))"
    unfolding HASH_ADD_def f(7) rbind_Inr Let_def SID_def [symmetric] hv_def [symmetric] simp_thms if_True f(8) ..
  show ?thesis
  proof (cases "HASH_MAKE_TABLE add s2")
    case (Inl e)
    with HASH_MAKE_TABLE_ok [OF f(1,2)] run f(4) show ?thesis by simp
  next
    case (Inr s3)
    show ?thesis
    proof (rule first_pending [OF a mem Inr [unfolded s2_def]])
      fix t assume p: "live (tbls s3) t" "live (bkts s3) (buckets (TT s3 t))"
        "dll (NX s3) (PV s3) add [add] (tail (TT s3 t))"
        "\<forall>x \<in> set [add]. member_ok s3 t x" "distinct (map (SID s3) [add])"
        "num_buckets (TT s3 t) = 2 ^ 5" "log2_num_buckets (TT s3 t) = of_nat 5" "num_items (TT s3 t) = 0"
        "bkts_ok (HN s3) (HP s3) (HV s3) (BB s3 (buckets (TT s3 t))) (2 ^ 5) {} (\<lambda>_. [])"
        "HASH_JEN (id_bytes (SID s add)) = HV s3 add" "ut_step s s3"
      have "add_result s3 (HASH_ADD_TO_TABLE add hv add s3)
             (\<lambda>s'. \<exists>L' cs'. table_ok s' add ([] @ [add]) t L' cs' \<and> L' \<le> Suc 5 \<and> ut_step s3 s')"
        by (rule HASH_ADD_TO_TABLE_ok) (use p in \<open>simp_all add: ut_step_def hv_def\<close>)
      then show ?thesis
        using p(11) ut_step_no_oom [OF p(11)]
        by (auto simp: run Inr add_result_def intro: ut_step_trans split: sum.splits)
    qed
  qed
qed

text \<open>
  \<open>HASH_ADD\<close> of a live element whose key is new: the element goes to the end of the insertion
  order, or the program exits because an allocation has failed.
\<close>

lemma HASH_ADD_correct:
  assumes inv: "ut_inv s head xs" and a: "live (elems s) add" "add \<notin> set xs" "SID s add \<notin> SID s ` set xs"
    and bnd: "length xs + 1 < 2 ^ 32" and L: "ut_log2 s head < 31"
  shows "add_result s (HASH_ADD head add s)
           (\<lambda>(head', s'). ut_inv s' head' (xs @ [add]) \<and> ut_step s s' \<and>
              ut_log2 s' head' \<le> Suc (ut_log2 s head))"
proof -
  show ?thesis
  proof (cases "xs = []")
    case True
    with inv have "head = NULL" "ut_mem_ok s" by simp_all
    with HASH_ADD_first [OF a(1)] True show ?thesis
      by (auto simp: add_result_def ut_inv_def ut_step_def table_log2(2) ut_log2_def [of s] split: sum.splits)
  next
    case False
    with inv obtain t L0 cs where tab: "table_ok s head xs t L0 cs" and mem: "ut_mem_ok s"
      by (auto simp: ut_inv_def)
    from HASH_ADD_existing [OF tab mem False a bnd] L table_log2(2) [OF tab False] show ?thesis
      by (auto simp: add_result_def ut_inv_def ut_step_def table_log2(2) split: sum.splits)
  qed
qed

end
