(* ===== verification/Uthash_Del.thy ===== *)
theory Uthash_Del
  imports Uthash_Add
begin

text \<open>
  The correctness of \<open>HASH_DELETE\<close>: the element leaves both lists it is linked into, the table's
  counters follow, and the last element takes the table with it.
\<close>

lemma dll_members:
  assumes "dll nx pv h xs t" "d \<in> set xs"
  shows "nx d = NULL \<or> nx d \<in> set xs" "pv d = NULL \<or> pv d \<in> set xs"
    "pv d = NULL \<longleftrightarrow> d = h" "nx d = NULL \<longleftrightarrow> d = t"
    "pv d = NULL \<and> nx d = NULL \<longleftrightarrow> xs = [d]"
    "nx d \<noteq> d" "pv d \<noteq> d"
proof -
  from assms(2) obtain ys zs where xs: "xs = ys @ d # zs" by (meson split_list)
  note D = dll_delete(2,3) [OF assms(1) [unfolded xs]]
  have dist: "distinct xs" and nn: "NULL \<notin> set xs"
    using dll_distinct [OF assms(1)] dll_not_NULL [OF assms(1)] by auto
  have h: "h = hd xs" and t: "t = last xs"
    using dll_head [OF assms(1)] dll_tail [OF assms(1)] xs by (auto split: list.splits)
  show "nx d = NULL \<or> nx d \<in> set xs" "pv d = NULL \<or> pv d \<in> set xs" using D xs by auto
  have y0: "ys \<noteq> [] \<Longrightarrow> last ys \<noteq> NULL" "ys \<noteq> [] \<Longrightarrow> last ys \<noteq> d"
    using nn dist xs last_in_set [of ys] by (metis Un_iff set_append, force)
  have z0: "zs \<noteq> [] \<Longrightarrow> hd zs \<noteq> NULL" "zs \<noteq> [] \<Longrightarrow> hd zs \<noteq> d"
    using nn dist xs hd_in_set [of zs] by (metis Un_iff set_append list.set_intros(2), force)
  have d0: "d \<noteq> NULL" using nn xs by auto
  have hy: "ys \<noteq> [] \<Longrightarrow> h \<noteq> d" using h xs dist by (cases ys) auto
  have tz: "zs \<noteq> [] \<Longrightarrow> t \<noteq> d" using t xs dist last_in_set [of zs] by auto
  show "pv d = NULL \<longleftrightarrow> d = h" using D y0 h xs hy by (cases "ys = []") auto
  show "nx d = NULL \<longleftrightarrow> d = t" using D z0 t xs tz by (cases "zs = []") auto
  show "pv d = NULL \<and> nx d = NULL \<longleftrightarrow> xs = [d]"
    using D y0 z0 xs by (cases "ys = []"; cases "zs = []") (auto simp: append_eq_Cons_conv)
  show "nx d \<noteq> d" "pv d \<noteq> d" using D y0 z0 d0 by (auto split: if_splits)
qed

section \<open>Unlinking from a bucket\<close>

definition pop_bkt :: "addr \<Rightarrow> nat \<Rightarrow> addr \<Rightarrow> ('a elem_scheme, 'b) ut_mem_scheme \<Rightarrow>
    ('a elem_scheme, 'b) ut_mem_scheme" where
  "pop_bkt b i d s =
     (let B = BB s b ! i;
          B1 = B\<lparr>bcount := bcount B - 1\<rparr>;
          B2 = (if hh_head B = d then B1\<lparr>hh_head := HN s d\<rparr> else B1);
          s1 = put_bkts b ((BB s b)[i := B2]) s;
          s2 = (if HP s d \<noteq> NULL then put_hh (HP s d) ((HH s1 (HP s d))\<lparr>hh_next := HN s d\<rparr>) s1 else s1)
      in if HN s d \<noteq> NULL then put_hh (HN s d) ((HH s2 (HN s d))\<lparr>hh_prev := HP s d\<rparr>) s2 else s2)"

lemma put_bkts_twice: "put_bkts b B (put_bkts b B' s) = put_bkts b B s"
  by (simp add: put_bkts_def)

lemma HASH_DEL_IN_BKT_run:
  assumes "live (bkts s) b" "unat i < length (BB s b)" "live (elems s) d"
    "HP s d = NULL \<or> live (elems s) (HP s d)" "HN s d = NULL \<or> live (elems s) (HN s d)"
  shows "HASH_DEL_IN_BKT b i d s = Inr (pop_bkt b (unat i) d s)"
  using assms
  by (cases "HP s d = NULL"; cases "HN s d = NULL"; cases "hh_head (BB s b ! unat i) = d")
     (simp_all add: HASH_DEL_IN_BKT_def pop_bkt_def view_run view_simps Let_def put_bkts_twice)

lemma pop_bkt_views:
  assumes "live (bkts s) b" "live (elems s) d" "HP s d \<noteq> d" "HN s d \<noteq> d"
    "HP s d = NULL \<or> live (elems s) (HP s d)" "HN s d = NULL \<or> live (elems s) (HN s d)"
  shows "NX (pop_bkt b i d s) = NX s" "PV (pop_bkt b i d s) = PV s"
    "HV (pop_bkt b i d s) = HV s" "TB (pop_bkt b i d s) = TB s"
    "KY (pop_bkt b i d s) = KY s" "KL (pop_bkt b i d s) = KL s"
    "SID (pop_bkt b i d s) = SID s" "TT (pop_bkt b i d s) = TT s"
    "live (elems (pop_bkt b i d s)) = live (elems s)"
    "live (tbls (pop_bkt b i d s)) = live (tbls s)"
    "live (bkts (pop_bkt b i d s)) = live (bkts s)"
    "oom (pop_bkt b i d s) = oom s" "ut_frame s (pop_bkt b i d s)"
    "ut_mem_ok (pop_bkt b i d s) = ut_mem_ok s"
    "HN (pop_bkt b i d s) = (if HP s d = NULL then HN s else (HN s)(HP s d := HN s d))"
    "HP (pop_bkt b i d s) = (if HN s d = NULL then HP s else (HP s)(HN s d := HP s d))"
    "BB (pop_bkt b i d s) b = (BB s b)[i := (BB s b ! i)\<lparr>bcount := bcount (BB s b ! i) - 1,
       hh_head := (if hh_head (BB s b ! i) = d then HN s d else hh_head (BB s b ! i))\<rparr>]"
  using assms
  by (cases "HP s d = NULL"; cases "HN s d = NULL";
      auto simp: pop_bkt_def Let_def view_simps ut_mem_ok_put)+


section \<open>Deletion\<close>

text \<open>Unlinking from the application-order list, with the move of the tail.\<close>

definition unlink :: "addr \<Rightarrow> addr \<Rightarrow> ('a elem_scheme, 'b) ut_mem_scheme \<Rightarrow>
    ('a elem_scheme, 'b) ut_mem_scheme" where
  "unlink t d s =
     (let s1 = put_tbl t (if d = tail (TT s t) then (TT s t)\<lparr>tail := PV s d\<rparr> else TT s t) s;
          s2 = (if PV s d \<noteq> NULL then put_hh (PV s d) ((HH s1 (PV s d))\<lparr>nxt := NX s d\<rparr>) s1 else s1)
      in if NX s d \<noteq> NULL then put_hh (NX s d) ((HH s2 (NX s d))\<lparr>prv := PV s d\<rparr>) s2 else s2)"

lemma unlink_views:
  assumes "live (tbls s) t" "live (elems s) d" "PV s d \<noteq> d" "NX s d \<noteq> d"
    "PV s d = NULL \<or> live (elems s) (PV s d)" "NX s d = NULL \<or> live (elems s) (NX s d)"
  shows "HN (unlink t d s) = HN s" "HP (unlink t d s) = HP s"
    "HV (unlink t d s) = HV s" "TB (unlink t d s) = TB s"
    "KY (unlink t d s) = KY s" "KL (unlink t d s) = KL s"
    "SID (unlink t d s) = SID s" "BB (unlink t d s) = BB s"
    "live (elems (unlink t d s)) = live (elems s)"
    "live (tbls (unlink t d s)) = live (tbls s)"
    "live (bkts (unlink t d s)) = live (bkts s)"
    "oom (unlink t d s) = oom s" "ut_frame s (unlink t d s)"
    "ut_mem_ok (unlink t d s) = ut_mem_ok s"
    "NX (unlink t d s) = (if PV s d = NULL then NX s else (NX s)(PV s d := NX s d))"
    "PV (unlink t d s) = (if NX s d = NULL then PV s else (PV s)(NX s d := PV s d))"
    "TT (unlink t d s) =
       (TT s)(t := if d = tail (TT s t) then (TT s t)\<lparr>tail := PV s d\<rparr> else TT s t)"
proof -
  define T where "T = (if d = tail (TT s t) then (TT s t)\<lparr>tail := PV s d\<rparr> else TT s t)"
  define s1 where "s1 = put_tbl t T s"
  define s2 where "s2 = (if PV s d \<noteq> NULL then put_hh (PV s d) ((HH s1 (PV s d))\<lparr>nxt := NX s d\<rparr>) s1 else s1)"
  have un: "unlink t d s =
      (if NX s d \<noteq> NULL then put_hh (NX s d) ((HH s2 (NX s d))\<lparr>prv := PV s d\<rparr>) s2 else s2)"
    by (simp only: unlink_def Let_def T_def [symmetric] s1_def [symmetric] s2_def [symmetric])
  have v1: "HN s1 = HN s" "HP s1 = HP s" "HV s1 = HV s" "TB s1 = TB s" "KY s1 = KY s" "KL s1 = KL s"
    "SID s1 = SID s" "BB s1 = BB s" "live (elems s1) = live (elems s)" "live (tbls s1) = live (tbls s)"
    "live (bkts s1) = live (bkts s)" "oom s1 = oom s" "ut_frame s s1" "ut_mem_ok s1 = ut_mem_ok s"
    "NX s1 = NX s" "PV s1 = PV s" "TT s1 = (TT s)(t := T)"
    using assms(1) by (simp_all add: s1_def view_simps ut_mem_ok_put)
  have v2: "HN s2 = HN s" "HP s2 = HP s" "HV s2 = HV s" "TB s2 = TB s" "KY s2 = KY s" "KL s2 = KL s"
    "SID s2 = SID s" "BB s2 = BB s" "live (elems s2) = live (elems s)" "live (tbls s2) = live (tbls s)"
    "live (bkts s2) = live (bkts s)" "oom s2 = oom s" "ut_frame s s2" "ut_mem_ok s2 = ut_mem_ok s"
    "NX s2 = (if PV s d = NULL then NX s else (NX s)(PV s d := NX s d))" "PV s2 = PV s"
    "TT s2 = (TT s)(t := T)"
    using assms(5) by (cases "PV s d = NULL"; simp add: s2_def view_simps v1 ut_mem_ok_put)+
  show "HN (unlink t d s) = HN s" "HP (unlink t d s) = HP s"
    "HV (unlink t d s) = HV s" "TB (unlink t d s) = TB s"
    "KY (unlink t d s) = KY s" "KL (unlink t d s) = KL s"
    "SID (unlink t d s) = SID s" "BB (unlink t d s) = BB s"
    "live (elems (unlink t d s)) = live (elems s)"
    "live (tbls (unlink t d s)) = live (tbls s)"
    "live (bkts (unlink t d s)) = live (bkts s)"
    "oom (unlink t d s) = oom s" "ut_frame s (unlink t d s)"
    "ut_mem_ok (unlink t d s) = ut_mem_ok s"
    "NX (unlink t d s) = (if PV s d = NULL then NX s else (NX s)(PV s d := NX s d))"
    "PV (unlink t d s) = (if NX s d = NULL then PV s else (PV s)(NX s d := PV s d))"
    "TT (unlink t d s) =
       (TT s)(t := if d = tail (TT s t) then (TT s t)\<lparr>tail := PV s d\<rparr> else TT s t)"
    using assms(6) unfolding T_def [symmetric]
    by (cases "NX s d = NULL"; simp add: un view_simps v2 ut_mem_ok_put)+
qed

lemma HASH_DELETE_last:
  assumes inv: "ut_inv s head [d]"
  shows "\<exists>s'. HASH_DELETE head d s = Inr (NULL, s') \<and> ut_inv s' NULL [] \<and> ut_step s s' \<and> oom s' = oom s"
proof -
  from inv obtain t L cs where tab: "table_ok s head [d] t L cs" and mem: "ut_mem_ok s"
    by (auto simp: ut_inv_def)
  then have "head = d" "live (elems s) d" "TB s d = t" "live (tbls s) t" "live (bkts s) (buckets (TT s t))"
    "NX s d = NULL" "PV s d = NULL"
    by (auto simp: table_ok_def member_ok_def dll_def)
  then have "HASH_DELETE head d s = Inr (NULL, del_tbl t (del_bkts (buckets (TT s t)) s))"
    by (simp add: HASH_DELETE_def view_run view_simps dealloc_bkts_live dealloc_tbls_live del_fold)
       (simp add: del_tbl_def del_bkts_def)
  then show ?thesis using mem by (auto simp: ut_step_def view_simps ut_mem_ok_alloc)
qed

text \<open>
  Deletion of an element that has neighbours runs to the end with these updates, whether or not it is still
  linked into its bucket.
\<close>

lemma HASH_DELETE_run:
  assumes lt: "live (tbls s) t" and dl: "dll (NX s) (PV s) head xs (tail (TT s t))" and d: "d \<in> set xs" and ne: "xs \<noteq> [d]"
    and lm: "\<And>x. x \<in> set xs \<Longrightarrow> live (elems s) x \<and> TB s x = t" and L: "L < 32"
    and nb: "num_buckets (TT s t) = 2 ^ L" and b: "buckets (TT s t) = b" and lb: "live (bkts s) b" and len: "length (BB s b) = 2 ^ L"
    and i: "i = unat (HV s d) mod 2 ^ L" and hp: "HP s d = NULL \<or> live (elems s) (HP s d)" "HN s d = NULL \<or> live (elems s) (HN s d)"
    and s1: "s1 = unlink t d s" and s2: "s2 = pop_bkt b i d s1"
    and s3: "s3 = put_tbl t ((TT s2 t)\<lparr>num_items := num_items (TT s2 t) - 1\<rparr>) s2"
  shows "HASH_DELETE head d s = Inr (if PV s d \<noteq> NULL then head else NX s d, s3)"
proof -
  define head' where "head' = (if PV s d \<noteq> NULL then head else NX s d)"
  obtain ys zs where xs: "xs = ys @ d # zs" using d by (meson split_list)
  note D = dll_delete [OF dl [unfolded xs]]
  note M = dll_members [OF dl d]
  have pre1: "PV s d \<noteq> d" "NX s d \<noteq> d" "PV s d = NULL \<or> live (elems s) (PV s d)"
    "NX s d = NULL \<or> live (elems s) (NX s d)"
    using M lm by auto
  have ld: "live (elems s) d" using lm [OF d] by simp
  note v1 = unlink_views [OF lt ld pre1, folded s1]
  have lt1: "live (tbls s1) t" using lt v1 by simp
  have lt2: "live (tbls s2) t"
    using lt1 by (simp add: s2 pop_bkt_def Let_def live_put)
  have h': "head' \<in> set xs"
  proof -
    have "dll (NX s1) (PV s1) head' (ys @ zs) (if NX s d = NULL then PV s d else tail (TT s t))"
      using D(1) unfolding v1 head'_def by (simp split: if_splits)
    moreover have "ys @ zs \<noteq> []" using xs ne by auto
    ultimately have "head' \<in> set (ys @ zs)" using dll_head by (cases "ys @ zs") fastforce+
    then show "head' \<in> set xs" using xs by auto
  qed
  have hd: "head \<in> set xs" using dll_head [OF dl] d by (cases xs) auto
  have bi: "unat (HASH_TO_BKT (HV s d) (2 ^ L)) = i" using L by (simp add: HASH_TO_BKT_mod i)
  have i2: "i < 2 ^ L" by (simp add: i)
  have T1: "num_buckets (TT s1 t) = 2 ^ L" "buckets (TT s1 t) = b" using nb b by (simp_all add: v1(17))
  have a: "get_hh d s = Inr (HH s d)" "get_hh head s = Inr (HH s head)" "tbl (HH s head) = t" "get_tbl t s = Inr (TT s t)"
    using ld lm [OF hd] lt by (simp_all add: view_run view_simps)
  have c: "get_hh head' s1 = Inr (HH s1 head')" "tbl (HH s1 head') = t" "get_tbl t s1 = Inr (TT s1 t)"
    using lm [OF h'] lt1 v1 by (simp_all add: view_run view_simps)
  have e: "HASH_DEL_IN_BKT b (HASH_TO_BKT (HV s d) (2 ^ L)) d s1 = Inr s2"
    using HASH_DEL_IN_BKT_run [of s1 b "HASH_TO_BKT (HV s d) (2 ^ L)" d] lb ld hp len i2 v1 by (simp add: bi s2)
  have f: "upd_tbl t (\<lambda>T. T\<lparr>num_items := num_items T - 1\<rparr>) s2 = Inr s3"
    using lt2 by (simp add: view_run s3)
  have ne': "\<not> (PV s d = NULL \<and> NX s d = NULL)" using M(5) ne by simp
  have k: "rbind (if d = tail (TT s t) then upd_tbl t (\<lambda>T. T\<lparr>tail := PV s d\<rparr>) s else Inr s) (\<lambda>s'.
     rbind (if PV s d \<noteq> NULL then upd_hh (PV s d) (\<lambda>h. h\<lparr>nxt := NX s d\<rparr>) s' else Inr s') (\<lambda>s'.
     rbind (if NX s d \<noteq> NULL then upd_hh (NX s d) (\<lambda>h. h\<lparr>prv := PV s d\<rparr>) s' else Inr s') F)) = F s1" for F
  proof -
    define s0 where "s0 = put_tbl t (if d = tail (TT s t) then (TT s t)\<lparr>tail := PV s d\<rparr> else TT s t) s"
    have "(if d = tail (TT s t) then upd_tbl t (\<lambda>T. T\<lparr>tail := PV s d\<rparr>) s else Inr s) = Inr s0"
      using lt by (simp add: s0_def view_run put_tbl_same)
    moreover have "live (elems s0) = live (elems s)" by (simp add: s0_def view_simps)
    ultimately show ?thesis
      using pre1 unfolding s1 unlink_def Let_def s0_def [symmetric]
      by (cases "PV s d = NULL"; cases "NX s d = NULL"; simp add: view_run view_simps)
  qed
  show ?thesis
    unfolding HASH_DELETE_def a rbind_Inr handle_views(1,2,5) if_not_P [OF ne'] Let_def k head'_def [symmetric]
    by (simp add: c T1 e f)
qed

lemma table_ok_delete:
  assumes tab: "table_ok s head xs t L cs" and mem: "ut_mem_ok s" and d: "d \<in> set xs" and ne: "xs \<noteq> [d]"
  shows "\<exists>head' s' cs'. HASH_DELETE head d s = Inr (head', s') \<and>
           table_ok s' head' (remove1 d xs) t L cs' \<and> ut_step s s' \<and> oom s' = oom s"
proof -
  define b where "b = buckets (TT s t)"
  define i where "i = unat (HV s d) mod 2 ^ L"
  define head' where "head' = (if PV s d \<noteq> NULL then head else NX s d)"
  define s1 where "s1 = unlink t d s"
  define s2 where "s2 = pop_bkt b i d s1"
  define s3 where "s3 = put_tbl t ((TT s2 t)\<lparr>num_items := num_items (TT s2 t) - 1\<rparr>) s2"
  from tab have lt: "live (tbls s) t" and lb: "live (bkts s) b" and dl: "dll (NX s) (PV s) head xs (tail (TT s t))"
    and mo: "\<And>x. x \<in> set xs \<Longrightarrow> member_ok s t x" and L: "L < 32" and nb: "num_buckets (TT s t) = 2 ^ L"
    and bk: "bkts_ok (HN s) (HP s) (HV s) (BB s b) (2 ^ L) (set xs) cs"
    by (simp_all add: table_ok_def b_def)
  have lm: "live (elems s) x" "TB s x = t" if "x \<in> set xs" for x using mo [OF that] by (simp_all add: member_ok_def)
  have dist: "distinct xs" using dl by (rule dll_distinct)
  obtain ys zs where xs: "xs = ys @ d # zs" using d by (meson split_list)
  have rem: "remove1 d xs = ys @ zs" using xs dist by (simp add: remove1_append)
  note D = dll_delete [OF dl [unfolded xs]]
  note M = dll_members [OF dl d]
  have i: "i < 2 ^ L" by (simp add: i_def)
  have dc: "d \<in> set (cs i)" and cx: "set (cs i) \<subseteq> set xs" using bk i d by (auto simp: bkts_ok_def i_def)
  from bk i obtain tl where dli: "dll (HN s) (HP s) (hh_head (BB s b ! i)) (cs i) tl" by (auto simp: bkts_ok_def)
  note N = dll_members [OF dli dc]
  have pre1: "PV s d \<noteq> d" "NX s d \<noteq> d" "PV s d = NULL \<or> live (elems s) (PV s d)"
    "NX s d = NULL \<or> live (elems s) (NX s d)"
    using M lm by auto
  note v1 = unlink_views [OF lt lm(1) [OF d] pre1, folded s1_def]
  have hp: "HP s d = NULL \<or> live (elems s) (HP s d)" "HN s d = NULL \<or> live (elems s) (HN s d)"
    using N cx lm(1) by blast+
  have pre2: "live (bkts s1) b" "live (elems s1) d" "HP s1 d \<noteq> d" "HN s1 d \<noteq> d"
    "HP s1 d = NULL \<or> live (elems s1) (HP s1 d)" "HN s1 d = NULL \<or> live (elems s1) (HN s1 d)"
    unfolding v1 using lb lm(1) [OF d] N hp by simp_all
  note v2 = pop_bkt_views [OF pre2, of i, folded s2_def, unfolded v1(1-12) v1(14-16)]
  have lt1: "live (tbls s1) t" "live (tbls s2) t" using lt v1 v2 by simp_all
  have len: "length (BB s b) = 2 ^ L" using bk by (simp add: bkts_ok_def)
  have T1: "num_buckets (TT s1 t) = 2 ^ L" "buckets (TT s1 t) = b" "log2_num_buckets (TT s1 t) = of_nat L"
      "num_items (TT s1 t) = of_nat (length xs)" "tail (TT s1 t) = (if NX s d = NULL then PV s d else tail (TT s t))"
    using tab M(4) by (auto simp: v1(17) table_ok_def b_def)
  have run: "HASH_DELETE head d s = Inr (head', s3)"
    unfolding head'_def
    by (rule HASH_DELETE_run [OF lt dl d ne _ L nb b_def [symmetric] lb len i_def hp s1_def s2_def s3_def]) (use lm in auto)
  have v3: "NX s3 = NX s1" "PV s3 = PV s1" "HN s3 = HN s2" "HP s3 = HP s2" "HV s3 = HV s" "TB s3 = TB s" "KY s3 = KY s"
    "KL s3 = KL s" "SID s3 = SID s" "BB s3 = BB s2" "live (elems s3) = live (elems s)" "live (tbls s3) = live (tbls s)"
    "live (bkts s3) = live (bkts s)" "oom s3 = oom s"
    "TT s3 t = (TT s1 t)\<lparr>num_items := num_items (TT s1 t) - 1\<rparr>"
    using lt1 by (simp_all add: s3_def view_simps v2 v1)
  have "table_ok s3 head' (ys @ zs) t L (cs(i := remove1 d (cs i)))"
  proof -
    have 1: "dll (NX s3) (PV s3) head' (ys @ zs) (tail (TT s3 t))"
      using D(1) T1(5) unfolding v3 v1 head'_def by (simp split: if_splits)
    have "bkts_ok (HN s3) (HP s3) (HV s3) (BB s3 b) (2 ^ L) (set xs - {d}) (cs(i := remove1 d (cs i)))"
      unfolding v3 v2
      by (rule bkts_ok_delete [OF bk d]) (simp_all add: i_def)
    moreover have "set xs - {d} = set (ys @ zs)" using xs dist by auto
    ultimately have 2: "bkts_ok (HN s3) (HP s3) (HV s3) (BB s3 b) (2 ^ L) (set (ys @ zs)) (cs(i := remove1 d (cs i)))"
      by simp
    have 3: "\<forall>x \<in> set (ys @ zs). member_ok s3 t x"
      using mo xs by (auto simp: member_ok_def v3)
    have 4: "distinct (map (SID s3) (ys @ zs))" "length xs < 2 ^ 32" using tab xs by (auto simp: table_ok_def v3)
    have 5: "num_items (TT s3 t) = of_nat (length (ys @ zs))" by (simp add: v3(15) T1 xs)
    show ?thesis using 1 2 3 4 5 lt lb L T1 xs by (simp add: table_ok_def v3)
  qed
  moreover have "ut_step s s3"
  proof -
    have "ut_frame s s3" using v1(13) v2(13) by (auto simp: s3_def view_simps intro: ut_frame_trans)
    moreover have "ut_mem_ok s3" using mem v1(14) v2(14) lt1 by (simp add: s3_def ut_mem_ok_put)
    ultimately show ?thesis by (simp add: ut_step_def v3)
  qed
  ultimately show ?thesis using run rem v3(14) by auto
qed

text \<open>
  \<open>HASH_DELETE\<close> of an element of the table always returns; the others stay, in their order.
\<close>

lemma HASH_DELETE_correct:
  assumes inv: "ut_inv s head xs" and d: "d \<in> set xs"
  shows "\<exists>head' s'. HASH_DELETE head d s = Inr (head', s') \<and> ut_inv s' head' (remove1 d xs) \<and>
           ut_step s s' \<and> oom s' = oom s"
proof (cases "xs = [d]")
  case True
  with HASH_DELETE_last [of s head d] inv show ?thesis by auto
next
  case False
  from inv d obtain t L cs where tab: "table_ok s head xs t L cs" and mem: "ut_mem_ok s"
    by (cases "xs = []") (auto simp: ut_inv_def)
  have "remove1 d xs \<noteq> []"
  proof
    assume "remove1 d xs = []"
    with d have "length xs = 1" by (metis length_remove1 list.size(3) One_nat_def Suc_pred length_pos_if_in_set)
    with d False show False by (cases xs) auto
  qed
  with table_ok_delete [OF tab mem d False] show ?thesis unfolding ut_inv_def ut_step_def by metis
qed

end
