(* ===== verification/Uthash_Index.thy ===== *)
theory Uthash_Index
  imports Uthash_Del
begin

text \<open>
  The interface between the hash table and the code that uses it. \<open>index_base\<close>: an index holds a list of
  objects with distinct identifiers, and lookup returns the object with an identifier or \<open>NULL\<close>.
  \<open>hash_index\<close> extends it by what the provider relies on: insertion appends and deletion removes;
  \<open>fallible_index\<close> by an insertion that may be refused. The lemmas are
  about the map from identifiers to objects (\<open>index_map\<close>), which lookup reads, insertion extends
  and deletion restricts; an insertion at most doubles the space the index takes. The interpretation \<open>ut\<close> discharges the laws for the macros of uthash.
\<close>

definition index_map :: "(addr \<Rightarrow> u32) \<Rightarrow> addr list \<Rightarrow> u32 \<rightharpoonup> addr" where
  "index_map ident xs = map_of (map (\<lambda>x. (ident x, x)) xs)"

definition ptr :: "addr option \<Rightarrow> addr" where
  "ptr x = (case x of None \<Rightarrow> NULL | Some p \<Rightarrow> p)"

lemma ptr_simps [simp]: "ptr None = NULL" "ptr (Some p) = p"
  by (simp_all add: ptr_def)

lemma index_map_find: "index_map ident xs i = find (\<lambda>x. ident x = i) xs"
  by (induction xs) (auto simp: index_map_def)

lemma index_map_cong: "(\<And>x. x \<in> set xs \<Longrightarrow> ident x = ident' x) \<Longrightarrow> index_map ident xs = index_map ident' xs"
  unfolding index_map_def by (rule arg_cong [where f = map_of]) auto

lemma index_map_in:
  "distinct (map ident xs) \<Longrightarrow> x \<in> set xs \<Longrightarrow> index_map ident xs (ident x) = Some x"
  by (auto simp: index_map_def comp_def)

lemma index_map_Some_iff:
  "distinct (map ident xs) \<Longrightarrow> index_map ident xs i = Some x \<longleftrightarrow> x \<in> set xs \<and> ident x = i"
  by (auto simp: index_map_def comp_def)

lemma index_map_None_iff: "index_map ident xs i = None \<longleftrightarrow> i \<notin> ident ` set xs"
  by (simp add: index_map_def map_of_eq_None_iff image_image)

lemma dom_index_map: "dom (index_map ident xs) = ident ` set xs"
  using index_map_None_iff [of ident xs] by (auto simp: dom_def)

lemma index_map_append:
  "ident x \<notin> ident ` set xs \<Longrightarrow> index_map ident (xs @ [x]) = (index_map ident xs)(ident x \<mapsto> x)"
  by (induction xs) (auto simp: index_map_def fun_eq_iff)

lemma index_map_remove:
  assumes "distinct (map ident xs)" "x \<in> set xs"
  shows "index_map ident (remove1 x xs) = (index_map ident xs)(ident x := None)"
proof
  fix i
  have d: "distinct (map ident (remove1 x xs))" "distinct xs"
    using assms by (auto simp: distinct_map intro: inj_on_subset)
  show "index_map ident (remove1 x xs) i = ((index_map ident xs)(ident x := None)) i"
  proof (cases "index_map ident (remove1 x xs) i")
    case None
    then have "i \<notin> ident ` (set xs - {x})" using d by (simp add: index_map_None_iff)
    then have "i = ident x \<or> index_map ident xs i = None" by (auto simp: index_map_None_iff)
    with None show ?thesis by auto
  next
    case (Some y)
    then have y: "y \<in> set xs" "y \<noteq> x" "ident y = i" using d by (auto simp: index_map_Some_iff)
    then have "i \<noteq> ident x" using assms by (auto simp: distinct_map inj_on_def)
    have "index_map ident xs i = Some y" using y assms(1) by (simp add: index_map_Some_iff)
    with Some \<open>i \<noteq> ident x\<close> show ?thesis by simp
  qed
qed

lemma index_map_set:
  assumes "distinct (map ident xs)" "distinct (map ident ys)" "set xs = set ys"
  shows "index_map ident xs = index_map ident ys"
proof
  fix i
  show "index_map ident xs i = index_map ident ys i"
    using index_map_Some_iff [OF assms(1)] index_map_Some_iff [OF assms(2)] assms(3) by (metis not_None_eq)
qed

lemma index_map_replace:
  assumes "distinct (map ident xs)" "distinct (map ident ys)" "set ys = insert x {y \<in> set xs. ident y \<noteq> ident x}"
  shows "index_map ident ys = (index_map ident xs)(ident x \<mapsto> x)"
proof
  fix i
  show "index_map ident ys i = ((index_map ident xs)(ident x \<mapsto> x)) i"
  proof (cases "i = ident x")
    case True
    then show ?thesis using index_map_Some_iff [OF assms(2), of i x] assms(3) by simp
  next
    case False
    then have "index_map ident ys i = Some y \<longleftrightarrow> index_map ident xs i = Some y" for y
      unfolding index_map_Some_iff [OF assms(1)] index_map_Some_iff [OF assms(2)] assms(3) by auto
    then show ?thesis using False by (metis fun_upd_other not_None_eq)
  qed
qed

section \<open>The interface\<close>

locale index_base =
  fixes inv :: "'s \<Rightarrow> addr \<Rightarrow> addr list \<Rightarrow> bool"
    and ident :: "'s \<Rightarrow> addr \<Rightarrow> u32"
    and present :: "'s \<Rightarrow> addr \<Rightarrow> bool"
    and step :: "'s \<Rightarrow> 's \<Rightarrow> bool"
    and look :: "addr \<Rightarrow> u32 \<Rightarrow> 's \<Rightarrow> addr res"
  assumes empty: "inv s NULL xs \<Longrightarrow> xs = []"
    and start: "inv s h [] \<Longrightarrow> h = NULL"
    and idents: "inv s h xs \<Longrightarrow> distinct (map (ident s) xs)"
    and present_in: "inv s h xs \<Longrightarrow> x \<in> set xs \<Longrightarrow> present s x"
    and present_NULL: "\<not> present s NULL"
    and step_ident: "step s s' \<Longrightarrow> ident s' = ident s"
    and step_present: "step s s' \<Longrightarrow> present s' = present s"
    and look_find: "inv s h xs \<Longrightarrow> look h i s = Inr (ptr (find (\<lambda>x. ident s x = i) xs))"
begin

lemma look_map: "inv s h xs \<Longrightarrow> look h i s = Inr (ptr (index_map (ident s) xs i))"
  by (simp add: look_find index_map_find)

lemma look_hit: "inv s h xs \<Longrightarrow> x \<in> set xs \<Longrightarrow> look h (ident s x) s = Inr x"
  by (simp add: look_map index_map_in idents)

lemma look_miss: "inv s h xs \<Longrightarrow> i \<notin> ident s ` set xs \<Longrightarrow> look h i s = Inr NULL"
  using index_map_None_iff [of "ident s" xs i] by (simp add: look_map)

lemma look_cases:
  assumes "inv s h xs"
  obtains "look h i s = Inr NULL" "i \<notin> ident s ` set xs"
    | x where "look h i s = Inr x" "x \<in> set xs" "ident s x = i" "x \<noteq> NULL"
proof (cases "i \<in> ident s ` set xs")
  case True
  then obtain x where "x \<in> set xs" "ident s x = i" by auto
  with assms that(2) look_hit [of s h xs x] present_in [of s h xs x] present_NULL show ?thesis
    by metis
next
  case False
  with assms that(1) look_miss show ?thesis by blast
qed

lemma NULL_iff: "inv s h xs \<Longrightarrow> h = NULL \<longleftrightarrow> xs = []"
  using empty start by blast

lemma members_distinct: "inv s h xs \<Longrightarrow> distinct xs"
  using idents by (metis distinct_map)

text \<open>Indexes of the same objects answer alike, whatever their order.\<close>

lemma look_same:
  assumes "inv s h xs" "inv s' h' ys" "step s s'" "mset ys = mset xs"
  shows "look h' i s' = look h i s"
proof -
  have "set ys = set xs" using assms(4) by (rule mset_eq_setD)
  then have "index_map (ident s) ys = index_map (ident s) xs"
    by (intro index_map_set) (use idents [OF assms(1)] idents [OF assms(2)] step_ident [OF assms(3)] in simp_all)
  then show ?thesis using look_map [OF assms(1)] look_map [OF assms(2)] step_ident [OF assms(3)] by simp
qed

lemma look_replaced:
  assumes "inv s h xs" "inv s' h' ys" "step s s'" "mset ys = add_mset x (mset (filter (\<lambda>y. ident s y \<noteq> ident s x) xs))"
  shows "look h' i s' = Inr (if i = ident s x then x else ptr (index_map (ident s) xs i))"
proof -
  have "set ys = insert x {y \<in> set xs. ident s y \<noteq> ident s x}"
    using arg_cong [OF assms(4), of set_mset] by auto
  then have "index_map (ident s) ys = (index_map (ident s) xs)(ident s x \<mapsto> x)"
    by (intro index_map_replace) (use idents [OF assms(1)] idents [OF assms(2)] step_ident [OF assms(3)] in simp_all)
  then show ?thesis using look_map [OF assms(2)] step_ident [OF assms(3)] by simp
qed

end

text \<open>The index of the program: insertion succeeds, or the program ends for lack of memory.\<close>

locale hash_index = index_base inv ident present step look
  for inv :: "'s \<Rightarrow> addr \<Rightarrow> addr list \<Rightarrow> bool"
    and ident :: "'s \<Rightarrow> addr \<Rightarrow> u32"
    and present :: "'s \<Rightarrow> addr \<Rightarrow> bool"
    and step :: "'s \<Rightarrow> 's \<Rightarrow> bool"
    and look :: "addr \<Rightarrow> u32 \<Rightarrow> 's \<Rightarrow> addr res" +
  fixes healthy :: "'s \<Rightarrow> bool"
    and room :: "'s \<Rightarrow> addr \<Rightarrow> addr list \<Rightarrow> bool"
    and space :: "'s \<Rightarrow> addr \<Rightarrow> nat"
    and put :: "addr \<Rightarrow> addr \<Rightarrow> 's \<Rightarrow> (addr \<times> 's) res"
    and del :: "addr \<Rightarrow> addr \<Rightarrow> 's \<Rightarrow> (addr \<times> 's) res"
  assumes step_healthy: "step s s' \<Longrightarrow> healthy s \<Longrightarrow> healthy s'"
    and put_new: "inv s h xs \<Longrightarrow> present s x \<Longrightarrow> ident s x \<notin> ident s ` set xs \<Longrightarrow> room s h xs \<Longrightarrow>
      (case put h x s of Inl e \<Rightarrow> e = Exit (- 1) \<and> \<not> healthy s
       | Inr (h', s') \<Rightarrow> inv s' h' (xs @ [x]) \<and> step s s' \<and> space s' h' \<le> Suc (space s h))"
    and del_in: "inv s h xs \<Longrightarrow> x \<in> set xs \<Longrightarrow>
      \<exists>h' s'. del h x s = Inr (h', s') \<and> inv s' h' (remove1 x xs) \<and> step s s'"
begin

lemma put_extends:
  assumes "inv s h xs" "present s x" "ident s x \<notin> ident s ` set xs" "room s h xs" "healthy s"
  shows "\<exists>h' s'. put h x s = Inr (h', s') \<and> inv s' h' (xs @ [x]) \<and> step s s' \<and>
    index_map (ident s') (xs @ [x]) = (index_map (ident s) xs)(ident s x \<mapsto> x) \<and> space s' h' \<le> Suc (space s h)"
  using put_new [OF assms(1-4)] assms(3,5) step_ident [of s]
  by (auto split: sum.splits simp: index_map_append)

lemma del_restricts:
  assumes "inv s h xs" "x \<in> set xs"
  shows "\<exists>h' s'. del h x s = Inr (h', s') \<and> inv s' h' (remove1 x xs) \<and> step s s' \<and>
    index_map (ident s') (remove1 x xs) = (index_map (ident s) xs)(ident s x := None)"
  using del_in [OF assms] step_ident [of s] index_map_remove [OF idents [OF assms(1)] assms(2)]
  by metis

end

text \<open>
  An index that recovers from lack of memory: insertion always returns, and an object that could not be
  entered is not linked and leaves the index as it was.
\<close>

locale fallible_index = index_base inv ident present step look
  for inv :: "'s \<Rightarrow> addr \<Rightarrow> addr list \<Rightarrow> bool"
    and ident :: "'s \<Rightarrow> addr \<Rightarrow> u32"
    and present :: "'s \<Rightarrow> addr \<Rightarrow> bool"
    and step :: "'s \<Rightarrow> 's \<Rightarrow> bool"
    and look :: "addr \<Rightarrow> u32 \<Rightarrow> 's \<Rightarrow> addr res" +
  fixes healthy :: "'s \<Rightarrow> bool"
    and room :: "'s \<Rightarrow> addr \<Rightarrow> addr list \<Rightarrow> bool"
    and linked :: "'s \<Rightarrow> addr \<Rightarrow> bool"
    and enter :: "addr \<Rightarrow> addr \<Rightarrow> 's \<Rightarrow> (addr \<times> 's) res"
  assumes enter_new: "inv s h xs \<Longrightarrow> present s x \<Longrightarrow> ident s x \<notin> ident s ` set xs \<Longrightarrow> room s h xs \<Longrightarrow>
      \<exists>h' s'. enter h x s = Inr (h', s') \<and> step s s' \<and>
        (if linked s' x then inv s' h' (xs @ [x]) else \<not> healthy s \<and> h' = h \<and> inv s' h xs)"
begin

lemma enter_looks:
  assumes "inv s h xs" "present s x" "ident s x \<notin> ident s ` set xs" "room s h xs"
  shows "\<exists>h' s'. enter h x s = Inr (h', s') \<and> step s s' \<and> (linked s' x \<or> \<not> healthy s) \<and>
    (\<forall>i. look h' i s' = (if linked s' x \<and> i = ident s x then Inr x else look h i s))"
proof -
  from enter_new [OF assms] obtain h' s' where r: "enter h x s = Inr (h', s')" "step s s'"
    "if linked s' x then inv s' h' (xs @ [x]) else \<not> healthy s \<and> h' = h \<and> inv s' h xs" by blast
  note id = step_ident [OF r(2)]
  show ?thesis
  proof (cases "linked s' x")
    case True
    with r(3) have "inv s' h' (xs @ [x])" by simp
    then have "look h' i s' = Inr (ptr (((index_map (ident s) xs)(ident s x \<mapsto> x)) i))" for i
      by (simp add: look_map id index_map_append assms(3))
    with True r assms(1) show ?thesis by (auto simp: look_map)
  next
    case False
    with r(3) have "inv s' h xs" "h' = h" "\<not> healthy s" by simp_all
    with False r(1,2) assms(1) show ?thesis by (auto simp: look_map id)
  qed
qed

end

section \<open>The hash table provides it\<close>

definition ut_room :: "('a elem_scheme, 'b) ut_mem_scheme \<Rightarrow> addr \<Rightarrow> addr list \<Rightarrow> bool" where
  "ut_room s head xs \<longleftrightarrow> length xs + 1 < 2 ^ 32 \<and> ut_log2 s head < 31"

lemma ut_step_live: "ut_step s s' \<Longrightarrow> live (elems s') = live (elems s)"
  by (auto simp: ut_step_def fun_eq_iff ut_frame_live)

interpretation ut: hash_index ut_inv SID "\<lambda>s. live (elems s)" ut_step HASH_FIND no_oom ut_room ut_log2 HASH_ADD HASH_DELETE
proof unfold_locales
  fix s :: "('a elem_scheme, 'b) ut_mem_scheme" and h x :: addr and xs i s'
  show "ut_inv s NULL xs \<Longrightarrow> xs = []" using ut_inv_NULL_iff by blast
  show "ut_inv s h [] \<Longrightarrow> h = NULL" by simp
  show "ut_inv s h xs \<Longrightarrow> distinct (map (SID s) xs)" by (rule ut_inv_distinct_ids)
  show "ut_inv s h xs \<Longrightarrow> x \<in> set xs \<Longrightarrow> live (elems s) x" by (rule ut_inv_live)
  show "\<not> live (elems s) NULL" by (simp add: live_def)
  show "ut_step s s' \<Longrightarrow> SID s' = SID s" by (simp add: ut_step_def)
  show "ut_step s s' \<Longrightarrow> live (elems s') = live (elems s)" by (rule ut_step_live)
  show "ut_step s s' \<Longrightarrow> no_oom s \<Longrightarrow> no_oom s'" by (rule ut_step_no_oom)
  show "ut_inv s h xs \<Longrightarrow> HASH_FIND h i s = Inr (ptr (find (\<lambda>x. SID s x = i) xs))"
    by (simp add: HASH_FIND_correct ut_lookup_def ptr_def)
  show "case HASH_ADD h x s of Inl e \<Rightarrow> e = Exit (- 1) \<and> \<not> no_oom s
       | Inr (h', s') \<Rightarrow> ut_inv s' h' (xs @ [x]) \<and> ut_step s s' \<and> ut_log2 s' h' \<le> Suc (ut_log2 s h)"
    if "ut_inv s h xs" "live (elems s) x" "SID s x \<notin> SID s ` set xs" "ut_room s h xs"
  proof -
    from that have "x \<notin> set xs" by auto
    from HASH_ADD_correct [OF that(1,2) this that(3)] that(4) show ?thesis
      by (auto simp: add_result_def ut_room_def split: sum.splits)
  qed
  show "ut_inv s h xs \<Longrightarrow> x \<in> set xs \<Longrightarrow>
      \<exists>h' s'. HASH_DELETE h x s = Inr (h', s') \<and> ut_inv s' h' (remove1 x xs) \<and> ut_step s s'"
    using HASH_DELETE_correct by blast
qed

end
