(* ===== verification/Server.thy ===== *)
theory Server
  imports Uthash_Index
begin

text \<open>
  The state of a process that runs a provider: the structures of \<open>src/types.h\<close> and
  \<open>src/provider.h\<close> and the memory they live in.

  The memory extends that of the hash table (whose elements are the streams) by the sample buffers,
  the providers, the tag lists with their pointer arrays and strings, and the state of the two
  libraries underneath. Argobots is a parameter: \<open>'x\<close> is its state, \<open>'x argobots\<close> the calls the
  program makes, and \<open>argobots_ok\<close> the documented behaviour of its mutexes. What the program asks of
  Margo is recorded in \<open>calls\<close>; what Margo answers is an argument of each operation.

  The macros of uthash keep everything but the handles (\<open>ut_step_server\<close>), and a table survives any
  change of memory that leaves its elements' handles and keys alone (\<open>ut_inv_agree\<close>).
\<close>

section \<open>Streams and providers\<close>

record aggregator_stream = elem +
  stype :: aggregator_stream_type_t
  buffer :: addr
  buffer_index :: u32
  desc :: "byte list"
  sname :: "byte list"
  sns :: "byte list"
  stags :: addr
  stream_mutex :: addr

definition zero_stream :: aggregator_stream where
  "zero_stream = \<lparr>sid = 0, hh = zero_handle, stype = AGGREGATOR_TYPE_COUNTER, buffer = NULL,
     buffer_index = 0, desc = replicate 200 0, sname = replicate 36 0, sns = replicate 36 0,
     stags = NULL, stream_mutex = NULL\<rparr>"

record aggregator_provider =
  pmid :: addr
  provider_id :: u16
  pool :: addr
  abtio :: addr
  num_streams :: u64
  streams :: addr
  list_streams_id :: u64
  stream_fetch_id :: u64

definition zero_provider :: aggregator_provider where
  "zero_provider = \<lparr>pmid = NULL, provider_id = 0, pool = NULL, abtio = NULL, num_streams = 0,
     streams = NULL, list_streams_id = 0, stream_fetch_id = 0\<rparr>"

section \<open>The libraries underneath\<close>

record 'x argobots =
  ABT_mutex_create :: "'x \<Rightarrow> addr \<times> 'x"
  ABT_mutex_free :: "addr \<Rightarrow> 'x \<Rightarrow> 'x res"
  ABT_mutex_lock :: "addr \<Rightarrow> 'x \<Rightarrow> 'x res"
  ABT_mutex_unlock :: "addr \<Rightarrow> 'x \<Rightarrow> 'x res"
  ABT_self_get_thread_id :: "'x \<Rightarrow> u64"
  ABT_get_wtime :: "'x \<Rightarrow> double \<times> 'x"

text \<open>
  The documented behaviour of a mutex: it is created unlocked under a new name, locking a free
  mutex takes it, unlocking a taken one releases it, and freeing ends it. \<open>mv x m\<close> is what is known
  of the mutex \<open>m\<close>: that there is none, or whether it is taken. The other calls leave mutexes alone.
\<close>

definition argobots_ok :: "'x argobots \<Rightarrow> ('x \<Rightarrow> addr \<rightharpoonup> bool) \<Rightarrow> bool" where
  "argobots_ok A mv \<longleftrightarrow>
     (\<forall>x m x'. ABT_mutex_create A x = (m, x') \<longrightarrow> mv x m = None \<and> mv x' = (mv x)(m \<mapsto> False)) \<and>
     (\<forall>x m. mv x m \<noteq> None \<longrightarrow> (\<exists>x'. ABT_mutex_free A m x = Inr x' \<and> mv x' = (mv x)(m := None))) \<and>
     (\<forall>x m. mv x m = Some False \<longrightarrow> (\<exists>x'. ABT_mutex_lock A m x = Inr x' \<and> mv x' = (mv x)(m \<mapsto> True))) \<and>
     (\<forall>x m. mv x m = Some True \<longrightarrow> (\<exists>x'. ABT_mutex_unlock A m x = Inr x' \<and> mv x' = (mv x)(m \<mapsto> False))) \<and>
     (\<forall>x. mv (snd (ABT_get_wtime A x)) = mv x)"

text \<open>What the program asks Margo to do.\<close>

datatype margo_call =
    MARGO_REGISTER_PROVIDER u64 u16 addr
  | margo_register_data u64 addr
  | margo_deregister u64
  | margo_provider_push_finalize_callback addr
  | margo_provider_pop_finalize_callback addr

section \<open>The state\<close>

record 'x server = "aggregator_stream ut_mem" +
  bufs :: "aggregator_stream_sample carr heap"
  provs :: "aggregator_provider heap"
  tagls :: "aggregator_taglist heap"
  ptrs :: "addr carr heap"
  strs :: "byte list heap"
  idarrs :: "u32 carr heap"
  abt :: 'x
  calls :: "margo_call list"

definition upd_stream :: "addr \<Rightarrow> (aggregator_stream \<Rightarrow> aggregator_stream) \<Rightarrow> 'x server \<Rightarrow> 'x server res" where
  "upd_stream p f s =
     rbind (load (elems s) p) (\<lambda>e.
     rbind (store (elems s) p (f e)) (\<lambda>h. Inr (s\<lparr>elems := h\<rparr>)))"

definition upd_prov :: "addr \<Rightarrow> (aggregator_provider \<Rightarrow> aggregator_provider) \<Rightarrow> 'x server \<Rightarrow> 'x server res" where
  "upd_prov p f s =
     rbind (load (provs s) p) (\<lambda>P.
     rbind (store (provs s) p (f P)) (\<lambda>h. Inr (s\<lparr>provs := h\<rparr>)))"

section \<open>Views\<close>

named_theorems srv_simps "views of an updated server state"

definition ST :: "'x server \<Rightarrow> addr \<Rightarrow> aggregator_stream" where
  "ST s p = the (cells (elems s) p)"

definition PR :: "'x server \<Rightarrow> addr \<Rightarrow> aggregator_provider" where
  "PR s p = the (cells (provs s) p)"

definition put_prov :: "addr \<Rightarrow> aggregator_provider \<Rightarrow> 'x server \<Rightarrow> 'x server" where
  "put_prov p P s = s\<lparr>provs := (provs s)\<lparr>cells := (cells (provs s))(p := Some P)\<rparr>\<rparr>"

definition put_stream :: "addr \<Rightarrow> aggregator_stream \<Rightarrow> 'x server \<Rightarrow> 'x server" where
  "put_stream p e s = s\<lparr>elems := (elems s)\<lparr>cells := (cells (elems s))(p := Some e)\<rparr>\<rparr>"

definition free_stream :: "addr \<Rightarrow> 'x server \<Rightarrow> 'x server" where
  "free_stream p s = s\<lparr>elems := (elems s)\<lparr>cells := (cells (elems s))(p := None)\<rparr>\<rparr>"

lemma load_prov_live [view_run]: "live (provs s) p \<Longrightarrow> load (provs s) p = Inr (PR s p)"
  by (simp add: load_live PR_def)

lemma upd_prov_live [view_run]: "live (provs s) p \<Longrightarrow> upd_prov p f s = Inr (put_prov p (f (PR s p)) s)"
  by (simp add: upd_prov_def load_live store_live PR_def put_prov_def)

lemma load_stream_live [view_run]:
  "live (elems s) p \<Longrightarrow> load (elems s) p = Inr (ST s p)"
  by (simp add: load_live ST_def)

lemma upd_stream_live [view_run]:
  "live (elems s) p \<Longrightarrow> upd_stream p f s = Inr (put_stream p (f (ST s p)) s)"
  by (simp add: upd_stream_def load_live store_live ST_def put_stream_def)

lemma dealloc_stream_live: "live (elems s) p \<Longrightarrow> dealloc (elems s) p = Inr (elems (free_stream p s))"
  by (simp add: dealloc_live free_stream_def)

lemma free_stream_fold: "s\<lparr>elems := elems (free_stream p s)\<rparr> = free_stream p s"
  by (simp add: free_stream_def)

lemma put_prov_views [srv_simps]:
  "elems (put_prov p P s) = elems s" "tbls (put_prov p P s) = tbls s" "bkts (put_prov p P s) = bkts s"
  "oom (put_prov p P s) = oom s" "bufs (put_prov p P s) = bufs s" "tagls (put_prov p P s) = tagls s"
  "ptrs (put_prov p P s) = ptrs s" "strs (put_prov p P s) = strs s" "idarrs (put_prov p P s) = idarrs s" "abt (put_prov p P s) = abt s"
  "calls (put_prov p P s) = calls s" "PR (put_prov p P s) = (PR s)(p := P)" "ST (put_prov p P s) = ST s"
  by (auto simp: put_prov_def PR_def ST_def fun_eq_iff)

lemma live_put_prov [srv_simps]: "live (provs s) p \<Longrightarrow> live (provs (put_prov p P s)) = live (provs s)"
  by (auto simp: put_prov_def live_def fun_eq_iff)

lemma put_stream_views [srv_simps]:
  "tbls (put_stream p e s) = tbls s" "bkts (put_stream p e s) = bkts s"
  "oom (put_stream p e s) = oom s" "bufs (put_stream p e s) = bufs s" "tagls (put_stream p e s) = tagls s"
  "ptrs (put_stream p e s) = ptrs s" "strs (put_stream p e s) = strs s" "idarrs (put_stream p e s) = idarrs s" "abt (put_stream p e s) = abt s"
  "calls (put_stream p e s) = calls s" "provs (put_stream p e s) = provs s" "PR (put_stream p e s) = PR s"
  "ST (put_stream p e s) = (ST s)(p := e)" "brk (elems (put_stream p e s)) = brk (elems s)"
  by (auto simp: put_stream_def PR_def ST_def fun_eq_iff)

lemma live_put_stream [srv_simps]: "live (elems s) p \<Longrightarrow> live (elems (put_stream p e s)) = live (elems s)"
  by (auto simp: put_stream_def live_def fun_eq_iff)

lemma free_stream_views [srv_simps]:
  "tbls (free_stream p s) = tbls s" "bkts (free_stream p s) = bkts s"
  "oom (free_stream p s) = oom s" "bufs (free_stream p s) = bufs s" "tagls (free_stream p s) = tagls s"
  "ptrs (free_stream p s) = ptrs s" "strs (free_stream p s) = strs s" "idarrs (free_stream p s) = idarrs s" "abt (free_stream p s) = abt s"
  "calls (free_stream p s) = calls s" "provs (free_stream p s) = provs s" "PR (free_stream p s) = PR s"
  "live (elems (free_stream p s)) q \<longleftrightarrow> q \<noteq> p \<and> live (elems s) q"
  "q \<noteq> p \<Longrightarrow> ST (free_stream p s) q = ST s q"
  by (auto simp: free_stream_def PR_def ST_def live_def)

lemma HH_ST: "HH s p = hh (ST s p)" and SID_ST: "SID s p = sid (ST s p)"
  by (simp_all add: HH_def SID_def ST_def)

section \<open>Frames\<close>

text \<open>What the hash table's operations leave alone.\<close>

definition ST_same :: "aggregator_stream \<Rightarrow> aggregator_stream \<Rightarrow> bool" where
  "ST_same e e' \<longleftrightarrow> e'\<lparr>hh := zero_handle\<rparr> = e\<lparr>hh := zero_handle\<rparr>"

lemma ST_same_fields:
  assumes "ST_same e e'"
  shows "sid e' = sid e" "stype e' = stype e" "buffer e' = buffer e" "buffer_index e' = buffer_index e"
    "desc e' = desc e" "sname e' = sname e" "sns e' = sns e" "stags e' = stags e" "stream_mutex e' = stream_mutex e"
  using assms unfolding ST_same_def
  by (cases e; cases e'; simp)+

lemma more_server:
  assumes "ut_mem.more s' = ut_mem.more (s :: 'x server)"
  shows "bufs s' = bufs s" "provs s' = provs s" "tagls s' = tagls s" "ptrs s' = ptrs s"
    "strs s' = strs s" "idarrs s' = idarrs s" "abt s' = abt s" "calls s' = calls s"
  using assms by (cases s; cases s'; simp)+

lemma ut_step_server:
  assumes "ut_step s (s' :: 'x server)"
  shows "bufs s' = bufs s" "provs s' = provs s" "tagls s' = tagls s" "ptrs s' = ptrs s"
    "strs s' = strs s" "abt s' = abt s" "calls s' = calls s" "PR s' = PR s"
    "live (elems s') = live (elems s)" "SID s' = SID s" "brk (elems s') = brk (elems s)"
    "set (oom s') \<subseteq> set (oom s)" "ut_mem_ok s'"
    "live (elems s) p \<Longrightarrow> ST_same (ST s p) (ST s' p)" "idarrs s' = idarrs s"
proof -
  from assms have fr: "ut_frame s s'" and more: "ut_mem.more s' = ut_mem.more s"
    by (simp_all add: ut_step_def ut_frame_def)
  show m: "bufs s' = bufs s" "provs s' = provs s" "tagls s' = tagls s" "ptrs s' = ptrs s"
    "strs s' = strs s" "idarrs s' = idarrs s" "abt s' = abt s" "calls s' = calls s"
    using more_server [OF more] by simp_all
  then show "PR s' = PR s" by (simp add: PR_def fun_eq_iff)
  show l: "live (elems s') = live (elems s)" using assms by (rule ut_step_live)
  show "SID s' = SID s" "brk (elems s') = brk (elems s)" "set (oom s') \<subseteq> set (oom s)" "ut_mem_ok s'"
    using assms by (simp_all add: ut_step_def ut_frame_def)
  show "ST_same (ST s p) (ST s' p)" if "live (elems s) p"
  proof -
    from that obtain y where y: "cells (elems s) p = Some y" by (auto simp: live_def)
    moreover have "payload s' p = payload s p" using fr by (simp add: ut_frame_def)
    ultimately show ?thesis by (auto simp: payload_def ST_def ST_same_def)
  qed
qed

text \<open>A table depends only on its elements' handles and keys.\<close>

lemma table_ok_agree:
  assumes tab: "table_ok s head xs t L cs"
    and same: "tbls s' = tbls s" "bkts s' = bkts s"
    and on: "\<And>x. x \<in> set xs \<Longrightarrow> live (elems s') x \<and> HH s' x = HH s x \<and> SID s' x = SID s x"
  shows "table_ok s' head xs t L cs"
proof -
  have T: "TT s' = TT s" "BB s' = BB s" using same by (simp_all add: TT_def BB_def fun_eq_iff)
  have v: "NX s' x = NX s x" "PV s' x = PV s x" "HN s' x = HN s x" "HP s' x = HP s x" "HV s' x = HV s x"
    if "x \<in> set xs" for x
    using on [OF that] by (simp_all add: NX_def PV_def HN_def HP_def HV_def)
  have m: "member_ok s' t x" if "x \<in> set xs" for x
    using tab on [OF that] that by (auto simp: table_ok_def member_ok_def TB_def KY_def KL_def HV_def)
  have "dll (NX s') (PV s') head xs (tail (TT s t))"
    using tab v by (subst dll_cong [of _ _ "NX s" _ "PV s"]) (auto simp: table_ok_def)
  moreover have "bkts_ok (HN s') (HP s') (HV s') (BB s (buckets (TT s t))) (2 ^ L) (set xs) cs"
    using tab v by (subst bkts_ok_cong [of _ _ "HN s" _ "HP s" _ "HV s"]) (auto simp: table_ok_def)
  moreover have "map (SID s') xs = map (SID s) xs" using on by simp
  ultimately show ?thesis using tab m same unfolding table_ok_def T by metis
qed

lemma ut_inv_agree:
  assumes inv: "ut_inv s head xs"
    and same: "tbls s' = tbls s" "bkts s' = bkts s" "heap_ok (elems s')"
    and on: "\<And>x. x \<in> set xs \<Longrightarrow> live (elems s') x \<and> HH s' x = HH s x \<and> SID s' x = SID s x"
  shows "ut_inv s' head xs"
proof -
  have mem: "ut_mem_ok s'" using inv same by (simp add: ut_inv_def ut_mem_ok_def)
  show ?thesis
  proof (cases "xs = []")
    case True
    with inv mem show ?thesis by simp
  next
    case False
    with inv obtain t L cs where "table_ok s head xs t L cs" by (auto simp: ut_inv_def)
    from table_ok_agree [OF this same(1,2) on] False mem show ?thesis by (auto simp: ut_inv_def)
  qed
qed

lemma ut_inv_put_prov [simp]: "ut_inv (put_prov p P s) head xs \<longleftrightarrow> ut_inv s head xs"
proof -
  have "HH (put_prov p P s) = HH s" "SID (put_prov p P s) = SID s"
    by (simp_all add: HH_def SID_def put_prov_def fun_eq_iff)
  moreover have "ut_inv s head xs \<Longrightarrow> heap_ok (elems s)" "ut_inv (put_prov p P s) head xs \<Longrightarrow> heap_ok (elems s)"
    by (simp_all add: ut_inv_def ut_mem_ok_def srv_simps)
  ultimately show ?thesis
    using ut_inv_agree [of s head xs "put_prov p P s"] ut_inv_agree [of "put_prov p P s" head xs s]
      ut_inv_live [of s head xs] ut_inv_live [of "put_prov p P s" head xs]
    by (auto simp: srv_simps)
qed

lemma ut_inv_free_stream:
  assumes "ut_inv s head xs" "p \<notin> set xs"
  shows "ut_inv (free_stream p s) head xs"
proof (rule ut_inv_agree [OF assms(1)])
  show "heap_ok (elems (free_stream p s))"
    using assms(1) by (auto simp: ut_inv_def ut_mem_ok_def heap_ok_def free_stream_def)
  fix x assume x: "x \<in> set xs"
  with assms(2) have "x \<noteq> p" by auto
  with x show "live (elems (free_stream p s)) x \<and> HH (free_stream p s) x = HH s x \<and> SID (free_stream p s) x = SID s x"
    using assms ut_inv_live by (auto simp: srv_simps HH_ST SID_ST)
qed (simp_all add: srv_simps)

lemma ut_inv_put_stream:
  assumes "ut_inv s head xs" "live (elems s) p" "hh e = hh (ST s p)" "sid e = sid (ST s p)"
  shows "ut_inv (put_stream p e s) head xs"
proof (rule ut_inv_agree [OF assms(1)])
  show "heap_ok (elems (put_stream p e s))"
    using assms(1,2) by (auto simp: ut_inv_def ut_mem_ok_def heap_ok_def put_stream_def live_def)
  fix x assume "x \<in> set xs"
  then show "live (elems (put_stream p e s)) x \<and> HH (put_stream p e s) x = HH s x \<and> SID (put_stream p e s) x = SID s x"
    using assms ut_inv_live by (auto simp: srv_simps HH_ST SID_ST)
qed (simp_all add: srv_simps)

section \<open>Streams\<close>

text \<open>
  A well-formed stream: its buffer is live and full size, its index within it, its strings
  terminated. \<open>samples\<close> is what has been recorded, oldest first.
\<close>

definition sbuf :: "'x server \<Rightarrow> addr \<Rightarrow> aggregator_stream_sample carr" where
  "sbuf s st = the (cells (bufs s) (buffer (ST s st)))"

definition stream_wf :: "'x server \<Rightarrow> addr \<Rightarrow> bool" where
  "stream_wf s st \<longleftrightarrow> live (elems s) st \<and> live (bufs s) (buffer (ST s st)) \<and>
     alen (sbuf s st) = STREAM_BUFFER_SIZE \<and> unat (buffer_index (ST s st)) \<le> STREAM_BUFFER_SIZE \<and>
     terminated (sname (ST s st)) \<and> length (sname (ST s st)) = 36 \<and>
     terminated (sns (ST s st)) \<and> length (sns (ST s st)) = 36"

text \<open>The heaps beside the hash table's, and no allocation that is going to fail.\<close>

definition mem_ok :: "'x server \<Rightarrow> bool" where
  "mem_ok s \<longleftrightarrow> heap_ok (bufs s) \<and> heap_ok (tagls s) \<and> heap_ok (ptrs s) \<and> heap_ok (strs s) \<and>
     heap_ok (idarrs s) \<and> no_oom s"

lemma no_oom_tl: "False \<notin> set sch \<Longrightarrow> False \<notin> set (tl sch)"
  using set_tl_subset [of sch] by auto

lemma alloc_ok_set: "False \<notin> set sch \<Longrightarrow> alloc_ok sch"
  by (cases sch) auto

definition samples :: "'x server \<Rightarrow> addr \<Rightarrow> aggregator_stream_sample list" where
  "samples s st = aslice (sbuf s st) 0 (unat (buffer_index (ST s st)))"

lemma length_samples [simp]: "length (samples s st) = unat (buffer_index (ST s st))"
  by (simp add: samples_def)

lemma stream_wf_load:
  "stream_wf s st \<Longrightarrow> load (elems s) st = Inr (ST s st)"
  "stream_wf s st \<Longrightarrow> load (bufs s) (buffer (ST s st)) = Inr (sbuf s st)"
  by (simp_all add: stream_wf_def load_live ST_def sbuf_def)

end
