(* ===== verification/Provider.thy ===== *)
theory Provider
  imports Server
begin

text \<open>
  The operations of \<open>src/provider.c\<close> on the hash of streams, and the creation and destruction of
  streams. \<open>prov_inv s p xs\<close>: the provider \<open>p\<close> has registered the streams \<open>xs\<close>, in this order.
  What a provider promises is a map from identifiers to streams (\<open>registry\<close>): \<open>find_stream\<close> reads it,
  \<open>add_stream\<close> extends it, refusing an identifier in use, \<open>remove_stream\<close> and \<open>remove_all_streams\<close>
  shrink it. The lemmas rest on the interpretation \<open>ut\<close> of \<open>hash_index\<close>.
\<close>

section \<open>The hash of streams\<close>

text \<open>A pointer to an identifier: a local variable, or the field of a stream.\<close>

datatype id_ptr = Id_var u32 | Id_of addr

fun read_id :: "id_ptr \<Rightarrow> 'x server \<Rightarrow> u32 res" where
  "read_id (Id_var i) s = Inr i"
| "read_id (Id_of m) s = rbind (load (elems s) m) (\<lambda>e. Inr (sid e))"

definition find_stream :: "addr \<Rightarrow> id_ptr \<Rightarrow> 'x server \<Rightarrow> addr res" where
  "find_stream p ip s =
     rbind (load (provs s) p) (\<lambda>P.
     if streams P = NULL then Inr NULL
     else rbind (read_id ip s) (\<lambda>i. HASH_FIND (streams P) i s))"

definition add_stream :: "addr \<Rightarrow> addr \<Rightarrow> 'x server \<Rightarrow> (aggregator_return_t \<times> 'x server) res" where
  "add_stream p stream s =
     rbind (find_stream p (Id_of stream) s) (\<lambda>existing.
     if existing \<noteq> NULL then Inr (AGGREGATOR_ERR_INVALID_STREAM, s)
     else
       rbind (load (provs s) p) (\<lambda>P.
       rbind (HASH_ADD (streams P) stream s) (\<lambda>(h, s).
       rbind (upd_prov p (\<lambda>P. P\<lparr>streams := h\<rparr>) s) (\<lambda>s.
       rbind (upd_prov p (\<lambda>P. P\<lparr>num_streams := num_streams P + 1\<rparr>) s) (\<lambda>s.
       Inr (AGGREGATOR_SUCCESS, s))))))"

definition remove_stream :: "addr \<Rightarrow> id_ptr \<Rightarrow> 'x server \<Rightarrow> (aggregator_return_t \<times> 'x server) res" where
  "remove_stream p ip s =
     rbind (find_stream p ip s) (\<lambda>stream.
     if stream = NULL then Inr (AGGREGATOR_ERR_INVALID_STREAM, s)
     else
       rbind (load (provs s) p) (\<lambda>P.
       rbind (HASH_DELETE (streams P) stream s) (\<lambda>(h, s).
       rbind (upd_prov p (\<lambda>P. P\<lparr>streams := h\<rparr>) s) (\<lambda>s.
       rbind (dealloc (elems s) stream) (\<lambda>es. let s = s\<lparr>elems := es\<rparr> in
       rbind (upd_prov p (\<lambda>P. P\<lparr>num_streams := num_streams P - 1\<rparr>) s) (\<lambda>s.
       Inr (AGGREGATOR_SUCCESS, s)))))))"

text \<open>\<open>HASH_ITER\<close> holds the current element \<open>r\<close> and the next one, \<open>tmp\<close>, read before the body.\<close>

definition hash_next :: "addr \<Rightarrow> 'x server \<Rightarrow> addr res" where
  "hash_next r s = (if r \<noteq> NULL then rbind (get_hh r s) (\<lambda>h. Inr (nxt h)) else Inr NULL)"

fun remove_all_loop :: "nat \<Rightarrow> addr \<Rightarrow> addr \<Rightarrow> addr \<Rightarrow> 'x server \<Rightarrow> 'x server res" where
  "remove_all_loop 0 r tmp p s = Inl Diverge"
| "remove_all_loop (Suc n) r tmp p s =
     (if r = NULL then Inr s
      else
        rbind (load (provs s) p) (\<lambda>P.
        rbind (HASH_DELETE (streams P) r s) (\<lambda>(h, s).
        rbind (upd_prov p (\<lambda>P. P\<lparr>streams := h\<rparr>) s) (\<lambda>s.
        rbind (dealloc (elems s) r) (\<lambda>es. let s = s\<lparr>elems := es\<rparr> in
        rbind (hash_next tmp s) (\<lambda>tmp'.
        remove_all_loop n tmp tmp' p s))))))"

definition remove_all_streams :: "addr \<Rightarrow> 'x server \<Rightarrow> 'x server res" where
  "remove_all_streams p s =
     rbind (load (provs s) p) (\<lambda>P.
     rbind (hash_next (streams P) s) (\<lambda>tmp.
     rbind (remove_all_loop (fuel s) (streams P) tmp p s) (\<lambda>s.
     upd_prov p (\<lambda>P. P\<lparr>num_streams := 0\<rparr>) s)))"

section \<open>Creating and destroying a stream\<close>

text \<open>The strings of a tag list, read through its array of pointers.\<close>

fun tag_strings :: "'x server \<Rightarrow> addr \<Rightarrow> nat \<Rightarrow> byte list list res" where
  "tag_strings s a 0 = Inr []"
| "tag_strings s a (Suc n) =
     rbind (tag_strings s a n) (\<lambda>ts.
     rbind (load (ptrs s) a) (\<lambda>arr.
     rbind (aget arr n) (\<lambda>q.
     rbind (load (strs s) q) (\<lambda>t. Inr (ts @ [t])))))"

text \<open>A \<open>char*\<close> argument that is dereferenced; \<open>None\<close> is the null pointer.\<close>

definition str_arg :: "byte list option \<Rightarrow> byte list res" where
  "str_arg a = (case a of None \<Rightarrow> Inl NullDeref | Some t \<Rightarrow> Inr t)"

text \<open>\<open>strcpy(stream->f, src)\<close>.\<close>

definition strcpy_field :: "(aggregator_stream \<Rightarrow> byte list) \<Rightarrow>
    (byte list \<Rightarrow> aggregator_stream \<Rightarrow> aggregator_stream) \<Rightarrow> addr \<Rightarrow> byte list option \<Rightarrow>
    'x server \<Rightarrow> 'x server res" where
  "strcpy_field rd wr stream src s =
     rbind (str_arg src) (\<lambda>t.
     rbind (load (elems s) stream) (\<lambda>e.
     rbind (strcpy (rd e) t) (\<lambda>r.
     upd_stream stream (wr r) s)))"

definition aggregator_provider_stream_create :: "'x argobots \<Rightarrow> byte list option \<Rightarrow> byte list option \<Rightarrow>
    aggregator_stream_type_t \<Rightarrow> byte list option \<Rightarrow> addr \<Rightarrow> addr \<Rightarrow> 'x server \<Rightarrow>
    (aggregator_return_t \<times> addr option \<times> 'x server) res" where
  "aggregator_provider_stream_create A ns name t dsc tgl p s =
     (if ns = None \<or> name = None then Inr (AGGREGATOR_ERR_INVALID_NAME, None, s)
      else
        rbind (load (tagls s) tgl) (\<lambda>T.
        rbind (tag_strings s (taglist T) (nat (num_tags T))) (\<lambda>tags.
        rbind (aggregator_id_from_string_identifiers (the ns) (the name) tags (num_tags T)) (\<lambda>i.
        let (stream, sch, es) = calloc zero_stream (oom s) (elems s); s = s\<lparr>oom := sch, elems := es\<rparr>;
            (m, x) = ABT_mutex_create A (abt s); s = s\<lparr>abt := x\<rparr> in
        rbind (upd_stream stream (\<lambda>e. e\<lparr>stream_mutex := m\<rparr>) s) (\<lambda>s.
        rbind (upd_stream stream (\<lambda>e. e\<lparr>sid := i\<rparr>) s) (\<lambda>s.
        rbind (strcpy_field sname (\<lambda>r e. e\<lparr>sname := r\<rparr>) stream name s) (\<lambda>s.
        rbind (strcpy_field sns (\<lambda>r e. e\<lparr>sns := r\<rparr>) stream ns s) (\<lambda>s.
        rbind (strcpy_field desc (\<lambda>r e. e\<lparr>desc := r\<rparr>) stream dsc s) (\<lambda>s.
        rbind (upd_stream stream (\<lambda>e. e\<lparr>stype := t, stags := tgl, buffer_index := 0\<rparr>) s) (\<lambda>s.
        let (b, sch, bs) = calloc (azero STREAM_BUFFER_SIZE zero_sample) (oom s) (bufs s);
            s = s\<lparr>oom := sch, bufs := bs\<rparr> in
        rbind (upd_stream stream (\<lambda>e. e\<lparr>buffer := b\<rparr>) s) (\<lambda>s.
        rbind (add_stream p stream s) (\<lambda>(_, s).
        rbind (load (elems s) stream) (\<lambda>_.
        rbind (load (provs s) p) (\<lambda>_.
        Inr (AGGREGATOR_SUCCESS, Some stream, s)))))))))))))))"

definition aggregator_provider_stream_destroy :: "'x argobots \<Rightarrow> addr \<Rightarrow> addr \<Rightarrow> 'x server \<Rightarrow>
    (aggregator_return_t \<times> 'x server) res" where
  "aggregator_provider_stream_destroy A m p s =
     rbind (find_stream p (Id_of m) s) (\<lambda>stream.
     if stream = NULL then Inr (AGGREGATOR_ERR_INVALID_STREAM, s)
     else
       rbind (remove_stream p (Id_of stream) s) (\<lambda>(_, s).
       rbind (load (elems s) stream) (\<lambda>e.
       rbind (ABT_mutex_free A (stream_mutex e) (abt s)) (\<lambda>x. let s = s\<lparr>abt := x\<rparr> in
       rbind (upd_stream stream (\<lambda>e. e\<lparr>stream_mutex := NULL\<rparr>) s) (\<lambda>s.
       rbind (load (elems s) stream) (\<lambda>e.
       rbind (dealloc (bufs s) (buffer e)) (\<lambda>bs.
       Inr (AGGREGATOR_SUCCESS, s\<lparr>bufs := bs\<rparr>))))))))"

definition aggregator_provider_destroy_all_streams :: "addr \<Rightarrow> 'x server \<Rightarrow>
    (aggregator_return_t \<times> 'x server) res" where
  "aggregator_provider_destroy_all_streams p s =
     rbind (remove_all_streams p s) (\<lambda>s. Inr (AGGREGATOR_SUCCESS, s))"

definition aggregator_provider_register_backend :: aggregator_return_t where
  "aggregator_provider_register_backend = AGGREGATOR_SUCCESS"

section \<open>The registry\<close>

definition prov_inv :: "'x server \<Rightarrow> addr \<Rightarrow> addr list \<Rightarrow> bool" where
  "prov_inv s p xs \<longleftrightarrow> live (provs s) p \<and> heap_ok (provs s) \<and> ut_inv s (streams (PR s p)) xs \<and>
     num_streams (PR s p) = of_nat (length xs)"

definition registry :: "'x server \<Rightarrow> addr list \<Rightarrow> u32 \<rightharpoonup> addr" where
  "registry s xs = index_map (SID s) xs"

text \<open>The part of the memory the registry operations do not touch.\<close>

definition prov_frame :: "addr \<Rightarrow> 'x server \<Rightarrow> 'x server \<Rightarrow> bool" where
  "prov_frame p s s' \<longleftrightarrow> bufs s' = bufs s \<and> tagls s' = tagls s \<and> ptrs s' = ptrs s \<and> strs s' = strs s \<and>
     idarrs s' = idarrs s \<and> abt s' = abt s \<and> calls s' = calls s \<and> set (oom s') \<subseteq> set (oom s) \<and> live (provs s') = live (provs s) \<and>
     (\<forall>q. q \<noteq> p \<longrightarrow> PR s' q = PR s q)"

lemma prov_frame_refl [simp]: "prov_frame p s s"
  by (simp add: prov_frame_def)

lemma prov_frame_trans: "prov_frame p s s' \<Longrightarrow> prov_frame p s' s'' \<Longrightarrow> prov_frame p s s''"
  by (auto simp: prov_frame_def)

lemma prov_frame_ut_step: "ut_step s s' \<Longrightarrow> prov_frame p s s'"
  by (auto simp: prov_frame_def dest: ut_step_server)

lemma prov_frame_put_prov:
  "live (provs s) p \<Longrightarrow> prov_frame p s (put_prov p P s)"
  by (simp add: prov_frame_def srv_simps)

lemma prov_frame_free_stream: "prov_frame p s (free_stream q s)"
  by (simp add: prov_frame_def srv_simps)

lemma prov_inv_live: "prov_inv s p xs \<Longrightarrow> x \<in> set xs \<Longrightarrow> live (elems s) x"
  by (auto simp: prov_inv_def dest: ut_inv_live)

lemma prov_inv_length: "prov_inv s p xs \<Longrightarrow> length xs < 2 ^ 32"
  by (auto simp: prov_inv_def dest: ut_inv_length)

lemma num_streams_length: "prov_inv s p xs \<Longrightarrow> unat (num_streams (PR s p)) = length xs"
  using prov_inv_length [of s p xs] by (simp add: prov_inv_def unat_of_nat)

lemma find_stream_ok:
  assumes "prov_inv s p xs" "read_id ip s = Inr i"
  shows "find_stream p ip s = Inr (ptr (registry s xs i))"
  using assms ut.look_map [of s "streams (PR s p)" xs i] ut.NULL_iff [of s "streams (PR s p)" xs]
  by (auto simp: find_stream_def prov_inv_def view_run registry_def index_map_def)

lemma find_stream_in:
  assumes "prov_inv s p xs" "x \<in> set xs"
  shows "find_stream p (Id_of x) s = Inr x"
proof -
  have l: "live (elems s) x" using assms by (rule prov_inv_live)
  then have "read_id (Id_of x) s = Inr (SID s x)" by (simp add: view_run SID_ST)
  moreover have "registry s xs (SID s x) = Some x"
    using assms by (auto simp: prov_inv_def registry_def intro: index_map_in ut.idents)
  ultimately show ?thesis using find_stream_ok [OF assms(1)] by simp
qed

lemma add_stream_dup:
  assumes "prov_inv s p xs" "live (elems s) st" "registry s xs (SID s st) = Some x"
  shows "add_stream p st s = Inr (AGGREGATOR_ERR_INVALID_STREAM, s)"
proof -
  have "x \<in> set xs"
    using assms by (auto simp: registry_def prov_inv_def index_map_Some_iff [OF ut.idents])
  then have "x \<noteq> NULL" using assms(1) prov_inv_live live_def by blast
  moreover have "find_stream p (Id_of st) s = Inr x"
    using find_stream_ok [OF assms(1), of "Id_of st" "SID s st"] assms by (simp add: view_run SID_ST)
  ultimately show ?thesis by (simp add: add_stream_def)
qed

lemma add_stream_new:
  assumes inv: "prov_inv s p xs" and st: "live (elems s) st" and new: "registry s xs (SID s st) = None"
    and room: "ut_room s (streams (PR s p)) xs" and ok: "no_oom s"
  shows "\<exists>s'. add_stream p st s = Inr (AGGREGATOR_SUCCESS, s') \<and> prov_inv s' p (xs @ [st]) \<and>
    registry s' (xs @ [st]) = (registry s xs)(SID s st \<mapsto> st) \<and> prov_frame p s s' \<and> no_oom s' \<and>
    ut_log2 s' (streams (PR s' p)) \<le> Suc (ut_log2 s (streams (PR s p))) \<and>
    live (elems s') = live (elems s) \<and> (\<forall>q. live (elems s) q \<longrightarrow> ST_same (ST s q) (ST s' q))"
proof -
  let ?P = "PR s p"
  have lp: "live (provs s) p" and hp: "heap_ok (provs s)" and ui: "ut_inv s (streams ?P) xs"
    and n: "num_streams ?P = of_nat (length xs)"
    using inv by (simp_all add: prov_inv_def)
  have "find_stream p (Id_of st) s = Inr NULL"
    using find_stream_ok [OF inv, of "Id_of st" "SID s st"] st new by (simp add: view_run SID_ST)
  moreover have nid: "SID s st \<notin> SID s ` set xs"
    using new by (simp add: registry_def index_map_None_iff)
  from ut.put_extends [OF ui st nid room ok] obtain h s1 where
    add: "HASH_ADD (streams ?P) st s = Inr (h, s1)" and ui1: "ut_inv s1 h (xs @ [st])"
    and step: "ut_step s s1"
    and map: "index_map (SID s1) (xs @ [st]) = (index_map (SID s) xs)(SID s st \<mapsto> st)"
    and log: "ut_log2 s1 h \<le> Suc (ut_log2 s (streams ?P))"
    by blast
  note fr = ut_step_server [OF step]
  define s2 where "s2 = put_prov p (?P\<lparr>streams := h\<rparr>) s1"
  define s3 where "s3 = put_prov p (?P\<lparr>streams := h, num_streams := num_streams ?P + 1\<rparr>) s2"
  have l1: "live (provs s1) p" "live (provs s2) p" using lp fr(2) by (simp_all add: s2_def srv_simps)
  have "upd_prov p (\<lambda>P. P\<lparr>streams := h\<rparr>) s1 = Inr s2"
    using l1 fr(8) by (simp add: view_run s2_def)
  moreover have "upd_prov p (\<lambda>P. P\<lparr>num_streams := num_streams P + 1\<rparr>) s2 = Inr s3"
    using l1 by (simp add: view_run s2_def s3_def srv_simps)
  ultimately have run: "add_stream p st s = Inr (AGGREGATOR_SUCCESS, s3)"
    using lp add by (simp add: add_stream_def view_run)
  have sid3: "SID s3 = SID s1" by (simp add: s3_def s2_def SID_ST fun_eq_iff srv_simps)
  have "heap_ok (provs s3)"
    using hp fr(2) lp by (auto simp: s3_def s2_def put_prov_def heap_ok_def live_def)
  then have "prov_inv s3 p (xs @ [st])"
    using l1 ui1 n by (simp add: prov_inv_def s3_def s2_def srv_simps)
  moreover have "registry s3 (xs @ [st]) = (registry s xs)(SID s st \<mapsto> st)"
    using map by (simp add: registry_def sid3)
  moreover have "prov_frame p s s3"
    unfolding s3_def s2_def using prov_frame_ut_step [OF step] l1
    by (intro prov_frame_trans [OF _ prov_frame_put_prov] prov_frame_put_prov) (auto simp: s2_def)
  moreover have "no_oom s3" using ut_step_no_oom [OF step ok] by (simp add: no_oom_def s3_def s2_def srv_simps)
  moreover have "ut_log2 s3 (streams (PR s3 p)) \<le> Suc (ut_log2 s (streams ?P))"
  proof -
    have "TT s3 = TT s1" "HH s3 = HH s1" by (simp_all add: TT_def HH_ST s3_def s2_def fun_eq_iff srv_simps)
    then have "ut_log2 s3 h = ut_log2 s1 h" by (simp add: ut_log2_def)
    moreover have "streams (PR s3 p) = h" by (simp add: s3_def srv_simps)
    ultimately show ?thesis using log by simp
  qed
  ultimately show ?thesis
    using run fr(9) fr(14) by (auto simp: s3_def s2_def srv_simps)
qed

lemma remove_stream_miss:
  assumes "prov_inv s p xs" "read_id ip s = Inr i" "registry s xs i = None"
  shows "remove_stream p ip s = Inr (AGGREGATOR_ERR_INVALID_STREAM, s)"
  using find_stream_ok [OF assms(1,2)] assms(3) by (simp add: remove_stream_def)

lemma remove_stream_ok:
  assumes inv: "prov_inv s p xs" and id: "read_id ip s = Inr (SID s x)" and x: "x \<in> set xs"
  shows "\<exists>s'. remove_stream p ip s = Inr (AGGREGATOR_SUCCESS, s') \<and> prov_inv s' p (remove1 x xs) \<and>
    registry s' (remove1 x xs) = (registry s xs)(SID s x := None) \<and> prov_frame p s s' \<and>
    (\<forall>q. live (elems s') q \<longleftrightarrow> live (elems s) q \<and> q \<noteq> x) \<and>
    (\<forall>q. live (elems s) q \<and> q \<noteq> x \<longrightarrow> ST_same (ST s q) (ST s' q))"
proof -
  let ?P = "PR s p"
  have lp: "live (provs s) p" and hp: "heap_ok (provs s)" and ui: "ut_inv s (streams ?P) xs"
    and n: "num_streams ?P = of_nat (length xs)"
    using inv by (simp_all add: prov_inv_def)
  have x0: "x \<noteq> NULL" using prov_inv_live [OF inv x] by (auto simp: live_def)
  have "registry s xs (SID s x) = Some x"
    unfolding registry_def by (rule index_map_in [OF ut.idents [OF ui] x])
  then have find: "find_stream p ip s = Inr x" using find_stream_ok [OF inv id] by simp
  from ut.del_restricts [OF ui x] obtain h s1 where
    del: "HASH_DELETE (streams ?P) x s = Inr (h, s1)" and ui1: "ut_inv s1 h (remove1 x xs)"
    and step: "ut_step s s1"
    and map: "index_map (SID s1) (remove1 x xs) = (index_map (SID s) xs)(SID s x := None)"
    by blast
  note fr = ut_step_server [OF step]
  define s2 where "s2 = put_prov p (?P\<lparr>streams := h\<rparr>) s1"
  define s3 where "s3 = free_stream x s2"
  define s4 where "s4 = put_prov p (?P\<lparr>streams := h, num_streams := num_streams ?P - 1\<rparr>) s3"
  have l: "live (provs s1) p" "live (provs s2) p" "live (provs s3) p" "live (elems s2) x"
    using lp fr(2,9) prov_inv_live [OF inv x] by (simp_all add: s2_def s3_def srv_simps)
  have fold3: "s2\<lparr>elems := elems s3\<rparr> = s3" by (simp add: s3_def free_stream_fold)
  have PR: "PR s1 p = ?P" "PR s3 p = ?P\<lparr>streams := h\<rparr>" using fr(8) by (simp_all add: s3_def s2_def srv_simps)
  have run: "remove_stream p ip s = Inr (AGGREGATOR_SUCCESS, s4)"
    using lp l PR x0
    by (simp add: remove_stream_def find del view_run Let_def s2_def [symmetric] dealloc_stream_live fold3 s3_def [symmetric] s4_def)
  have dist: "distinct xs" using ui by (rule ut.members_distinct)
  have ui3: "ut_inv s3 h (remove1 x xs)"
    unfolding s3_def by (rule ut_inv_free_stream) (use ui1 dist in \<open>simp_all add: s2_def\<close>)
  have "heap_ok (provs s4)"
    using hp fr(2) lp by (auto simp: s4_def s3_def s2_def put_prov_def free_stream_def heap_ok_def live_def)
  moreover have "length xs = Suc (length (remove1 x xs))"
    using x length_pos_if_in_set [OF x] by (simp add: length_remove1)
  ultimately have "prov_inv s4 p (remove1 x xs)"
    using l ui3 n by (simp add: prov_inv_def s4_def srv_simps)
  moreover have "registry s4 (remove1 x xs) = (registry s xs)(SID s x := None)"
  proof -
    have "SID s4 y = SID s1 y" if "y \<in> set (remove1 x xs)" for y
    proof -
      from that dist have "y \<noteq> x" by auto
      then show ?thesis by (simp add: s4_def s3_def s2_def SID_ST srv_simps)
    qed
    then show ?thesis unfolding registry_def map [symmetric] by (rule index_map_cong)
  qed
  moreover have "prov_frame p s s4"
  proof -
    have "prov_frame p s s1" by (rule prov_frame_ut_step [OF step])
    moreover have "prov_frame p s1 s2" "prov_frame p s2 s3" "prov_frame p s3 s4"
      using l by (simp_all add: s2_def s3_def s4_def prov_frame_put_prov prov_frame_free_stream)
    ultimately show ?thesis by (blast intro: prov_frame_trans)
  qed
  ultimately show ?thesis
    using run fr(9) fr(14) by (auto simp: s4_def s3_def s2_def srv_simps)
qed

lemma ut_inv_NX:
  assumes "ut_inv s head (x # xs)"
  shows "NX s x = (case xs of [] \<Rightarrow> NULL | y # _ \<Rightarrow> y)"
proof -
  from assms obtain t L cs where "table_ok s head (x # xs) t L cs" by (auto simp: ut_inv_def)
  then have "path (NX s) (NX s x) xs NULL" by (auto simp: table_ok_def dll_def)
  then show ?thesis by (rule path_start)
qed

lemma remove_all_loop_ok:
  assumes "live (provs s) p" "heap_ok (provs s)" "ut_inv s (streams (PR s p)) xs" "length xs < n"
    "r = streams (PR s p)" "tmp = (case xs of [] \<Rightarrow> NULL | x # _ \<Rightarrow> NX s x)"
  shows "\<exists>s'. remove_all_loop n r tmp p s = Inr s' \<and> live (provs s') p \<and> heap_ok (provs s') \<and>
    ut_inv s' (streams (PR s' p)) [] \<and> prov_frame p s s' \<and>
    (\<forall>q. live (elems s') q \<longleftrightarrow> live (elems s) q \<and> q \<notin> set xs) \<and>
    (\<forall>q. live (elems s) q \<and> q \<notin> set xs \<longrightarrow> ST_same (ST s q) (ST s' q))"
  using assms
proof (induction xs arbitrary: s r tmp n)
  case Nil
  then obtain m where n: "n = Suc m" by (cases n) auto
  from Nil have "r = NULL" by simp
  with Nil show ?case by (auto simp: n ST_same_def)
next
  case (Cons x ys)
  let ?P = "PR s p"
  from Cons.prems obtain m where n: "n = Suc m" "length ys < m" by (cases n) auto
  have ui: "ut_inv s (streams ?P) (x # ys)" by (rule Cons.prems)
  have r: "r = x" using ut_inv_head [OF ui] Cons.prems by simp
  have lx: "live (elems s) x" using ut_inv_live [OF ui] by simp
  then have x0: "x \<noteq> NULL" by (auto simp: live_def)
  have dist: "distinct (x # ys)" using ui by (rule ut.members_distinct)
  from ut.del_in [OF ui, of x] obtain h s1 where
    del: "HASH_DELETE (streams ?P) x s = Inr (h, s1)" and ui1: "ut_inv s1 h ys" and step: "ut_step s s1"
    by auto
  note fr = ut_step_server [OF step]
  define s2 where "s2 = put_prov p (?P\<lparr>streams := h\<rparr>) s1"
  define s3 where "s3 = free_stream x s2"
  have l: "live (provs s1) p" "live (provs s2) p" "live (provs s3) p" "live (elems s2) x"
    using Cons.prems(1) fr(2,9) lx by (simp_all add: s2_def s3_def srv_simps)
  have fold3: "s2\<lparr>elems := elems s3\<rparr> = s3" by (simp add: s3_def free_stream_fold)
  have PR: "PR s1 p = ?P" "PR s3 p = ?P\<lparr>streams := h\<rparr>" using fr(8) by (simp_all add: s3_def s2_def srv_simps)
  have ui3: "ut_inv s3 (streams (PR s3 p)) ys"
    unfolding s3_def by (rule ut_inv_free_stream) (use ui1 dist in \<open>simp_all add: s2_def srv_simps\<close>)
  have hp3: "heap_ok (provs s3)"
    using Cons.prems(1,2) fr(2) by (auto simp: s3_def s2_def put_prov_def free_stream_def heap_ok_def live_def)
  have tmp: "tmp = h"
    using Cons.prems(6) ut_inv_NX [OF ui] ut_inv_head [OF ui1] by simp
  have nx: "hash_next tmp s3 = Inr (case ys of [] \<Rightarrow> NULL | y # _ \<Rightarrow> NX s3 y)"
  proof (cases ys)
    case Nil
    then show ?thesis using ui1 tmp by (simp add: hash_next_def)
  next
    case (Cons y zs)
    then have "h = y" "live (elems s3) y" "y \<noteq> NULL"
      using ut_inv_head [OF ui1] ut_inv_live [OF ui3, of y] by (auto simp: live_def)
    then show ?thesis using tmp Cons by (simp add: hash_next_def view_run view_simps)
  qed
  have "h = streams (PR s3 p)" using PR by simp
  from Cons.IH [OF l(3) hp3 ui3 n(2) this refl] obtain s' where
    IH: "remove_all_loop m h (case ys of [] \<Rightarrow> NULL | y # _ \<Rightarrow> NX s3 y) p s3 = Inr s'"
    "live (provs s') p" "heap_ok (provs s')" "ut_inv s' (streams (PR s' p)) []" "prov_frame p s3 s'"
    "\<And>q. live (elems s') q \<longleftrightarrow> live (elems s3) q \<and> q \<notin> set ys"
    "\<And>q. live (elems s3) q \<Longrightarrow> q \<notin> set ys \<Longrightarrow> ST_same (ST s3 q) (ST s' q)"
    by blast
  have run: "remove_all_loop n r tmp p s = Inr s'"
    using Cons.prems(1) l PR x0 IH(1) tmp nx
    by (simp add: n r del view_run Let_def s2_def [symmetric] dealloc_stream_live fold3 s3_def [symmetric])
  moreover have "prov_frame p s s'"
  proof -
    have "prov_frame p s s1" by (rule prov_frame_ut_step [OF step])
    moreover have "prov_frame p s1 s2" "prov_frame p s2 s3"
      using l by (simp_all add: s2_def s3_def prov_frame_put_prov prov_frame_free_stream)
    ultimately show ?thesis using IH(5) by (blast intro: prov_frame_trans)
  qed
  moreover have "ST_same (ST s q) (ST s' q)" if "live (elems s) q" "q \<notin> set (x # ys)" for q
  proof -
    have "ST_same (ST s q) (ST s1 q)" by (rule fr(14) [OF that(1)])
    moreover have "ST s3 q = ST s1 q" using that by (simp add: s3_def s2_def srv_simps)
    moreover have "live (elems s3) q" using that fr(9) by (simp add: s3_def s2_def srv_simps)
    ultimately show ?thesis using IH(7) [of q] that by (simp add: ST_same_def)
  qed
  ultimately show ?case
    using IH(2,3,4,6) fr(9) by (auto simp: s3_def s2_def srv_simps)
qed

lemma remove_all_streams_ok:
  assumes inv: "prov_inv s p xs"
  shows "\<exists>s'. remove_all_streams p s = Inr s' \<and> prov_inv s' p [] \<and> prov_frame p s s' \<and>
    (\<forall>q. live (elems s') q \<longleftrightarrow> live (elems s) q \<and> q \<notin> set xs) \<and>
    (\<forall>q. live (elems s) q \<and> q \<notin> set xs \<longrightarrow> ST_same (ST s q) (ST s' q))"
proof -
  have lp: "live (provs s) p" and hp: "heap_ok (provs s)" and ui: "ut_inv s (streams (PR s p)) xs"
    using inv by (simp_all add: prov_inv_def)
  have nx: "hash_next (streams (PR s p)) s = Inr (case xs of [] \<Rightarrow> NULL | x # _ \<Rightarrow> NX s x)"
    using ut_inv_head [OF ui] ut_inv_live [OF ui] ui
    by (cases xs) (auto simp: hash_next_def view_run view_simps live_def)
  have "length xs < fuel s"
    using ui ut_inv_live [OF ui] ut.members_distinct [OF ui] by (intro live_length_fuel) (auto simp: ut_inv_def)
  from remove_all_loop_ok [OF lp hp ui this refl refl] obtain s1 where
    s1: "remove_all_loop (fuel s) (streams (PR s p)) (case xs of [] \<Rightarrow> NULL | x # _ \<Rightarrow> NX s x) p s = Inr s1"
    "live (provs s1) p" "heap_ok (provs s1)" "ut_inv s1 (streams (PR s1 p)) []" "prov_frame p s s1"
    "\<forall>q. live (elems s1) q \<longleftrightarrow> live (elems s) q \<and> q \<notin> set xs"
    "\<forall>q. live (elems s) q \<and> q \<notin> set xs \<longrightarrow> ST_same (ST s q) (ST s1 q)"
    by blast
  define s2 where "s2 = put_prov p ((PR s1 p)\<lparr>num_streams := 0\<rparr>) s1"
  have "remove_all_streams p s = Inr s2"
    using lp nx s1(1,2) by (simp add: remove_all_streams_def view_run s2_def)
  moreover have "prov_inv s2 p []"
    using s1(2-4) by (auto simp: prov_inv_def s2_def put_prov_def PR_def heap_ok_def live_def ut_mem_ok_def)
  moreover have "prov_frame p s s2"
    unfolding s2_def by (rule prov_frame_trans [OF s1(5) prov_frame_put_prov [OF s1(2)]])
  ultimately show ?thesis using s1(6,7) by (auto simp: s2_def srv_simps)
qed

text \<open>
  Destroying a registered stream: \<open>remove_stream\<close> has freed the stream before its mutex and its
  buffer are read from it.
\<close>

lemma stream_destroy_faults:
  assumes inv: "prov_inv s p xs" and m: "live (elems s) m" and r: "registry s xs (SID s m) = Some x"
  shows "aggregator_provider_stream_destroy A m p s = Inl Dangling"
proof -
  have x: "x \<in> set xs" "SID s x = SID s m"
    using r inv by (auto simp: registry_def prov_inv_def index_map_Some_iff [OF ut.idents])
  have lx: "live (elems s) x" using prov_inv_live [OF inv x(1)] .
  have 1: "find_stream p (Id_of m) s = Inr x"
    using find_stream_ok [OF inv, of "Id_of m" "SID s m"] r m by (simp add: view_run SID_ST)
  have "read_id (Id_of x) s = Inr (SID s x)" using lx by (simp add: view_run SID_ST)
  from remove_stream_ok [OF inv this x(1)] obtain s' where
    "remove_stream p (Id_of x) s = Inr (AGGREGATOR_SUCCESS, s')" "\<not> live (elems s') x"
    by blast
  moreover have "load (elems s') x = Inl Dangling" if "\<not> live (elems s') x" for s' :: "'a server"
    using that lx by (simp add: live_def load_def)
  ultimately show ?thesis
    using 1 lx by (auto simp: aggregator_provider_stream_destroy_def live_def)
qed

lemma stream_destroy_unknown:
  assumes "prov_inv s p xs" "live (elems s) m" "registry s xs (SID s m) = None"
  shows "aggregator_provider_stream_destroy A m p s = Inr (AGGREGATOR_ERR_INVALID_STREAM, s)"
  using find_stream_ok [OF assms(1), of "Id_of m" "SID s m"] assms(2,3)
  by (simp add: aggregator_provider_stream_destroy_def view_run SID_ST)


section \<open>Creating a stream\<close>

text \<open>The strings that fit a stream's fields.\<close>

definition str_fits :: "nat \<Rightarrow> byte list option \<Rightarrow> bool" where
  "str_fits n a \<longleftrightarrow> (case a of None \<Rightarrow> False | Some t \<Rightarrow> terminated t \<and> length (cstring t) < n)"

text \<open>The stream that creation registers.\<close>

definition stream_init :: "u32 \<Rightarrow> byte list option \<Rightarrow> byte list option \<Rightarrow> aggregator_stream_type_t \<Rightarrow>
    byte list option \<Rightarrow> addr \<Rightarrow> aggregator_stream \<Rightarrow> bool" where
  "stream_init i ns name t dsc tgl e \<longleftrightarrow>
     sid e = i \<and> stype e = t \<and> stags e = tgl \<and> buffer_index e = 0 \<and>
     cstring (sns e) = cstring (the ns) \<and> cstring (sname e) = cstring (the name) \<and>
     cstring (desc e) = cstring (the dsc) \<and>
     length (sns e) = 36 \<and> length (sname e) = 36 \<and> length (desc e) = 200 \<and>
     terminated (sns e) \<and> terminated (sname e) \<and> terminated (desc e)"

definition new_stream :: "'x argobots \<Rightarrow> 'x server \<Rightarrow> 'x server" where
  "new_stream A s = s\<lparr>oom := tl (oom s),
     elems := \<lparr>cells = (cells (elems s))(brk (elems s) := Some zero_stream), brk = Suc (brk (elems s))\<rparr>,
     abt := snd (ABT_mutex_create A (abt s))\<rparr>"

definition new_buf :: "'x server \<Rightarrow> 'x server" where
  "new_buf s = s\<lparr>oom := tl (oom s),
     bufs := \<lparr>cells = (cells (bufs s))(brk (bufs s) := Some (azero STREAM_BUFFER_SIZE zero_sample)),
              brk = Suc (brk (bufs s))\<rparr>\<rparr>"

lemma new_stream_views [srv_simps]:
  "tbls (new_stream A s) = tbls s" "bkts (new_stream A s) = bkts s" "oom (new_stream A s) = tl (oom s)"
  "bufs (new_stream A s) = bufs s" "provs (new_stream A s) = provs s" "tagls (new_stream A s) = tagls s"
  "ptrs (new_stream A s) = ptrs s" "strs (new_stream A s) = strs s" "idarrs (new_stream A s) = idarrs s" "calls (new_stream A s) = calls s"
  "PR (new_stream A s) = PR s" "abt (new_stream A s) = snd (ABT_mutex_create A (abt s))"
  "ST (new_stream A s) = (ST s)(brk (elems s) := zero_stream)"
  "brk (elems (new_stream A s)) = Suc (brk (elems s))"
  by (auto simp: new_stream_def PR_def ST_def)

lemma live_new_stream:
  "0 < brk (elems s) \<Longrightarrow> live (elems (new_stream A s)) = (live (elems s))(brk (elems s) := True)"
  by (auto simp: new_stream_def live_def fun_eq_iff)

lemma new_buf_views [srv_simps]:
  "elems (new_buf s) = elems s" "tbls (new_buf s) = tbls s" "bkts (new_buf s) = bkts s" "oom (new_buf s) = tl (oom s)"
  "provs (new_buf s) = provs s" "tagls (new_buf s) = tagls s" "ptrs (new_buf s) = ptrs s" "strs (new_buf s) = strs s"
  "idarrs (new_buf s) = idarrs s"
  "calls (new_buf s) = calls s" "PR (new_buf s) = PR s" "abt (new_buf s) = abt s" "ST (new_buf s) = ST s"
  "cells (bufs (new_buf s)) = (cells (bufs s))(brk (bufs s) := Some (azero STREAM_BUFFER_SIZE zero_sample))"
  by (simp_all add: new_buf_def PR_def ST_def fun_eq_iff)

lemma strcpy_field_ok:
  assumes "live (elems s) st" "str_fits (length (rd (ST s st))) src"
  shows "\<exists>r. strcpy_field rd wr st src s = Inr (put_stream st (wr r (ST s st)) s) \<and>
    cstring r = cstring (the src) \<and> length r = length (rd (ST s st)) \<and> terminated r"
proof -
  from assms(2) obtain t where t: "src = Some t" "terminated t" "length (cstring t) < length (rd (ST s st))"
    by (auto simp: str_fits_def split: option.splits)
  from strcpy_ok [OF t(2,3)] t(1) assms(1) show ?thesis
    by (auto simp: strcpy_field_def str_arg_def view_run)
qed

lemma put_stream_twice: "put_stream p e (put_stream p e' s) = put_stream p e s"
  by (simp add: put_stream_def)

text \<open>Everything up to \<open>add_stream\<close>: a fresh stream, filled in, with an empty buffer.\<close>

lemma stream_create_run:
  assumes ns: "str_fits 36 ns" and name: "str_fits 36 name" and dsc: "str_fits 200 dsc"
    and T: "load (tagls s) tgl = Inr T"
      "tag_strings s (taglist T) (nat (num_tags T)) = Inr tags"
      "aggregator_id_from_string_identifiers (the ns) (the name) tags (num_tags T) = Inr i"
    and hk: "0 < brk (elems s)" and ok: "no_oom s"
  shows "\<exists>e. aggregator_provider_stream_create A ns name t dsc tgl p s =
      rbind (add_stream p (brk (elems s)) (put_stream (brk (elems s)) e (new_buf (new_stream A s)))) (\<lambda>(_, s').
        rbind (load (elems s') (brk (elems s))) (\<lambda>_. rbind (load (provs s') p) (\<lambda>_.
        Inr (AGGREGATOR_SUCCESS, Some (brk (elems s)), s')))) \<and>
    stream_init i ns name t dsc tgl e \<and> buffer e = brk (bufs s) \<and>
    stream_mutex e = fst (ABT_mutex_create A (abt s))"
proof -
  define st m s1 where "st = brk (elems s)" and "m = fst (ABT_mutex_create A (abt s))" and "s1 = new_stream A s"
  have a1: "alloc_ok (oom s)" using ok by (rule no_oom_alloc_ok)
  have "False \<notin> set (tl (oom s))" using ok set_tl_subset [of "oom s"] by (auto simp: no_oom_def)
  then have a2: "alloc_ok (tl (oom s))" by (cases "tl (oom s)") auto
  have l1: "live (elems s1) st" using hk by (auto simp: s1_def st_def live_new_stream live_def)
  have e1: "ST s1 st = zero_stream" by (simp add: s1_def st_def srv_simps)
  define e2 where "e2 = zero_stream\<lparr>stream_mutex := m, sid := i\<rparr>"
  define s2 where "s2 = put_stream st e2 s1"
  have l2: "live (elems s2) st" and ST2: "ST s2 st = e2" using l1 by (simp_all add: s2_def srv_simps)
  have "str_fits (length (sname (ST s2 st))) name" using name by (simp add: ST2 e2_def zero_stream_def)
  from strcpy_field_ok [where rd = sname and wr = "\<lambda>r e. e\<lparr>sname := r\<rparr>", OF l2 this] ST2 obtain r3 where
    c3: "strcpy_field sname (\<lambda>r e. e\<lparr>sname := r\<rparr>) st name s2 = Inr (put_stream st (e2\<lparr>sname := r3\<rparr>) s2)"
    and r3: "cstring r3 = cstring (the name)" "length r3 = 36" "terminated r3"
    by (auto simp: e2_def zero_stream_def)
  define s3 where "s3 = put_stream st (e2\<lparr>sname := r3\<rparr>) s1"
  have l3: "live (elems s3) st" and ST3: "ST s3 st = e2\<lparr>sname := r3\<rparr>" using l1 by (simp_all add: s3_def srv_simps)
  have "str_fits (length (sns (ST s3 st))) ns" using ns by (simp add: ST3 e2_def zero_stream_def)
  from strcpy_field_ok [where rd = sns and wr = "\<lambda>r e. e\<lparr>sns := r\<rparr>", OF l3 this] ST3 obtain r4 where
    c4: "strcpy_field sns (\<lambda>r e. e\<lparr>sns := r\<rparr>) st ns s3 = Inr (put_stream st (e2\<lparr>sname := r3, sns := r4\<rparr>) s3)"
    and r4: "cstring r4 = cstring (the ns)" "length r4 = 36" "terminated r4"
    by (auto simp: e2_def zero_stream_def)
  define s4 where "s4 = put_stream st (e2\<lparr>sname := r3, sns := r4\<rparr>) s1"
  have l4: "live (elems s4) st" and ST4: "ST s4 st = e2\<lparr>sname := r3, sns := r4\<rparr>" using l1 by (simp_all add: s4_def srv_simps)
  have "str_fits (length (desc (ST s4 st))) dsc" using dsc by (simp add: ST4 e2_def zero_stream_def)
  from strcpy_field_ok [where rd = desc and wr = "\<lambda>r e. e\<lparr>desc := r\<rparr>", OF l4 this] ST4 obtain r5 where
    c5: "strcpy_field desc (\<lambda>r e. e\<lparr>desc := r\<rparr>) st dsc s4 =
        Inr (put_stream st (e2\<lparr>sname := r3, sns := r4, desc := r5\<rparr>) s4)"
    and r5: "cstring r5 = cstring (the dsc)" "length r5 = 200" "terminated r5"
    by (auto simp: e2_def zero_stream_def)
  define e6 where "e6 = e2\<lparr>sname := r3, sns := r4, desc := r5, stype := t, stags := tgl, buffer_index := 0\<rparr>"
  define s5 where "s5 = put_stream st (e2\<lparr>sname := r3, sns := r4, desc := r5\<rparr>) s1"
  define s6 where "s6 = put_stream st e6 s1"
  define e7 where "e7 = e6\<lparr>buffer := brk (bufs s)\<rparr>"
  define s7 where "s7 = put_stream st e7 (new_buf s1)"
  have run: "aggregator_provider_stream_create A ns name t dsc tgl p s =
      rbind (add_stream p st s7) (\<lambda>(_, s').
        rbind (load (elems s') st) (\<lambda>_. rbind (load (provs s') p) (\<lambda>_.
        Inr (AGGREGATOR_SUCCESS, Some st, s'))))"
  proof -
    have nn: "\<not> (ns = None \<or> name = None)" using ns name by (auto simp: str_fits_def split: option.splits)
    have c: "calloc zero_stream (oom s) (elems s) = (st, tl (oom s), elems s1)"
      using a1 by (simp add: calloc_def s1_def st_def new_stream_def)
    have ab: "ABT_mutex_create A (abt s) = (m, abt s1)" by (simp add: m_def s1_def srv_simps)
    have f1: "s\<lparr>oom := tl (oom s), elems := elems s1, abt := abt s1\<rparr> = s1"
      by (simp add: s1_def new_stream_def)
    have u2: "upd_stream st (\<lambda>e. e\<lparr>stream_mutex := m\<rparr>) s1 = Inr (put_stream st (zero_stream\<lparr>stream_mutex := m\<rparr>) s1)"
      "upd_stream st (\<lambda>e. e\<lparr>sid := i\<rparr>) (put_stream st (zero_stream\<lparr>stream_mutex := m\<rparr>) s1) = Inr s2"
      using l1 e1 by (simp_all add: view_run srv_simps put_stream_twice s2_def e2_def)
    have u3: "put_stream st (e2\<lparr>sname := r3\<rparr>) s2 = s3"
      "put_stream st (e2\<lparr>sname := r3, sns := r4\<rparr>) s3 = s4"
      "put_stream st (e2\<lparr>sname := r3, sns := r4, desc := r5\<rparr>) s4 = s5"
      by (simp_all add: s2_def s3_def s4_def s5_def put_stream_twice)
    have u6: "upd_stream st (\<lambda>e. e\<lparr>stype := t, stags := tgl, buffer_index := 0\<rparr>) s5 = Inr s6"
      using l1 by (simp add: view_run srv_simps put_stream_twice s5_def s6_def e6_def)
    have b: "calloc (azero STREAM_BUFFER_SIZE zero_sample) (oom s6) (bufs s6) = (brk (bufs s), oom (new_buf s6), bufs (new_buf s6))"
      using a2 by (simp add: calloc_def s6_def srv_simps s1_def new_buf_def)
    have f7: "s6\<lparr>oom := oom (new_buf s6), bufs := bufs (new_buf s6)\<rparr> = new_buf s6"
      by (simp add: new_buf_def)
    have sw: "new_buf s6 = put_stream st e6 (new_buf s1)"
      by (simp add: s6_def new_buf_def put_stream_def)
    have u7: "upd_stream st (\<lambda>e. e\<lparr>buffer := brk (bufs s)\<rparr>) (new_buf s6) = Inr s7"
      using l1 by (simp add: sw view_run srv_simps put_stream_twice s7_def e7_def)
    show ?thesis
      unfolding aggregator_provider_stream_create_def if_not_P [OF nn] T rbind_Inr c Let_def prod.case
      using f1 by (simp add: ab u2 c3 u3 c4 c5 u6 b f7 u7)
  qed
  have "stream_init i ns name t dsc tgl e7" "buffer e7 = brk (bufs s)" "stream_mutex e7 = m"
    using r3 r4 r5 by (simp_all add: stream_init_def e7_def e6_def e2_def)
  with run show ?thesis unfolding s7_def s1_def st_def m_def by blast
qed


text \<open>A table stands while a new object is made beside it.\<close>

lemma prov_inv_new_stream:
  assumes inv: "prov_inv s p xs" and st: "st = brk (elems s)"
  shows "prov_inv (put_stream st e (new_buf (new_stream A s))) p xs"
    "registry (put_stream st e (new_buf (new_stream A s))) xs = registry s xs" "st \<notin> set xs"
proof -
  let ?s' = "put_stream st e (new_buf (new_stream A s))"
  have ui: "ut_inv s (streams (PR s p)) xs" and hk: "heap_ok (elems s)"
    using inv by (auto simp: prov_inv_def ut_inv_def ut_mem_ok_def)
  have b0: "0 < brk (elems s)" using hk by (simp add: heap_ok_def)
  have ne: "x \<noteq> st" if "x \<in> set xs" for x
    using heap_ok_live_lt [OF hk prov_inv_live [OF inv that]] st by simp
  then show "st \<notin> set xs" by blast
  have l: "live (elems (new_buf (new_stream A s))) st" using b0 st by (simp add: srv_simps live_new_stream)
  have "heap_ok (elems ?s')"
    using hk b0 st by (auto simp: heap_ok_def put_stream_def new_buf_def new_stream_def less_Suc_eq)
  moreover have on: "live (elems ?s') x \<and> HH ?s' x = HH s x \<and> SID ?s' x = SID s x" if "x \<in> set xs" for x
    using ne [OF that] l prov_inv_live [OF inv that] b0 st
    by (auto simp: srv_simps live_new_stream HH_ST SID_ST)
  ultimately have "ut_inv ?s' (streams (PR s p)) xs"
    by (intro ut_inv_agree [OF ui]) (simp_all add: srv_simps)
  then show "prov_inv ?s' p xs" using inv by (simp add: prov_inv_def srv_simps)
  show "registry ?s' xs = registry s xs"
    unfolding registry_def by (rule index_map_cong) (use on in blast)
qed

definition create_pre :: "byte list option \<Rightarrow> byte list option \<Rightarrow> byte list option \<Rightarrow> addr \<Rightarrow> 'x server \<Rightarrow>
    u32 \<Rightarrow> bool" where
  "create_pre ns name dsc tgl s i \<longleftrightarrow>
     str_fits 36 ns \<and> str_fits 36 name \<and> str_fits 200 dsc \<and> no_oom s \<and>
     rbind (load (tagls s) tgl) (\<lambda>T. rbind (tag_strings s (taglist T) (nat (num_tags T))) (\<lambda>tags.
       aggregator_id_from_string_identifiers (the ns) (the name) tags (num_tags T))) = Inr i"

text \<open>What creation leaves alone, and that it leaves the memory healthy.\<close>

definition create_frame :: "'x server \<Rightarrow> 'x server \<Rightarrow> bool" where
  "create_frame s s' \<longleftrightarrow> tagls s' = tagls s \<and> ptrs s' = ptrs s \<and> strs s' = strs s \<and> idarrs s' = idarrs s \<and>
     calls s' = calls s \<and> brk (bufs s') = Suc (brk (bufs s)) \<and> no_oom s' \<and>
     (\<forall>q. live (elems s') q \<longleftrightarrow> live (elems s) q \<or> q = brk (elems s)) \<and>
     (\<forall>q. live (elems s) q \<longrightarrow> ST_same (ST s q) (ST s' q))"

lemma create_frame_mem_ok:
  assumes "create_frame s s'" "mem_ok s"
    and "cells (bufs s') = (cells (bufs s))(brk (bufs s) := Some B)"
  shows "mem_ok s'"
  using assms by (auto simp: create_frame_def mem_ok_def heap_ok_def less_Suc_eq)

lemma stream_create_cases:
  assumes pre: "create_pre ns name dsc tgl s i" and inv: "prov_inv s p xs"
    and room: "ut_room s (streams (PR s p)) xs"
  shows "\<exists>st s'. aggregator_provider_stream_create A ns name t dsc tgl p s =
        Inr (AGGREGATOR_SUCCESS, Some st, s') \<and>
      st = brk (elems s) \<and> live (elems s') st \<and> stream_init i ns name t dsc tgl (ST s' st) \<and>
      buffer (ST s' st) = brk (bufs s) \<and> stream_mutex (ST s' st) = fst (ABT_mutex_create A (abt s)) \<and>
      abt s' = snd (ABT_mutex_create A (abt s)) \<and>
      cells (bufs s') = (cells (bufs s))(brk (bufs s) := Some (azero STREAM_BUFFER_SIZE zero_sample)) \<and>
      create_frame s s' \<and>
      (if registry s xs i = None
       then prov_inv s' p (xs @ [st]) \<and> registry s' (xs @ [st]) = (registry s xs)(i \<mapsto> st) \<and>
         ut_log2 s' (streams (PR s' p)) \<le> Suc (ut_log2 s (streams (PR s p)))
       else prov_inv s' p xs \<and> registry s' xs = registry s xs)"
proof -
  from pre obtain T tags where fits: "str_fits 36 ns" "str_fits 36 name" "str_fits 200 dsc"
    and T: "load (tagls s) tgl = Inr T" "tag_strings s (taglist T) (nat (num_tags T)) = Inr tags"
      "aggregator_id_from_string_identifiers (the ns) (the name) tags (num_tags T) = Inr i"
    and ok: "no_oom s"
    by (auto simp: create_pre_def rbind_eq_Inr)
  have b0: "0 < brk (elems s)" using inv by (auto simp: prov_inv_def ut_inv_def ut_mem_ok_def heap_ok_def)
  define st where "st = brk (elems s)"
  from stream_create_run [OF fits T b0 ok, of A t p] obtain e where
    run: "aggregator_provider_stream_create A ns name t dsc tgl p s =
      rbind (add_stream p st (put_stream st e (new_buf (new_stream A s)))) (\<lambda>(_, s').
        rbind (load (elems s') st) (\<lambda>_. rbind (load (provs s') p) (\<lambda>_.
        Inr (AGGREGATOR_SUCCESS, Some st, s'))))"
    and e: "stream_init i ns name t dsc tgl e" "buffer e = brk (bufs s)"
      "stream_mutex e = fst (ABT_mutex_create A (abt s))"
    by (auto simp: st_def)
  define s1 where "s1 = put_stream st e (new_buf (new_stream A s))"
  note P = prov_inv_new_stream(1,2) [OF inv st_def, of e A, folded s1_def] prov_inv_new_stream(3) [OF inv st_def]
  have l1: "live (elems s1) st"
    unfolding s1_def using b0 by (subst live_put_stream) (simp_all add: st_def srv_simps live_new_stream)
  have sid1: "SID s1 st = i" and ST1: "ST s1 st = e"
    using e by (simp_all add: s1_def SID_ST srv_simps stream_init_def)
  have v1: "abt s1 = snd (ABT_mutex_create A (abt s))"
    "cells (bufs s1) = (cells (bufs s))(brk (bufs s) := Some (azero STREAM_BUFFER_SIZE zero_sample))"
    by (simp_all add: s1_def srv_simps)
  have ok1: "no_oom s1"
    using ok set_tl_subset [of "oom s"] set_tl_subset [of "tl (oom s)"]
    by (auto simp: no_oom_def s1_def srv_simps)
  have heap: "heap_ok (elems s)" using inv by (simp add: prov_inv_def ut_inv_def ut_mem_ok_def)
  have old: "live (elems s1) q \<and> ST s1 q = ST s q" if "live (elems s) q" for q
    using heap_ok_live_lt [OF heap that] that l1 b0
    by (auto simp: s1_def st_def srv_simps live_new_stream)
  have lv1: "live (elems s1) q \<longleftrightarrow> live (elems s) q \<or> q = st" for q
    using b0 l1 by (auto simp: s1_def st_def srv_simps live_new_stream)
  have f1: "create_frame s s1"
    using old ok1 lv1 by (simp add: create_frame_def ST_same_def st_def) (simp add: s1_def srv_simps new_buf_def)
  show ?thesis
  proof (cases "registry s xs i")
    case None
    have log: "ut_log2 s1 (streams (PR s1 p)) = ut_log2 s (streams (PR s p))"
    proof -
      have "HH s1 y = HH s y" if "y \<in> set xs" for y
        using that P(3) by (auto simp: s1_def HH_ST srv_simps st_def)
      then have "ut_log2 s1 (streams (PR s p)) = ut_log2 s (streams (PR s p))"
        using inv ut_inv_head [of s "streams (PR s p)" xs]
        by (cases xs) (auto simp: ut_log2_def prov_inv_def TT_def s1_def srv_simps)
      then show ?thesis by (simp add: s1_def srv_simps)
    qed
    then have "ut_room s1 (streams (PR s1 p)) xs" using room by (simp add: ut_room_def)
    moreover note ok1
    ultimately obtain s2 where s2: "add_stream p st s1 = Inr (AGGREGATOR_SUCCESS, s2)"
      "prov_inv s2 p (xs @ [st])" "registry s2 (xs @ [st]) = (registry s xs)(i \<mapsto> st)"
      "prov_frame p s1 s2" "live (elems s2) = live (elems s1)" "ST_same (ST s1 st) (ST s2 st)"
      "\<forall>q. live (elems s1) q \<longrightarrow> ST_same (ST s1 q) (ST s2 q)" "no_oom s2"
      "ut_log2 s2 (streams (PR s2 p)) \<le> Suc (ut_log2 s1 (streams (PR s1 p)))"
      using add_stream_new [OF P(1) l1] None P(2) sid1 l1 by auto
    have "stream_init i ns name t dsc tgl (ST s2 st)" "buffer (ST s2 st) = brk (bufs s)"
      "stream_mutex (ST s2 st) = fst (ABT_mutex_create A (abt s))"
      using ST_same_fields [OF s2(6)] e by (simp_all add: stream_init_def ST1)
    moreover have "live (provs s2) p" using s2(2) by (simp add: prov_inv_def)
    moreover have "create_frame s s2"
    proof -
      have "ST_same (ST s q) (ST s2 q)" if "live (elems s) q" for q
        using old [OF that] s2(7) by metis
      then show ?thesis using f1 s2(4,5,8) by (simp add: create_frame_def prov_frame_def)
    qed
    ultimately show ?thesis
      using run s2 l1 None v1 log by (auto simp: s1_def [symmetric] st_def [symmetric] view_run prov_frame_def)
  next
    case (Some x)
    have "add_stream p st s1 = Inr (AGGREGATOR_ERR_INVALID_STREAM, s1)"
      using add_stream_dup [OF P(1) l1] Some P(2) sid1 by simp
    moreover have "live (provs s1) p" using P(1) by (simp add: prov_inv_def)
    ultimately show ?thesis
      using run l1 Some e P ST1 v1 f1 by (auto simp: s1_def [symmetric] st_def [symmetric] view_run)
  qed
qed

text \<open>A name, namespace or description that does not fit its array is copied past its end.\<close>

lemma strcpy_field_overflow:
  assumes "live (elems s) st" "terminated t" "length (rd (ST s st)) \<le> length (cstring t)"
  shows "strcpy_field rd wr st (Some t) s = Inl OutOfBounds"
  using assms by (simp add: strcpy_field_def str_arg_def view_run strcpy_overflow)

lemma stream_create_no_name:
  "ns = None \<or> name = None \<Longrightarrow>
   aggregator_provider_stream_create A ns name t dsc tgl p s = Inr (AGGREGATOR_ERR_INVALID_NAME, None, s)"
  by (auto simp: aggregator_provider_stream_create_def)

end
