(* ===== verification/Rpc_Types.thy ===== *)
theory Rpc_Types
  imports Server
begin

text \<open>
  The messages of \<open>src/types.h\<close> and their serialization. A Mercury \<open>proc\<close> routine is one function
  for encoding, decoding and freeing: \<open>'a hg_proc\<close> takes the operation, the value at the pointer
  and the message (what is written so far, or what is left to read). \<open>MERCURY_GEN_PROC\<close> runs the
  routines of the fields in order, stopping at the first error.

  Mercury's own routines are parameters (\<open>hg_prims\<close>); \<open>prims_ok\<close> is what they are documented to do.
  \<open>proc_ok f enc\<close>: \<open>f\<close> writes \<open>enc v\<close> and reads \<open>v\<close> back from it, whatever follows.
\<close>

section \<open>Serialization routines\<close>

datatype hg_proc_op = HG_ENCODE | HG_DECODE | HG_FREE

abbreviation HG_SUCCESS :: int where
  "HG_SUCCESS \<equiv> 0"

type_synonym 'a hg_proc = "hg_proc_op \<Rightarrow> 'a \<Rightarrow> byte list \<Rightarrow> int \<times> 'a \<times> byte list"

record hg_prims =
  hg_proc_int32_t :: "u32 hg_proc"
  hg_proc_int64_t :: "u64 hg_proc"
  hg_proc_hg_size_t :: "u64 hg_proc"
  hg_proc_hg_string_t :: "byte list hg_proc"
  hg_proc_hg_bulk_t :: "addr hg_proc"
  hg_proc_memcpy :: "byte list hg_proc"

definition proc_ok :: "'a hg_proc \<Rightarrow> ('a \<Rightarrow> byte list) \<Rightarrow> bool" where
  "proc_ok f enc \<longleftrightarrow>
     (\<forall>v b. f HG_ENCODE v b = (HG_SUCCESS, v, b @ enc v)) \<and>
     (\<forall>u v r. f HG_DECODE u (enc v @ r) = (HG_SUCCESS, v, r))"

text \<open>\<open>hg_proc_memcpy\<close> copies as many bytes as its buffer has, and fails when the message has fewer.\<close>

definition memcpy_ok :: "byte list hg_proc \<Rightarrow> bool" where
  "memcpy_ok f \<longleftrightarrow>
     (\<forall>v b. f HG_ENCODE v b = (HG_SUCCESS, v, b @ v)) \<and>
     (\<forall>u v r. length u = length v \<longrightarrow> f HG_DECODE u (v @ r) = (HG_SUCCESS, v, r)) \<and>
     (\<forall>u b. length b < length u \<longrightarrow> fst (f HG_DECODE u b) \<noteq> HG_SUCCESS)"

definition prims_ok :: "hg_prims \<Rightarrow> (u32 \<Rightarrow> byte list) \<Rightarrow> (u64 \<Rightarrow> byte list) \<Rightarrow> (u64 \<Rightarrow> byte list) \<Rightarrow>
    (byte list \<Rightarrow> byte list) \<Rightarrow> (addr \<Rightarrow> byte list) \<Rightarrow> bool" where
  "prims_ok P e32 e64 esz estr eblk \<longleftrightarrow>
     proc_ok (hg_proc_int32_t P) e32 \<and> proc_ok (hg_proc_int64_t P) e64 \<and> proc_ok (hg_proc_hg_size_t P) esz \<and>
     proc_ok (hg_proc_hg_string_t P) estr \<and> proc_ok (hg_proc_hg_bulk_t P) eblk \<and> memcpy_ok (hg_proc_memcpy P) \<and>
     (\<forall>v b. fst (hg_proc_int32_t P HG_FREE v b) = HG_SUCCESS) \<and> (\<forall>v b. fst (hg_proc_hg_size_t P HG_FREE v b) = HG_SUCCESS)"

section \<open>Structures\<close>

definition proc_field :: "'f hg_proc \<Rightarrow> ('s \<Rightarrow> 'f) \<Rightarrow> ('f \<Rightarrow> 's \<Rightarrow> 's) \<Rightarrow> 's hg_proc" where
  "proc_field f rd wr op d b = (let (r, v, b') = f op (rd d) b in (r, wr v d, b'))"

definition proc_then :: "'s hg_proc \<Rightarrow> 's hg_proc \<Rightarrow> 's hg_proc" where
  "proc_then f g op d b =
     (let (r, d', b') = f op d b in if r \<noteq> HG_SUCCESS then (r, d', b') else g op d' b')"

record stream_fetch_in_t =
  fi_stream_id :: u32
  fi_count :: u64
  fi_bulk :: addr

record stream_fetch_out_t =
  fo_actual_count :: u64
  fo_name :: "byte list"
  fo_ns :: "byte list"
  fo_ret :: u32

record list_streams_out_t =
  lo_ret :: u32
  lo_count :: u64
  lo_ids :: addr

definition bytes_id :: "byte list \<Rightarrow> u32" where
  "bytes_id d = ucast (d ! 0) OR push_bit 8 (ucast (d ! 1)) OR push_bit 16 (ucast (d ! 2)) OR
     push_bit 24 (ucast (d ! 3))"

definition hg_proc_aggregator_stream_id_t :: "hg_prims \<Rightarrow> u32 hg_proc" where
  "hg_proc_aggregator_stream_id_t P op v b =
     (let (r, d, b') = hg_proc_memcpy P op (id_bytes v) b in (r, bytes_id d, b'))"

definition hg_proc_list_streams_in_t :: "hg_prims \<Rightarrow> u64 hg_proc" where
  "hg_proc_list_streams_in_t P = hg_proc_hg_size_t P"

definition hg_proc_stream_fetch_in_t :: "hg_prims \<Rightarrow> stream_fetch_in_t hg_proc" where
  "hg_proc_stream_fetch_in_t P =
     proc_then (proc_field (hg_proc_aggregator_stream_id_t P) fi_stream_id (\<lambda>v d. d\<lparr>fi_stream_id := v\<rparr>))
    (proc_then (proc_field (hg_proc_int64_t P) fi_count (\<lambda>v d. d\<lparr>fi_count := v\<rparr>))
               (proc_field (hg_proc_hg_bulk_t P) fi_bulk (\<lambda>v d. d\<lparr>fi_bulk := v\<rparr>)))"

definition hg_proc_stream_fetch_out_t :: "hg_prims \<Rightarrow> stream_fetch_out_t hg_proc" where
  "hg_proc_stream_fetch_out_t P =
     proc_then (proc_field (hg_proc_int64_t P) fo_actual_count (\<lambda>v d. d\<lparr>fo_actual_count := v\<rparr>))
    (proc_then (proc_field (hg_proc_hg_string_t P) fo_name (\<lambda>v d. d\<lparr>fo_name := v\<rparr>))
    (proc_then (proc_field (hg_proc_hg_string_t P) fo_ns (\<lambda>v d. d\<lparr>fo_ns := v\<rparr>))
               (proc_field (hg_proc_int32_t P) fo_ret (\<lambda>v d. d\<lparr>fo_ret := v\<rparr>))))"

text \<open>
  The hand-written routine of \<open>list_streams_out_t\<close>. Decoding allocates the array of identifiers and
  falls through to the copy; the copy is skipped when the pointer is null.
\<close>

definition ids_copy :: "hg_prims \<Rightarrow> hg_proc_op \<Rightarrow> list_streams_out_t \<Rightarrow> byte list \<Rightarrow> u32 carr heap \<Rightarrow>
    (int \<times> byte list \<times> u32 carr heap) res" where
  "ids_copy P op out b h =
     (if lo_ids out = NULL then Inr (HG_SUCCESS, b, h)
      else
        rbind (load h (lo_ids out)) (\<lambda>a.
        let n = unat (4 * lo_count out) in
        if 4 * alen a < n then Inl OutOfBounds
        else
          let k = n div 4;
              (r, d, b') = hg_proc_memcpy P op (concat (map id_bytes (aslice a 0 k))) b in
          rbind (store h (lo_ids out) (a\<lparr>adat := (\<lambda>i. if i < k then bytes_id (take 4 (drop (4 * i) d)) else adat a i)\<rparr>)) (\<lambda>h.
          Inr (r, b', h))))"

definition hg_proc_list_streams_out_t :: "hg_prims \<Rightarrow> hg_proc_op \<Rightarrow> list_streams_out_t \<Rightarrow> byte list \<Rightarrow>
    bool list \<Rightarrow> u32 carr heap \<Rightarrow> (int \<times> list_streams_out_t \<times> byte list \<times> bool list \<times> u32 carr heap) res" where
  "hg_proc_list_streams_out_t P op out b sch h =
     (let (r, v, b) = hg_proc_int32_t P op (lo_ret out) b; out = out\<lparr>lo_ret := v\<rparr> in
      if r \<noteq> HG_SUCCESS then Inr (r, out, b, sch, h)
      else let (r, v, b) = hg_proc_hg_size_t P op (lo_count out) b; out = out\<lparr>lo_count := v\<rparr> in
      if r \<noteq> HG_SUCCESS then Inr (r, out, b, sch, h)
      else case op of
        HG_DECODE \<Rightarrow>
          let (p, sch, h) = calloc (azero (unat (lo_count out)) 0) sch h; out = out\<lparr>lo_ids := p\<rparr> in
          rbind (ids_copy P op out b h) (\<lambda>(r, b, h). Inr (r, out, b, sch, h))
      | HG_ENCODE \<Rightarrow>
          rbind (ids_copy P op out b h) (\<lambda>(r, b, h). Inr (r, out, b, sch, h))
      | HG_FREE \<Rightarrow>
          rbind (dealloc h (lo_ids out)) (\<lambda>h. Inr (r, out, b, sch, h)))"

section \<open>Round trips\<close>

lemma proc_field_then:
  assumes "proc_ok f enc" "\<And>d. wr (rd d) d = d"
  shows "proc_then (proc_field f rd wr) g HG_ENCODE d b = g HG_ENCODE d (b @ enc (rd d))"
    and "proc_then (proc_field f rd wr) g HG_DECODE u (enc v @ r) = g HG_DECODE (wr v u) r"
  using assms by (simp_all add: proc_then_def proc_field_def proc_ok_def)

lemma proc_field_last:
  assumes "proc_ok f enc" "\<And>d. wr (rd d) d = d"
  shows "proc_field f rd wr HG_ENCODE d b = (HG_SUCCESS, d, b @ enc (rd d))"
    and "proc_field f rd wr HG_DECODE u (enc v @ r) = (HG_SUCCESS, wr v u, r)"
  using assms by (simp_all add: proc_field_def proc_ok_def)

lemma bytes_id_bytes [simp]: "bytes_id (id_bytes w) = w"
proof (rule bit_word_eqI)
  fix n assume "n < LENGTH(32)"
  then have n: "n < 32" by simp
  then consider "n < 8" | "8 \<le> n" "n < 16" | "16 \<le> n" "n < 24" | "24 \<le> n" by linarith
  then show "bit (bytes_id (id_bytes w)) n \<longleftrightarrow> bit w n"
    using n by cases (auto simp: bytes_id_def id_bytes_def bit_or_iff bit_push_bit_iff bit_ucast_iff bit_drop_bit_eq)
qed

lemma length_id_bytes [simp]: "length (id_bytes w) = 4"
  by (simp add: id_bytes_def)

lemma stream_id_proc_ok: "memcpy_ok (hg_proc_memcpy P) \<Longrightarrow> proc_ok (hg_proc_aggregator_stream_id_t P) id_bytes"
  by (simp add: proc_ok_def memcpy_ok_def hg_proc_aggregator_stream_id_t_def)

definition fetch_in_bytes :: "(u64 \<Rightarrow> byte list) \<Rightarrow> (addr \<Rightarrow> byte list) \<Rightarrow> stream_fetch_in_t \<Rightarrow> byte list" where
  "fetch_in_bytes e64 eblk d = id_bytes (fi_stream_id d) @ e64 (fi_count d) @ eblk (fi_bulk d)"

definition fetch_out_bytes :: "(u32 \<Rightarrow> byte list) \<Rightarrow> (u64 \<Rightarrow> byte list) \<Rightarrow> (byte list \<Rightarrow> byte list) \<Rightarrow>
    stream_fetch_out_t \<Rightarrow> byte list" where
  "fetch_out_bytes e32 e64 estr d = e64 (fo_actual_count d) @ estr (fo_name d) @ estr (fo_ns d) @ e32 (fo_ret d)"

lemma fetch_in_proc_ok:
  assumes "prims_ok P e32 e64 esz estr eblk"
  shows "proc_ok (hg_proc_stream_fetch_in_t P) (fetch_in_bytes e64 eblk)"
proof -
  from assms have ok: "proc_ok (hg_proc_aggregator_stream_id_t P) id_bytes"
    "proc_ok (hg_proc_int64_t P) e64" "proc_ok (hg_proc_hg_bulk_t P) eblk"
    by (simp_all add: prims_ok_def stream_id_proc_ok)
  show ?thesis
    unfolding proc_ok_def
    by (simp add: proc_field_then [OF ok(1)] proc_field_then [OF ok(2)] proc_field_last [OF ok(3)] hg_proc_stream_fetch_in_t_def fetch_in_bytes_def)
qed

lemma fetch_out_proc_ok:
  assumes "prims_ok P e32 e64 esz estr eblk"
  shows "proc_ok (hg_proc_stream_fetch_out_t P) (fetch_out_bytes e32 e64 estr)"
proof -
  from assms have ok: "proc_ok (hg_proc_int64_t P) e64" "proc_ok (hg_proc_hg_string_t P) estr"
    "proc_ok (hg_proc_int32_t P) e32"
    by (simp_all add: prims_ok_def)
  show ?thesis
    unfolding proc_ok_def
    by (simp add: proc_field_then [OF ok(1)] proc_field_then [OF ok(2)] proc_field_last [OF ok(3)] hg_proc_stream_fetch_out_t_def fetch_out_bytes_def)
qed


lemma concat_id_bytes_nth:
  "i < length xs \<Longrightarrow> take 4 (drop (4 * i) (concat (map id_bytes xs))) = id_bytes (xs ! i)"
proof (induction xs arbitrary: i)
  case (Cons x xs)
  show ?case
  proof (cases i)
    case (Suc j)
    then have "drop (4 * i) (id_bytes x @ concat (map id_bytes xs)) = drop (4 * j) (concat (map id_bytes xs))"
      by simp
    with Suc Cons show ?thesis by simp
  qed simp
qed simp

lemma length_concat_id_bytes [simp]: "length (concat (map id_bytes xs)) = 4 * length xs"
  by (induction xs) simp_all

definition ids_of :: "u32 carr \<Rightarrow> u64 \<Rightarrow> u32 list" where
  "ids_of a n = aslice a 0 (unat n)"

definition list_out_bytes :: "(u32 \<Rightarrow> byte list) \<Rightarrow> (u64 \<Rightarrow> byte list) \<Rightarrow> u32 \<Rightarrow> u64 \<Rightarrow> u32 list \<Rightarrow> byte list" where
  "list_out_bytes e32 esz r n xs = e32 r @ esz n @ concat (map id_bytes xs)"

lemma unat_mult4: "unat n < 2 ^ 62 \<Longrightarrow> unat (4 * n :: u64) = 4 * unat n"
  by (simp add: unat_word_ariths)

lemma list_out_encode:
  assumes P: "prims_ok P e32 e64 esz estr eblk"
    and a: "cells h (lo_ids out) = Some a" "lo_ids out \<noteq> NULL"
    and n: "unat (lo_count out) \<le> alen a" "unat (lo_count out) < 2 ^ 62"
  shows "hg_proc_list_streams_out_t P HG_ENCODE out b sch h =
    Inr (HG_SUCCESS, out, b @ list_out_bytes e32 esz (lo_ret out) (lo_count out) (ids_of a (lo_count out)), sch, h)"
proof -
  let ?k = "unat (lo_count out)"
  let ?d = "concat (map id_bytes (aslice a 0 ?k))"
  have same: "a\<lparr>adat := (\<lambda>i. if i < ?k then bytes_id (take 4 (drop (4 * i) ?d)) else adat a i)\<rparr> = a"
  proof -
    have "(\<lambda>i. if i < ?k then bytes_id (take 4 (drop (4 * i) ?d)) else adat a i) = adat a"
      by (auto simp: concat_id_bytes_nth nth_aslice)
    then show ?thesis by simp
  qed
  have "ids_copy P HG_ENCODE out b' h = Inr (HG_SUCCESS, b' @ ?d, h)" for b'
    using P a n same
    by (simp add: ids_copy_def load_def store_def unat_mult4 prims_ok_def memcpy_ok_def Let_def fun_upd_idem)
  moreover have "out\<lparr>lo_ret := lo_ret out\<rparr> = out" "out\<lparr>lo_count := lo_count out\<rparr> = out" by simp_all
  ultimately show ?thesis
    using P by (simp add: hg_proc_list_streams_out_t_def prims_ok_def proc_ok_def list_out_bytes_def ids_of_def)
qed

lemma list_out_decode:
  assumes P: "prims_ok P e32 e64 esz estr eblk"
    and n: "unat n = length xs" "length xs < 2 ^ 62" and ok: "alloc_ok sch" and h: "heap_ok h"
  shows "\<exists>a. hg_proc_list_streams_out_t P HG_DECODE out (list_out_bytes e32 esz r n xs @ rest) sch h =
    Inr (HG_SUCCESS, \<lparr>lo_ret = r, lo_count = n, lo_ids = brk h\<rparr>, rest, tl sch,
         \<lparr>cells = (cells h)(brk h := Some a), brk = Suc (brk h)\<rparr>) \<and>
    alen a = length xs \<and> ids_of a n = xs"
proof -
  define a0 :: "u32 carr" where "a0 = azero (length xs) 0"
  define a :: "u32 carr" where "a = a0\<lparr>adat := (\<lambda>i. if i < length xs then bytes_id (take 4 (drop (4 * i) (concat (map id_bytes xs)))) else adat a0 i)\<rparr>"
  let ?h = "\<lparr>cells = (cells h)(brk h := Some a0), brk = Suc (brk h)\<rparr>"
  let ?out = "\<lparr>lo_ret = r, lo_count = n, lo_ids = brk h\<rparr>"
  have b0: "brk h \<noteq> NULL" using h by (simp add: heap_ok_def)
  have a0: "alen a0 = length xs" by (simp add: a0_def azero_def)
  have "length (concat (map id_bytes (aslice a0 0 (length xs)))) = length (concat (map id_bytes xs))" by simp
  then have "hg_proc_memcpy P HG_DECODE (concat (map id_bytes (aslice a0 0 (length xs)))) (concat (map id_bytes xs) @ rest) =
      (HG_SUCCESS, concat (map id_bytes xs), rest)"
    using P unfolding prims_ok_def memcpy_ok_def by blast
  then have "ids_copy P HG_DECODE ?out (concat (map id_bytes xs) @ rest) ?h =
      Inr (HG_SUCCESS, rest, \<lparr>cells = (cells h)(brk h := Some a), brk = Suc (brk h)\<rparr>)"
    using b0 n a0 by (simp add: ids_copy_def load_def store_def unat_mult4 Let_def a_def)
  moreover have rec: "out\<lparr>lo_ret := r, lo_count := n, lo_ids := brk h\<rparr> = ?out" by (cases out) simp
  ultimately have "hg_proc_list_streams_out_t P HG_DECODE out (list_out_bytes e32 esz r n xs @ rest) sch h =
    Inr (HG_SUCCESS, ?out, rest, tl sch, \<lparr>cells = (cells h)(brk h := Some a), brk = Suc (brk h)\<rparr>)"
    using P n ok
    by (simp add: a0_def [symmetric] rec Let_def hg_proc_list_streams_out_t_def prims_ok_def proc_ok_def list_out_bytes_def calloc_def)
  moreover have "ids_of a n = xs"
    using n by (auto simp: ids_of_def nth_aslice concat_id_bytes_nth a_def intro!: nth_equalityI)
  ultimately show ?thesis using a0 by (intro exI [of _ a]) (simp add: a_def)
qed

text \<open>
  A null array is encoded as nothing, but decoding always reads \<open>count\<close> identifiers: the message of
  a response with a null array and a positive count cannot be decoded.
\<close>

lemma list_out_null:
  assumes P: "prims_ok P e32 e64 esz estr eblk" and ids: "lo_ids out = NULL"
    and n: "0 < unat (lo_count out)" "unat (lo_count out) < 2 ^ 62" and ok: "alloc_ok sch'" and h: "heap_ok h'"
  shows "\<exists>m. hg_proc_list_streams_out_t P HG_ENCODE out [] sch h = Inr (HG_SUCCESS, out, m, sch, h) \<and>
    (\<exists>r x. r \<noteq> HG_SUCCESS \<and> hg_proc_list_streams_out_t P HG_DECODE u m sch' h' = Inr (r, x))"
proof -
  let ?m = "e32 (lo_ret out) @ esz (lo_count out)"
  let ?k = "unat (lo_count out)"
  let ?d = "concat (map id_bytes (aslice (azero ?k 0 :: u32 carr) 0 ?k))"
  have b0: "brk h' \<noteq> NULL" using h by (simp add: heap_ok_def)
  have "length [] < length ?d" using n by simp
  then have short: "fst (hg_proc_memcpy P HG_DECODE ?d []) \<noteq> HG_SUCCESS"
    using P unfolding prims_ok_def memcpy_ok_def by blast
  have 1: "hg_proc_list_streams_out_t P HG_ENCODE out [] sch h = Inr (HG_SUCCESS, out, ?m, sch, h)"
    using P ids by (simp add: hg_proc_list_streams_out_t_def prims_ok_def proc_ok_def ids_copy_def)
  have "hg_proc_hg_size_t P HG_DECODE v (esz w) = (HG_SUCCESS, w, [])" for v w
    using P unfolding prims_ok_def proc_ok_def by (metis append_Nil2)
  then have "hg_proc_list_streams_out_t P HG_DECODE u ?m sch' h' =
      (let h1 = \<lparr>cells = (cells h')(brk h' := Some (azero ?k 0)), brk = Suc (brk h')\<rparr>;
           out1 = u\<lparr>lo_ret := lo_ret out, lo_count := lo_count out, lo_ids := brk h'\<rparr> in
       rbind (ids_copy P HG_DECODE out1 [] h1) (\<lambda>(r, b, h). Inr (r, out1, b, tl sch', h)))"
    using P ok
    by (simp add: hg_proc_list_streams_out_t_def prims_ok_def proc_ok_def calloc_def Let_def)
  with 1 short b0 n show ?thesis
    by (auto simp: ids_copy_def load_def store_def unat_mult4 Let_def azero_def split: prod.splits)
qed

end
