(* ===== verification/Provider_Rpc.thy ===== *)
theory Provider_Rpc
  imports Provider Rpc_Types
begin

text \<open>
  The RPC handlers of \<open>src/provider.c\<close> and the life of a provider. What Margo answers to a handler
  is its environment: whether the input could be decoded, and how bulk operations ended. A handler
  yields the response it sends, the samples it pushes to the client, and the new state.

  The handlers' local variables start uninitialised; sending a response, freeing a buffer or a bulk
  handle reads them, and reading one that was never set is the fault \<open>Uninit\<close>.
\<close>

section \<open>Fetching samples\<close>

record fetch_env =
  fe_input :: "stream_fetch_in_t option"
  fe_bulk_create :: int
  fe_bulk_transfer :: int

text \<open>The local \<open>out\<close>, whose strings are allocated by the handler.\<close>

record fetch_local =
  l_count :: "u64 option"
  l_name :: "addr option"
  l_ns :: "addr option"
  l_ret :: u32

definition rd_local :: "'a option \<Rightarrow> 'a res" where
  "rd_local x = (case x of None \<Rightarrow> Inl Uninit | Some v \<Rightarrow> Inr v)"

definition rd_string :: "addr \<Rightarrow> 'x server \<Rightarrow> byte list res" where
  "rd_string q s = rbind (load (strs s) q) (\<lambda>t. rbind (strlen t) (\<lambda>n. Inr (take n t)))"

definition fetch_respond :: "fetch_local \<Rightarrow> 'x server \<Rightarrow> stream_fetch_out_t res" where
  "fetch_respond out s =
     rbind (rd_local (l_count out)) (\<lambda>c.
     rbind (rd_local (l_name out)) (\<lambda>nm. rbind (rd_string nm s) (\<lambda>name.
     rbind (rd_local (l_ns out)) (\<lambda>n. rbind (rd_string n s) (\<lambda>ns.
     Inr \<lparr>fo_actual_count = c, fo_name = name, fo_ns = ns, fo_ret = l_ret out\<rparr>)))))"

text \<open>The label \<open>finish\<close>: the buffer, whether the bulk handle exists, and what was pushed.\<close>

definition fetch_finish :: "addr option \<Rightarrow> bool \<Rightarrow> fetch_local \<Rightarrow> aggregator_stream_sample list option \<Rightarrow>
    'x server \<Rightarrow> (stream_fetch_out_t \<times> aggregator_stream_sample list option \<times> 'x server) res" where
  "fetch_finish b bulk out pushed s =
     rbind (rd_local b) (\<lambda>b.
     rbind (dealloc (bufs s) b) (\<lambda>bs. let s = s\<lparr>bufs := bs\<rparr> in
     rbind (fetch_respond out s) (\<lambda>reply.
     if bulk then Inr (reply, pushed, s) else Inl Uninit)))"

text \<open>
  \<open>calloc(n, sizeof(aggregator_stream_sample))\<close>, a sample being 24 bytes; the allocator refuses
  sizes beyond \<open>PTRDIFF_MAX\<close>.
\<close>

definition calloc_samples :: "u64 \<Rightarrow> 'x server \<Rightarrow> addr \<times> 'x server" where
  "calloc_samples n s =
     (if 24 * unat n < 2 ^ 63
      then let (b, sch, h) = calloc (azero (unat n) zero_sample) (oom s) (bufs s)
           in (b, s\<lparr>oom := sch, bufs := h\<rparr>)
      else (NULL, s))"

text \<open>\<open>memcpy(dst, src + off, nbytes)\<close> on sample buffers.\<close>

definition memcpy_samples :: "addr \<Rightarrow> addr \<Rightarrow> int \<Rightarrow> u64 \<Rightarrow> 'x server \<Rightarrow> 'x server res" where
  "memcpy_samples dst src off nbytes s =
     (let n = unat nbytes in
      if n = 0 then Inr s
      else
        rbind (load (bufs s) dst) (\<lambda>D.
        rbind (load (bufs s) src) (\<lambda>S.
        if n \<le> 24 * alen D \<and> 0 \<le> off \<and> 24 * nat off + n \<le> 24 * alen S then
          rbind (store (bufs s) dst (D\<lparr>adat := (\<lambda>k. if k < n div 24 then adat S (nat off + k) else adat D k)\<rparr>))
            (\<lambda>h. Inr (s\<lparr>bufs := h\<rparr>))
        else Inl OutOfBounds)))"

definition malloc36 :: "'x server \<Rightarrow> addr \<times> 'x server" where
  "malloc36 s = (let (q, sch, h) = calloc (replicate 36 0) (oom s) (strs s) in (q, s\<lparr>oom := sch, strs := h\<rparr>))"

definition strcpy_heap :: "addr \<Rightarrow> byte list \<Rightarrow> 'x server \<Rightarrow> 'x server res" where
  "strcpy_heap q src s =
     rbind (load (strs s) q) (\<lambda>d.
     rbind (strcpy d src) (\<lambda>r.
     rbind (store (strs s) q r) (\<lambda>h. Inr (s\<lparr>strs := h\<rparr>))))"

definition aggregator_stream_fetch_ult :: "fetch_env \<Rightarrow> addr \<Rightarrow> 'x server \<Rightarrow>
    (stream_fetch_out_t \<times> aggregator_stream_sample list option \<times> 'x server) res" where
  "aggregator_stream_fetch_ult env p s =
     (let out = \<lparr>l_count = None, l_name = None, l_ns = None, l_ret = 0\<rparr> in
      case fe_input env of
        None \<Rightarrow>
          rbind (load (provs s) p) (\<lambda>_.
          fetch_finish None False (out\<lparr>l_ret := ret_code AGGREGATOR_ERR_FROM_MERCURY\<rparr>) None s)
      | Some i \<Rightarrow>
          let (b, s) = calloc_samples (fi_count i) s in
          if fe_bulk_create env \<noteq> HG_SUCCESS then
            rbind (load (provs s) p) (\<lambda>_.
            fetch_finish (Some b) False (out\<lparr>l_ret := ret_code AGGREGATOR_ERR_FROM_MERCURY\<rparr>) None s)
          else
            rbind (find_stream p (Id_var (fi_stream_id i)) s) (\<lambda>st.
            if st = NULL then
              fetch_finish (Some b) True (out\<lparr>l_ret := ret_code AGGREGATOR_ERR_INVALID_STREAM\<rparr>) None s
            else
              let (nm, s) = malloc36 s; (n, s) = malloc36 s in
              rbind (load (elems s) st) (\<lambda>e.
              rbind (strcpy_heap nm (sname e) s) (\<lambda>s.
              rbind (strcpy_heap n (sns e) s) (\<lambda>s.
              let actual = (if uint (buffer_index e) < sint (fi_count i) then ucast (buffer_index e) else fi_count i);
                  off = (if uint (buffer_index e) < sint (fi_count i) then 0 else uint (buffer_index e) - sint actual);
                  out = out\<lparr>l_count := Some actual, l_name := Some nm, l_ns := Some n\<rparr> in
              rbind (memcpy_samples b (buffer e) off (24 * actual) s) (\<lambda>s.
              if fe_bulk_transfer env \<noteq> HG_SUCCESS then
                rbind (load (provs s) p) (\<lambda>_.
                fetch_finish (Some b) True (out\<lparr>l_ret := ret_code AGGREGATOR_ERR_FROM_MERCURY\<rparr>) None s)
              else
                let pushed = (case cells (bufs s) b of None \<Rightarrow> [] | Some D \<Rightarrow> aslice D 0 (unat (fi_count i))) in
                fetch_finish (Some b) True (out\<lparr>l_ret := ret_code AGGREGATOR_SUCCESS\<rparr>) (Some pushed) s)))))
     )"

section \<open>Listing streams\<close>

record list_reply =
  lr_ret :: u32
  lr_count :: u64
  lr_ids :: "u32 list option"

fun list_fill :: "nat \<Rightarrow> addr \<Rightarrow> addr \<Rightarrow> u32 \<Rightarrow> addr \<Rightarrow> 'x server \<Rightarrow> 'x server res" where
  "list_fill 0 r tmp i a s = Inl Diverge"
| "list_fill (Suc n) r tmp i a s =
     (if r = NULL then Inr s
      else
        rbind (load (elems s) r) (\<lambda>e.
        rbind (load (idarrs s) a) (\<lambda>A.
        rbind (aset A (unat i) (sid e)) (\<lambda>A.
        rbind (store (idarrs s) a A) (\<lambda>h. let s = s\<lparr>idarrs := h\<rparr> in
        rbind (hash_next tmp s) (\<lambda>tmp'.
        list_fill n tmp tmp' (i + 1) a s))))))"

definition list_respond :: "u32 \<Rightarrow> u64 option \<Rightarrow> addr \<Rightarrow> 'x server \<Rightarrow> list_reply res" where
  "list_respond r cnt ids s =
     rbind (rd_local cnt) (\<lambda>c.
     if ids = NULL then Inr \<lparr>lr_ret = r, lr_count = c, lr_ids = None\<rparr>
     else
       rbind (load (idarrs s) ids) (\<lambda>a.
       if 4 * alen a < unat (4 * c) then Inl OutOfBounds
       else Inr \<lparr>lr_ret = r, lr_count = c, lr_ids = Some (aslice a 0 (unat (4 * c) div 4))\<rparr>))"

definition aggregator_list_streams_ult :: "u64 option \<Rightarrow> addr \<Rightarrow> 'x server \<Rightarrow> (list_reply \<times> 'x server) res" where
  "aggregator_list_streams_ult input p s =
     (case input of
        None \<Rightarrow> rbind (list_respond (ret_code AGGREGATOR_ERR_FROM_MERCURY) None NULL s) (\<lambda>reply. Inr (reply, s))
      | Some max_ids \<Rightarrow>
          rbind (load (provs s) p) (\<lambda>P.
          let cnt = (if num_streams P < max_ids then num_streams P else max_ids);
              (ids, sch, h) = calloc (azero (unat (num_streams P)) 0) (oom s) (idarrs s);
              s = s\<lparr>oom := sch, idarrs := h\<rparr> in
          rbind (hash_next (streams P) s) (\<lambda>tmp.
          rbind (list_fill (fuel s) (streams P) tmp 0 ids s) (\<lambda>s.
          rbind (list_respond (ret_code AGGREGATOR_SUCCESS) (Some cnt) ids s) (\<lambda>reply.
          rbind (dealloc (idarrs s) ids) (\<lambda>h. Inr (reply, s\<lparr>idarrs := h\<rparr>)))))))"

section \<open>The life of a provider\<close>

record aggregator_provider_args =
  a_push_finalize_callback :: byte
  a_token :: "byte list option"
  a_config :: "byte list option"
  a_pool :: addr
  a_abtio :: addr

definition AGGREGATOR_PROVIDER_ARGS_INIT :: aggregator_provider_args where
  "AGGREGATOR_PROVIDER_ARGS_INIT = \<lparr>a_push_finalize_callback = 1, a_token = None, a_config = None, a_pool = NULL, a_abtio = NULL\<rparr>"

record register_env =
  re_listening :: bool
  re_registered :: bool
  re_fetch_id :: u64
  re_list_id :: u64

definition margo :: "margo_call \<Rightarrow> 'x server \<Rightarrow> 'x server" where
  "margo c s = s\<lparr>calls := calls s @ [c]\<rparr>"

definition aggregator_provider_register :: "register_env \<Rightarrow> addr \<Rightarrow> u16 \<Rightarrow> aggregator_provider_args option \<Rightarrow>
    'x server \<Rightarrow> (aggregator_return_t \<times> addr \<times> 'x server) res" where
  "aggregator_provider_register env mid pid args s =
     (let a = (case args of None \<Rightarrow> AGGREGATOR_PROVIDER_ARGS_INIT | Some a \<Rightarrow> a) in
      if \<not> re_listening env then Inr (AGGREGATOR_ERR_INVALID_ARGS, NULL, s)
      else if re_registered env then Inr (AGGREGATOR_ERR_INVALID_PROVIDER, NULL, s)
      else
        let (p, sch, h) = calloc zero_provider (oom s) (provs s); s = s\<lparr>oom := sch, provs := h\<rparr> in
        if p = NULL then Inr (AGGREGATOR_ERR_ALLOCATION, NULL, s)
        else
          rbind (upd_prov p (\<lambda>P. P\<lparr>pmid := mid, provider_id := pid, pool := a_pool a, abtio := a_abtio a\<rparr>) s) (\<lambda>s.
          let s = margo (MARGO_REGISTER_PROVIDER (re_fetch_id env) pid (a_pool a)) s;
              s = margo (margo_register_data (re_fetch_id env) p) s in
          rbind (upd_prov p (\<lambda>P. P\<lparr>stream_fetch_id := re_fetch_id env\<rparr>) s) (\<lambda>s.
          let s = margo (MARGO_REGISTER_PROVIDER (re_list_id env) pid (a_pool a)) s;
              s = margo (margo_register_data (re_list_id env) p) s in
          rbind (upd_prov p (\<lambda>P. P\<lparr>list_streams_id := re_list_id env\<rparr>) s) (\<lambda>s.
          let s = (if a_push_finalize_callback a \<noteq> 0 then margo (margo_provider_push_finalize_callback p) s else s) in
          Inr (AGGREGATOR_SUCCESS, p, s)))))"

text \<open>
  The finalize callback: its body up to \<open>free(provider)\<close>, and its last statement, which logs
  \<open>provider->mid\<close>.
\<close>

definition finalize_body :: "addr \<Rightarrow> 'x server \<Rightarrow> 'x server res" where
  "finalize_body p s =
     rbind (load (provs s) p) (\<lambda>P.
     let s = margo (margo_deregister (stream_fetch_id P)) s;
         s = margo (margo_deregister (list_streams_id P)) s in
     rbind (remove_all_streams p s) (\<lambda>s.
     rbind (dealloc (provs s) p) (\<lambda>h. Inr (s\<lparr>provs := h\<rparr>))))"

definition aggregator_finalize_provider :: "addr \<Rightarrow> 'x server \<Rightarrow> 'x server res" where
  "aggregator_finalize_provider p s =
     rbind (finalize_body p s) (\<lambda>s.
     rbind (load (provs s) p) (\<lambda>P. Inr s))"

definition aggregator_provider_destroy :: "addr \<Rightarrow> 'x server \<Rightarrow> (aggregator_return_t \<times> 'x server) res" where
  "aggregator_provider_destroy p s =
     rbind (load (provs s) p) (\<lambda>_.
     let s = margo (margo_provider_pop_finalize_callback p) s in
     rbind (aggregator_finalize_provider p s) (\<lambda>s. Inr (AGGREGATOR_SUCCESS, s)))"


section \<open>What a fetch returns\<close>

text \<open>The last \<open>n\<close> elements of a list, or all of it.\<close>

definition last_n :: "nat \<Rightarrow> 'a list \<Rightarrow> 'a list" where
  "last_n n xs = drop (length xs - n) xs"

lemma length_last_n [simp]: "length (last_n n xs) = min n (length xs)"
  by (auto simp: last_n_def)

lemma memcpy_samples_ok:
  assumes "cells (bufs s) dst = Some D" "dst \<noteq> NULL" "cells (bufs s) src = Some S" "src \<noteq> NULL"
    and "unat nb = 24 * k" "k \<le> alen D" "0 \<le> off" "nat off + k \<le> alen S"
  shows "memcpy_samples dst src off nb s =
    Inr (s\<lparr>bufs := (bufs s)\<lparr>cells := (cells (bufs s))(dst :=
           Some (D\<lparr>adat := (\<lambda>j. if j < k then adat S (nat off + j) else adat D j)\<rparr>))\<rparr>\<rparr>)"
proof (cases "k = 0")
  case True
  have "D\<lparr>adat := adat D\<rparr> = D" by simp
  with True assms show ?thesis by (simp add: memcpy_samples_def fun_upd_idem)
next
  case False
  with assms show ?thesis
    by (simp add: memcpy_samples_def load_def store_def Let_def)
qed

text \<open>The state a fetch leaves: the response's two strings stay allocated, the rest is as before.\<close>

definition fetch_frame :: "'x server \<Rightarrow> 'x server \<Rightarrow> bool" where
  "fetch_frame s s' \<longleftrightarrow> elems s' = elems s \<and> tbls s' = tbls s \<and> bkts s' = bkts s \<and> provs s' = provs s \<and>
     cells (bufs s') = cells (bufs s) \<and> tagls s' = tagls s \<and> ptrs s' = ptrs s \<and> idarrs s' = idarrs s \<and>
     abt s' = abt s \<and> calls s' = calls s"

lemma sint_nonneg: "0 \<le> sint (w :: u64) \<Longrightarrow> sint w = int (unat w)"
proof -
  assume "0 \<le> sint w"
  moreover have "sint w < 2 ^ 63" using sint_lt [of w] by simp
  ultimately have "take_bit 64 (sint w) = sint w" by (intro take_bit_int_eq_self) auto
  then have "uint w = sint w" using uint_sint [of w] by simp
  then show ?thesis by simp
qed

lemma sint_small: "unat (w :: u64) < 2 ^ 63 \<Longrightarrow> sint w = int (unat w)"
proof -
  assume "unat w < 2 ^ 63"
  then have "int (unat w) < int (2 ^ 63)" by (simp only: of_nat_less_iff)
  then have "uint w < 2 ^ 63" by simp
  then have "signed_take_bit 63 (uint w) = uint w"
    by (intro signed_take_bit_int_eq_self) (auto intro: order_trans [OF _ uint_ge_0])
  then show ?thesis by (simp add: sint_uint)
qed

lemma unat_ucast_u64: "unat (ucast (x :: u32) :: u64) = unat x"
proof -
  have "unat x < 2 ^ 32" using unsigned_less [of x] by simp
  then have "unat x < 2 ^ 64" by simp
  then have "take_bit 64 (unat x) = unat x" by (rule take_bit_nat_eq_self)
  then show ?thesis by (simp add: unsigned_ucast_eq)
qed

lemma sint_neg_large: "sint (w :: u64) < 0 \<Longrightarrow> 2 ^ 63 \<le> unat w"
  using sint_small [of w] by (cases "unat w < 2 ^ 63") auto

lemma prov_inv_same:
  assumes "elems s' = elems s" "tbls s' = tbls s" "bkts s' = bkts s" "provs s' = provs s" "prov_inv s p xs"
  shows "prov_inv s' p xs" "registry s' ys = registry s ys"
proof -
  have v: "HH s' = HH s" "SID s' = SID s" "PR s' = PR s"
    using assms by (simp_all add: HH_def SID_def PR_def fun_eq_iff)
  have ui: "ut_inv s (streams (PR s p)) xs" using assms(5) by (simp add: prov_inv_def)
  have "ut_inv s' (streams (PR s p)) xs"
    by (rule ut_inv_agree [OF ui]) (use assms v ui ut_inv_live [OF ui] in \<open>auto simp: ut_inv_def ut_mem_ok_def\<close>)
  then show "prov_inv s' p xs" "registry s' ys = registry s ys"
    using assms v by (simp_all add: prov_inv_def registry_def)
qed

lemma strcpy_heap_ok:
  assumes "cells (strs s) q = Some d" "q \<noteq> NULL" "terminated t" "length (cstring t) < length d"
  shows "strcpy_heap q t s = Inr (s\<lparr>strs := (strs s)\<lparr>cells := (cells (strs s))(q :=
           Some (cstring t @ 0 # drop (Suc (length (cstring t))) d))\<rparr>\<rparr>)"
proof -
  have "strcpy d t = Inr (cstring t @ 0 # drop (Suc (length (cstring t))) d)"
    using assms by (simp add: strcpy_Inr_iff)
  with assms show ?thesis by (simp add: strcpy_heap_def load_def store_def)
qed

lemma rd_string_ok:
  assumes "cells (strs s) q = Some (t @ 0 # r)" "q \<noteq> NULL" "0 \<notin> set t"
  shows "rd_string q s = Inr t"
proof -
  have "terminated (t @ 0 # r)" by (simp add: terminated_def)
  then have "strlen (t @ 0 # r) = Inr (length t)"
    using assms(3) by (simp add: strlen_terminated cstring_append_NUL)
  with assms show ?thesis by (simp add: rd_string_def load_def)
qed

lemma cstring_length_less: "terminated t \<Longrightarrow> length t = n \<Longrightarrow> length (cstring t) < n"
  using cstring_length_le [of t] by simp

lemma pad_length [simp]:
  "length (cstring t) < 36 \<Longrightarrow> length (cstring t @ 0 # drop (Suc (length (cstring t))) (replicate 36 0)) = 36"
  by simp

text \<open>
  The main case: the stream is registered, the count is not negative, and bulk operations succeed.
  The client gets the last \<open>min count n\<close> of the \<open>n\<close> samples, and zeros up to \<open>count\<close>.
\<close>

definition fetch_data :: "u64 \<Rightarrow> aggregator_stream_sample list \<Rightarrow> aggregator_stream_sample list" where
  "fetch_data cnt xs = last_n (unat cnt) xs @ replicate (unat cnt - length xs) zero_sample"

lemma fetch_state_pushed:
  assumes "unat (buffer_index (ST s st)) \<le> alen (sbuf s st)"
  shows "aslice \<lparr>alen = unat cnt, adat = (\<lambda>j. if j < min (unat cnt) (unat (buffer_index (ST s st)))
             then adat (sbuf s st) (unat (buffer_index (ST s st)) - min (unat cnt) (unat (buffer_index (ST s st))) + j)
             else zero_sample)\<rparr> 0 (unat cnt) = fetch_data cnt (samples s st)"
    (is "?l = ?r")
proof (rule nth_equalityI)
  show "length ?l = length ?r" by (simp add: fetch_data_def)
  fix j assume "j < length ?l"
  then have j: "j < unat cnt" by simp
  show "?l ! j = ?r ! j"
    using j by (auto simp: nth_aslice fetch_data_def nth_append last_n_def samples_def)
      (auto simp: aslice_def min_def split: if_splits)
qed

text \<open>How many samples are sent, and from which one on.\<close>

lemma fetch_counts:
  fixes x :: u32 and cnt :: u64
  assumes cnt: "24 * unat cnt < 2 ^ 63"
  defines "n \<equiv> min (unat cnt) (unat x)"
  defines "actual \<equiv> if uint x < sint cnt then ucast x else cnt"
  defines "off \<equiv> if uint x < sint cnt then 0 else uint x - sint actual"
  shows "unat actual = n" "off = int (unat x - n)" "0 \<le> off" "nat off = unat x - n" "unat (24 * actual) = 24 * n"
proof -
  have cs: "sint cnt = int (unat cnt)" using cnt by (intro sint_small) simp
  have ux: "uint x = int (unat x)" by simp
  have lt: "uint x < sint cnt \<longleftrightarrow> unat x < unat cnt" by (simp only: cs ux of_nat_less_iff)
  show an: "unat actual = n"
    by (cases "unat x < unat cnt") (simp_all add: actual_def lt n_def unat_ucast_u64)
  have "off = (if unat x < unat cnt then 0 else int (unat x) - int (unat cnt))"
    unfolding off_def lt actual_def by (simp only: if_False cs ux split: if_split) simp
  then show off: "off = int (unat x - n)" "0 \<le> off" by (auto simp only: n_def of_nat_diff split: if_splits)
  show "nat off = unat x - n" by (simp only: off(1) nat_int)
  show "unat (24 * actual) = 24 * n" using an cnt by (simp add: unat_word_ariths n_def)
qed

text \<open>The two names, copied into fresh arrays of 36 bytes.\<close>

definition pad36 :: "byte list \<Rightarrow> byte list" where
  "pad36 t = cstring t @ 0 # drop (Suc (length (cstring t))) (replicate 36 0)"

definition with_names :: "byte list \<Rightarrow> byte list \<Rightarrow> 'x server \<Rightarrow> 'x server" where
  "with_names t u s = s\<lparr>oom := tl (tl (oom s)), strs := \<lparr>cells = (cells (strs s))(brk (strs s) := Some (pad36 t),
     Suc (brk (strs s)) := Some (pad36 u)), brk = Suc (Suc (brk (strs s)))\<rparr>\<rparr>"

lemma copy_names:
  assumes "alloc_ok (oom s)" "alloc_ok (tl (oom s))" "heap_ok (strs s)"
    and t: "terminated t" "length t = 36" "terminated u" "length u = 36"
  obtains s2 s3 s4 where "malloc36 s = (brk (strs s), s2)" "malloc36 s2 = (Suc (brk (strs s)), s3)" "elems s3 = elems s"
    "strcpy_heap (brk (strs s)) t s3 = Inr s4" "strcpy_heap (Suc (brk (strs s))) u s4 = Inr (with_names t u s)"
proof -
  define q where "q = brk (strs s)"
  define s2 where "s2 = s\<lparr>oom := tl (oom s), strs := \<lparr>cells = (cells (strs s))(q := Some (replicate 36 0)), brk = Suc q\<rparr>\<rparr>"
  define s3 where "s3 = s2\<lparr>oom := tl (tl (oom s)),
     strs := \<lparr>cells = (cells (strs s))(q := Some (replicate 36 0), Suc q := Some (replicate 36 0)), brk = Suc (Suc q)\<rparr>\<rparr>"
  define s4 where "s4 = s3\<lparr>strs := \<lparr>cells = (cells (strs s))(q := Some (pad36 t), Suc q := Some (replicate 36 0)), brk = Suc (Suc q)\<rparr>\<rparr>"
  have q0: "q \<noteq> NULL" using assms(3) by (simp add: heap_ok_def q_def)
  have len: "length (cstring t) < 36" "length (cstring u) < 36" using t by (auto intro: cstring_length_less)
  have "malloc36 s = (q, s2)" "malloc36 s2 = (Suc q, s3)" "elems s3 = elems s"
    using assms(1,2) by (simp_all add: malloc36_def calloc_def s2_def s3_def q_def)
  moreover have "strcpy_heap q t s3 = Inr s4"
    using q0 len t by (subst strcpy_heap_ok [where d = "replicate 36 0"])
      (simp_all add: s3_def s4_def pad36_def fun_upd_twist)
  moreover have "strcpy_heap (Suc q) u s4 = Inr (with_names t u s)"
    using q0 len t by (subst strcpy_heap_ok [where d = "replicate 36 0"])
      (simp_all add: s4_def s3_def s2_def pad36_def with_names_def q_def)
  ultimately show thesis using that unfolding q_def by blast
qed

lemma with_names_read:
  assumes "strs s' = strs (with_names t u s)" "heap_ok (strs s)"
  shows "rd_string (brk (strs s)) s' = Inr (cstring t)" "rd_string (Suc (brk (strs s))) s' = Inr (cstring u)"
  using assms by (auto intro!: rd_string_ok simp: with_names_def pad36_def cstring_no_NUL heap_ok_def)

lemma with_names_heap: "heap_ok (strs s) \<Longrightarrow> heap_ok (strs (with_names t u s))"
  by (auto simp: heap_ok_def with_names_def less_Suc_eq)

lemma fetch_ok:
  assumes inv: "prov_inv s p xs" and reg: "registry s xs (fi_stream_id i) = Some st" and wf: "stream_wf s st"
    and env: "fe_input env = Some i" "fe_bulk_create env = HG_SUCCESS"
    and cnt: "24 * unat (fi_count i) < 2 ^ 63" and ok: "no_oom s"
    and hp: "heap_ok (bufs s)" "heap_ok (strs s)"
  defines "n \<equiv> min (unat (fi_count i)) (unat (buffer_index (ST s st)))"
  defines "out \<equiv> \<lparr>fo_actual_count = of_nat n, fo_name = cstring (sname (ST s st)),
       fo_ns = cstring (sns (ST s st)), fo_ret = ret_code AGGREGATOR_SUCCESS\<rparr>"
  shows "\<exists>s'. aggregator_stream_fetch_ult env p s =
      Inr (if fe_bulk_transfer env = HG_SUCCESS
           then (out, Some (fetch_data (fi_count i) (samples s st)), s')
           else (out\<lparr>fo_ret := ret_code AGGREGATOR_ERR_FROM_MERCURY\<rparr>, None, s')) \<and> fetch_frame s s' \<and> prov_inv s' p xs \<and>
    (mem_ok s \<longrightarrow> mem_ok s')"
proof -
  let ?e = "ST s st" let ?c = "unat (fi_count i)" let ?x = "unat (buffer_index (ST s st))"
  define b where "b = brk (bufs s)"
  have b0: "b \<noteq> NULL" using hp by (simp add: heap_ok_def b_def)
  have bb: "buffer ?e \<noteq> b" "buffer ?e \<noteq> NULL" "cells (bufs s) (buffer ?e) = Some (sbuf s st)"
    using wf heap_ok_live_lt [OF hp(1), of "buffer ?e"]
    by (auto simp: stream_wf_def b_def live_def sbuf_def)
  have ao: "alloc_ok (oom s)" "alloc_ok (tl (oom s))" "alloc_ok (tl (tl (oom s)))"
    using ok by (simp_all add: no_oom_def alloc_ok_set no_oom_tl)
  define s1 where "s1 = s\<lparr>oom := tl (oom s), bufs := \<lparr>cells = (cells (bufs s))(b := Some (azero ?c zero_sample)), brk = Suc b\<rparr>\<rparr>"
  have c1: "calloc_samples (fi_count i) s = (b, s1)"
    using cnt ao by (simp add: calloc_samples_def calloc_def s1_def b_def)
  have "prov_inv s1 p xs" "registry s1 xs = registry s xs"
    using prov_inv_same [of s1 s p xs] inv by (simp_all add: s1_def)
  then have f1: "find_stream p (Id_var (fi_stream_id i)) s1 = Inr st"
    using find_stream_ok [of s1 p xs "Id_var (fi_stream_id i)"] reg by simp
  have st0: "st \<noteq> NULL" and le: "load (elems s) st = Inr ?e"
    using wf stream_wf_load(1) [OF wf] by (auto simp: stream_wf_def live_def)
  have s1: "oom s1 = tl (oom s)" "strs s1 = strs s" "elems s1 = elems s" by (simp_all add: s1_def)
  have tm: "terminated (sname ?e)" "length (sname ?e) = 36" "terminated (sns ?e)" "length (sns ?e) = 36"
    using wf by (simp_all add: stream_wf_def)
  obtain s2 s3 s4 where m: "malloc36 s1 = (brk (strs s), s2)" "malloc36 s2 = (Suc (brk (strs s)), s3)"
    and e3: "elems s3 = elems s" and t4: "strcpy_heap (brk (strs s)) (sname ?e) s3 = Inr s4"
    and t5: "strcpy_heap (Suc (brk (strs s))) (sns ?e) s4 = Inr (with_names (sname ?e) (sns ?e) s1)"
    using copy_names [of s1 "sname ?e" "sns ?e"] ao hp(2) tm unfolding s1 by metis
  define s5 where "s5 = with_names (sname ?e) (sns ?e) s1"
  define actual where "actual = (if uint (buffer_index ?e) < sint (fi_count i) then ucast (buffer_index ?e) else fi_count i)"
  define off where "off = (if uint (buffer_index ?e) < sint (fi_count i) then 0 else uint (buffer_index ?e) - sint actual)"
  note num = fetch_counts [OF cnt, of "buffer_index ?e", folded n_def actual_def, folded off_def]
  have xa: "?x \<le> alen (sbuf s st)" using wf by (simp add: stream_wf_def)
  define D where "D = \<lparr>alen = ?c, adat = (\<lambda>j. if j < n then adat (sbuf s st) (?x - n + j) else zero_sample)\<rparr>"
  define s6 where "s6 = s5\<lparr>bufs := \<lparr>cells = (cells (bufs s))(b := Some D), brk = Suc b\<rparr>\<rparr>"
  have t6: "memcpy_samples b (buffer ?e) off (24 * actual) s5 = Inr s6"
  proof -
    have c: "cells (bufs s5) b = Some (azero ?c zero_sample)" "cells (bufs s5) (buffer ?e) = Some (sbuf s st)"
      using bb by (simp_all add: s5_def with_names_def s1_def)
    have n: "n \<le> alen (azero ?c zero_sample)" "nat off + n \<le> alen (sbuf s st)"
      using xa by (simp_all add: num(4) n_def azero_def)
    have Deq: "(azero ?c zero_sample)\<lparr>adat := (\<lambda>j. if j < n then adat (sbuf s st) (nat off + j)
        else adat (azero ?c zero_sample) j)\<rparr> = D"
      unfolding D_def num(4) by (simp add: azero_def cong: if_cong)
    show ?thesis
      unfolding memcpy_samples_ok [OF c(1) b0 c(2) bb(2) num(5) n(1) num(3) n(2)] Deq
      by (simp add: s6_def s5_def with_names_def s1_def)
  qed
  define s7 where "s7 = s6\<lparr>bufs := \<lparr>cells = (cells (bufs s))(b := None), brk = Suc b\<rparr>\<rparr>"
  have d7: "dealloc (bufs s6) b = Inr (bufs s7)" "s6\<lparr>bufs := bufs s7\<rparr> = s7"
    using b0 by (simp_all add: dealloc_def s6_def s7_def)
  have rs: "rd_string (brk (strs s)) s7 = Inr (cstring (sname ?e))" "rd_string (Suc (brk (strs s))) s7 = Inr (cstring (sns ?e))"
    using with_names_read [of s7 "sname ?e" "sns ?e" s1] hp(2) by (simp_all add: s1 s7_def s6_def s5_def)
  have fin: "fetch_finish (Some b) True \<lparr>l_count = Some actual, l_name = Some (brk (strs s)), l_ns = Some (Suc (brk (strs s))), l_ret = r\<rparr> pushed s6 =
      Inr (out\<lparr>fo_ret := r\<rparr>, pushed, s7)" for r pushed
    using d7 rs num(1) by (simp add: fetch_finish_def fetch_respond_def rd_local_def out_def Let_def flip: num(1))
  have pu: "aslice D 0 ?c = fetch_data (fi_count i) (samples s st)"
    unfolding D_def n_def by (rule fetch_state_pushed [OF xa])
  have lp: "load (provs s6) p = Inr (PR s p)"
    using inv by (simp add: prov_inv_def s6_def s5_def with_names_def s1_def view_run)
  have cb: "cells (bufs s6) b = Some D" by (simp add: s6_def)
  have run: "aggregator_stream_fetch_ult env p s =
      Inr (if fe_bulk_transfer env = HG_SUCCESS
           then (out, Some (fetch_data (fi_count i) (samples s st)), s7)
           else (out\<lparr>fo_ret := ret_code AGGREGATOR_ERR_FROM_MERCURY\<rparr>, None, s7))"
    unfolding aggregator_stream_fetch_ult_def Let_def env option.case c1 prod.case f1 rbind_Inr
      if_not_P [OF st0] m e3 le t4 t5 [folded s5_def] actual_def [symmetric] off_def [symmetric] t6 lp cb
    by (simp add: fin pu) (simp add: out_def)
  have bufs7: "bufs s7 = \<lparr>cells = cells (bufs s), brk = Suc b\<rparr>"
    using heap_ok_fresh [OF hp(1)] by (simp add: s7_def b_def fun_upd_idem)
  then have fr: "fetch_frame s s7"
    by (simp add: fetch_frame_def s7_def s6_def s5_def with_names_def s1_def)
  moreover from this have "prov_inv s7 p xs"
    using prov_inv_same(1) [of s7 s p xs] inv by (simp add: fetch_frame_def)
  moreover have "mem_ok s7" if ms: "mem_ok s"
  proof -
    have "heap_ok (bufs s7)" unfolding bufs7 using hp(1) by (auto simp: heap_ok_def b_def)
    moreover have "heap_ok (strs s7)" using with_names_heap [of s1] hp(2) by (simp add: s1 s7_def s6_def s5_def)
    moreover have "no_oom s7" using ok by (simp add: s7_def s6_def s5_def with_names_def s1_def no_oom_def no_oom_tl)
    ultimately show ?thesis
      using ms by (simp add: mem_ok_def) (simp add: s7_def s6_def s5_def with_names_def s1_def)
  qed
  ultimately show ?thesis using run by blast
qed

section \<open>Where a fetch goes wrong\<close>

lemma calloc_samples_spec:
  assumes "heap_ok (bufs s)"
  shows "\<exists>b s1. calloc_samples n s = (b, s1) \<and> elems s1 = elems s \<and> tbls s1 = tbls s \<and> bkts s1 = bkts s \<and>
    provs s1 = provs s \<and> strs s1 = strs s \<and> (b = NULL \<or> live (bufs s1) b)"
  using assms by (auto simp: calloc_samples_def calloc_def live_def heap_ok_def)

lemma fetch_finish_uninit:
  assumes "b = NULL \<or> live (bufs s) b" "l_count out = None"
  shows "fetch_finish (Some b) bulk out pushed s = Inl Uninit"
  using assms dealloc_def [of "bufs s" NULL]
  by (auto simp: fetch_finish_def rd_local_def dealloc_live fetch_respond_def Let_def)

text \<open>The input cannot be decoded: \<open>finish\<close> frees a buffer that was never assigned.\<close>

lemma fetch_bad_input:
  assumes "fe_input env = None" "live (provs s) p"
  shows "aggregator_stream_fetch_ult env p s = Inl Uninit"
  using assms by (simp add: aggregator_stream_fetch_ult_def view_run fetch_finish_def rd_local_def)

text \<open>No bulk handle, or no such stream: the response is sent with its count and strings unset.\<close>

lemma fetch_no_bulk:
  assumes "fe_input env = Some i" "fe_bulk_create env \<noteq> HG_SUCCESS" "live (provs s) p" "heap_ok (bufs s)"
  shows "aggregator_stream_fetch_ult env p s = Inl Uninit"
proof -
  from calloc_samples_spec [OF assms(4), of "fi_count i"] obtain b s1 where
    "calloc_samples (fi_count i) s = (b, s1)" "provs s1 = provs s" "b = NULL \<or> live (bufs s1) b" by blast
  with assms show ?thesis
    by (simp add: aggregator_stream_fetch_ult_def view_run fetch_finish_uninit)
qed

lemma fetch_unknown:
  assumes inv: "prov_inv s p xs" and reg: "registry s xs (fi_stream_id i) = None" and hp: "heap_ok (bufs s)"
    and env: "fe_input env = Some i" "fe_bulk_create env = HG_SUCCESS"
  shows "aggregator_stream_fetch_ult env p s = Inl Uninit"
proof -
  from calloc_samples_spec [OF hp, of "fi_count i"] obtain b s1 where
    c: "calloc_samples (fi_count i) s = (b, s1)" "elems s1 = elems s" "tbls s1 = tbls s" "bkts s1 = bkts s"
      "provs s1 = provs s" "b = NULL \<or> live (bufs s1) b" by blast
  then have "prov_inv s1 p xs" "registry s1 xs = registry s xs"
    using prov_inv_same [of s1 s p xs] inv by simp_all
  then have "find_stream p (Id_var (fi_stream_id i)) s1 = Inr NULL"
    using find_stream_ok [of s1 p xs "Id_var (fi_stream_id i)"] reg by simp
  with c env show ?thesis by (simp add: aggregator_stream_fetch_ult_def fetch_finish_uninit)
qed

text \<open>A negative count: the copy goes to the null pointer that \<open>calloc\<close> has returned.\<close>

lemma fetch_negative:
  assumes inv: "prov_inv s p xs" and reg: "registry s xs (fi_stream_id i) = Some st" and wf: "stream_wf s st"
    and env: "fe_input env = Some i" "fe_bulk_create env = HG_SUCCESS"
    and cnt: "sint (fi_count i) < 0" "24 * fi_count i \<noteq> 0" and ok: "no_oom s" and hp: "heap_ok (strs s)"
  shows "aggregator_stream_fetch_ult env p s = Inl NullDeref"
proof -
  let ?e = "ST s st"
  define q where "q = brk (strs s)"
  have q0: "q \<noteq> NULL" using hp by (simp add: heap_ok_def q_def)
  have ao: "alloc_ok (oom s)" "alloc_ok (tl (oom s))"
    using ok by (simp_all add: no_oom_def alloc_ok_set no_oom_tl)
  have "\<not> 24 * unat (fi_count i) < 2 ^ 63" using sint_neg_large [OF cnt(1)] by simp
  then have c1: "calloc_samples (fi_count i) s = (NULL, s)" by (simp add: calloc_samples_def)
  have f1: "find_stream p (Id_var (fi_stream_id i)) s = Inr st"
    using find_stream_ok [OF inv, of "Id_var (fi_stream_id i)"] reg by simp
  have st0: "st \<noteq> NULL" and le: "load (elems s) st = Inr ?e"
    using wf stream_wf_load(1) [OF wf] by (auto simp: stream_wf_def live_def)
  define s2 where "s2 = s\<lparr>oom := tl (oom s), strs := \<lparr>cells = (cells (strs s))(q := Some (replicate 36 0)), brk = Suc q\<rparr>\<rparr>"
  define s3 where "s3 = s2\<lparr>oom := tl (tl (oom s)),
     strs := \<lparr>cells = (cells (strs s))(q := Some (replicate 36 0), Suc q := Some (replicate 36 0)), brk = Suc (Suc q)\<rparr>\<rparr>"
  have m: "malloc36 s = (q, s2)" "malloc36 s2 = (Suc q, s3)"
    using ao by (simp_all add: malloc36_def calloc_def s2_def s3_def q_def)
  have tm: "terminated (sname ?e)" "terminated (sns ?e)"
    and len: "length (cstring (sname ?e)) < 36" "length (cstring (sns ?e)) < 36"
    using wf by (auto simp: stream_wf_def intro: cstring_length_less)
  obtain s4 where t4: "strcpy_heap q (sname ?e) s3 = Inr s4" and s4: "cells (strs s4) (Suc q) = Some (replicate 36 0)"
    using strcpy_heap_ok [of s3 q "replicate 36 0" "sname ?e"] q0 tm len by (auto simp: s3_def)
  obtain s5 where t5: "strcpy_heap (Suc q) (sns ?e) s4 = Inr s5"
    using strcpy_heap_ok [of s4 "Suc q" "replicate 36 0" "sns ?e"] q0 tm len s4 by auto
  have "0 \<le> uint (buffer_index ?e)" by simp
  then have ge: "\<not> uint (buffer_index ?e) < sint (fi_count i)" using cnt(1) by linarith
  have le3: "load (elems s3) st = Inr ?e" using le by (simp add: s3_def s2_def)
  have "unat (24 * fi_count i) \<noteq> 0" using cnt(2) by (simp add: unat_eq_0)
  then have "memcpy_samples NULL (buffer ?e) off (24 * fi_count i) s5 = Inl NullDeref" for off
    by (simp add: memcpy_samples_def)
  then show ?thesis
    unfolding aggregator_stream_fetch_ult_def Let_def env option.case c1 prod.case f1 rbind_Inr
      if_not_P [OF st0] m le3 t4 t5 if_not_P [OF ge]
    by simp
qed

section \<open>What a listing returns\<close>

lemma NX_idarrs [simp]: "NX (s\<lparr>idarrs := h\<rparr>) = NX s" "SID (s\<lparr>idarrs := h\<rparr>) = SID s"
  by (simp_all add: NX_def HH_def SID_def fun_eq_iff)

lemma hash_next_live: "r = NULL \<or> live (elems s) r \<Longrightarrow> hash_next r s = Inr (if r = NULL then NULL else NX s r)"
  by (auto simp: hash_next_def view_run view_simps)

lemma list_fill_ok:
  assumes "path (NX s) r ys NULL" "\<And>y. y \<in> set ys \<Longrightarrow> live (elems s) y" "length ys < n"
    "tmp = (if r = NULL then NULL else NX s r)" "cells (idarrs s) a = Some A" "a \<noteq> NULL"
    "unat i + length ys \<le> alen A" "alen A < 2 ^ 32"
  shows "\<exists>A'. list_fill n r tmp i a s = Inr (s\<lparr>idarrs := (idarrs s)\<lparr>cells := (cells (idarrs s))(a := Some A')\<rparr>\<rparr>) \<and>
    alen A' = alen A \<and>
    (\<forall>j. adat A' j = (if unat i \<le> j \<and> j < unat i + length ys then SID s (ys ! (j - unat i)) else adat A j))"
  using assms
proof (induction ys arbitrary: r tmp n i A s)
  case Nil
  then obtain m where n: "n = Suc m" by (cases n) auto
  from Nil have "r = NULL" by simp
  moreover have "(cells (idarrs s))(a := Some A) = cells (idarrs s)" using Nil by (simp add: fun_upd_idem)
  ultimately show ?case by (intro exI [of _ A]) (auto simp: n)
next
  case (Cons y ys)
  then obtain m where n: "n = Suc m" "length ys < m" by (cases n) auto
  from Cons.prems have r: "r = y" "y \<noteq> NULL" and rest: "path (NX s) (NX s y) ys NULL"
    and ly: "live (elems s) y" by auto
  define A1 where "A1 = A\<lparr>adat := (adat A)(unat i := SID s y)\<rparr>"
  define s1 where "s1 = s\<lparr>idarrs := (idarrs s)\<lparr>cells := (cells (idarrs s))(a := Some A1)\<rparr>\<rparr>"
  have tl: "NX s y = NULL \<or> live (elems s1) (NX s y)"
    using rest Cons.prems(2) by (cases ys) (auto simp: s1_def)
  have i1: "unat (i + 1) = Suc (unat i)"
    using Cons.prems(7,8) by (simp add: unat_word_ariths)
  have n1: "NX s1 = NX s" "SID s1 = SID s" "elems s1 = elems s" "cells (idarrs s1) a = Some A1" by (simp_all add: s1_def)
  have "\<exists>A'. list_fill m (NX s y) (if NX s y = NULL then NULL else NX s (NX s y)) (i + 1) a s1 =
      Inr (s1\<lparr>idarrs := (idarrs s1)\<lparr>cells := (cells (idarrs s1))(a := Some A')\<rparr>\<rparr>) \<and> alen A' = alen A1 \<and>
      (\<forall>j. adat A' j = (if unat (i + 1) \<le> j \<and> j < unat (i + 1) + length ys then SID s1 (ys ! (j - unat (i + 1))) else adat A1 j))"
    using Cons.prems rest n(2) n1 i1 by (intro Cons.IH) (auto simp: A1_def)
  then obtain A' where A': "list_fill m (NX s y) (if NX s y = NULL then NULL else NX s (NX s y)) (i + 1) a s1 =
      Inr (s1\<lparr>idarrs := (idarrs s1)\<lparr>cells := (cells (idarrs s1))(a := Some A')\<rparr>\<rparr>)" "alen A' = alen A"
      "\<And>j. adat A' j = (if Suc (unat i) \<le> j \<and> j < Suc (unat i) + length ys then SID s (ys ! (j - Suc (unat i))) else adat A1 j)"
    by (auto simp: i1 n1 A1_def)
  have "list_fill n r tmp i a s = Inr (s\<lparr>idarrs := (idarrs s)\<lparr>cells := (cells (idarrs s))(a := Some A')\<rparr>\<rparr>)"
  proof -
    have "aset A (unat i) (sid (ST s y)) = Inr A1"
      using Cons.prems(7) by (simp add: aset_def A1_def SID_ST)
    moreover have "store (idarrs s) a A1 = Inr (idarrs s1)"
      using Cons.prems(5,6) by (simp add: store_def load_def s1_def)
    moreover have "s\<lparr>idarrs := idarrs s1\<rparr> = s1" by (simp add: s1_def)
    moreover have "hash_next (NX s y) s1 = Inr (if NX s y = NULL then NULL else NX s (NX s y))"
      using hash_next_live [OF tl] n1 by simp
    ultimately show ?thesis
      using r Cons.prems(4,5,6) A'(1) ly by (simp add: n load_stream_live load_def [of "idarrs s"] Let_def) (simp add: s1_def)
  qed
  moreover have "adat A' j = (if unat i \<le> j \<and> j < unat i + length (y # ys) then SID s ((y # ys) ! (j - unat i)) else adat A j)" for j
    unfolding A'(3) by (auto simp: A1_def nth_Cons' le_Suc_eq not_less_eq_eq)
  ultimately show ?case using A'(2) by blast
qed


lemma prov_path:
  assumes "prov_inv s p xs"
  shows "path (NX s) (streams (PR s p)) xs NULL"
proof (cases "xs = []")
  case False
  then show ?thesis using assms by (auto simp: prov_inv_def ut_inv_def table_ok_def dll_def)
qed (use assms in \<open>auto simp: prov_inv_def\<close>)

lemma unat_min_u64: "unat (if (a :: u64) < b then a else b) = min (unat a) (unat b)"
  by (auto simp: word_less_nat_alt)

lemma list_ok:
  assumes inv: "prov_inv s p xs" and ok: "no_oom s" and hp: "heap_ok (idarrs s)"
  shows "aggregator_list_streams_ult (Some mx) p s =
    Inr (\<lparr>lr_ret = ret_code AGGREGATOR_SUCCESS, lr_count = of_nat (min (length xs) (unat mx)),
           lr_ids = Some (take (unat mx) (map (SID s) xs))\<rparr>,
         s\<lparr>oom := tl (oom s), idarrs := (idarrs s)\<lparr>brk := Suc (brk (idarrs s))\<rparr>\<rparr>)"
proof -
  let ?P = "PR s p" let ?n = "length xs"
  define a where "a = brk (idarrs s)"
  define cnt where "cnt = (if num_streams ?P < mx then num_streams ?P else mx)"
  have a0: "a \<noteq> NULL" using hp by (simp add: heap_ok_def a_def)
  have lp: "live (provs s) p" using inv by (simp add: prov_inv_def)
  have n: "unat (num_streams ?P) = ?n" "?n < 2 ^ 32"
    using num_streams_length [OF inv] prov_inv_length [OF inv] by simp_all
  have cnt: "unat cnt = min ?n (unat mx)" using n(1) by (simp only: cnt_def unat_min_u64)
  then have cnt': "cnt = of_nat (min ?n (unat mx))" by (simp flip: cnt)
  define s1 where "s1 = s\<lparr>oom := tl (oom s), idarrs := \<lparr>cells = (cells (idarrs s))(a := Some (azero ?n 0)), brk = Suc a\<rparr>\<rparr>"
  have c1: "calloc (azero ?n 0) (oom s) (idarrs s) = (a, tl (oom s), idarrs s1)"
    using no_oom_alloc_ok [OF ok] by (simp add: calloc_def s1_def a_def)
  have f1: "s\<lparr>oom := tl (oom s), idarrs := idarrs s1\<rparr> = s1" by (simp add: s1_def)
  have v1: "elems s1 = elems s" "NX s1 = NX s" "SID s1 = SID s" "fuel s1 = fuel s"
    by (simp_all add: s1_def NX_def HH_def SID_def fuel_def fun_eq_iff)
  have path: "path (NX s1) (streams ?P) xs NULL" using prov_path [OF inv] v1 by simp
  have head: "streams ?P = NULL \<or> live (elems s1) (streams ?P)"
    using path prov_inv_live [OF inv] v1 by (cases xs) auto
  have "?n < fuel s"
  proof (rule live_length_fuel)
    show "ut_mem_ok s" "distinct xs"
      using inv ut.members_distinct ut_inv_mem_ok by (auto simp: prov_inv_def)
  qed (rule prov_inv_live [OF inv])
  then have "\<exists>A'. list_fill (fuel s1) (streams ?P) (if streams ?P = NULL then NULL else NX s1 (streams ?P)) 0 a s1 =
      Inr (s1\<lparr>idarrs := (idarrs s1)\<lparr>cells := (cells (idarrs s1))(a := Some A')\<rparr>\<rparr>) \<and> alen A' = alen (azero ?n (0 :: u32)) \<and>
      (\<forall>j. adat A' j = (if unat (0 :: u32) \<le> j \<and> j < unat (0 :: u32) + ?n then SID s1 (xs ! (j - unat (0 :: u32))) else adat (azero ?n 0) j))"
    using prov_inv_live [OF inv] v1 a0 n path by (intro list_fill_ok) (auto simp: s1_def azero_def)
  then obtain A' where fill: "list_fill (fuel s1) (streams ?P) (if streams ?P = NULL then NULL else NX s1 (streams ?P)) 0 a s1 =
      Inr (s1\<lparr>idarrs := (idarrs s1)\<lparr>cells := (cells (idarrs s1))(a := Some A')\<rparr>\<rparr>)"
    and A': "alen A' = ?n" "\<And>j. j < ?n \<Longrightarrow> adat A' j = SID s (xs ! j)"
    using v1 by (auto simp: azero_def)
  define s2 where "s2 = s1\<lparr>idarrs := (idarrs s1)\<lparr>cells := (cells (idarrs s1))(a := Some A')\<rparr>\<rparr>"
  have u4: "unat (4 * cnt) = 4 * unat cnt" using cnt n(2) by (intro unat_mult4) simp
  have "aslice A' 0 (unat cnt) = take (unat mx) (map (SID s) xs)"
    using A' cnt by (auto simp: nth_aslice intro!: nth_equalityI)
  then have resp: "list_respond r (Some cnt) a s2 = Inr \<lparr>lr_ret = r, lr_count = cnt, lr_ids = Some (take (unat mx) (map (SID s) xs))\<rparr>" for r
    using a0 A'(1) u4 cnt by (simp add: list_respond_def rd_local_def s2_def load_def)
  have d: "dealloc (idarrs s2) a = Inr ((idarrs s)\<lparr>brk := Suc (brk (idarrs s))\<rparr>)"
  proof -
    have "(cells (idarrs s))(a := None) = cells (idarrs s)"
      using heap_ok_fresh [OF hp] by (simp add: a_def fun_upd_idem)
    then show ?thesis using a0 by (simp add: dealloc_def s2_def s1_def a_def)
  qed
  have f3: "s2\<lparr>idarrs := h\<rparr> = s\<lparr>oom := tl (oom s), idarrs := h\<rparr>" for h by (simp add: s2_def s1_def)
  show ?thesis
    unfolding aggregator_list_streams_ult_def option.case load_prov_live [OF lp] rbind_Inr n(1) c1 Let_def prod.case f1
      hash_next_live [OF head] cnt_def [symmetric] fill s2_def [symmetric] resp d f3
    by (simp only: cnt' rbind_Inr)
qed

text \<open>A listing whose input cannot be decoded answers with a count that was never set.\<close>

lemma list_bad_input: "aggregator_list_streams_ult None p s = Inl Uninit"
  by (simp add: aggregator_list_streams_ult_def list_respond_def rd_local_def)

section \<open>Registration and destruction\<close>

lemma register_not_listening:
  "\<not> re_listening env \<Longrightarrow> aggregator_provider_register env mid pid args s = Inr (AGGREGATOR_ERR_INVALID_ARGS, NULL, s)"
  by (simp add: aggregator_provider_register_def)

lemma register_twice:
  "re_listening env \<Longrightarrow> re_registered env \<Longrightarrow>
   aggregator_provider_register env mid pid args s = Inr (AGGREGATOR_ERR_INVALID_PROVIDER, NULL, s)"
  by (simp add: aggregator_provider_register_def)

definition register_calls :: "register_env \<Rightarrow> addr \<Rightarrow> u16 \<Rightarrow> aggregator_provider_args \<Rightarrow> margo_call list" where
  "register_calls env p pid a =
     [MARGO_REGISTER_PROVIDER (re_fetch_id env) pid (a_pool a), margo_register_data (re_fetch_id env) p,
      MARGO_REGISTER_PROVIDER (re_list_id env) pid (a_pool a), margo_register_data (re_list_id env) p] @
     (if a_push_finalize_callback a \<noteq> 0 then [margo_provider_push_finalize_callback p] else [])"

lemma margo_views [srv_simps]:
  "elems (margo c s) = elems s" "tbls (margo c s) = tbls s" "bkts (margo c s) = bkts s" "oom (margo c s) = oom s"
  "bufs (margo c s) = bufs s" "provs (margo c s) = provs s" "tagls (margo c s) = tagls s" "ptrs (margo c s) = ptrs s"
  "strs (margo c s) = strs s" "idarrs (margo c s) = idarrs s" "abt (margo c s) = abt s"
  "calls (margo c s) = calls s @ [c]" "PR (margo c s) = PR s" "ST (margo c s) = ST s"
  by (simp_all add: margo_def PR_def ST_def fun_eq_iff)

lemma register_ok:
  fixes args :: "aggregator_provider_args option"
  assumes env: "re_listening env" "\<not> re_registered env" and ok: "alloc_ok (oom s)"
    and mem: "ut_mem_ok s" "heap_ok (provs s)"
  defines "a \<equiv> (case args of None \<Rightarrow> AGGREGATOR_PROVIDER_ARGS_INIT | Some a \<Rightarrow> a)"
  shows "\<exists>p s'. aggregator_provider_register env mid pid args s = Inr (AGGREGATOR_SUCCESS, p, s') \<and>
    prov_inv s' p [] \<and> p = brk (provs s) \<and> (mem_ok s \<longrightarrow> mem_ok s') \<and> abt s' = abt s \<and> calls s' = calls s @ register_calls env p pid a \<and>
    PR s' p = \<lparr>pmid = mid, provider_id = pid, pool = a_pool a, abtio = a_abtio a, num_streams = 0,
       streams = NULL, list_streams_id = re_list_id env, stream_fetch_id = re_fetch_id env\<rparr>"
proof -
  define p where "p = brk (provs s)"
  have p0: "p \<noteq> NULL" using mem by (simp add: heap_ok_def p_def)
  define s1 where "s1 = s\<lparr>oom := tl (oom s), provs := \<lparr>cells = (cells (provs s))(p := Some zero_provider), brk = Suc p\<rparr>\<rparr>"
  have c1: "calloc zero_provider (oom s) (provs s) = (p, tl (oom s), provs s1)"
    using ok by (simp add: calloc_def s1_def p_def)
  have f1: "s\<lparr>oom := tl (oom s), provs := provs s1\<rparr> = s1" by (simp add: s1_def)
  have l1: "live (provs s1) p" "PR s1 p = zero_provider" using p0 by (simp_all add: s1_def live_def PR_def)
  define P2 where "P2 = zero_provider\<lparr>pmid := mid, provider_id := pid, pool := a_pool a, abtio := a_abtio a\<rparr>"
  define s2 where "s2 = margo (margo_register_data (re_fetch_id env) p) (margo (MARGO_REGISTER_PROVIDER (re_fetch_id env) pid (a_pool a)) (put_prov p P2 s1))"
  have l2: "live (provs s2) p" "PR s2 p = P2" using l1 by (simp_all add: s2_def srv_simps)
  define P3 where "P3 = P2\<lparr>stream_fetch_id := re_fetch_id env\<rparr>"
  define s3 where "s3 = margo (margo_register_data (re_list_id env) p) (margo (MARGO_REGISTER_PROVIDER (re_list_id env) pid (a_pool a)) (put_prov p P3 s2))"
  have l3: "live (provs s3) p" "PR s3 p = P3" using l2 by (simp_all add: s3_def srv_simps)
  define P4 where "P4 = P3\<lparr>list_streams_id := re_list_id env\<rparr>"
  define s4 where "s4 = put_prov p P4 s3"
  define s5 where "s5 = (if a_push_finalize_callback a \<noteq> 0 then margo (margo_provider_push_finalize_callback p) s4 else s4)"
  have run: "aggregator_provider_register env mid pid args s = Inr (AGGREGATOR_SUCCESS, p, s5)"
    using env p0 l1 l2 l3
    by (simp add: aggregator_provider_register_def a_def [symmetric] c1 f1 view_run P2_def [symmetric] s2_def [symmetric]
        P3_def [symmetric] s3_def [symmetric] P4_def [symmetric] s4_def [symmetric] s5_def Let_def)
  have "PR s5 p = P4" "live (provs s5) p" using l3 by (simp_all add: s5_def s4_def srv_simps)
  moreover have "heap_ok (provs s5)"
    using mem(2) by (auto simp: s5_def s4_def s3_def s2_def s1_def put_prov_def margo_def heap_ok_def p_def less_Suc_eq)
  moreover have "ut_mem_ok s5"
    using mem(1) by (simp add: ut_mem_ok_def s5_def s4_def s3_def s2_def s1_def srv_simps)
  moreover have "calls s5 = calls s @ register_calls env p pid a"
    by (simp add: s5_def s4_def s3_def s2_def s1_def srv_simps register_calls_def)
  moreover have "mem_ok s \<longrightarrow> mem_ok s5" "abt s5 = abt s"
    by (simp_all add: mem_ok_def no_oom_def s5_def s4_def s3_def s2_def srv_simps) (simp_all add: s1_def no_oom_tl)
  ultimately show ?thesis
    using run by (auto simp: prov_inv_def P4_def P3_def P2_def zero_provider_def p_def)
qed

text \<open>
  Finalizing a provider deregisters both RPCs, frees every registered stream and the provider. Its
  last statement then reads the provider it has freed, and destroying a provider ends there.
\<close>

lemma finalize_body_ok:
  assumes inv: "prov_inv s p xs"
  shows "\<exists>s'. finalize_body p s = Inr s' \<and> \<not> live (provs s') p \<and>
    calls s' = calls s @ [margo_deregister (stream_fetch_id (PR s p)), margo_deregister (list_streams_id (PR s p))] \<and>
    (\<forall>q. live (elems s') q \<longleftrightarrow> live (elems s) q \<and> q \<notin> set xs) \<and>
    cells (bufs s') = cells (bufs s) \<and> abt s' = abt s"
proof -
  have lp: "live (provs s) p" using inv by (simp add: prov_inv_def)
  define s2 where "s2 = margo (margo_deregister (list_streams_id (PR s p))) (margo (margo_deregister (stream_fetch_id (PR s p))) s)"
  have "prov_inv s2 p xs" using prov_inv_same(1) [of s2 s p xs] inv by (simp add: s2_def srv_simps)
  from remove_all_streams_ok [OF this] obtain s3 where s3: "remove_all_streams p s2 = Inr s3" "prov_inv s3 p []"
    "prov_frame p s2 s3" "\<forall>q. live (elems s3) q \<longleftrightarrow> live (elems s2) q \<and> q \<notin> set xs" by blast
  have l3: "live (provs s3) p" using s3(2) by (simp add: prov_inv_def)
  have "finalize_body p s = Inr (s3\<lparr>provs := (provs s3)\<lparr>cells := (cells (provs s3))(p := None)\<rparr>\<rparr>)"
    using lp l3 s3(1) by (simp add: finalize_body_def view_run srv_simps s2_def Let_def dealloc_live)
  then show ?thesis
    using s3(3,4) by (auto simp: prov_frame_def s2_def srv_simps live_def)
qed

lemma finalize_faults:
  assumes "prov_inv s p xs"
  shows "aggregator_finalize_provider p s = Inl Dangling"
proof -
  obtain s' where s': "finalize_body p s = Inr s'" "\<not> live (provs s') p"
    using finalize_body_ok [OF assms] by blast
  have "p \<noteq> NULL" using assms by (simp add: prov_inv_def live_def)
  with s'(2) have "load (provs s') p = Inl Dangling" by (auto simp: live_def intro: load_dead)
  with s'(1) show ?thesis by (simp add: aggregator_finalize_provider_def)
qed

lemma destroy_faults:
  assumes inv: "prov_inv s p xs"
  shows "aggregator_provider_destroy p s = Inl Dangling"
proof -
  have lp: "live (provs s) p" using inv by (simp add: prov_inv_def)
  define s1 where "s1 = margo (margo_provider_pop_finalize_callback p) s"
  have "prov_inv s1 p xs" using prov_inv_same(1) [of s1 s p xs] inv by (simp add: s1_def srv_simps)
  from finalize_faults [OF this] lp show ?thesis
    by (simp add: aggregator_provider_destroy_def view_run s1_def [symmetric] Let_def)
qed

end
