(* ===== verification/Taglist.thy ===== *)
theory Taglist
  imports Provider_Rpc
begin

text \<open>
  Tag lists (\<open>aggregator_taglist_create\<close> and \<open>aggregator_taglist_destroy\<close> of \<open>src/client.c\<close>). The
  variable arguments are the list \<open>va\<close>; reading past it is the fault \<open>OutOfBounds\<close>. Every tag gets
  288 bytes, \<open>36 * sizeof(char*)\<close>.
\<close>

section \<open>Operations\<close>

definition malloc_tag :: "'x server \<Rightarrow> addr \<times> 'x server" where
  "malloc_tag s = (let (q, sch, h) = calloc (replicate (36 * 8) 0) (oom s) (strs s) in (q, s\<lparr>oom := sch, strs := h\<rparr>))"

text \<open>
  \<open>malloc(num_tags * sizeof(char*))\<close>: the \<open>int\<close> is converted to \<open>size_t\<close>, so that a negative number
  asks for more than \<open>PTRDIFF_MAX\<close> bytes, which the allocator refuses.
\<close>

definition malloc_ptrs :: "int \<Rightarrow> 'x server \<Rightarrow> addr \<times> 'x server" where
  "malloc_ptrs n s =
     (if n < 0 then (NULL, s)
      else let (a, sch, h) = calloc (azero (nat n) NULL) (oom s) (ptrs s) in (a, s\<lparr>oom := sch, ptrs := h\<rparr>))"

text \<open>The loops of both functions: \<open>k\<close> iterations remain, \<open>i\<close> is the next index.\<close>

fun taglist_fill :: "nat \<Rightarrow> nat \<Rightarrow> byte list list \<Rightarrow> addr \<Rightarrow> 'x server \<Rightarrow> 'x server res" where
  "taglist_fill 0 i va tgl s = Inr s"
| "taglist_fill (Suc k) i va tgl s =
     (let (q, s) = malloc_tag s in
      rbind (load (tagls s) tgl) (\<lambda>T.
      rbind (load (ptrs s) (taglist T)) (\<lambda>arr.
      rbind (aset arr i q) (\<lambda>arr.
      rbind (store (ptrs s) (taglist T) arr) (\<lambda>h. let s = s\<lparr>ptrs := h\<rparr> in
      if i < length va then
        rbind (strcpy_heap q (va ! i) s) (\<lambda>s. taglist_fill k (Suc i) va tgl s)
      else Inl OutOfBounds)))))"

definition aggregator_taglist_create :: "int \<Rightarrow> byte list list \<Rightarrow> 'x server \<Rightarrow>
    (aggregator_return_t \<times> addr \<times> 'x server) res" where
  "aggregator_taglist_create n va s =
     (let (tgl, sch, h) = calloc \<lparr>taglist = NULL, num_tags = 0\<rparr> (oom s) (tagls s); s = s\<lparr>oom := sch, tagls := h\<rparr>;
          (a, s) = malloc_ptrs n s in
      rbind (load (tagls s) tgl) (\<lambda>T.
      rbind (store (tagls s) tgl (T\<lparr>taglist := a, num_tags := n\<rparr>)) (\<lambda>h. let s = s\<lparr>tagls := h\<rparr> in
      rbind (taglist_fill (nat n) 0 va tgl s) (\<lambda>s. Inr (AGGREGATOR_SUCCESS, tgl, s)))))"

fun taglist_free :: "nat \<Rightarrow> nat \<Rightarrow> addr \<Rightarrow> 'x server \<Rightarrow> 'x server res" where
  "taglist_free 0 i tgl s = Inr s"
| "taglist_free (Suc k) i tgl s =
     rbind (load (tagls s) tgl) (\<lambda>T.
     rbind (load (ptrs s) (taglist T)) (\<lambda>arr.
     rbind (aget arr i) (\<lambda>q.
     rbind (dealloc (strs s) q) (\<lambda>h.
     taglist_free k (Suc i) tgl (s\<lparr>strs := h\<rparr>)))))"

definition aggregator_taglist_destroy :: "addr \<Rightarrow> 'x server \<Rightarrow> (aggregator_return_t \<times> 'x server) res" where
  "aggregator_taglist_destroy tgl s =
     rbind (load (tagls s) tgl) (\<lambda>T.
     rbind (taglist_free (nat (num_tags T)) 0 tgl s) (\<lambda>s.
     rbind (dealloc (ptrs s) (taglist T)) (\<lambda>h. let s = s\<lparr>ptrs := h\<rparr> in
     rbind (dealloc (tagls s) tgl) (\<lambda>h.
     Inr (AGGREGATOR_SUCCESS, s\<lparr>tagls := h\<rparr>)))))"

section \<open>What they do\<close>

definition tag_text :: "byte list \<Rightarrow> byte list" where
  "tag_text t = cstring t @ 0 # drop (Suc (length (cstring t))) (replicate (36 * 8) 0)"

lemma tag_text_terminated [simp]: "terminated (tag_text t)" and tag_text_cstring [simp]: "cstring (tag_text t) = cstring t"
  by (simp_all add: tag_text_def terminated_def cstring_append_NUL cstring_no_NUL)

text \<open>\<open>tags_at s tgl b va\<close>: \<open>tgl\<close> lists the texts \<open>va\<close>, which lie at \<open>b\<close>, \<open>b + 1\<close>, \dots\<close>

definition tags_at :: "'x server \<Rightarrow> addr \<Rightarrow> addr \<Rightarrow> byte list list \<Rightarrow> bool" where
  "tags_at s tgl b va \<longleftrightarrow> b \<noteq> NULL \<and> (\<exists>a arr. live (tagls s) tgl \<and> a \<noteq> NULL \<and>
     cells (tagls s) tgl = Some \<lparr>taglist = a, num_tags = int (length va)\<rparr> \<and>
     cells (ptrs s) a = Some arr \<and> alen arr = length va \<and>
     (\<forall>j < length va. adat arr j = b + j \<and> cells (strs s) (b + j) = Some (tag_text (va ! j))))"

definition tags_frame :: "'x server \<Rightarrow> 'x server \<Rightarrow> bool" where
  "tags_frame s s' \<longleftrightarrow> elems s' = elems s \<and> tbls s' = tbls s \<and> bkts s' = bkts s \<and> provs s' = provs s \<and>
     bufs s' = bufs s \<and> idarrs s' = idarrs s \<and> abt s' = abt s \<and> calls s' = calls s"

lemma tags_frame_trans: "tags_frame s s' \<Longrightarrow> tags_frame s' s'' \<Longrightarrow> tags_frame s s''"
  by (simp add: tags_frame_def)

lemma taglist_fill_ok:
  assumes "cells (tagls s) tgl = Some \<lparr>taglist = a, num_tags = n\<rparr>" "tgl \<noteq> NULL" "a \<noteq> NULL"
    and "cells (ptrs s) a = Some arr" "alen arr = length va" "i + k = length va"
    and "heap_ok (strs s)" "no_oom s" "\<forall>t \<in> set va. terminated t \<and> length (cstring t) < 36 * 8"
  shows "\<exists>s' arr'. taglist_fill k i va tgl s = Inr s' \<and> tags_frame s s' \<and> tagls s' = tagls s \<and> brk (ptrs s') = brk (ptrs s) \<and>
    cells (ptrs s') = (cells (ptrs s))(a \<mapsto> arr') \<and> alen arr' = length va \<and>
    (\<forall>j < i. adat arr' j = adat arr j) \<and> (\<forall>j. i \<le> j \<and> j < length va \<longrightarrow> adat arr' j = brk (strs s) + (j - i)) \<and>
    (\<forall>q < brk (strs s). cells (strs s') q = cells (strs s) q) \<and>
    (\<forall>j < k. cells (strs s') (brk (strs s) + j) = Some (tag_text (va ! (i + j)))) \<and>
    brk (strs s') = brk (strs s) + k \<and> heap_ok (strs s') \<and> no_oom s'"
  using assms
proof (induction k arbitrary: i s arr)
  case 0
  then have "(cells (ptrs s))(a \<mapsto> arr) = cells (ptrs s)" by (simp add: fun_upd_idem)
  with 0 show ?case by (auto simp: tags_frame_def intro!: exI [of _ arr])
next
  case (Suc k)
  define q where "q = brk (strs s)"
  define s1 where "s1 = s\<lparr>oom := tl (oom s), strs := \<lparr>cells = (cells (strs s))(q := Some (replicate (36 * 8) 0)), brk = Suc q\<rparr>\<rparr>"
  define arr1 where "arr1 = arr\<lparr>adat := (adat arr)(i := q)\<rparr>"
  define s2 where "s2 = s1\<lparr>ptrs := (ptrs s1)\<lparr>cells := (cells (ptrs s1))(a := Some arr1)\<rparr>\<rparr>"
  define s3 where "s3 = s2\<lparr>strs := (strs s2)\<lparr>cells := (cells (strs s2))(q := Some (tag_text (va ! i)))\<rparr>\<rparr>"
  have q0: "q \<noteq> NULL" using Suc.prems(7) by (simp add: q_def heap_ok_def)
  have ok: "alloc_ok (oom s)" using Suc.prems(8) by (simp add: no_oom_def alloc_ok_set)
  have m: "malloc_tag s = (q, s1)" using ok by (simp add: malloc_tag_def calloc_def s1_def q_def)
  have i: "i < length va" using Suc.prems(6) by simp
  then have t: "terminated (va ! i)" "length (cstring (va ! i)) < 36 * 8" using Suc.prems(9) by auto
  have cp: "strcpy_heap q (va ! i) s2 = Inr s3"
    using strcpy_heap_ok [of s2 q "replicate (36 * 8) 0" "va ! i"] q0 t
    by (simp add: s2_def s1_def s3_def tag_text_def)
  have v1: "tagls s1 = tagls s" "ptrs s1 = ptrs s" by (simp_all add: s1_def)
  have "s1\<lparr>ptrs := (ptrs s)\<lparr>cells := (cells (ptrs s))(a := Some arr1)\<rparr>\<rparr> = s2" by (simp add: s2_def v1)
  with cp have step: "taglist_fill (Suc k) i va tgl s = taglist_fill k (Suc i) va tgl s3"
    using Suc.prems i by (simp add: m v1 load_def store_def aset_def arr1_def)
  have h3: "heap_ok (strs s3)"
    using Suc.prems(7) q0 by (auto simp: heap_ok_def s3_def s2_def s1_def q_def less_Suc_eq)
  have n3: "no_oom s3" using Suc.prems(8) by (simp add: no_oom_def s3_def s2_def s1_def no_oom_tl)
  have "\<exists>s' arr'. taglist_fill k (Suc i) va tgl s3 = Inr s' \<and> tags_frame s3 s' \<and> tagls s' = tagls s3 \<and> brk (ptrs s') = brk (ptrs s3) \<and>
    cells (ptrs s') = (cells (ptrs s3))(a \<mapsto> arr') \<and> alen arr' = length va \<and>
    (\<forall>j < Suc i. adat arr' j = adat arr1 j) \<and> (\<forall>j. Suc i \<le> j \<and> j < length va \<longrightarrow> adat arr' j = brk (strs s3) + (j - Suc i)) \<and>
    (\<forall>q < brk (strs s3). cells (strs s') q = cells (strs s3) q) \<and>
    (\<forall>j < k. cells (strs s') (brk (strs s3) + j) = Some (tag_text (va ! (Suc i + j)))) \<and>
    brk (strs s') = brk (strs s3) + k \<and> heap_ok (strs s') \<and> no_oom s'"
    by (rule Suc.IH) (use Suc.prems h3 n3 in \<open>simp_all add: s3_def s2_def s1_def arr1_def\<close>)
  then obtain s' arr' where run: "taglist_fill k (Suc i) va tgl s3 = Inr s'" and fr: "tags_frame s3 s'"
    and tg: "tagls s' = tagls s3" and bp: "brk (ptrs s') = brk (ptrs s3)" and pt: "cells (ptrs s') = (cells (ptrs s3))(a \<mapsto> arr')" and al: "alen arr' = length va"
    and lo: "\<forall>j < Suc i. adat arr' j = adat arr1 j"
    and hi: "\<forall>j. Suc i \<le> j \<and> j < length va \<longrightarrow> adat arr' j = brk (strs s3) + (j - Suc i)"
    and old: "\<forall>q < brk (strs s3). cells (strs s') q = cells (strs s3) q"
    and new: "\<forall>j < k. cells (strs s') (brk (strs s3) + j) = Some (tag_text (va ! (Suc i + j)))"
    and br: "brk (strs s') = brk (strs s3) + k" and ho: "heap_ok (strs s')" "no_oom s'"
    by blast
  have b3: "brk (strs s3) = Suc q" by (simp add: s3_def s2_def s1_def)
  have c3: "cells (strs s3) = (cells (strs s))(q := Some (tag_text (va ! i)))" by (simp add: s3_def s2_def s1_def)
  have "tags_frame s s'" using fr by (simp add: tags_frame_def s3_def s2_def s1_def)
  moreover have "tagls s' = tagls s" using tg by (simp add: s3_def s2_def s1_def)
  moreover have "brk (ptrs s') = brk (ptrs s)" using bp by (simp add: s3_def s2_def s1_def)
  moreover have "cells (ptrs s') = (cells (ptrs s))(a \<mapsto> arr')" using pt by (simp add: s3_def s2_def s1_def)
  moreover have "\<forall>j < i. adat arr' j = adat arr j" using lo by (simp add: arr1_def)
  moreover have "\<forall>j. i \<le> j \<and> j < length va \<longrightarrow> adat arr' j = q + (j - i)"
  proof (intro allI impI)
    fix j assume j: "i \<le> j \<and> j < length va"
    show "adat arr' j = q + (j - i)"
    proof (cases "j = i")
      case True
      then show ?thesis using lo by (simp add: arr1_def)
    next
      case False
      with j hi have "adat arr' j = Suc q + (j - Suc i)" unfolding b3 by auto
      moreover have "Suc (j - Suc i) = j - i" using j False by auto
      ultimately show ?thesis by linarith
    qed
  qed
  moreover have "\<forall>p < q. cells (strs s') p = cells (strs s) p" using old b3 c3 by simp
  moreover have "\<forall>j < Suc k. cells (strs s') (q + j) = Some (tag_text (va ! (i + j)))"
  proof (intro allI impI)
    fix j assume j: "j < Suc k"
    show "cells (strs s') (q + j) = Some (tag_text (va ! (i + j)))"
    proof (cases j)
      case 0
      then show ?thesis using old b3 c3 by simp
    next
      case (Suc j')
      with j new have "cells (strs s') (Suc q + j') = Some (tag_text (va ! (Suc i + j')))" unfolding b3 by simp
      with Suc show ?thesis by simp
    qed
  qed
  moreover have "brk (strs s') = q + Suc k" using br b3 by simp
  moreover have "taglist_fill (Suc k) i va tgl s = Inr s'" using step run by simp
  ultimately show ?case using al ho unfolding q_def by (intro exI [of _ s'] exI [of _ arr'] conjI)
qed

lemma taglist_create_ok:
  assumes ok: "no_oom s" "heap_ok (tagls s)" "heap_ok (ptrs s)" "heap_ok (strs s)"
    and va: "\<forall>t \<in> set va. terminated t \<and> length (cstring t) < 36 * 8"
  shows "\<exists>tgl s'. aggregator_taglist_create (int (length va)) va s = Inr (AGGREGATOR_SUCCESS, tgl, s') \<and>
    tags_frame s s' \<and> no_oom s' \<and> tags_at s' tgl (brk (strs s)) va \<and> tgl = brk (tagls s) \<and>
    (\<forall>p. p \<noteq> tgl \<longrightarrow> cells (tagls s') p = cells (tagls s) p) \<and>
    (\<exists>a. a = brk (ptrs s) \<and> cells (tagls s') tgl = Some \<lparr>taglist = a, num_tags = int (length va)\<rparr> \<and>
       (\<forall>p. p \<noteq> a \<longrightarrow> cells (ptrs s') p = cells (ptrs s) p)) \<and>
    (\<forall>q. q < brk (strs s) \<or> brk (strs s) + length va \<le> q \<longrightarrow> cells (strs s') q = cells (strs s) q) \<and>
    (mem_ok s \<longrightarrow> mem_ok s')"
proof -
  define tgl where "tgl = brk (tagls s)"
  define a where "a = brk (ptrs s)"
  define s1 where "s1 = s\<lparr>oom := tl (tl (oom s)), ptrs := \<lparr>cells = (cells (ptrs s))(a := Some (azero (length va) NULL)), brk = Suc a\<rparr>,
      tagls := \<lparr>cells = (cells (tagls s))(tgl := Some \<lparr>taglist = a, num_tags = int (length va)\<rparr>), brk = Suc tgl\<rparr>\<rparr>"
  have nz: "tgl \<noteq> NULL" "a \<noteq> NULL" "brk (strs s) \<noteq> NULL" using ok by (simp_all add: heap_ok_def tgl_def a_def)
  have al: "alloc_ok (oom s)" "alloc_ok (tl (oom s))"
    using ok(1) by (simp_all add: no_oom_def alloc_ok_set no_oom_tl)
  have run: "aggregator_taglist_create (int (length va)) va s =
      rbind (taglist_fill (length va) 0 va tgl s1) (\<lambda>s. Inr (AGGREGATOR_SUCCESS, tgl, s))"
    using nz al
    by (simp add: aggregator_taglist_create_def calloc_def malloc_ptrs_def load_def store_def tgl_def [symmetric] a_def [symmetric] s1_def)
  have "\<exists>s' arr'. taglist_fill (length va) 0 va tgl s1 = Inr s' \<and> tags_frame s1 s' \<and> tagls s' = tagls s1 \<and> brk (ptrs s') = brk (ptrs s1) \<and>
    cells (ptrs s') = (cells (ptrs s1))(a \<mapsto> arr') \<and> alen arr' = length va \<and>
    (\<forall>j < 0. adat arr' j = adat (azero (length va) NULL) j) \<and> (\<forall>j. 0 \<le> j \<and> j < length va \<longrightarrow> adat arr' j = brk (strs s1) + (j - 0)) \<and>
    (\<forall>q < brk (strs s1). cells (strs s') q = cells (strs s1) q) \<and>
    (\<forall>j < length va. cells (strs s') (brk (strs s1) + j) = Some (tag_text (va ! (0 + j)))) \<and>
    brk (strs s') = brk (strs s1) + length va \<and> heap_ok (strs s') \<and> no_oom s'"
    by (rule taglist_fill_ok) (use ok nz va in \<open>simp_all add: s1_def azero_def no_oom_def no_oom_tl\<close>)
  then obtain s' arr' where f: "taglist_fill (length va) 0 va tgl s1 = Inr s'" "tags_frame s1 s'" "tagls s' = tagls s1" "brk (ptrs s') = brk (ptrs s1)"
    "cells (ptrs s') = (cells (ptrs s1))(a \<mapsto> arr')" "alen arr' = length va"
    "\<forall>j < length va. adat arr' j = brk (strs s1) + j"
    "\<forall>q < brk (strs s1). cells (strs s') q = cells (strs s1) q"
    "\<forall>j < length va. cells (strs s') (brk (strs s1) + j) = Some (tag_text (va ! j))"
    "brk (strs s') = brk (strs s1) + length va" "heap_ok (strs s')" "no_oom s'"
    by auto
  have b1: "strs s1 = strs s" by (simp add: s1_def)
  have hi: "cells (strs s') q = cells (strs s) q" if "brk (strs s) + length va \<le> q" for q
  proof -
    have "\<not> q < brk (strs s')" using f(10) that by (simp add: b1)
    then have "cells (strs s') q = None" using f(11) unfolding heap_ok_def by blast
    moreover have "\<not> q < brk (strs s)" using that by simp
    then have "cells (strs s) q = None" using ok(4) unfolding heap_ok_def by blast
    ultimately show ?thesis by simp
  qed
  have "tags_frame s s'" using f(2) by (simp add: tags_frame_def s1_def)
  moreover have "tags_at s' tgl (brk (strs s)) va"
    using nz f(3,5-7,9) by (auto simp: tags_at_def live_def b1 s1_def intro!: exI [of _ a] exI [of _ arr'])
  moreover have "mem_ok s \<longrightarrow> mem_ok s'"
  proof
    assume ms: "mem_ok s"
    have "heap_ok (tagls s')" using ok(2) f(3) by (auto simp: s1_def heap_ok_def less_Suc_eq tgl_def)
    moreover have "heap_ok (ptrs s')" using ok(3) f(4,5) by (auto simp: s1_def heap_ok_def less_Suc_eq a_def)
    ultimately show "mem_ok s'"
      using ms f(11,12) \<open>tags_frame s s'\<close> by (simp add: mem_ok_def tags_frame_def)
  qed
  ultimately show ?thesis
    using run f(1,3,5,8,12) hi by (auto simp: b1 tgl_def [symmetric] a_def [symmetric]) (auto simp: s1_def)
qed

text \<open>A tag that does not fit its 288 bytes is copied past their end, whatever the tags before it.\<close>

lemma taglist_fill_long:
  assumes "cells (tagls s) tgl = Some \<lparr>taglist = a, num_tags = n\<rparr>" "tgl \<noteq> NULL" "a \<noteq> NULL"
    and "cells (ptrs s) a = Some arr" "alen arr = length va" "i + k = length va"
    and "heap_ok (strs s)" "no_oom s" "\<forall>t \<in> set va. terminated t" "\<exists>j. i \<le> j \<and> j < length va \<and> 36 * 8 \<le> length (cstring (va ! j))"
  shows "taglist_fill k i va tgl s = Inl OutOfBounds"
  using assms
proof (induction k arbitrary: i s arr)
  case (Suc k)
  define q where "q = brk (strs s)"
  define s1 where "s1 = s\<lparr>oom := tl (oom s), strs := \<lparr>cells = (cells (strs s))(q := Some (replicate (36 * 8) 0)), brk = Suc q\<rparr>\<rparr>"
  define arr1 where "arr1 = arr\<lparr>adat := (adat arr)(i := q)\<rparr>"
  define s2 where "s2 = s1\<lparr>ptrs := (ptrs s1)\<lparr>cells := (cells (ptrs s1))(a := Some arr1)\<rparr>\<rparr>"
  have q0: "q \<noteq> NULL" using Suc.prems(7) by (simp add: q_def heap_ok_def)
  have ok: "alloc_ok (oom s)" using Suc.prems(8) by (simp add: no_oom_def alloc_ok_set)
  have m: "malloc_tag s = (q, s1)" using ok by (simp add: malloc_tag_def calloc_def s1_def q_def)
  have i: "i < length va" using Suc.prems(6) by simp
  then have t: "terminated (va ! i)" using Suc.prems(9) by auto
  have v1: "tagls s1 = tagls s" "ptrs s1 = ptrs s" by (simp_all add: s1_def)
  have s2: "s1\<lparr>ptrs := (ptrs s)\<lparr>cells := (cells (ptrs s))(a := Some arr1)\<rparr>\<rparr> = s2" by (simp add: s2_def v1)
  have step: "taglist_fill (Suc k) i va tgl s = rbind (strcpy_heap q (va ! i) s2) (\<lambda>s. taglist_fill k (Suc i) va tgl s)"
    using Suc.prems(1-6) i by (simp add: m v1 load_def store_def aset_def arr1_def [symmetric] s2)
  have c2: "cells (strs s2) q = Some (replicate (36 * 8) 0)" by (simp add: s2_def s1_def)
  show ?case
  proof (cases "length (cstring (va ! i)) < 36 * 8")
    case False
    then have "strcpy_heap q (va ! i) s2 = Inl OutOfBounds"
      using c2 q0 t by (simp add: strcpy_heap_def load_def strcpy_overflow)
    then show ?thesis unfolding step by simp
  next
    case True
    define s3 where "s3 = s2\<lparr>strs := (strs s2)\<lparr>cells := (cells (strs s2))(q := Some (tag_text (va ! i)))\<rparr>\<rparr>"
    have cp: "strcpy_heap q (va ! i) s2 = Inr s3"
      using strcpy_heap_ok [of s2 q "replicate (36 * 8) 0" "va ! i"] q0 t True
      by (simp add: s2_def s1_def s3_def tag_text_def)
    have h3: "heap_ok (strs s3)"
      using Suc.prems(7) q0 by (auto simp: heap_ok_def s3_def s2_def s1_def q_def less_Suc_eq)
    have n3: "no_oom s3" using Suc.prems(8) by (simp add: no_oom_def s3_def s2_def s1_def no_oom_tl)
    from Suc.prems(10) True have "\<exists>j. Suc i \<le> j \<and> j < length va \<and> 36 * 8 \<le> length (cstring (va ! j))"
      by (metis Suc_leI le_neq_implies_less not_le)
    then have "taglist_fill k (Suc i) va tgl s3 = Inl OutOfBounds"
      by (intro Suc.IH [of _ arr1]) (use Suc.prems(1-6,9) h3 n3 in \<open>simp_all add: s3_def s2_def s1_def arr1_def\<close>)
    then show ?thesis unfolding step cp by simp
  qed
qed auto

lemma taglist_create_long:
  assumes ok: "no_oom s" "heap_ok (tagls s)" "heap_ok (ptrs s)" "heap_ok (strs s)"
    and va: "\<forall>t \<in> set va. terminated t" "\<exists>t \<in> set va. 36 * 8 \<le> length (cstring t)"
  shows "aggregator_taglist_create (int (length va)) va s = Inl OutOfBounds"
proof -
  define tgl where "tgl = brk (tagls s)"
  define a where "a = brk (ptrs s)"
  define s1 where "s1 = s\<lparr>oom := tl (tl (oom s)), ptrs := \<lparr>cells = (cells (ptrs s))(a := Some (azero (length va) NULL)), brk = Suc a\<rparr>,
      tagls := \<lparr>cells = (cells (tagls s))(tgl := Some \<lparr>taglist = a, num_tags = int (length va)\<rparr>), brk = Suc tgl\<rparr>\<rparr>"
  have nz: "tgl \<noteq> NULL" "a \<noteq> NULL" using ok by (simp_all add: heap_ok_def tgl_def a_def)
  have al: "alloc_ok (oom s)" "alloc_ok (tl (oom s))"
    using ok(1) by (simp_all add: no_oom_def alloc_ok_set no_oom_tl)
  have run: "aggregator_taglist_create (int (length va)) va s =
      rbind (taglist_fill (length va) 0 va tgl s1) (\<lambda>s. Inr (AGGREGATOR_SUCCESS, tgl, s))"
    using nz al
    by (simp add: aggregator_taglist_create_def calloc_def malloc_ptrs_def load_def store_def tgl_def [symmetric] a_def [symmetric] s1_def)
  have "\<exists>j. 0 \<le> j \<and> j < length va \<and> 36 * 8 \<le> length (cstring (va ! j))" using va(2) by (auto simp: in_set_conv_nth)
  then have "taglist_fill (length va) 0 va tgl s1 = Inl OutOfBounds"
    by (intro taglist_fill_long [of s1 tgl a "int (length va)" "azero (length va) NULL"])
      (use ok nz va(1) in \<open>simp_all add: s1_def azero_def no_oom_def no_oom_tl\<close>)
  then show ?thesis by (simp add: run)
qed

lemma tag_strings_at:
  assumes "tags_at s tgl b va" "k \<le> length va"
  shows "\<exists>T. load (tagls s) tgl = Inr T \<and> num_tags T = int (length va) \<and>
    tag_strings s (taglist T) k = Inr (map tag_text (take k va))"
proof -
  obtain a arr where t: "b \<noteq> NULL" "live (tagls s) tgl" "a \<noteq> NULL"
     "cells (tagls s) tgl = Some \<lparr>taglist = a, num_tags = int (length va)\<rparr>"
     "cells (ptrs s) a = Some arr" "alen arr = length va"
     "\<forall>j < length va. adat arr j = b + j \<and> cells (strs s) (b + j) = Some (tag_text (va ! j))"
    using assms(1) by (auto simp: tags_at_def)
  have "tag_strings s a k = Inr (map tag_text (take k va))"
    using assms(2)
  proof (induction k)
    case (Suc k)
    then show ?case using t by (simp add: load_def aget_def take_Suc_conv_app_nth)
  qed simp
  then show ?thesis using t by (simp add: load_def live_def)
qed

lemma taglist_free_ok:
  assumes "cells (tagls s) tgl = Some \<lparr>taglist = a, num_tags = n\<rparr>" "tgl \<noteq> NULL" "a \<noteq> NULL" "b \<noteq> NULL"
    and "cells (ptrs s) a = Some arr" "alen arr = m" "i + k = m"
    and "\<forall>j < m. adat arr j = b + j" "\<forall>j. i \<le> j \<and> j < m \<longrightarrow> cells (strs s) (b + j) \<noteq> None"
  shows "taglist_free k i tgl s = Inr (s\<lparr>strs := (strs s)\<lparr>cells := (\<lambda>q. if b + i \<le> q \<and> q < b + m then None else cells (strs s) q)\<rparr>\<rparr>)"
  using assms
proof (induction k arbitrary: i s)
  case 0
  then have "(\<lambda>q. if b + i \<le> q \<and> q < b + m then None else cells (strs s) q) = cells (strs s)"
    by (auto simp: fun_eq_iff)
  then show ?case by simp
next
  case (Suc k)
  define s1 where "s1 = s\<lparr>strs := (strs s)\<lparr>cells := (cells (strs s))(b + i := None)\<rparr>\<rparr>"
  have i: "i < m" using Suc.prems(7) by simp
  have "dealloc (strs s) (b + i) = Inr ((strs s)\<lparr>cells := (cells (strs s))(b + i := None)\<rparr>)"
    using Suc.prems(4,9) i by (intro dealloc_live) (simp add: live_def)
  then have "taglist_free (Suc k) i tgl s = taglist_free k (Suc i) tgl s1"
    using Suc.prems i by (simp add: load_def aget_def s1_def)
  also have "\<dots> = Inr (s1\<lparr>strs := (strs s1)\<lparr>cells := (\<lambda>q. if b + Suc i \<le> q \<and> q < b + m then None else cells (strs s1) q)\<rparr>\<rparr>)"
    by (rule Suc.IH) (use Suc.prems in \<open>simp_all add: s1_def\<close>)
  also have "\<dots> = Inr (s\<lparr>strs := (strs s)\<lparr>cells := (\<lambda>q. if b + i \<le> q \<and> q < b + m then None else cells (strs s) q)\<rparr>\<rparr>)"
  proof -
    have "(\<lambda>q. if b + Suc i \<le> q \<and> q < b + m then None else cells (strs s1) q) =
      (\<lambda>q. if b + i \<le> q \<and> q < b + m then None else cells (strs s) q)"
      using i by (auto simp: s1_def fun_eq_iff)
    then show ?thesis by (simp add: s1_def)
  qed
  finally show ?case .
qed

text \<open>Destroying a tag list frees its texts, its array and itself, and nothing else.\<close>

lemma taglist_destroy_ok:
  assumes at: "tags_at s tgl b va" and T: "cells (tagls s) tgl = Some T"
  shows "\<exists>s'. aggregator_taglist_destroy tgl s = Inr (AGGREGATOR_SUCCESS, s') \<and> tags_frame s s' \<and>
    cells (tagls s') = (cells (tagls s))(tgl := None) \<and> cells (ptrs s') = (cells (ptrs s))(taglist T := None) \<and>
    cells (strs s') = (\<lambda>q. if b \<le> q \<and> q < b + length va then None else cells (strs s) q) \<and>
    (mem_ok s \<longrightarrow> mem_ok s')"
proof -
  obtain a arr where t: "b \<noteq> NULL" "live (tagls s) tgl" "a \<noteq> NULL"
     "cells (tagls s) tgl = Some \<lparr>taglist = a, num_tags = int (length va)\<rparr>"
     "cells (ptrs s) a = Some arr" "alen arr = length va"
     "\<forall>j < length va. adat arr j = b + j \<and> cells (strs s) (b + j) = Some (tag_text (va ! j))"
    using at by (auto simp: tags_at_def)
  have "taglist_free (length va) 0 tgl s =
    Inr (s\<lparr>strs := (strs s)\<lparr>cells := (\<lambda>q. if b + 0 \<le> q \<and> q < b + length va then None else cells (strs s) q)\<rparr>\<rparr>)"
    by (rule taglist_free_ok [where a = a and arr = arr]) (use t in \<open>auto simp: live_def\<close>)
  then show ?thesis
    using t T
    by (simp add: aggregator_taglist_destroy_def load_def dealloc_def live_def tags_frame_def)
      (auto simp: mem_ok_def heap_ok_def no_oom_def)
qed

text \<open>A negative number of tags leaves a list with a null array.\<close>

lemma taglist_create_negative:
  assumes "n < 0" "alloc_ok (oom s)" "heap_ok (tagls s)"
  shows "\<exists>s'. aggregator_taglist_create n va s = Inr (AGGREGATOR_SUCCESS, brk (tagls s), s') \<and>
    cells (tagls s') (brk (tagls s)) = Some \<lparr>taglist = NULL, num_tags = n\<rparr>"
  using assms
  by (simp add: aggregator_taglist_create_def calloc_def malloc_ptrs_def load_def store_def heap_ok_def)

end
