(* ===== verification/Client.thy ===== *)
theory Client
  imports Rpc_Types
begin

text \<open>
  Clients and stream handles (\<open>src/client.h\<close> and the functions of \<open>src/client.c\<close> that make, share
  and release them). A handle counts its references and a client counts its handles; the last
  release frees the handle and gives its address back to Margo.

  \<open>client_inv\<close> is the invariant of every sequence of these calls: a client's counter is the number of
  its live handles and no live handle has a zero count. \<open>refs\<close> is the abstraction, the number of
  references by handle.
\<close>

section \<open>State\<close>

record aggregator_client =
  c_mid :: addr
  c_stream_fetch_id :: u64
  c_list_streams_id :: u64
  num_stream_handles :: u64

definition zero_client :: aggregator_client where
  "zero_client = \<lparr>c_mid = NULL, c_stream_fetch_id = 0, c_list_streams_id = 0, num_stream_handles = 0\<rparr>"

record aggregator_stream_handle =
  h_client :: addr
  h_addr :: addr
  h_provider_id :: u16
  refcount :: u64
  h_stream_id :: u32

definition zero_stream_handle :: aggregator_stream_handle where
  "zero_stream_handle = \<lparr>h_client = NULL, h_addr = NULL, h_provider_id = 0, refcount = 0, h_stream_id = 0\<rparr>"

text \<open>Calls to Margo that a client makes.\<close>

datatype client_call =
    MARGO_REGISTER u64
  | margo_addr_dup addr addr
  | margo_addr_free addr
  | margo_bulk_create addr
  | margo_bulk_free addr
  | margo_create u64
  | margo_provider_forward u16 "byte list"
  | margo_get_output
  | margo_free_output
  | margo_destroy

record client_st =
  coom :: "bool list"
  clients :: "aggregator_client heap"
  handles :: "aggregator_stream_handle heap"
  ccalls :: "client_call list"

definition upd_client :: "addr \<Rightarrow> (aggregator_client \<Rightarrow> aggregator_client) \<Rightarrow> 'a client_st_scheme \<Rightarrow> 'a client_st_scheme res" where
  "upd_client c f s =
     rbind (load (clients s) c) (\<lambda>C.
     rbind (store (clients s) c (f C)) (\<lambda>h. Inr (s\<lparr>clients := h\<rparr>)))"

definition upd_handle :: "addr \<Rightarrow> (aggregator_stream_handle \<Rightarrow> aggregator_stream_handle) \<Rightarrow>
    'a client_st_scheme \<Rightarrow> 'a client_st_scheme res" where
  "upd_handle p f s =
     rbind (load (handles s) p) (\<lambda>H.
     rbind (store (handles s) p (f H)) (\<lambda>h. Inr (s\<lparr>handles := h\<rparr>)))"

definition ccall :: "client_call \<Rightarrow> 'a client_st_scheme \<Rightarrow> 'a client_st_scheme" where
  "ccall c s = s\<lparr>ccalls := ccalls s @ [c]\<rparr>"

section \<open>Operations\<close>

text \<open>What Margo answers: whether the RPCs have names already, and their identifiers.\<close>

record init_env =
  ie_registered :: bool
  ie_fetch_id :: u64
  ie_list_id :: u64

definition aggregator_client_init :: "init_env \<Rightarrow> addr \<Rightarrow> 'a client_st_scheme \<Rightarrow>
    (aggregator_return_t \<times> addr \<times> 'a client_st_scheme) res" where
  "aggregator_client_init env mid s =
     (let (c, sch, h) = calloc zero_client (coom s) (clients s); s = s\<lparr>coom := sch, clients := h\<rparr> in
      if c = NULL then Inr (AGGREGATOR_ERR_ALLOCATION, NULL, s)
      else
        rbind (upd_client c (\<lambda>C. C\<lparr>c_mid := mid\<rparr>) s) (\<lambda>s.
        let s = (if ie_registered env then s
                 else ccall (MARGO_REGISTER (ie_list_id env)) (ccall (MARGO_REGISTER (ie_fetch_id env)) s)) in
        rbind (upd_client c (\<lambda>C. C\<lparr>c_stream_fetch_id := ie_fetch_id env, c_list_streams_id := ie_list_id env\<rparr>) s) (\<lambda>s.
        rbind (upd_client c (\<lambda>C. C\<lparr>num_stream_handles := 0\<rparr>) s) (\<lambda>s.
        Inr (AGGREGATOR_SUCCESS, c, s)))))"

text \<open>The warning about handles that are still there is printed; the client is freed either way.\<close>

definition aggregator_client_finalize :: "addr \<Rightarrow> 'a client_st_scheme \<Rightarrow>
    (aggregator_return_t \<times> 'a client_st_scheme) res" where
  "aggregator_client_finalize c s =
     rbind (load (clients s) c) (\<lambda>_.
     rbind (dealloc (clients s) c) (\<lambda>h. Inr (AGGREGATOR_SUCCESS, s\<lparr>clients := h\<rparr>)))"

text \<open>\<open>dup\<close> is what \<open>margo_addr_dup\<close> answers: a return code and the duplicate.\<close>

definition aggregator_remote_stream_handle_create :: "int \<times> addr \<Rightarrow> addr \<Rightarrow> addr \<Rightarrow> u16 \<Rightarrow> u32 \<Rightarrow>
    'a client_st_scheme \<Rightarrow> (aggregator_return_t \<times> addr \<times> 'a client_st_scheme) res" where
  "aggregator_remote_stream_handle_create dup c ad pid sid0 s =
     (if c = NULL then Inr (AGGREGATOR_ERR_INVALID_ARGS, NULL, s)
      else
        let (rh, sch, h) = calloc zero_stream_handle (coom s) (handles s); s = s\<lparr>coom := sch, handles := h\<rparr> in
        if rh = NULL then Inr (AGGREGATOR_ERR_ALLOCATION, NULL, s)
        else
          rbind (load (clients s) c) (\<lambda>_.
          let (ret, ad') = dup; s = ccall (margo_addr_dup ad ad') s in
          rbind (upd_handle rh (\<lambda>H. H\<lparr>h_addr := ad'\<rparr>) s) (\<lambda>s.
          if ret \<noteq> HG_SUCCESS then
            rbind (dealloc (handles s) rh) (\<lambda>h. Inr (AGGREGATOR_ERR_FROM_MERCURY, NULL, s\<lparr>handles := h\<rparr>))
          else
            rbind (upd_handle rh (\<lambda>H. H\<lparr>h_client := c, h_provider_id := pid, h_stream_id := sid0, refcount := 1\<rparr>) s) (\<lambda>s.
            rbind (upd_client c (\<lambda>C. C\<lparr>num_stream_handles := num_stream_handles C + 1\<rparr>) s) (\<lambda>s.
            Inr (AGGREGATOR_SUCCESS, rh, s))))))"

definition aggregator_remote_stream_handle_ref_incr :: "addr \<Rightarrow> 'a client_st_scheme \<Rightarrow>
    (aggregator_return_t \<times> 'a client_st_scheme) res" where
  "aggregator_remote_stream_handle_ref_incr p s =
     (if p = NULL then Inr (AGGREGATOR_ERR_INVALID_ARGS, s)
      else rbind (upd_handle p (\<lambda>H. H\<lparr>refcount := refcount H + 1\<rparr>) s) (\<lambda>s. Inr (AGGREGATOR_SUCCESS, s)))"

definition aggregator_remote_stream_handle_release :: "addr \<Rightarrow> 'a client_st_scheme \<Rightarrow>
    (aggregator_return_t \<times> 'a client_st_scheme) res" where
  "aggregator_remote_stream_handle_release p s =
     (if p = NULL then Inr (AGGREGATOR_ERR_INVALID_ARGS, s)
      else
        rbind (upd_handle p (\<lambda>H. H\<lparr>refcount := refcount H - 1\<rparr>) s) (\<lambda>s.
        rbind (load (handles s) p) (\<lambda>H.
        if refcount H = 0 then
          rbind (load (clients s) (h_client H)) (\<lambda>_.
          let s = ccall (margo_addr_free (h_addr H)) s in
          rbind (upd_client (h_client H) (\<lambda>C. C\<lparr>num_stream_handles := num_stream_handles C - 1\<rparr>) s) (\<lambda>s.
          rbind (dealloc (handles s) p) (\<lambda>h.
          Inr (AGGREGATOR_SUCCESS, s\<lparr>handles := h\<rparr>))))
        else Inr (AGGREGATOR_SUCCESS, s))))"

section \<open>The invariant\<close>

definition CL :: "'a client_st_scheme \<Rightarrow> addr \<Rightarrow> aggregator_client" where
  "CL s c = the (cells (clients s) c)"

definition HD :: "'a client_st_scheme \<Rightarrow> addr \<Rightarrow> aggregator_stream_handle" where
  "HD s p = the (cells (handles s) p)"

definition handles_of :: "'a client_st_scheme \<Rightarrow> addr \<Rightarrow> addr set" where
  "handles_of s c = {p. live (handles s) p \<and> h_client (HD s p) = c}"

definition client_inv :: "'a client_st_scheme \<Rightarrow> bool" where
  "client_inv s \<longleftrightarrow> heap_ok (clients s) \<and> heap_ok (handles s) \<and>
     (\<forall>c. live (clients s) c \<longrightarrow> num_stream_handles (CL s c) = of_nat (card (handles_of s c))) \<and>
     (\<forall>p. live (handles s) p \<longrightarrow> live (clients s) (h_client (HD s p)) \<and> refcount (HD s p) \<noteq> 0)"

text \<open>The abstraction: how many references a handle has.\<close>

definition refs :: "'a client_st_scheme \<Rightarrow> addr \<rightharpoonup> nat" where
  "refs s p = (if live (handles s) p then Some (unat (refcount (HD s p))) else None)"

lemma finite_handles: "heap_ok (handles s) \<Longrightarrow> finite (handles_of s c)"
  by (rule finite_subset [of _ "{..<brk (handles s)}"]) (auto simp: handles_of_def intro: heap_ok_live_lt)

definition put_client :: "addr \<Rightarrow> aggregator_client \<Rightarrow> 'a client_st_scheme \<Rightarrow> 'a client_st_scheme" where
  "put_client c C s = s\<lparr>clients := (clients s)\<lparr>cells := (cells (clients s))(c := Some C)\<rparr>\<rparr>"

definition put_handle :: "addr \<Rightarrow> aggregator_stream_handle \<Rightarrow> 'a client_st_scheme \<Rightarrow> 'a client_st_scheme" where
  "put_handle p H s = s\<lparr>handles := (handles s)\<lparr>cells := (cells (handles s))(p := Some H)\<rparr>\<rparr>"

named_theorems cl_simps "views of an updated client state"

lemma load_client_live [cl_simps]: "live (clients s) c \<Longrightarrow> load (clients s) c = Inr (CL s c)"
  by (simp add: load_live CL_def)

lemma load_handle_live [cl_simps]: "live (handles s) p \<Longrightarrow> load (handles s) p = Inr (HD s p)"
  by (simp add: load_live HD_def)

lemma upd_client_live [cl_simps]: "live (clients s) c \<Longrightarrow> upd_client c f s = Inr (put_client c (f (CL s c)) s)"
  by (simp add: upd_client_def load_live store_live CL_def put_client_def)

lemma upd_handle_live [cl_simps]: "live (handles s) p \<Longrightarrow> upd_handle p f s = Inr (put_handle p (f (HD s p)) s)"
  by (simp add: upd_handle_def load_live store_live HD_def put_handle_def)

lemma put_views [cl_simps]:
  "clients (put_handle p H s) = clients s" "handles (put_client c C s) = handles s"
  "CL (put_handle p H s) = CL s" "HD (put_client c C s) = HD s"
  "CL (put_client c C s) = (CL s)(c := C)" "HD (put_handle p H s) = (HD s)(p := H)"
  "live (clients s) c \<Longrightarrow> live (clients (put_client c C s)) = live (clients s)"
  "live (handles s) p \<Longrightarrow> live (handles (put_handle p H s)) = live (handles s)"
  "clients (ccall x s) = clients s" "handles (ccall x s) = handles s" "CL (ccall x s) = CL s" "HD (ccall x s) = HD s"
  "ccalls (ccall x s) = ccalls s @ [x]" "ccalls (put_handle p H s) = ccalls s" "ccalls (put_client c C s) = ccalls s"
  by (auto simp: put_handle_def put_client_def ccall_def CL_def HD_def live_def fun_eq_iff)

lemma heap_ok_put [cl_simps]:
  "live (handles s) p \<Longrightarrow> heap_ok (handles (put_handle p H s)) = heap_ok (handles s)"
  "live (clients s) c \<Longrightarrow> heap_ok (clients (put_client c C s)) = heap_ok (clients s)"
  by (auto simp: put_handle_def put_client_def heap_ok_def live_def split: if_splits)

section \<open>References\<close>

lemma client_inv_put_handle:
  assumes inv: "client_inv s" and l: "live (handles s) p"
    and H: "h_client H = h_client (HD s p)" "refcount H \<noteq> 0"
  shows "client_inv (put_handle p H s)"
proof -
  have "handles_of (put_handle p H s) c = handles_of s c" for c
    using l H(1) by (auto simp: handles_of_def cl_simps)
  then show ?thesis using inv l H by (auto simp: client_inv_def cl_simps)
qed

lemma refs_put_handle:
  "live (handles s) p \<Longrightarrow> refs (put_handle p H s) = (refs s)(p \<mapsto> unat (refcount H))"
  by (auto simp: refs_def cl_simps)

lemma ref_incr_ok:
  assumes inv: "client_inv s" and p: "refs s p = Some n" and n: "n + 1 < 2 ^ 64"
  shows "\<exists>s'. aggregator_remote_stream_handle_ref_incr p s = Inr (AGGREGATOR_SUCCESS, s') \<and> client_inv s' \<and>
    refs s' = (refs s)(p \<mapsto> n + 1) \<and> ccalls s' = ccalls s \<and> live (clients s') = live (clients s)"
proof -
  have l: "live (handles s) p" and u: "unat (refcount (HD s p)) = n" using p by (auto simp: refs_def split: if_splits)
  define s1 where "s1 = put_handle p ((HD s p)\<lparr>refcount := refcount (HD s p) + 1\<rparr>) s"
  have u1: "unat (refcount (HD s p) + 1) = n + 1" using u n by (simp add: unat_word_ariths)
  then have "refcount (HD s p) + 1 \<noteq> 0" by (metis add_is_0 one_neq_zero unat_0)
  then have "client_inv s1" unfolding s1_def by (intro client_inv_put_handle [OF inv l]) simp_all
  moreover have "refs s1 = (refs s)(p \<mapsto> n + 1)"
    using l u1 by (simp add: s1_def refs_put_handle)
  moreover have "p \<noteq> NULL" using l by (auto simp: live_def)
  ultimately show ?thesis
    using l by (auto simp: aggregator_remote_stream_handle_ref_incr_def s1_def cl_simps)
qed

lemma release_shared:
  assumes inv: "client_inv s" and p: "refs s p = Some n" and n: "1 < n"
  shows "\<exists>s'. aggregator_remote_stream_handle_release p s = Inr (AGGREGATOR_SUCCESS, s') \<and> client_inv s' \<and>
    refs s' = (refs s)(p \<mapsto> n - 1) \<and> ccalls s' = ccalls s \<and> live (clients s') = live (clients s)"
proof -
  have l: "live (handles s) p" and u: "unat (refcount (HD s p)) = n" using p by (auto simp: refs_def split: if_splits)
  define s1 where "s1 = put_handle p ((HD s p)\<lparr>refcount := refcount (HD s p) - 1\<rparr>) s"
  have "refcount (HD s p) \<noteq> 0" using u n by auto
  then have u1: "unat (refcount (HD s p) - 1) = n - 1" using u by (simp add: unat_minus_one)
  then have nz: "refcount (HD s p) - 1 \<noteq> 0" using n by (metis less_numeral_extra(3) unat_0 zero_less_diff)
  then have "client_inv s1" unfolding s1_def by (intro client_inv_put_handle [OF inv l]) simp_all
  moreover have "refs s1 = (refs s)(p \<mapsto> n - 1)" using l u1 by (simp add: s1_def refs_put_handle)
  moreover have "p \<noteq> NULL" using l by (auto simp: live_def)
  ultimately show ?thesis
    using l nz by (auto simp: aggregator_remote_stream_handle_release_def s1_def cl_simps)
qed

text \<open>The last release frees the handle and its address and lowers its client's counter.\<close>

lemma release_last:
  assumes inv: "client_inv s" and p: "refs s p = Some 1"
  shows "\<exists>s'. aggregator_remote_stream_handle_release p s = Inr (AGGREGATOR_SUCCESS, s') \<and> client_inv s' \<and>
    refs s' = (refs s)(p := None) \<and> ccalls s' = ccalls s @ [margo_addr_free (h_addr (HD s p))] \<and>
    num_stream_handles (CL s' (h_client (HD s p))) = num_stream_handles (CL s (h_client (HD s p))) - 1 \<and>
    live (clients s') = live (clients s)"
proof -
  let ?H = "HD s p"
  let ?c = "h_client ?H"
  have l: "live (handles s) p" and u: "unat (refcount ?H) = 1" using p by (auto simp: refs_def split: if_splits)
  have r1: "refcount ?H = 1" using u by (metis unat_1 word_unat_eq_iff)
  have lc: "live (clients s) ?c" using inv l by (auto simp: client_inv_def)
  define s1 where "s1 = put_handle p (?H\<lparr>refcount := refcount ?H - 1\<rparr>) s"
  define s2 where "s2 = put_client ?c ((CL s ?c)\<lparr>num_stream_handles := num_stream_handles (CL s ?c) - 1\<rparr>)
      (ccall (margo_addr_free (h_addr ?H)) s1)"
  define s3 where "s3 = s2\<lparr>handles := (handles s2)\<lparr>cells := (cells (handles s2))(p := None)\<rparr>\<rparr>"
  have l2: "live (handles s2) p" using l by (simp add: s2_def s1_def cl_simps)
  have p0: "p \<noteq> NULL" using l by (auto simp: live_def)
  have run: "aggregator_remote_stream_handle_release p s = Inr (AGGREGATOR_SUCCESS, s3)"
    using l lc r1 p0 l2
    by (simp add: aggregator_remote_stream_handle_release_def cl_simps s1_def [symmetric] Let_def)
      (simp add: s1_def cl_simps s2_def s3_def dealloc_live)
  have v3: "live (handles s3) q \<longleftrightarrow> q \<noteq> p \<and> live (handles s) q" "q \<noteq> p \<Longrightarrow> HD s3 q = HD s q"
    "live (clients s3) = live (clients s)"
    "CL s3 = (CL s)(?c := (CL s ?c)\<lparr>num_stream_handles := num_stream_handles (CL s ?c) - 1\<rparr>)" for q
    using l lc by (auto simp: s3_def s2_def s1_def live_def HD_def CL_def put_handle_def put_client_def ccall_def fun_eq_iff)
  have fin: "finite (handles_of s c)" for c using inv by (intro finite_handles) (simp add: client_inv_def)
  have ho: "handles_of s3 c = handles_of s c - {p}" for c by (auto simp: handles_of_def v3)
  have "num_stream_handles (CL s3 c) = of_nat (card (handles_of s3 c))" if "live (clients s3) c" for c
  proof (cases "c = ?c")
    case True
    have "p \<in> handles_of s ?c" using l by (simp add: handles_of_def)
    then have "card (handles_of s ?c) = Suc (card (handles_of s ?c - {p}))"
      using fin by (metis card_Suc_Diff1)
    moreover have "num_stream_handles (CL s ?c) = of_nat (card (handles_of s ?c))"
      using inv lc by (simp add: client_inv_def)
    ultimately show ?thesis using True by (simp add: v3 ho)
  next
    case False
    then have "handles_of s c - {p} = handles_of s c" by (auto simp: handles_of_def)
    then show ?thesis using False that inv by (simp add: v3 ho client_inv_def)
  qed
  moreover have "heap_ok (clients s3)" "heap_ok (handles s3)"
    using inv l lc
    by (auto simp: client_inv_def s3_def s2_def s1_def heap_ok_def put_handle_def put_client_def ccall_def live_def)
  ultimately have "client_inv s3" using inv by (auto simp: client_inv_def v3)
  moreover have "refs s3 = (refs s)(p := None)" by (auto simp: refs_def v3)
  moreover have "ccalls s3 = ccalls s @ [margo_addr_free (h_addr ?H)]"
    by (simp add: s3_def s2_def s1_def cl_simps)
  ultimately show ?thesis using run v3(3,4) by auto
qed

lemma handle_create_ok:
  assumes inv: "client_inv s" and c: "live (clients s) c" and ok: "alloc_ok (coom s)"
  shows "\<exists>rh s'. aggregator_remote_stream_handle_create (HG_SUCCESS, ad') c ad pid i s = Inr (AGGREGATOR_SUCCESS, rh, s') \<and>
    client_inv s' \<and> refs s rh = None \<and> refs s' = (refs s)(rh \<mapsto> 1) \<and>
    HD s' rh = \<lparr>h_client = c, h_addr = ad', h_provider_id = pid, refcount = 1, h_stream_id = i\<rparr> \<and>
    num_stream_handles (CL s' c) = num_stream_handles (CL s c) + 1 \<and> live (clients s') = live (clients s) \<and>
    ccalls s' = ccalls s @ [margo_addr_dup ad ad']"
proof -
  define rh where "rh = brk (handles s)"
  have hk: "heap_ok (handles s)" using inv by (simp add: client_inv_def)
  have r0: "rh \<noteq> NULL" and c0: "c \<noteq> NULL" using hk c by (auto simp: heap_ok_def rh_def live_def)
  have fresh: "\<not> live (handles s) rh" using heap_ok_fresh [OF hk] by (simp add: live_def rh_def)
  define s1 where "s1 = s\<lparr>coom := tl (coom s), handles := \<lparr>cells = (cells (handles s))(rh := Some zero_stream_handle), brk = Suc rh\<rparr>\<rparr>"
  define H where "H = \<lparr>h_client = c, h_addr = ad', h_provider_id = pid, refcount = 1, h_stream_id = i\<rparr>"
  have c1: "calloc zero_stream_handle (coom s) (handles s) = (rh, tl (coom s), handles s1)" "s\<lparr>coom := tl (coom s), handles := handles s1\<rparr> = s1"
    using ok by (simp_all add: calloc_def s1_def rh_def)
  have v1: "live (handles s1) rh" "live (clients s1) = live (clients s)" "HD s1 rh = zero_stream_handle" "CL s1 = CL s"
    using r0 by (simp_all add: s1_def live_def HD_def CL_def fun_eq_iff)
  define s2 where "s2 = ccall (margo_addr_dup ad ad') s1"
  define s3 where "s3 = put_handle rh (zero_stream_handle\<lparr>h_addr := ad'\<rparr>) s2"
  define s4 where "s4 = put_handle rh H s3"
  define s5 where "s5 = put_client c ((CL s c)\<lparr>num_stream_handles := num_stream_handles (CL s c) + 1\<rparr>) s4"
  have run: "aggregator_remote_stream_handle_create (HG_SUCCESS, ad') c ad pid i s = Inr (AGGREGATOR_SUCCESS, rh, s5)"
    using r0 c0 c v1
    by (simp add: aggregator_remote_stream_handle_create_def c1 cl_simps s2_def [symmetric])
      (simp add: s2_def cl_simps s3_def s4_def s5_def H_def zero_stream_handle_def)
  have v: "live (handles s5) q \<longleftrightarrow> q = rh \<or> live (handles s) q" "live (clients s5) = live (clients s)"
    "q \<noteq> rh \<Longrightarrow> HD s5 q = HD s q" "HD s5 rh = H"
    "CL s5 = (CL s)(c := (CL s c)\<lparr>num_stream_handles := num_stream_handles (CL s c) + 1\<rparr>)" for q
    using r0 c by (auto simp: s5_def s4_def s3_def s2_def s1_def live_def HD_def CL_def put_handle_def put_client_def ccall_def fun_eq_iff)
  have fin: "finite (handles_of s c)" for c using hk by (rule finite_handles)
  have hd: "HD s5 q = (if q = rh then H else HD s q)" for q using v by simp
  have ho: "handles_of s5 d = (if d = c then insert rh (handles_of s d) else handles_of s d)" for d
    using fresh by (auto simp: handles_of_def v(1) hd H_def)
  have nin: "rh \<notin> handles_of s d" for d using fresh by (simp add: handles_of_def)
  have "num_stream_handles (CL s5 d) = of_nat (card (handles_of s5 d))" if "live (clients s5) d" for d
    using that inv fin nin c by (simp add: v ho client_inv_def)
  moreover have "heap_ok (clients s5)" "heap_ok (handles s5)"
    using inv c r0
    by (auto simp: client_inv_def s5_def s4_def s3_def s2_def s1_def heap_ok_def put_handle_def put_client_def ccall_def
        live_def rh_def less_Suc_eq)
  moreover have "live (clients s5) (h_client (HD s5 q)) \<and> refcount (HD s5 q) \<noteq> 0" if "live (handles s5) q" for q
    using that inv c by (cases "q = rh") (simp_all add: client_inv_def v(1,2) hd H_def)
  ultimately have "client_inv s5" unfolding client_inv_def by blast
  moreover have "refs s5 = (refs s)(rh \<mapsto> 1)" by (auto simp: refs_def v(1) hd H_def)
  moreover have "refs s rh = None" using fresh by (simp add: refs_def)
  moreover have "ccalls s5 = ccalls s @ [margo_addr_dup ad ad']"
    by (simp add: s5_def s4_def s3_def s2_def cl_simps) (simp add: s1_def)
  ultimately show ?thesis using run v by (auto simp: H_def)
qed

text \<open>A handle that outlives its client: \<open>aggregator_client_finalize\<close> only warns.\<close>

lemma finalize_ok:
  assumes "live (clients s) c"
  shows "aggregator_client_finalize c s = Inr (AGGREGATOR_SUCCESS, s\<lparr>clients := (clients s)\<lparr>cells := (cells (clients s))(c := None)\<rparr>\<rparr>)"
  using assms by (simp add: aggregator_client_finalize_def cl_simps dealloc_live)

lemma release_after_finalize:
  assumes inv: "client_inv s" and p: "refs s p = Some 1"
    and f: "aggregator_client_finalize (h_client (HD s p)) s = Inr (r, s')"
  shows "r = AGGREGATOR_SUCCESS \<and> aggregator_remote_stream_handle_release p s' = Inl Dangling"
proof -
  let ?H = "HD s p"
  let ?c = "h_client ?H"
  have l: "live (handles s) p" and u: "unat (refcount ?H) = 1" using p by (auto simp: refs_def split: if_splits)
  have r1: "refcount ?H = 1" using u by (metis unat_1 word_unat_eq_iff)
  have lc: "live (clients s) ?c" using inv l by (auto simp: client_inv_def)
  have s': "r = AGGREGATOR_SUCCESS" "s' = s\<lparr>clients := (clients s)\<lparr>cells := (cells (clients s))(?c := None)\<rparr>\<rparr>"
    using f finalize_ok [OF lc] by simp_all
  have v: "live (handles s') p" "HD s' p = ?H" using l by (simp_all add: s' HD_def)
  have "?c \<noteq> NULL" using lc by (auto simp: live_def)
  then have "load (clients (put_handle p H s')) ?c = Inl Dangling" for H by (simp add: cl_simps s' load_def)
  moreover have "p \<noteq> NULL" using l by (auto simp: live_def)
  ultimately show ?thesis
    using v r1 s'(1) by (simp add: aggregator_remote_stream_handle_release_def cl_simps)
qed

section \<open>Sequences of calls\<close>

inductive client_reach :: "'a client_st_scheme \<Rightarrow> 'a client_st_scheme \<Rightarrow> bool" for s where
  start: "client_reach s s"
| created: "client_reach s s1 \<Longrightarrow> live (clients s1) c \<Longrightarrow>
    aggregator_remote_stream_handle_create (HG_SUCCESS, ad') c ad pid i s1 = Inr (r, rh, s2) \<Longrightarrow> client_reach s s2"
| shared: "client_reach s s1 \<Longrightarrow> live (handles s1) p \<Longrightarrow> unat (refcount (HD s1 p)) + 1 < 2 ^ 64 \<Longrightarrow>
    aggregator_remote_stream_handle_ref_incr p s1 = Inr (r, s2) \<Longrightarrow> client_reach s s2"
| released: "client_reach s s1 \<Longrightarrow> live (handles s1) p \<Longrightarrow>
    aggregator_remote_stream_handle_release p s1 = Inr (r, s2) \<Longrightarrow> client_reach s s2"

lemma handle_create_oom:
  assumes "\<not> alloc_ok (coom s)" "c \<noteq> NULL"
  shows "aggregator_remote_stream_handle_create dup c ad pid i s =
    Inr (AGGREGATOR_ERR_ALLOCATION, NULL, s\<lparr>coom := tl (coom s)\<rparr>)"
  using assms by (simp add: aggregator_remote_stream_handle_create_def calloc_def)

lemma client_inv_coom [simp]: "client_inv (s\<lparr>coom := x\<rparr>) = client_inv s"
  by (simp add: client_inv_def CL_def HD_def handles_of_def)

lemma client_reach_inv: "client_reach s s' \<Longrightarrow> client_inv s \<Longrightarrow> client_inv s'"
proof (induction rule: client_reach.induct)
  case start
  then show ?case .
next
  case (created s1 c ad' ad pid i r rh s2)
  then have c0: "c \<noteq> NULL" by (auto simp: live_def)
  show ?case
  proof (cases "alloc_ok (coom s1)")
    case True
    from created handle_create_ok [of s1 c ad' ad pid i, OF _ _ True] show ?thesis by auto
  next
    case False
    with created c0 handle_create_oom [of s1 c] have "s2 = s1\<lparr>coom := tl (coom s1)\<rparr>" by simp
    with created show ?thesis by simp
  qed
next
  case (shared s1 p r s2)
  then have "refs s1 p = Some (unat (refcount (HD s1 p)))" by (simp add: refs_def)
  with shared ref_incr_ok [of s1 p] show ?case by fastforce
next
  case (released s1 p r s2)
  then have r: "refs s1 p = Some (unat (refcount (HD s1 p)))" by (simp add: refs_def)
  have "refcount (HD s1 p) \<noteq> 0" using released by (auto simp: client_inv_def)
  then have "0 < unat (refcount (HD s1 p))" by (simp add: unat_gt_0)
  then consider "unat (refcount (HD s1 p)) = 1" | "1 < unat (refcount (HD s1 p))" by linarith
  then show ?case
  proof cases
    case 1
    with r released release_last [of s1 p] show ?thesis by fastforce
  next
    case 2
    with r released release_shared [of s1 p] show ?thesis by fastforce
  qed
qed

lemma client_init_ok:
  assumes inv: "client_inv s" and ok: "alloc_ok (coom s)"
  shows "\<exists>c s'. aggregator_client_init env mid s = Inr (AGGREGATOR_SUCCESS, c, s') \<and> client_inv s' \<and>
    CL s' c = \<lparr>c_mid = mid, c_stream_fetch_id = ie_fetch_id env, c_list_streams_id = ie_list_id env, num_stream_handles = 0\<rparr> \<and>
    live (clients s') c \<and> \<not> live (clients s) c \<and> refs s' = refs s \<and>
    (\<forall>d. live (clients s') d \<longleftrightarrow> d = c \<or> live (clients s) d)"
proof -
  define c where "c = brk (clients s)"
  have hk: "heap_ok (clients s)" using inv by (simp add: client_inv_def)
  have c0: "c \<noteq> NULL" using hk by (simp add: heap_ok_def c_def)
  have fresh: "\<not> live (clients s) c" using heap_ok_fresh [OF hk] by (simp add: live_def c_def)
  define s1 where "s1 = s\<lparr>coom := tl (coom s), clients := \<lparr>cells = (cells (clients s))(c := Some zero_client), brk = Suc c\<rparr>\<rparr>"
  have c1: "calloc zero_client (coom s) (clients s) = (c, tl (coom s), clients s1)" "s\<lparr>coom := tl (coom s), clients := clients s1\<rparr> = s1"
    using ok by (simp_all add: calloc_def s1_def c_def)
  have v1: "live (clients s1) c" "CL s1 c = zero_client" using c0 by (simp_all add: s1_def live_def CL_def)
  define s2 where "s2 = put_client c (zero_client\<lparr>c_mid := mid\<rparr>) s1"
  define s3 where "s3 = (if ie_registered env then s2
                 else ccall (MARGO_REGISTER (ie_list_id env)) (ccall (MARGO_REGISTER (ie_fetch_id env)) s2))"
  define C where "C = \<lparr>c_mid = mid, c_stream_fetch_id = ie_fetch_id env, c_list_streams_id = ie_list_id env, num_stream_handles = 0\<rparr>"
  define s4 where "s4 = put_client c C (put_client c C s3)"
  have v3: "live (clients s3) c" "CL s3 c = zero_client\<lparr>c_mid := mid\<rparr>"
    using v1 by (simp_all add: s3_def s2_def cl_simps)
  have run: "aggregator_client_init env mid s = Inr (AGGREGATOR_SUCCESS, c, s4)"
    using c0 v1 v3
    by (simp add: aggregator_client_init_def c1 cl_simps s2_def [symmetric] s3_def [symmetric] Let_def)
      (simp add: s4_def C_def zero_client_def)
  have v: "live (clients s4) d \<longleftrightarrow> d = c \<or> live (clients s) d" "handles s4 = handles s" "CL s4 c = C"
    "d \<noteq> c \<Longrightarrow> CL s4 d = CL s d" for d
    using c0 by (auto simp: s4_def s3_def s2_def s1_def live_def CL_def put_client_def ccall_def)
  have hd: "HD s4 = HD s" by (simp add: HD_def v fun_eq_iff)
  have ho: "handles_of s4 d = handles_of s d" for d by (simp add: handles_of_def v hd)
  have "handles_of s c = {}" using inv fresh by (auto simp: handles_of_def client_inv_def)
  then have "num_stream_handles (CL s4 d) = of_nat (card (handles_of s4 d))" if "live (clients s4) d" for d
    using that inv by (cases "d = c") (simp_all add: v ho C_def client_inv_def)
  moreover have "heap_ok (clients s4)"
    using hk c0 by (auto simp: s4_def s3_def s2_def s1_def heap_ok_def put_client_def ccall_def c_def less_Suc_eq)
  ultimately have "client_inv s4" using inv by (auto simp: client_inv_def v hd)
  moreover have "refs s4 = refs s" by (simp add: refs_def v hd fun_eq_iff)
  ultimately show ?thesis using run v fresh by (auto simp: C_def)
qed

end
