(* ===== verification/Client_Rpc.thy ===== *)
theory Client_Rpc
  imports Taglist Client
begin

text \<open>
  The remaining functions of \<open>src/client.c\<close>: the identifier of a remote stream, the calls a
  microservice makes on its own provider, and the two remote procedure calls.

  A client's memory extends \<open>client_st\<close> by sample buffers, strings and arrays of identifiers. Margo
  is an argument (\<open>margo_env\<close>): it creates bulk and RPC handles, and \<open>me_forward\<close> delivers a
  message, answering with a return code, the samples the provider pushed into the bulk region and
  the response. Messages are bytes, written and read by the routines of \<open>Rpc_Types\<close>.

  \<open>serve_fetch\<close> and \<open>serve_list\<close> put a provider's handler behind \<open>me_forward\<close>; the theorems at the
  end go from a client's call through the serialization and the handler and back.
\<close>

section \<open>Local operations\<close>

definition aggregator_stream_create :: "'x argobots \<Rightarrow> byte list option \<Rightarrow> byte list option \<Rightarrow>
    aggregator_stream_type_t \<Rightarrow> byte list option \<Rightarrow> addr \<Rightarrow> addr \<Rightarrow> 'x server \<Rightarrow>
    (aggregator_return_t \<times> addr option \<times> 'x server) res" where
  "aggregator_stream_create A ns name t dsc tgl p s = aggregator_provider_stream_create A ns name t dsc tgl p s"

definition aggregator_stream_destroy :: "'x argobots \<Rightarrow> addr \<Rightarrow> addr \<Rightarrow> 'x server \<Rightarrow>
    (aggregator_return_t \<times> 'x server) res" where
  "aggregator_stream_destroy A m p s = aggregator_provider_stream_destroy A m p s"

definition aggregator_stream_destroy_all :: "addr \<Rightarrow> 'x server \<Rightarrow> (aggregator_return_t \<times> 'x server) res" where
  "aggregator_stream_destroy_all p s = aggregator_provider_destroy_all_streams p s"

definition aggregator_remote_stream_get_id :: "byte list option \<Rightarrow> byte list option \<Rightarrow> addr \<Rightarrow> 'x server \<Rightarrow>
    (aggregator_return_t \<times> u32 option) res" where
  "aggregator_remote_stream_get_id ns name tgl s =
     (if ns = None \<or> name = None then Inr (AGGREGATOR_ERR_INVALID_NAME, None)
      else
        rbind (load (tagls s) tgl) (\<lambda>T.
        rbind (tag_strings s (taglist T) (nat (num_tags T))) (\<lambda>tags.
        rbind (aggregator_id_from_string_identifiers (the ns) (the name) tags (num_tags T)) (\<lambda>i.
        Inr (AGGREGATOR_SUCCESS, Some i)))))"

section \<open>A client's memory\<close>

record client_mem = client_st +
  cbufs :: "aggregator_stream_sample carr heap"
  cstrs :: "byte list heap"
  cids :: "u32 carr heap"

record margo_env =
  me_bulk_create :: "addr option"
  me_create :: int
  me_forward :: "byte list \<Rightarrow> int \<times> aggregator_stream_sample list option \<times> byte list"

definition zero_fetch_in :: stream_fetch_in_t where
  "zero_fetch_in = \<lparr>fi_stream_id = 0, fi_count = 0, fi_bulk = NULL\<rparr>"

definition zero_fetch_out :: stream_fetch_out_t where
  "zero_fetch_out = \<lparr>fo_actual_count = 0, fo_name = [], fo_ns = [], fo_ret = 0\<rparr>"

definition zero_list_out :: list_streams_out_t where
  "zero_list_out = \<lparr>lo_ret = 0, lo_count = 0, lo_ids = NULL\<rparr>"

text \<open>Encoding the input and forwarding it; an encoding error is the error of the call.\<close>

definition forward :: "margo_env \<Rightarrow> int \<times> 'a \<times> byte list \<Rightarrow> int \<times> aggregator_stream_sample list option \<times> byte list" where
  "forward env e = (case e of (r, _, m) \<Rightarrow> if r \<noteq> HG_SUCCESS then (r, None, []) else me_forward env m)"

text \<open>What is pushed lands in the registered buffer, and nowhere past its end.\<close>

definition bulk_write :: "addr \<Rightarrow> aggregator_stream_sample list option \<Rightarrow> client_mem \<Rightarrow> client_mem" where
  "bulk_write b xs s = (case xs of None \<Rightarrow> s
     | Some xs \<Rightarrow> s\<lparr>cbufs := (cbufs s)\<lparr>cells := (cells (cbufs s))(b := map_option
         (\<lambda>a. a\<lparr>adat := (\<lambda>k. if k < length xs \<and> k < alen a then xs ! k else adat a k)\<rparr>) (cells (cbufs s) b))\<rparr>\<rparr>)"

definition cmalloc36 :: "client_mem \<Rightarrow> addr \<times> client_mem" where
  "cmalloc36 s = (let (q, sch, h) = calloc (replicate 36 0) (coom s) (cstrs s) in (q, s\<lparr>coom := sch, cstrs := h\<rparr>))"

text \<open>A decoded string is its text and a terminator.\<close>

definition cstrcpy :: "addr \<Rightarrow> byte list \<Rightarrow> client_mem \<Rightarrow> client_mem res" where
  "cstrcpy q t s =
     rbind (load (cstrs s) q) (\<lambda>d.
     rbind (strcpy d (t @ [0])) (\<lambda>r.
     rbind (store (cstrs s) q r) (\<lambda>h. Inr (s\<lparr>cstrs := h\<rparr>))))"

section \<open>Fetching\<close>

text \<open>The number of samples asked for, and the number sent.\<close>

definition clamp_count :: "u64 \<Rightarrow> u64" where
  "clamp_count n = (if int STREAM_BUFFER_SIZE \<le> sint n \<or> sint n < 0 then of_nat STREAM_BUFFER_SIZE else n)"

text \<open>
  The result: the return code, \<open>*num_samples_requested\<close>, and \<open>*buf\<close>, \<open>*name\<close> and \<open>*ns\<close> where they
  have been set.
\<close>

definition aggregator_remote_stream_fetch :: "hg_prims \<Rightarrow> margo_env \<Rightarrow> addr \<Rightarrow> u64 \<Rightarrow> client_mem \<Rightarrow>
    (u32 \<times> u64 \<times> (addr \<times> addr \<times> addr) option \<times> client_mem) res" where
  "aggregator_remote_stream_fetch P env hnd n s =
     rbind (load (handles s) hnd) (\<lambda>H.
     let n = clamp_count n;
         (b, sch, h) = calloc (azero (unat n) zero_sample) (coom s) (cbufs s); s = s\<lparr>coom := sch, cbufs := h\<rparr> in
     rbind (load (clients s) (h_client H)) (\<lambda>C.
     let s = ccall (margo_bulk_create b) s in
     rbind (rd_local (me_bulk_create env)) (\<lambda>blk.
     let i = \<lparr>fi_stream_id = h_stream_id H, fi_count = n, fi_bulk = blk\<rparr>;
         s = ccall (margo_create (c_stream_fetch_id C)) s in
     if me_create env \<noteq> HG_SUCCESS then Inr (ret_code AGGREGATOR_ERR_FROM_MERCURY, n, None, s)
     else
       let e = hg_proc_stream_fetch_in_t P HG_ENCODE i [];
           s = ccall (margo_provider_forward (h_provider_id H) (snd (snd e))) s;
           (ret, pushed, reply) = forward env e; s = bulk_write b pushed s in
       if ret \<noteq> HG_SUCCESS then Inr (ret_code AGGREGATOR_ERR_FROM_MERCURY, n, None, ccall margo_destroy s)
       else
         let s = ccall margo_get_output s;
             (ret, out, _) = hg_proc_stream_fetch_out_t P HG_DECODE zero_fetch_out reply in
         if ret \<noteq> HG_SUCCESS then
           Inr (ret_code AGGREGATOR_ERR_FROM_MERCURY, n, None, ccall margo_destroy (ccall margo_free_output s))
         else
           let n = fo_actual_count out; (nm, s) = cmalloc36 s; (q, s) = cmalloc36 s in
           rbind (cstrcpy nm (fo_name out) s) (\<lambda>s.
           rbind (cstrcpy q (fo_ns out) s) (\<lambda>s.
           let s = ccall margo_free_output s; s = ccall margo_destroy s; s = ccall (margo_bulk_free blk) s in
           Inr (fo_ret out, n, Some (b, nm, q), s))))))"

section \<open>Listing\<close>

text \<open>\<open>memcpy(*ids, out.ids, out.count * sizeof(aggregator_stream_id_t))\<close>.\<close>

definition memcpy_ids :: "addr \<Rightarrow> addr \<Rightarrow> u64 \<Rightarrow> client_mem \<Rightarrow> client_mem res" where
  "memcpy_ids dst src nbytes s =
     (let n = unat nbytes in
      if n = 0 then Inr s
      else
        rbind (load (cids s) dst) (\<lambda>D.
        rbind (load (cids s) src) (\<lambda>S.
        if n \<le> 4 * alen D \<and> n \<le> 4 * alen S then
          rbind (store (cids s) dst (D\<lparr>adat := (\<lambda>k. if k < n div 4 then adat S k else adat D k)\<rparr>))
            (\<lambda>h. Inr (s\<lparr>cids := h\<rparr>))
        else Inl OutOfBounds)))"

definition aggregator_remote_list_streams :: "hg_prims \<Rightarrow> margo_env \<Rightarrow> addr \<Rightarrow> u16 \<Rightarrow> addr \<Rightarrow> u64 \<Rightarrow> client_mem \<Rightarrow>
    (u32 \<times> u64 \<times> client_mem) res" where
  "aggregator_remote_list_streams P env c pid ids cnt s =
     rbind (load (clients s) c) (\<lambda>C.
     let s = ccall (margo_create (c_list_streams_id C)) s in
     if me_create env \<noteq> HG_SUCCESS then Inr (ret_code AGGREGATOR_ERR_FROM_MERCURY, cnt, s)
     else
       let e = hg_proc_list_streams_in_t P HG_ENCODE cnt [];
           s = ccall (margo_provider_forward pid (snd (snd e))) s;
           (hret, _, reply) = forward env e in
       if hret \<noteq> HG_SUCCESS then Inr (ret_code AGGREGATOR_ERR_FROM_MERCURY, cnt, ccall margo_destroy s)
       else
         let s = ccall margo_get_output s in
         rbind (hg_proc_list_streams_out_t P HG_DECODE zero_list_out reply (coom s) (cids s)) (\<lambda>(hret, out, _, sch, h).
         let s = s\<lparr>coom := sch, cids := h\<rparr> in
         if hret \<noteq> HG_SUCCESS then Inr (ret_code AGGREGATOR_ERR_FROM_MERCURY, cnt, ccall margo_destroy s)
         else
           rbind (if lo_ret out = ret_code AGGREGATOR_SUCCESS
                  then rbind (memcpy_ids ids (lo_ids out) (4 * lo_count out) s) (\<lambda>s. Inr (lo_count out, s))
                  else Inr (cnt, s)) (\<lambda>(cnt, s).
           let s = ccall margo_free_output s in
           rbind (hg_proc_list_streams_out_t P HG_FREE out [] (coom s) (cids s)) (\<lambda>(_, _, _, sch, h).
           let s = s\<lparr>coom := sch, cids := h\<rparr> in
           Inr (lo_ret out, cnt, ccall margo_destroy s)))))"

section \<open>The provider's side of the wire\<close>

text \<open>
  What Margo does between a forward and the handler: the request is decoded, handled, and the
  response encoded. \<open>lost\<close> is what the forward returns when the handler does not answer, because its behaviour is
  undefined; it is a parameter, and nothing depends on it.
\<close>

type_synonym forwarded = "int \<times> aggregator_stream_sample list option \<times> byte list"

definition serve_fetch :: "hg_prims \<Rightarrow> forwarded \<Rightarrow> addr \<Rightarrow> 'x server \<Rightarrow> byte list \<Rightarrow> forwarded" where
  "serve_fetch P lost p sv m =
     (let (r, i, _) = hg_proc_stream_fetch_in_t P HG_DECODE zero_fetch_in m in
      case aggregator_stream_fetch_ult \<lparr>fe_input = (if r = HG_SUCCESS then Some i else None),
             fe_bulk_create = HG_SUCCESS, fe_bulk_transfer = HG_SUCCESS\<rparr> p sv of
        Inl _ \<Rightarrow> lost
      | Inr (reply, pushed, _) \<Rightarrow>
          let (r, _, m) = hg_proc_stream_fetch_out_t P HG_ENCODE reply [] in (r, pushed, m))"

text \<open>The response of a listing is encoded from an array in the handler's memory.\<close>

definition reply_heap :: "u32 list option \<Rightarrow> u32 carr heap" where
  "reply_heap xs = (case xs of None \<Rightarrow> heap_empty
     | Some xs \<Rightarrow> \<lparr>cells = [1 \<mapsto> \<lparr>alen = length xs, adat = (\<lambda>k. xs ! k)\<rparr>], brk = 2\<rparr>)"

definition serve_list :: "hg_prims \<Rightarrow> forwarded \<Rightarrow> addr \<Rightarrow> 'x server \<Rightarrow> byte list \<Rightarrow> forwarded" where
  "serve_list P lost p sv m =
     (let (r, mx, _) = hg_proc_list_streams_in_t P HG_DECODE 0 m in
      case aggregator_list_streams_ult (if r = HG_SUCCESS then Some mx else None) p sv of
        Inl _ \<Rightarrow> lost
      | Inr (reply, _) \<Rightarrow>
          (case hg_proc_list_streams_out_t P HG_ENCODE
               \<lparr>lo_ret = lr_ret reply, lo_count = lr_count reply, lo_ids = (if lr_ids reply = None then NULL else 1)\<rparr> []
               [] (reply_heap (lr_ids reply)) of
             Inl _ \<Rightarrow> lost
           | Inr (r, _, m, _, _) \<Rightarrow> (r, None, m)))"

section \<open>Identifiers\<close>

text \<open>A client that knows the names computes the identifier under which creation registers them.\<close>

lemma get_id_no_name:
  "ns = None \<or> name = None \<Longrightarrow> aggregator_remote_stream_get_id ns name tgl s = Inr (AGGREGATOR_ERR_INVALID_NAME, None)"
  by (auto simp: aggregator_remote_stream_get_id_def)

lemma get_id_tags:
  assumes "tags_at s tgl b va" "terminated ns" "terminated name"
  shows "aggregator_remote_stream_get_id (Some ns) (Some name) tgl s =
    Inr (AGGREGATOR_SUCCESS, Some (stream_id_spec ns name va))"
proof -
  obtain T where T: "load (tagls s) tgl = Inr T" "num_tags T = int (length va)"
    "tag_strings s (taglist T) (length va) = Inr (map tag_text va)"
    using tag_strings_at [OF assms(1) order_refl] by auto
  have "tags_ok (map tag_text va) (int (length va))" by (auto simp: tags_ok_def)
  from id_from_strings_eq [OF assms(2,3) this] T show ?thesis
    by (simp add: aggregator_remote_stream_get_id_def stream_id_spec_def comp_def)
qed

lemma create_pre_tags:
  assumes "tags_at s tgl b va" "str_fits 36 (Some ns)" "str_fits 36 (Some name)" "str_fits 200 dsc" "no_oom s"
  shows "create_pre (Some ns) (Some name) dsc tgl s (stream_id_spec ns name va)"
proof -
  obtain T where T: "load (tagls s) tgl = Inr T" "num_tags T = int (length va)"
    "tag_strings s (taglist T) (length va) = Inr (map tag_text va)"
    using tag_strings_at [OF assms(1) order_refl] by auto
  have "tags_ok (map tag_text va) (int (length va))" by (auto simp: tags_ok_def)
  moreover have "terminated ns" "terminated name" using assms by (simp_all add: str_fits_def)
  ultimately have "aggregator_id_from_string_identifiers ns name (map tag_text va) (int (length va)) =
      Inr (stream_id_spec ns name va)"
    using id_from_strings_eq [of ns name "map tag_text va" "int (length va)"] by (simp add: stream_id_spec_def comp_def)
  with T assms show ?thesis by (auto simp: create_pre_def)
qed

section \<open>Fetching, end to end\<close>

lemma sint_small_iff: "0 \<le> sint (n :: u64) \<and> sint n < int k \<longleftrightarrow> unat n < k" if "k \<le> 2 ^ 63"
proof
  assume "0 \<le> sint n \<and> sint n < int k"
  then have "int (unat n) < int k" using sint_nonneg [of n] by (simp only:)
  then show "unat n < k" by (simp only: of_nat_less_iff)
next
  assume "unat n < k"
  with that have "sint n = int (unat n)" by (intro sint_small) simp
  with \<open>unat n < k\<close> show "0 \<le> sint n \<and> sint n < int k" by (simp only: of_nat_less_iff of_nat_0_le_iff simp_thms)
qed

lemma unat_of_nat_u64: "n < 2 ^ 64 \<Longrightarrow> unat (of_nat n :: u64) = n"
  by (simp add: unsigned_of_nat take_bit_nat_eq_self)

lemma unat_clamp_count:
  "unat (clamp_count n) = (if unat n < STREAM_BUFFER_SIZE then unat n else STREAM_BUFFER_SIZE)"
proof -
  have "(of_nat STREAM_BUFFER_SIZE :: u64) = 160000000" by (simp add: STREAM_BUFFER_SIZE_def)
  then have "unat (of_nat STREAM_BUFFER_SIZE :: u64) = STREAM_BUFFER_SIZE" by (simp add: STREAM_BUFFER_SIZE_def)
  moreover have "\<not> (int STREAM_BUFFER_SIZE \<le> sint n \<or> sint n < 0) \<longleftrightarrow> unat n < STREAM_BUFFER_SIZE"
    using sint_small_iff [of STREAM_BUFFER_SIZE n] by (auto simp: STREAM_BUFFER_SIZE_def)
  ultimately show ?thesis by (auto simp: clamp_count_def)
qed

lemma ccall_mem [simp]:
  "cbufs (ccall x s) = cbufs s" "cstrs (ccall x s) = cstrs s" "cids (ccall x s) = cids s" "coom (ccall x s) = coom s"
  "clients (ccall x s) = clients s" "handles (ccall x s) = handles s"
  by (simp_all add: ccall_def)

lemma bulk_write_mem [simp]:
  "cstrs (bulk_write b xs s) = cstrs s" "cids (bulk_write b xs s) = cids s" "coom (bulk_write b xs s) = coom s"
  "clients (bulk_write b xs s) = clients s" "handles (bulk_write b xs s) = handles s"
  by (simp_all add: bulk_write_def split: option.split)

definition fetch_out_ok :: "stream_fetch_out_t \<Rightarrow> bool" where
  "fetch_out_ok out \<longleftrightarrow> 0 \<notin> set (fo_name out) \<and> length (fo_name out) < 36 \<and>
     0 \<notin> set (fo_ns out) \<and> length (fo_ns out) < 36"

definition cstr_at :: "client_mem \<Rightarrow> addr \<Rightarrow> byte list \<Rightarrow> bool" where
  "cstr_at s q t \<longleftrightarrow> q \<noteq> NULL \<and> (\<exists>r. cells (cstrs s) q = Some r \<and> terminated r \<and> cstring r = t)"

lemma cstr_at_text: "cstr_at s q t \<Longrightarrow> map_option cstring (cells (cstrs s) q) = Some t"
  by (auto simp: cstr_at_def)

lemma cstrcpy_ok:
  assumes "cells (cstrs s) q = Some d" "q \<noteq> NULL" "length d = 36" "0 \<notin> set t" "length t < 36"
  shows "\<exists>r. cstrcpy q t s = Inr (s\<lparr>cstrs := (cstrs s)\<lparr>cells := (cells (cstrs s))(q := Some r)\<rparr>\<rparr>) \<and> cstring r = t \<and> terminated r"
proof -
  have "terminated (t @ [0])" "cstring (t @ [0]) = t" using assms cstring_append_NUL [of t "[]"] by (simp_all add: terminated_def)
  with strcpy_ok [of "t @ [0]" d] assms obtain r where "strcpy d (t @ [0]) = Inr r" "cstring r = t" "terminated r" by auto
  with assms show ?thesis by (auto simp: cstrcpy_def load_def store_def)
qed

lemma cmalloc36_ok:
  assumes "alloc_ok (coom s)" "heap_ok (cstrs s)"
  shows "\<exists>s'. cmalloc36 s = (brk (cstrs s), s') \<and> coom s' = tl (coom s) \<and> heap_ok (cstrs s') \<and>
    cells (cstrs s') = (cells (cstrs s))(brk (cstrs s) := Some (replicate 36 0)) \<and> brk (cstrs s') = Suc (brk (cstrs s)) \<and>
    cbufs s' = cbufs s \<and> cids s' = cids s \<and> clients s' = clients s \<and> handles s' = handles s"
proof -
  have "heap_ok \<lparr>cells = (cells (cstrs s))(brk (cstrs s) \<mapsto> replicate 36 0), brk = Suc (brk (cstrs s))\<rparr>"
    using assms(2) by (auto simp: heap_ok_def less_Suc_eq)
  with assms(1) show ?thesis by (simp add: cmalloc36_def calloc_def)
qed

lemma aslice_prefix:
  assumes "length xs \<le> n"
  shows "take (length xs) (aslice (a\<lparr>adat := (\<lambda>k. if k < length xs \<and> k < n then xs ! k else adat a k)\<rparr>) 0 n) = xs"
  using assms by (auto simp: nth_aslice intro!: nth_equalityI)

text \<open>A call whose forward and response succeed.\<close>

lemma remote_fetch_run:
  assumes H: "live (handles s) hnd" and C: "live (clients s) (h_client (HD s hnd))"
    and env: "me_bulk_create env = Some blk" "me_create env = HG_SUCCESS"
    and fwd: "forward env (hg_proc_stream_fetch_in_t P HG_ENCODE
        \<lparr>fi_stream_id = h_stream_id (HD s hnd), fi_count = clamp_count n, fi_bulk = blk\<rparr> []) = (HG_SUCCESS, Some xs, reply)"
    and dec: "hg_proc_stream_fetch_out_t P HG_DECODE zero_fetch_out reply = (HG_SUCCESS, out, rest)"
    and out: "fetch_out_ok out" and xs: "length xs \<le> unat (clamp_count n)"
    and mem: "False \<notin> set (coom s)" "heap_ok (cbufs s)" "heap_ok (cstrs s)"
  shows "\<exists>b nm q s' a. aggregator_remote_stream_fetch P env hnd n s =
      Inr (fo_ret out, fo_actual_count out, Some (b, nm, q), s') \<and>
    b \<noteq> NULL \<and> cells (cbufs s') b = Some a \<and> alen a = unat (clamp_count n) \<and> take (length xs) (aslice a 0 (alen a)) = xs \<and>
    cstr_at s' nm (fo_name out) \<and> cstr_at s' q (fo_ns out) \<and>
    handles s' = handles s \<and> clients s' = clients s"
proof -
  let ?n = "unat (clamp_count n)" and ?H = "HD s hnd"
  define C where "C = CL s (h_client ?H)"
  define b where "b = brk (cbufs s)"
  define e where "e = hg_proc_stream_fetch_in_t P HG_ENCODE \<lparr>fi_stream_id = h_stream_id ?H, fi_count = clamp_count n, fi_bulk = blk\<rparr> []"
  have al: "alloc_ok (coom s)" "alloc_ok (tl (coom s))" "alloc_ok (tl (tl (coom s)))"
    using mem(1) by (simp_all add: alloc_ok_set no_oom_tl)
  define s1 where "s1 = s\<lparr>coom := tl (coom s), cbufs := \<lparr>cells = (cells (cbufs s))(b := Some (azero ?n zero_sample)), brk = Suc b\<rparr>\<rparr>"
  have c1: "calloc (azero ?n zero_sample) (coom s) (cbufs s) = (b, tl (coom s), cbufs s1)" "s\<lparr>coom := tl (coom s), cbufs := cbufs s1\<rparr> = s1"
    using al by (simp_all add: calloc_def s1_def b_def)
  have v1: "clients s1 = clients s" "handles s1 = handles s" "coom s1 = tl (coom s)" "cstrs s1 = cstrs s" by (simp_all add: s1_def)
  have lC: "load (clients s1) (h_client ?H) = Inr C" using C by (simp add: v1 C_def CL_def load_live)
  define s2 where "s2 = ccall (margo_provider_forward (h_provider_id ?H) (snd (snd e)))
      (ccall (margo_create (c_stream_fetch_id C)) (ccall (margo_bulk_create b) s1))"
  define s3 where "s3 = ccall margo_get_output (bulk_write b (Some xs) s2)"
  have v3: "coom s3 = tl (coom s)" "cstrs s3 = cstrs s" "handles s3 = handles s" "clients s3 = clients s"
    by (simp_all add: s3_def s2_def v1)
  define a where "a = (azero ?n zero_sample)\<lparr>adat := (\<lambda>k. if k < length xs \<and> k < ?n then xs ! k else adat (azero ?n zero_sample) k)\<rparr>"
  have "alen (azero ?n zero_sample) = ?n" by (simp add: azero_def)
  then have cb3: "cells (cbufs s3) b = Some a" by (simp add: s3_def s2_def bulk_write_def s1_def a_def)
  obtain s4 where s4: "cmalloc36 s3 = (brk (cstrs s), s4)" "coom s4 = tl (tl (coom s))" "heap_ok (cstrs s4)"
    "cells (cstrs s4) = (cells (cstrs s))(brk (cstrs s) := Some (replicate 36 0))" "brk (cstrs s4) = Suc (brk (cstrs s))"
    "cbufs s4 = cbufs s3" "clients s4 = clients s" "handles s4 = handles s"
    using cmalloc36_ok [of s3] al mem(3) v3 by auto
  define nm q where "nm = brk (cstrs s)" and "q = Suc (brk (cstrs s))"
  obtain s5 where s5: "cmalloc36 s4 = (q, s5)"
    "cells (cstrs s5) = (cells (cstrs s4))(q := Some (replicate 36 0))" "cbufs s5 = cbufs s3" "clients s5 = clients s" "handles s5 = handles s"
    using cmalloc36_ok [of s4] al s4 by (auto simp: q_def)
  have nq: "nm \<noteq> NULL" "q \<noteq> NULL" "nm \<noteq> q" using mem(3) by (simp_all add: nm_def q_def heap_ok_def)
  obtain r where r: "cstrcpy nm (fo_name out) s5 = Inr (s5\<lparr>cstrs := (cstrs s5)\<lparr>cells := (cells (cstrs s5))(nm := Some r)\<rparr>\<rparr>)" "cstring r = fo_name out" "terminated r"
    using cstrcpy_ok [of s5 nm "replicate 36 0" "fo_name out"] nq out by (auto simp: s5 s4 nm_def fetch_out_ok_def q_def)
  define s6 where "s6 = s5\<lparr>cstrs := (cstrs s5)\<lparr>cells := (cells (cstrs s5))(nm := Some r)\<rparr>\<rparr>"
  obtain r' where r': "cstrcpy q (fo_ns out) s6 = Inr (s6\<lparr>cstrs := (cstrs s6)\<lparr>cells := (cells (cstrs s6))(q := Some r')\<rparr>\<rparr>)" "cstring r' = fo_ns out" "terminated r'"
    using cstrcpy_ok [of s6 q "replicate 36 0" "fo_ns out"] nq out by (auto simp: s5 s6_def fetch_out_ok_def)
  define s7 where "s7 = s6\<lparr>cstrs := (cstrs s6)\<lparr>cells := (cells (cstrs s6))(q := Some r')\<rparr>\<rparr>"
  define s8 where "s8 = ccall (margo_bulk_free blk) (ccall margo_destroy (ccall margo_free_output s7))"
  have m4: "cmalloc36 s3 = (nm, s4)" using s4(1) by (simp add: nm_def)
  have run: "aggregator_remote_stream_fetch P env hnd n s = Inr (fo_ret out, fo_actual_count out, Some (b, nm, q), s8)"
    unfolding aggregator_remote_stream_fetch_def load_handle_live [OF H] rbind_Inr Let_def c1 prod.case lC env rd_local_def option.case
      e_def [symmetric] s2_def [symmetric] fwd [folded e_def]
    by (simp add: env s3_def [symmetric] dec m4 s5(1) r(1) s6_def [symmetric] r'(1) s7_def [symmetric] s8_def)
  have "cells (cbufs s8) b = Some a" using cb3 by (simp add: s8_def s7_def s6_def s5)
  moreover have "alen a = ?n" by (simp add: a_def azero_def)
  moreover have "take (length xs) (aslice a 0 (alen a)) = xs"
    using aslice_prefix [OF xs, of "azero ?n zero_sample"] \<open>alen a = ?n\<close> by (simp only: a_def)
  moreover have "cstr_at s8 nm (fo_name out)" "cstr_at s8 q (fo_ns out)"
    using nq r(2,3) r'(2,3) by (simp_all add: s8_def s7_def s6_def cstr_at_def)
  moreover have "b \<noteq> NULL" using mem(2) by (simp add: b_def heap_ok_def)
  moreover have "handles s8 = handles s" "clients s8 = clients s" by (simp_all add: s8_def s7_def s6_def s5)
  ultimately show ?thesis using run by blast
qed

text \<open>What the provider answers to the bytes of a well-formed request.\<close>

lemma serve_fetch_ok:
  assumes P: "prims_ok P e32 e64 esz estr eblk"
    and inv: "prov_inv sv p xs" and reg: "registry sv xs (fi_stream_id i) = Some st" and wf: "stream_wf sv st"
    and cnt: "24 * unat (fi_count i) < 2 ^ 63" and ok: "no_oom sv" and hp: "heap_ok (bufs sv)" "heap_ok (strs sv)"
  shows "serve_fetch P lost p sv (fetch_in_bytes e64 eblk i) = (HG_SUCCESS, Some (fetch_data (fi_count i) (samples sv st)),
    fetch_out_bytes e32 e64 estr \<lparr>fo_actual_count = of_nat (min (unat (fi_count i)) (unat (buffer_index (ST sv st)))),
      fo_name = cstring (sname (ST sv st)), fo_ns = cstring (sns (ST sv st)), fo_ret = ret_code AGGREGATOR_SUCCESS\<rparr>)"
proof -
  have d: "hg_proc_stream_fetch_in_t P HG_DECODE zero_fetch_in (fetch_in_bytes e64 eblk i) = (HG_SUCCESS, i, [])"
    using fetch_in_proc_ok [OF P] unfolding proc_ok_def by (metis append_Nil2)
  have en: "hg_proc_stream_fetch_out_t P HG_ENCODE v [] = (HG_SUCCESS, v, fetch_out_bytes e32 e64 estr v)" for v
    using fetch_out_proc_ok [OF P] unfolding proc_ok_def by simp
  let ?env = "\<lparr>fe_input = Some i, fe_bulk_create = HG_SUCCESS, fe_bulk_transfer = HG_SUCCESS\<rparr>"
  have "\<exists>s'. aggregator_stream_fetch_ult ?env p sv =
      Inr (\<lparr>fo_actual_count = of_nat (min (unat (fi_count i)) (unat (buffer_index (ST sv st)))),
      fo_name = cstring (sname (ST sv st)), fo_ns = cstring (sns (ST sv st)), fo_ret = ret_code AGGREGATOR_SUCCESS\<rparr>,
      Some (fetch_data (fi_count i) (samples sv st)), s')"
    using fetch_ok [of sv p xs i st ?env] inv reg wf cnt ok hp by auto
  then show ?thesis by (auto simp: serve_fetch_def d en)
qed

lemma length_fetch_data [simp]: "length (fetch_data n xs) = unat n"
  by (auto simp: fetch_data_def)

text \<open>
  A client's fetch from a provider: it gets the stream's last samples, as many as it asked for or
  as there are, with the stream's name and namespace.
\<close>

lemma remote_fetch_ok:
  assumes P: "prims_ok P e32 e64 esz estr eblk"
    and inv: "prov_inv sv p xs" and reg: "registry sv xs (h_stream_id (HD s hnd)) = Some st" and wf: "stream_wf sv st"
    and ok: "no_oom sv" "heap_ok (bufs sv)" "heap_ok (strs sv)"
    and H: "live (handles s) hnd" and C: "live (clients s) (h_client (HD s hnd))"
    and mem: "False \<notin> set (coom s)" "heap_ok (cbufs s)" "heap_ok (cstrs s)"
    and env: "env = \<lparr>me_bulk_create = Some blk, me_create = HG_SUCCESS, me_forward = serve_fetch P lost p sv\<rparr>"
  shows "\<exists>c b nm q s' a. aggregator_remote_stream_fetch P env hnd n s =
      Inr (ret_code AGGREGATOR_SUCCESS, c, Some (b, nm, q), s') \<and>
    unat c = min (unat (clamp_count n)) (length (samples sv st)) \<and> b \<noteq> NULL \<and> cells (cbufs s') b = Some a \<and>
    alen a = unat (clamp_count n) \<and> take (unat c) (aslice a 0 (alen a)) = last_n (unat (clamp_count n)) (samples sv st) \<and>
    cstr_at s' nm (cstring (sname (ST sv st))) \<and> cstr_at s' q (cstring (sns (ST sv st))) \<and>
    handles s' = handles s \<and> clients s' = clients s"
proof -
  let ?k = "unat (clamp_count n)" and ?x = "unat (buffer_index (ST sv st))"
  define i where "i = \<lparr>fi_stream_id = h_stream_id (HD s hnd), fi_count = clamp_count n, fi_bulk = blk\<rparr>"
  define out where "out = \<lparr>fo_actual_count = of_nat (min ?k ?x), fo_name = cstring (sname (ST sv st)),
      fo_ns = cstring (sns (ST sv st)), fo_ret = ret_code AGGREGATOR_SUCCESS\<rparr>"
  have k: "?k \<le> STREAM_BUFFER_SIZE" by (simp add: unat_clamp_count)
  then have cnt: "24 * unat (fi_count i) < 2 ^ 63" by (simp add: i_def STREAM_BUFFER_SIZE_def)
  have en: "hg_proc_stream_fetch_in_t P HG_ENCODE i [] = (HG_SUCCESS, i, fetch_in_bytes e64 eblk i)"
    using fetch_in_proc_ok [OF P] unfolding proc_ok_def by simp
  have "serve_fetch P lost p sv (fetch_in_bytes e64 eblk i) = (HG_SUCCESS, Some (fetch_data (clamp_count n) (samples sv st)), fetch_out_bytes e32 e64 estr out)"
    using serve_fetch_ok [OF P inv _ wf cnt ok] reg by (simp add: i_def out_def)
  then have fwd: "forward env (hg_proc_stream_fetch_in_t P HG_ENCODE i []) =
      (HG_SUCCESS, Some (fetch_data (clamp_count n) (samples sv st)), fetch_out_bytes e32 e64 estr out)"
    by (simp add: en forward_def env)
  have dec: "hg_proc_stream_fetch_out_t P HG_DECODE zero_fetch_out (fetch_out_bytes e32 e64 estr out) = (HG_SUCCESS, out, [])"
    using fetch_out_proc_ok [OF P] unfolding proc_ok_def by (metis append_Nil2)
  have oo: "fetch_out_ok out"
    using wf cstring_length_le [of "sname (ST sv st)"] cstring_length_le [of "sns (ST sv st)"]
    by (simp add: fetch_out_ok_def out_def cstring_no_NUL stream_wf_def)
  have e1: "me_bulk_create env = Some blk" "me_create env = HG_SUCCESS" by (simp_all add: env)
  obtain b nm q s' a where r: "aggregator_remote_stream_fetch P env hnd n s = Inr (fo_ret out, fo_actual_count out, Some (b, nm, q), s')"
    "b \<noteq> NULL" "cells (cbufs s') b = Some a" "alen a = ?k"
    "take ?k (aslice a 0 (alen a)) = fetch_data (clamp_count n) (samples sv st)"
    "cstr_at s' nm (fo_name out)" "cstr_at s' q (fo_ns out)"
    "handles s' = handles s" "clients s' = clients s"
    using remote_fetch_run [OF H C e1 fwd [unfolded i_def] dec oo _ mem] by auto
  have "unat (of_nat (min ?k ?x) :: u64) = min ?k ?x"
    using k by (intro unat_of_nat_u64) (simp add: STREAM_BUFFER_SIZE_def)
  then have c: "unat (fo_actual_count out) = min ?k ?x" by (simp add: out_def)
  have "take (min ?k ?x) (aslice a 0 (alen a)) = take (min ?k ?x) (take ?k (aslice a 0 (alen a)))" by (simp add: min.commute)
  also have "\<dots> = last_n ?k (samples sv st)"
    unfolding r(5) by (simp add: fetch_data_def)
  finally show ?thesis using r c by (auto simp: out_def)
qed

section \<open>Listing, end to end\<close>

lemma serve_list_ok:
  assumes P: "prims_ok P e32 e64 esz estr eblk"
    and inv: "prov_inv sv p xs" and ok: "no_oom sv" and hp: "heap_ok (idarrs sv)"
  shows "serve_list P lost p sv (esz mx) = (HG_SUCCESS, None,
    list_out_bytes e32 esz (ret_code AGGREGATOR_SUCCESS) (of_nat (min (length xs) (unat mx))) (take (unat mx) (map (SID sv) xs)))"
proof -
  let ?ids = "take (unat mx) (map (SID sv) xs)" and ?c = "of_nat (min (length xs) (unat mx)) :: u64"
  let ?out = "\<lparr>lo_ret = ret_code AGGREGATOR_SUCCESS, lo_count = ?c, lo_ids = 1\<rparr>"
  have d: "hg_proc_list_streams_in_t P HG_DECODE 0 (esz mx) = (HG_SUCCESS, mx, [])"
    using P unfolding prims_ok_def proc_ok_def hg_proc_list_streams_in_t_def by (metis append_Nil2)
  have n: "length xs < 2 ^ 32" using prov_inv_length [OF inv] .
  then have c: "unat ?c = min (length xs) (unat mx)" by (intro unat_of_nat_u64) simp
  let ?a = "\<lparr>alen = length ?ids, adat = (\<lambda>k. ?ids ! k)\<rparr>"
  have a: "cells (reply_heap (Some ?ids)) (lo_ids ?out) = Some ?a" by (simp add: reply_heap_def)
  have l: "unat (lo_count ?out) \<le> alen ?a" "unat (lo_count ?out) < 2 ^ 62" using c n by simp_all
  have "ids_of ?a ?c = ?ids" using c by (auto simp: ids_of_def nth_aslice intro!: nth_equalityI)
  then have "hg_proc_list_streams_out_t P HG_ENCODE ?out [] [] (reply_heap (Some ?ids)) =
    Inr (HG_SUCCESS, ?out, list_out_bytes e32 esz (ret_code AGGREGATOR_SUCCESS) ?c ?ids, [], reply_heap (Some ?ids))"
    using list_out_encode [OF P a _ l, of "[]" "[]"] by simp
  then show ?thesis by (simp add: serve_list_def d list_ok [OF inv ok hp])
qed

lemma list_out_free:
  assumes P: "prims_ok P e32 e64 esz estr eblk" and l: "live h (lo_ids out)"
  shows "\<exists>r out' b. hg_proc_list_streams_out_t P HG_FREE out [] sch h = Inr (r, out', b, sch, h\<lparr>cells := (cells h)(lo_ids out := None)\<rparr>)"
proof -
  obtain v b where 1: "hg_proc_int32_t P HG_FREE (lo_ret out) [] = (HG_SUCCESS, v, b)"
    using P unfolding prims_ok_def by (metis prod.collapse)
  obtain v' b' where 2: "hg_proc_hg_size_t P HG_FREE (lo_count out) b = (HG_SUCCESS, v', b')"
    using P unfolding prims_ok_def by (metis prod.collapse)
  show ?thesis by (simp add: hg_proc_list_streams_out_t_def 1 2 dealloc_live [OF l])
qed

text \<open>
  A client's listing: the identifiers of the first streams of the provider, in the order of their
  creation, as many as fit the client's array, whose other elements are left alone.
\<close>

lemma remote_list_ok:
  assumes P: "prims_ok P e32 e64 esz estr eblk"
    and inv: "prov_inv sv p xs" and ok: "no_oom sv" "heap_ok (idarrs sv)"
    and C: "live (clients s) c" and D: "cells (cids s) ids = Some D" "ids \<noteq> NULL" "unat cnt \<le> alen D"
    and mem: "False \<notin> set (coom s)" "heap_ok (cids s)"
    and env: "me_create env = HG_SUCCESS" "me_forward env = serve_list P lost p sv"
  shows "\<exists>k s' D'. aggregator_remote_list_streams P env c pid ids cnt s = Inr (ret_code AGGREGATOR_SUCCESS, k, s') \<and>
    unat k = min (length xs) (unat cnt) \<and> cells (cids s') = (cells (cids s))(ids \<mapsto> D') \<and> alen D' = alen D \<and>
    aslice D' 0 (unat k) = take (unat cnt) (map (SID sv) xs) \<and> (\<forall>j. unat k \<le> j \<longrightarrow> adat D' j = adat D j) \<and>
    clients s' = clients s \<and> handles s' = handles s \<and> cbufs s' = cbufs s \<and> cstrs s' = cstrs s \<and> coom s' = tl (coom s)"
proof -
  let ?ids = "take (unat cnt) (map (SID sv) xs)"
  define k :: u64 where "k = of_nat (min (length xs) (unat cnt))"
  define C where "C = CL s c"
  have n: "length xs < 2 ^ 32" using prov_inv_length [OF inv] .
  then have k: "unat k = min (length xs) (unat cnt)" unfolding k_def by (intro unat_of_nat_u64) simp
  have e: "hg_proc_list_streams_in_t P HG_ENCODE cnt [] = (HG_SUCCESS, cnt, esz cnt)"
    using P by (simp add: prims_ok_def proc_ok_def hg_proc_list_streams_in_t_def)
  define reply where "reply = list_out_bytes e32 esz (ret_code AGGREGATOR_SUCCESS) k ?ids"
  have fwd: "forward env (HG_SUCCESS, cnt, esz cnt) = (HG_SUCCESS, None, reply)"
    using serve_list_ok [OF P inv ok] by (simp add: forward_def env reply_def k_def)
  define s1 where "s1 = ccall margo_get_output (ccall (margo_provider_forward pid (esz cnt)) (ccall (margo_create (c_list_streams_id C)) s))"
  define q where "q = brk (cids s)"
  define out where "out = \<lparr>lo_ret = ret_code AGGREGATOR_SUCCESS, lo_count = k, lo_ids = q\<rparr>"
  have kl: "unat k = length ?ids" "length ?ids < 2 ^ 62" using k n by simp_all
  from list_out_decode [OF P kl alloc_ok_set [OF mem(1)] mem(2), of zero_list_out "ret_code AGGREGATOR_SUCCESS" "[]"]
  obtain a where dec: "hg_proc_list_streams_out_t P HG_DECODE zero_list_out reply (coom s) (cids s) =
      Inr (HG_SUCCESS, out, [], tl (coom s), \<lparr>cells = (cells (cids s))(q := Some a), brk = Suc q\<rparr>)"
    and a: "alen a = length ?ids" "ids_of a k = ?ids"
    by (auto simp: reply_def out_def q_def)
  define s2 where "s2 = s1\<lparr>coom := tl (coom s), cids := \<lparr>cells = (cells (cids s))(q := Some a), brk = Suc q\<rparr>\<rparr>"
  have q: "q \<noteq> NULL" "q \<noteq> ids" "cells (cids s) q = None"
    using mem(2) D heap_ok_fresh [OF mem(2)] by (auto simp: heap_ok_def q_def)
  define D' where "D' = D\<lparr>adat := (\<lambda>j. if j < unat k then adat a j else adat D j)\<rparr>"
  have u4: "unat (4 * k) = 4 * unat k" using kl by (intro unat_mult4) simp
  have cp: "memcpy_ids ids q (4 * k) s2 = Inr (s2\<lparr>cids := (cids s2)\<lparr>cells := (cells (cids s2))(ids := Some D')\<rparr>\<rparr>)"
  proof (cases "unat k = 0")
    case True
    then have "D' = D" by (simp add: D'_def)
    moreover have "cells (cids s2) ids = Some D" using D q by (simp add: s2_def)
    ultimately show ?thesis using True u4 by (simp add: memcpy_ids_def fun_upd_idem)
  next
    case False
    have "4 * unat k \<le> 4 * alen D" "4 * unat k \<le> 4 * alen a" using k D(3) a(1) by simp_all
    then show ?thesis using D q u4 False by (simp add: memcpy_ids_def load_def store_def s2_def D'_def Let_def)
  qed
  define s3 where "s3 = ccall margo_free_output (s2\<lparr>cids := (cids s2)\<lparr>cells := (cells (cids s2))(ids := Some D')\<rparr>\<rparr>)"
  have "live (cids s3) (lo_ids out)" using q by (simp add: s3_def s2_def live_def out_def)
  from list_out_free [OF P this, of "coom s3"] obtain r out' b where
    fr: "hg_proc_list_streams_out_t P HG_FREE out [] (coom s3) (cids s3) =
      Inr (r, out', b, coom s3, (cids s3)\<lparr>cells := (cells (cids s3))(q := None)\<rparr>)"
    by (auto simp: out_def)
  define s4 where "s4 = ccall margo_destroy (s3\<lparr>coom := coom s3, cids := (cids s3)\<lparr>cells := (cells (cids s3))(q := None)\<rparr>\<rparr>)"
  have lC: "load (clients s) c = Inr C" using C by (simp add: C_def CL_def load_live)
  have v1: "coom s1 = coom s" "cids s1 = cids s" by (simp_all add: s1_def)
  have o: "lo_ret out = ret_code AGGREGATOR_SUCCESS" "lo_count out = k" "lo_ids out = q" by (simp_all add: out_def)
  have "aggregator_remote_list_streams P env c pid ids cnt s = Inr (ret_code AGGREGATOR_SUCCESS, k, s4)"
    unfolding aggregator_remote_list_streams_def lC rbind_Inr Let_def e fwd prod.case snd_conv s1_def [symmetric] v1 dec
    by (simp only: env simp_thms if_False if_True s2_def [symmetric] o cp rbind_Inr prod.case s3_def [symmetric] fr s4_def [symmetric])
  moreover have "cells (cids s4) = (cells (cids s))(ids \<mapsto> D')"
    using q by (auto simp: s4_def s3_def s2_def fun_eq_iff)
  moreover have "aslice D' 0 (unat k) = ?ids"
  proof -
    have "aslice D' 0 (unat k) = aslice a 0 (unat k)" by (auto simp: aslice_def D'_def)
    then show ?thesis using a(2) by (simp add: ids_of_def)
  qed
  moreover have "alen D' = alen D" "\<forall>j. unat k \<le> j \<longrightarrow> adat D' j = adat D j" by (simp_all add: D'_def)
  moreover have "clients s4 = clients s" "handles s4 = handles s" "cbufs s4 = cbufs s" "cstrs s4 = cstrs s" "coom s4 = tl (coom s)"
    by (simp_all add: s4_def s3_def s2_def s1_def)
  ultimately show ?thesis using k by blast
qed

end
