(* ===== verification/Stream_Update.thy ===== *)
theory Stream_Update
  imports Provider_Rpc
begin

text \<open>
  The updates of \<open>src/client.c\<close> that a microservice makes on its own streams. A thread checks the
  value against the stream's type, takes the stream's mutex, writes the fields of
  \<open>buffer[buffer_index]\<close> one after the other, raises the index and releases the mutex.

  The lemmas are about one thread: an update appends one sample or refuses, and a sequence of
  updates records exactly the values that \<open>accepts\<close> lets through. \<open>update_mv\<close> needs the documented
  behaviour of Argobots only.
\<close>

section \<open>Operations\<close>

text \<open>\<open>m->buffer[i]\<close>, with \<open>i\<close> computed as an \<open>unsigned int\<close>.\<close>

definition read_sample :: "addr \<Rightarrow> u32 \<Rightarrow> 'x server \<Rightarrow> aggregator_stream_sample res" where
  "read_sample m i s =
     rbind (load (elems s) m) (\<lambda>e.
     rbind (load (bufs s) (buffer e)) (\<lambda>B. aget B (unat i)))"

text \<open>A store to a field of \<open>m->buffer[m->buffer_index]\<close>.\<close>

definition store_sample :: "addr \<Rightarrow> (aggregator_stream_sample \<Rightarrow> aggregator_stream_sample) \<Rightarrow> 'x server \<Rightarrow> 'x server res" where
  "store_sample m f s =
     rbind (load (elems s) m) (\<lambda>e.
     rbind (load (bufs s) (buffer e)) (\<lambda>B.
     rbind (aget B (unat (buffer_index e))) (\<lambda>x.
     rbind (aset B (unat (buffer_index e)) (f x)) (\<lambda>B.
     rbind (store (bufs s) (buffer e) B) (\<lambda>h. Inr (s\<lparr>bufs := h\<rparr>))))))"

definition mutex_lock :: "'x argobots \<Rightarrow> addr \<Rightarrow> 'x server \<Rightarrow> 'x server res" where
  "mutex_lock A m s =
     rbind (load (elems s) m) (\<lambda>e.
     rbind (ABT_mutex_lock A (stream_mutex e) (abt s)) (\<lambda>x. Inr (s\<lparr>abt := x\<rparr>)))"

definition mutex_unlock :: "'x argobots \<Rightarrow> addr \<Rightarrow> 'x server \<Rightarrow> 'x server res" where
  "mutex_unlock A m s =
     rbind (load (elems s) m) (\<lambda>e.
     rbind (ABT_mutex_unlock A (stream_mutex e) (abt s)) (\<lambda>x. Inr (s\<lparr>abt := x\<rparr>)))"

definition store_time :: "'x argobots \<Rightarrow> addr \<Rightarrow> 'x server \<Rightarrow> 'x server res" where
  "store_time A m s =
     (let (t, x) = ABT_get_wtime A (abt s) in
      store_sample m (\<lambda>y. y\<lparr>time := t\<rparr>) (s\<lparr>abt := x\<rparr>))"

definition incr_index :: "addr \<Rightarrow> 'x server \<Rightarrow> 'x server res" where
  "incr_index m s = upd_stream m (\<lambda>e. e\<lparr>buffer_index := buffer_index e + 1\<rparr>) s"

text \<open>The four statements between lock and unlock, the same in both updates.\<close>

definition record_sample :: "'x argobots \<Rightarrow> addr \<Rightarrow> double \<Rightarrow> u64 \<Rightarrow> 'x server \<Rightarrow> 'x server res" where
  "record_sample A m v self s =
     rbind (store_sample m (\<lambda>y. y\<lparr>val := v\<rparr>) s) (\<lambda>s.
     rbind (store_time A m s) (\<lambda>s.
     rbind (store_sample m (\<lambda>y. y\<lparr>sample_id := self\<rparr>) s) (\<lambda>s.
     incr_index m s)))"

text \<open>The check before the lock: whether the value is refused.\<close>

definition update_refused :: "addr \<Rightarrow> double \<Rightarrow> 'x server \<Rightarrow> bool res" where
  "update_refused m v s =
     rbind (load (elems s) m) (\<lambda>e.
     case stype e of
       AGGREGATOR_TYPE_COUNTER \<Rightarrow>
         if 1 \<le> buffer_index e
         then rbind (read_sample m (buffer_index e - 1) s) (\<lambda>x. Inr (dgt (val x) v))
         else Inr False
     | AGGREGATOR_TYPE_TIMER \<Rightarrow> Inr (dlt v dzero)
     | AGGREGATOR_TYPE_GAUGE \<Rightarrow> Inr False)"

definition aggregator_stream_update :: "'x argobots \<Rightarrow> addr \<Rightarrow> double \<Rightarrow> 'x server \<Rightarrow>
    (aggregator_return_t \<times> 'x server) res" where
  "aggregator_stream_update A m v s =
     rbind (update_refused m v s) (\<lambda>refused.
     if refused then Inr (AGGREGATOR_ERR_INVALID_VALUE, s)
     else
       rbind (mutex_lock A m s) (\<lambda>s.
       let self = ABT_self_get_thread_id A (abt s) in
       rbind (record_sample A m v self s) (\<lambda>s.
       rbind (mutex_unlock A m s) (\<lambda>s.
       Inr (AGGREGATOR_SUCCESS, s)))))"

definition aggregator_stream_update_gauge_by_fixed_amount :: "'x argobots \<Rightarrow> addr \<Rightarrow> double \<Rightarrow> 'x server \<Rightarrow>
    (aggregator_return_t \<times> 'x server) res" where
  "aggregator_stream_update_gauge_by_fixed_amount A m diff s =
     rbind (load (elems s) m) (\<lambda>e.
     if stype e = AGGREGATOR_TYPE_COUNTER \<or> stype e = AGGREGATOR_TYPE_TIMER
     then Inr (AGGREGATOR_ERR_INVALID_VALUE, s)
     else
       rbind (mutex_lock A m s) (\<lambda>s.
       let self = ABT_self_get_thread_id A (abt s) in
       rbind (load (elems s) m) (\<lambda>e.
       rbind (if buffer_index e \<noteq> 0
              then rbind (read_sample m (buffer_index e - 1) s) (\<lambda>x. Inr (dadd (val x) diff))
              else Inr done1) (\<lambda>v.
       rbind (record_sample A m v self s) (\<lambda>s.
       rbind (mutex_unlock A m s) (\<lambda>s.
       Inr (AGGREGATOR_SUCCESS, s)))))))"

definition aggregator_stream_register_retrieval_callback :: "byte list \<Rightarrow> aggregator_return_t" where
  "aggregator_stream_register_retrieval_callback ns = AGGREGATOR_SUCCESS"

section \<open>The primitive steps\<close>

text \<open>The state after a store of \<open>x\<close> at the index of the stream's buffer.\<close>

definition put_sample :: "addr \<Rightarrow> aggregator_stream_sample \<Rightarrow> 'x server \<Rightarrow> 'x server" where
  "put_sample m x s = s\<lparr>bufs := (bufs s)\<lparr>cells := (cells (bufs s))(buffer (ST s m) :=
     Some ((sbuf s m)\<lparr>adat := (adat (sbuf s m))(unat (buffer_index (ST s m)) := x)\<rparr>))\<rparr>\<rparr>"

definition cur_sample :: "'x server \<Rightarrow> addr \<Rightarrow> aggregator_stream_sample" where
  "cur_sample s m = adat (sbuf s m) (unat (buffer_index (ST s m)))"

lemma ST_upd_simps [simp]:
  "ST (s\<lparr>bufs := h\<rparr>) = ST s" "ST (s\<lparr>abt := x\<rparr>) = ST s" "sbuf (s\<lparr>abt := x\<rparr>) = sbuf s"
  by (simp_all add: ST_def sbuf_def fun_eq_iff)

lemma stream_wf_abt [simp]: "stream_wf (s\<lparr>abt := x\<rparr>) m \<longleftrightarrow> stream_wf s m"
  by (simp add: stream_wf_def)

lemma samples_abt [simp]: "samples (s\<lparr>abt := x\<rparr>) m = samples s m"
  by (simp add: samples_def)

lemma put_sample_views [srv_simps]:
  "elems (put_sample m x s) = elems s" "tbls (put_sample m x s) = tbls s" "bkts (put_sample m x s) = bkts s"
  "oom (put_sample m x s) = oom s" "provs (put_sample m x s) = provs s" "tagls (put_sample m x s) = tagls s"
  "ptrs (put_sample m x s) = ptrs s" "strs (put_sample m x s) = strs s" "idarrs (put_sample m x s) = idarrs s"
  "abt (put_sample m x s) = abt s" "calls (put_sample m x s) = calls s" "ST (put_sample m x s) = ST s"
  "PR (put_sample m x s) = PR s"
  by (simp_all add: put_sample_def PR_def ST_def fun_eq_iff)

lemma sbuf_put_sample [srv_simps]:
  "sbuf (put_sample m x s) m = (sbuf s m)\<lparr>adat := (adat (sbuf s m))(unat (buffer_index (ST s m)) := x)\<rparr>"
  "buffer (ST s q) \<noteq> buffer (ST s m) \<Longrightarrow> sbuf (put_sample m x s) q = sbuf s q"
  by (simp_all add: sbuf_def put_sample_def)

lemma cur_put_sample [srv_simps]: "cur_sample (put_sample m x s) m = x"
  by (simp add: cur_sample_def srv_simps)

lemma put_sample_twice [simp]: "put_sample m x (put_sample m y s) = put_sample m x s"
proof -
  have "sbuf (put_sample m y s) m = (sbuf s m)\<lparr>adat := (adat (sbuf s m))(unat (buffer_index (ST s m)) := y)\<rparr>"
    "ST (put_sample m y s) = ST s" by (simp_all add: srv_simps)
  then show ?thesis by (simp add: put_sample_def [of m x] ) (simp add: put_sample_def)
qed

lemma put_sample_abt: "put_sample m x (s\<lparr>abt := a\<rparr>) = (put_sample m x s)\<lparr>abt := a\<rparr>"
  by (simp add: put_sample_def)

lemma live_put_sample [srv_simps]:
  "live (bufs s) (buffer (ST s m)) \<Longrightarrow> live (bufs (put_sample m x s)) = live (bufs s)"
  by (auto simp: live_def put_sample_def fun_eq_iff)

lemma stream_wf_put_sample [simp]:
  "stream_wf s m \<Longrightarrow> stream_wf (put_sample m x s) m"
  by (simp add: stream_wf_def srv_simps)

lemma store_sample_run:
  assumes wf: "stream_wf s m" and lt: "unat (buffer_index (ST s m)) < STREAM_BUFFER_SIZE"
  shows "store_sample m f s = Inr (put_sample m (f (cur_sample s m)) s)"
proof -
  from wf have "alen (sbuf s m) = STREAM_BUFFER_SIZE" "live (bufs s) (buffer (ST s m))"
    by (simp_all add: stream_wf_def)
  then show ?thesis
    using lt stream_wf_load [OF wf]
    by (simp add: store_sample_def aget_def aset_def cur_sample_def put_sample_def store_live)
qed

lemma store_sample_full:
  assumes wf: "stream_wf s m" and full: "unat (buffer_index (ST s m)) = STREAM_BUFFER_SIZE"
  shows "store_sample m f s = Inl OutOfBounds"
proof -
  from wf have "alen (sbuf s m) = STREAM_BUFFER_SIZE" by (simp add: stream_wf_def)
  then show ?thesis using full stream_wf_load [OF wf] by (simp add: store_sample_def aget_def)
qed

lemma read_sample_last:
  assumes wf: "stream_wf s m" and i: "buffer_index (ST s m) \<noteq> 0"
  shows "read_sample m (buffer_index (ST s m) - 1) s = Inr (last (samples s m))"
proof -
  let ?i = "buffer_index (ST s m)"
  have u: "unat (?i - 1) = unat ?i - 1" "0 < unat ?i"
    using i by (simp_all add: unat_minus_one unat_gt_0)
  moreover have "alen (sbuf s m) = STREAM_BUFFER_SIZE" "unat ?i \<le> STREAM_BUFFER_SIZE"
    using wf by (simp_all add: stream_wf_def)
  moreover have "last (samples s m) = adat (sbuf s m) (unat ?i - 1)"
  proof -
    have "samples s m \<noteq> []" using u length_samples [of s m] by (metis list.size(3) less_irrefl)
    then have "last (samples s m) = samples s m ! (unat ?i - 1)" by (simp add: last_conv_nth)
    also have "\<dots> = adat (sbuf s m) (unat ?i - 1)" using u by (simp add: samples_def nth_aslice)
    finally show ?thesis .
  qed
  ultimately show ?thesis using stream_wf_load [OF wf] by (simp add: read_sample_def aget_def)
qed

lemma sbuf_put_stream: "buffer e = buffer (ST s p) \<Longrightarrow> sbuf (put_stream p e s) = sbuf s"
  by (auto simp: sbuf_def srv_simps)

section \<open>One update\<close>

text \<open>Whether a stream of a type, with some samples, refuses a value.\<close>

definition refuses :: "aggregator_stream_type_t \<Rightarrow> double list \<Rightarrow> double \<Rightarrow> bool" where
  "refuses t vs v = (case t of
     AGGREGATOR_TYPE_COUNTER \<Rightarrow> vs \<noteq> [] \<and> dgt (last vs) v
   | AGGREGATOR_TYPE_TIMER \<Rightarrow> dlt v dzero
   | AGGREGATOR_TYPE_GAUGE \<Rightarrow> False)"

definition svals :: "'x server \<Rightarrow> addr \<Rightarrow> double list" where
  "svals s m = map val (samples s m)"

lemma unat_index: "unat (buffer_index (ST s m)) = length (svals s m)"
  by (simp add: svals_def)

lemma samples_Nil_iff: "samples s m = [] \<longleftrightarrow> buffer_index (ST s m) = 0"
  using length_samples [of s m] by (metis length_0_conv unat_eq_0)

lemma update_refused_iff:
  assumes wf: "stream_wf s m"
  shows "update_refused m v s = Inr (refuses (stype (ST s m)) (svals s m) v)"
proof -
  have "1 \<le> buffer_index (ST s m) \<longleftrightarrow> samples s m \<noteq> []"
    by (metis samples_Nil_iff word_less_1 not_le)
  then show ?thesis
    using read_sample_last [OF wf] stream_wf_load(1) [OF wf]
    by (auto simp: update_refused_def refuses_def svals_def samples_Nil_iff last_map
        split: aggregator_stream_type_t.splits)
qed


text \<open>The state after a sample has been recorded.\<close>

definition recorded :: "'x argobots \<Rightarrow> addr \<Rightarrow> double \<Rightarrow> u64 \<Rightarrow> 'x server \<Rightarrow> 'x server" where
  "recorded A m v self s =
     put_stream m ((ST s m)\<lparr>buffer_index := buffer_index (ST s m) + 1\<rparr>)
       (put_sample m \<lparr>time = fst (ABT_get_wtime A (abt s)), val = v, sample_id = self\<rparr>
         (s\<lparr>abt := snd (ABT_get_wtime A (abt s))\<rparr>))"

lemma cur_sample_abt [simp]: "cur_sample (s\<lparr>abt := x\<rparr>) m = cur_sample s m"
  by (simp add: cur_sample_def)

lemma live_abt [simp]: "live (elems (s\<lparr>abt := x\<rparr>)) = live (elems s)"
  by simp

lemma record_sample_run:
  assumes wf: "stream_wf s m" and lt: "unat (buffer_index (ST s m)) < STREAM_BUFFER_SIZE"
  shows "record_sample A m v self s = Inr (recorded A m v self s)"
proof -
  obtain t x where tx: "ABT_get_wtime A (abt s) = (t, x)" by (cases "ABT_get_wtime A (abt s)")
  let ?y = "cur_sample s m"
  have 1: "store_sample m (\<lambda>y. y\<lparr>val := v\<rparr>) s = Inr (put_sample m (?y\<lparr>val := v\<rparr>) s)"
    using wf lt by (rule store_sample_run)
  have 2: "store_time A m (put_sample m (?y\<lparr>val := v\<rparr>) s) = Inr (put_sample m (?y\<lparr>val := v, time := t\<rparr>) (s\<lparr>abt := x\<rparr>))"
    using wf lt
    by (simp add: store_time_def srv_simps tx store_sample_run put_sample_abt cur_put_sample flip: put_sample_abt)
  have 3: "store_sample m (\<lambda>y. y\<lparr>sample_id := self\<rparr>) (put_sample m (?y\<lparr>val := v, time := t\<rparr>) (s\<lparr>abt := x\<rparr>)) =
      Inr (put_sample m \<lparr>time = t, val = v, sample_id = self\<rparr> (s\<lparr>abt := x\<rparr>))"
  proof -
    have "?y\<lparr>val := v, time := t, sample_id := self\<rparr> = \<lparr>time = t, val = v, sample_id = self\<rparr>" by (cases ?y) simp
    moreover have "store_sample m (\<lambda>y. y\<lparr>sample_id := self\<rparr>) (put_sample m (?y\<lparr>val := v, time := t\<rparr>) (s\<lparr>abt := x\<rparr>)) =
        Inr (put_sample m (?y\<lparr>val := v, time := t, sample_id := self\<rparr>) (s\<lparr>abt := x\<rparr>))"
      using wf lt by (simp add: store_sample_run srv_simps cur_put_sample)
    ultimately show ?thesis by metis
  qed
  have l: "live (elems s) m" using wf by (simp add: stream_wf_def)
  show ?thesis
    using l by (simp add: record_sample_def 1 2 3 incr_index_def upd_stream_live srv_simps recorded_def tx)
qed

lemma recorded_views:
  fixes A :: "'x argobots" and v :: double and self :: u64
  assumes wf: "stream_wf s m" and lt: "unat (buffer_index (ST s m)) < STREAM_BUFFER_SIZE"
  defines "s' \<equiv> recorded A m v self s"
  shows "stream_wf s' m"
    "samples s' m = samples s m @ [\<lparr>time = fst (ABT_get_wtime A (abt s)), val = v, sample_id = self\<rparr>]"
    "abt s' = snd (ABT_get_wtime A (abt s))"
    "ST s' = (ST s)(m := (ST s m)\<lparr>buffer_index := buffer_index (ST s m) + 1\<rparr>)"
    "tbls s' = tbls s" "bkts s' = bkts s" "provs s' = provs s" "live (elems s') = live (elems s)"
    "live (bufs s') = live (bufs s)" "brk (bufs s') = brk (bufs s)" "brk (elems s') = brk (elems s)" "oom s' = oom s"
    "buffer (ST s q) \<noteq> buffer (ST s m) \<Longrightarrow> samples s' q = samples s q"
    "tagls s' = tagls s" "ptrs s' = ptrs s" "strs s' = strs s" "idarrs s' = idarrs s" "calls s' = calls s"
    "heap_ok (elems s) \<Longrightarrow> heap_ok (elems s')" "heap_ok (bufs s) \<Longrightarrow> heap_ok (bufs s')"
    "buffer (ST s q) \<noteq> buffer (ST s m) \<Longrightarrow> sbuf s' q = sbuf s q"
proof -
  let ?i = "unat (buffer_index (ST s m))"
  have l: "live (elems s) m" "live (bufs s) (buffer (ST s m))" using wf by (simp_all add: stream_wf_def)
  have "?i + 1 < 2 ^ 32" using lt by (simp add: STREAM_BUFFER_SIZE_def)
  then have i1: "unat (buffer_index (ST s m) + 1) = Suc ?i" by (simp add: unat_word_ariths)
  have ST': "ST s' = (ST s)(m := (ST s m)\<lparr>buffer_index := buffer_index (ST s m) + 1\<rparr>)"
    by (simp add: s'_def recorded_def srv_simps)
  have sb: "sbuf s' m = (sbuf s m)\<lparr>adat := (adat (sbuf s m))(?i :=
      \<lparr>time = fst (ABT_get_wtime A (abt s)), val = v, sample_id = self\<rparr>)\<rparr>"
    by (simp add: s'_def recorded_def sbuf_put_stream srv_simps)
  have lv: "live (elems s') = live (elems s)" "live (bufs s') = live (bufs s)"
    using l by (simp_all add: s'_def recorded_def srv_simps)
  show "stream_wf s' m"
    using wf lt by (simp add: stream_wf_def lv sb ST' i1)
  show "samples s' m = samples s m @ [\<lparr>time = fst (ABT_get_wtime A (abt s)), val = v, sample_id = self\<rparr>]"
    by (simp add: samples_def sb ST' i1 aslice_Suc aslice_upd_outside)
  show "abt s' = snd (ABT_get_wtime A (abt s))" "tbls s' = tbls s" "bkts s' = bkts s" "provs s' = provs s"
    "brk (bufs s') = brk (bufs s)" "brk (elems s') = brk (elems s)" "oom s' = oom s"
    by (simp_all add: s'_def recorded_def srv_simps) (simp add: put_sample_def)
  show "live (elems s') = live (elems s)" "live (bufs s') = live (bufs s)" by (rule lv)+
  show "ST s' = (ST s)(m := (ST s m)\<lparr>buffer_index := buffer_index (ST s m) + 1\<rparr>)" by (rule ST')
  show "tagls s' = tagls s" "ptrs s' = ptrs s" "strs s' = strs s" "idarrs s' = idarrs s" "calls s' = calls s"
    by (simp_all add: s'_def recorded_def srv_simps)
  show "heap_ok (elems s')" if "heap_ok (elems s)"
    using that l by (auto simp: s'_def recorded_def put_stream_def put_sample_def heap_ok_def live_def)
  show "heap_ok (bufs s')" if "heap_ok (bufs s)"
    using that l by (auto simp: s'_def recorded_def put_stream_def put_sample_def heap_ok_def live_def)
  show "sbuf s' q = sbuf s q" if "buffer (ST s q) \<noteq> buffer (ST s m)"
    using that by (simp add: s'_def recorded_def sbuf_put_stream srv_simps)
  show "samples s' q = samples s q" if "buffer (ST s q) \<noteq> buffer (ST s m)"
  proof -
    have "q \<noteq> m" using that by auto
    moreover have "sbuf s' q = sbuf s q"
      using that by (simp add: s'_def recorded_def sbuf_put_stream srv_simps)
    ultimately show ?thesis by (simp add: samples_def ST')
  qed
qed


text \<open>What one successful update does to the state.\<close>

definition appended :: "addr \<Rightarrow> double \<Rightarrow> ('x \<Rightarrow> addr \<rightharpoonup> bool) \<Rightarrow> 'x server \<Rightarrow> 'x server \<Rightarrow> bool" where
  "appended m v mv s s' \<longleftrightarrow>
     (\<exists>x. samples s' m = samples s m @ [x] \<and> val x = v) \<and> stream_wf s' m \<and> mv (abt s') = mv (abt s) \<and>
     ST s' = (ST s)(m := (ST s m)\<lparr>buffer_index := buffer_index (ST s m) + 1\<rparr>) \<and>
     tbls s' = tbls s \<and> bkts s' = bkts s \<and> provs s' = provs s \<and> oom s' = oom s \<and>
     live (elems s') = live (elems s) \<and> brk (elems s') = brk (elems s) \<and> live (bufs s') = live (bufs s) \<and>
     (\<forall>q. buffer (ST s q) \<noteq> buffer (ST s m) \<longrightarrow> samples s' q = samples s q \<and> sbuf s' q = sbuf s q) \<and>
     calls s' = calls s \<and> (heap_ok (elems s) \<longrightarrow> heap_ok (elems s')) \<and> (mem_ok s \<longrightarrow> mem_ok s')"

definition mutex_is :: "('x \<Rightarrow> addr \<rightharpoonup> bool) \<Rightarrow> bool \<Rightarrow> 'x server \<Rightarrow> addr \<Rightarrow> bool" where
  "mutex_is mv b s m \<longleftrightarrow> mv (abt s) (stream_mutex (ST s m)) = Some b"

lemma mutex_lock_ok:
  assumes A: "argobots_ok A mv" and wf: "stream_wf s m" and free: "mutex_is mv False s m"
  shows "\<exists>x. mutex_lock A m s = Inr (s\<lparr>abt := x\<rparr>) \<and> mv x = (mv (abt s))(stream_mutex (ST s m) \<mapsto> True)"
  using A free stream_wf_load(1) [OF wf] unfolding argobots_ok_def mutex_is_def mutex_lock_def by fastforce

lemma mutex_unlock_ok:
  assumes A: "argobots_ok A mv" and l: "live (elems s) m" and held: "mutex_is mv True s m"
  shows "\<exists>x. mutex_unlock A m s = Inr (s\<lparr>abt := x\<rparr>) \<and> mv x = (mv (abt s))(stream_mutex (ST s m) \<mapsto> False)"
  using A held load_stream_live [OF l] unfolding argobots_ok_def mutex_is_def mutex_unlock_def by fastforce

lemma wtime_mv: "argobots_ok A mv \<Longrightarrow> mv (snd (ABT_get_wtime A x)) = mv x"
  by (simp add: argobots_ok_def)

text \<open>Lock, record, unlock: the part both updates share.\<close>

lemma locked_record:
  assumes A: "argobots_ok A mv" and wf: "stream_wf s m" and free: "mutex_is mv False s m"
    and lt: "unat (buffer_index (ST s m)) < STREAM_BUFFER_SIZE"
  shows "\<exists>x s'. mutex_lock A m s = Inr (s\<lparr>abt := x\<rparr>) \<and>
    rbind (record_sample A m v self (s\<lparr>abt := x\<rparr>)) (\<lambda>s. rbind (mutex_unlock A m s) (\<lambda>s.
      Inr (AGGREGATOR_SUCCESS, s))) = Inr (AGGREGATOR_SUCCESS, s') \<and> appended m v mv s s'"
proof -
  from mutex_lock_ok [OF A wf free] obtain x where lock: "mutex_lock A m s = Inr (s\<lparr>abt := x\<rparr>)"
    and x: "mv x = (mv (abt s))(stream_mutex (ST s m) \<mapsto> True)" by blast
  define s1 where "s1 = s\<lparr>abt := x\<rparr>"
  have wf1: "stream_wf s1 m" and lt1: "unat (buffer_index (ST s1 m)) < STREAM_BUFFER_SIZE"
    using wf lt by (simp_all add: s1_def)
  define s2 where "s2 = recorded A m v self s1"
  note v = recorded_views [where A = A and v = v and self = self, OF wf1 lt1, folded s2_def]
  have rec: "record_sample A m v self s1 = Inr s2" unfolding s2_def by (rule record_sample_run [OF wf1 lt1])
  have "mutex_is mv True s2 m"
    using x by (simp add: mutex_is_def v(3,4) wtime_mv [OF A] s1_def)
  moreover have "live (elems s2) m" using v(1) by (simp add: stream_wf_def)
  ultimately obtain y where unlock: "mutex_unlock A m s2 = Inr (s2\<lparr>abt := y\<rparr>)"
    and y: "mv y = (mv (abt s2))(stream_mutex (ST s2 m) \<mapsto> False)"
    using mutex_unlock_ok [OF A] by blast
  have "mv y = mv (abt s)"
    using x y free by (auto simp: v(3,4) wtime_mv [OF A] s1_def mutex_is_def fun_upd_idem)
  then have "appended m v mv s (s2\<lparr>abt := y\<rparr>)"
    using v(1,2,4-) by (simp add: appended_def s1_def mem_ok_def no_oom_def)
  then show ?thesis using lock rec unlock by (auto simp: s1_def)
qed

lemma update_ok:
  assumes A: "argobots_ok A mv" and wf: "stream_wf s m" and free: "mutex_is mv False s m"
    and lt: "unat (buffer_index (ST s m)) < STREAM_BUFFER_SIZE"
    and acc: "\<not> refuses (stype (ST s m)) (svals s m) v"
  shows "\<exists>s'. aggregator_stream_update A m v s = Inr (AGGREGATOR_SUCCESS, s') \<and> appended m v mv s s'"
proof -
  from mutex_lock_ok [OF A wf free] obtain x where lock: "mutex_lock A m s = Inr (s\<lparr>abt := x\<rparr>)" by blast
  with locked_record [OF A wf free lt, of v "ABT_self_get_thread_id A x"] update_refused_iff [OF wf] acc
  show ?thesis by (auto simp: aggregator_stream_update_def Let_def)
qed

lemma update_invalid:
  assumes "stream_wf s m" "refuses (stype (ST s m)) (svals s m) v"
  shows "aggregator_stream_update A m v s = Inr (AGGREGATOR_ERR_INVALID_VALUE, s)"
  using update_refused_iff [OF assms(1)] assms(2) by (simp add: aggregator_stream_update_def)

text \<open>A full buffer: there is no check, the store goes past the end of the array.\<close>

lemma update_full:
  assumes A: "argobots_ok A mv" and wf: "stream_wf s m" and free: "mutex_is mv False s m"
    and full: "unat (buffer_index (ST s m)) = STREAM_BUFFER_SIZE"
    and acc: "\<not> refuses (stype (ST s m)) (svals s m) v"
  shows "aggregator_stream_update A m v s = Inl OutOfBounds"
proof -
  from mutex_lock_ok [OF A wf free] obtain x where "mutex_lock A m s = Inr (s\<lparr>abt := x\<rparr>)" by blast
  moreover have "record_sample A m v self (s\<lparr>abt := x\<rparr>) = Inl OutOfBounds" for self
    using wf full by (simp add: record_sample_def store_sample_full)
  ultimately show ?thesis
    using update_refused_iff [OF wf] acc by (simp add: aggregator_stream_update_def Let_def)
qed

text \<open>The gauge's next value: one more than nothing is 1, whatever the amount.\<close>

definition gauge_next :: "double list \<Rightarrow> double \<Rightarrow> double" where
  "gauge_next vs d = (if vs = [] then done1 else dadd (last vs) d)"

lemma gauge_update_ok:
  assumes A: "argobots_ok A mv" and wf: "stream_wf s m" and free: "mutex_is mv False s m"
    and lt: "unat (buffer_index (ST s m)) < STREAM_BUFFER_SIZE"
    and g: "stype (ST s m) = AGGREGATOR_TYPE_GAUGE"
  shows "\<exists>s'. aggregator_stream_update_gauge_by_fixed_amount A m d s = Inr (AGGREGATOR_SUCCESS, s') \<and>
    appended m (gauge_next (svals s m) d) mv s s'"
proof -
  have next_val: "(if buffer_index (ST s m) \<noteq> 0
      then rbind (read_sample m (buffer_index (ST s m) - 1) (s\<lparr>abt := x\<rparr>)) (\<lambda>y. Inr (dadd (val y) d))
      else Inr done1) = Inr (gauge_next (svals s m) d)" for x
  proof (cases "buffer_index (ST s m) = 0")
    case True
    then show ?thesis by (simp add: gauge_next_def svals_def samples_Nil_iff)
  next
    case False
    then have "samples s m \<noteq> []" by (simp add: samples_Nil_iff)
    then show ?thesis
      using False read_sample_last [of "s\<lparr>abt := x\<rparr>" m] wf
      by (simp add: gauge_next_def svals_def last_map)
  qed
  have l: "load (elems s) m = Inr (ST s m)" by (rule stream_wf_load(1) [OF wf])
  from mutex_lock_ok [OF A wf free] obtain x where lock: "mutex_lock A m s = Inr (s\<lparr>abt := x\<rparr>)" by blast
  from locked_record [OF A wf free lt, of "gauge_next (svals s m) d" "ABT_self_get_thread_id A x"] lock
  obtain s' where s': "rbind (record_sample A m (gauge_next (svals s m) d) (ABT_self_get_thread_id A x) (s\<lparr>abt := x\<rparr>))
      (\<lambda>s. rbind (mutex_unlock A m s) (\<lambda>s. Inr (AGGREGATOR_SUCCESS, s))) = Inr (AGGREGATOR_SUCCESS, s')"
    "appended m (gauge_next (svals s m) d) mv s s'" by auto
  have "aggregator_stream_update_gauge_by_fixed_amount A m d s = Inr (AGGREGATOR_SUCCESS, s')"
    using g by (simp add: aggregator_stream_update_gauge_by_fixed_amount_def l lock Let_def next_val s'(1))
  with s'(2) show ?thesis by blast
qed

lemma gauge_update_full:
  assumes A: "argobots_ok A mv" and wf: "stream_wf s m" and free: "mutex_is mv False s m"
    and full: "unat (buffer_index (ST s m)) = STREAM_BUFFER_SIZE"
    and g: "stype (ST s m) = AGGREGATOR_TYPE_GAUGE"
  shows "aggregator_stream_update_gauge_by_fixed_amount A m d s = Inl OutOfBounds"
proof -
  from mutex_lock_ok [OF A wf free] obtain x where lock: "mutex_lock A m s = Inr (s\<lparr>abt := x\<rparr>)" by blast
  have "buffer_index (ST s m) \<noteq> 0" using full by (auto simp: STREAM_BUFFER_SIZE_def)
  moreover from this have "read_sample m (buffer_index (ST s m) - 1) (s\<lparr>abt := x\<rparr>) = Inr (last (samples s m))"
    using read_sample_last [of "s\<lparr>abt := x\<rparr>" m] wf by simp
  moreover have "record_sample A m v self (s\<lparr>abt := x\<rparr>) = Inl OutOfBounds" for v self
    using wf full by (simp add: record_sample_def store_sample_full)
  ultimately show ?thesis
    using g stream_wf_load(1) [OF wf] by (simp add: aggregator_stream_update_gauge_by_fixed_amount_def lock Let_def)
qed

lemma gauge_update_wrong_type:
  assumes "live (elems s) m" "stype (ST s m) \<noteq> AGGREGATOR_TYPE_GAUGE"
  shows "aggregator_stream_update_gauge_by_fixed_amount A m d s = Inr (AGGREGATOR_ERR_INVALID_VALUE, s)"
  using assms by (cases "stype (ST s m)")
    (simp_all add: aggregator_stream_update_gauge_by_fixed_amount_def view_run)

section \<open>Sequences of updates\<close>

fun run_updates :: "'x argobots \<Rightarrow> addr \<Rightarrow> double list \<Rightarrow> 'x server \<Rightarrow> (aggregator_return_t list \<times> 'x server) res" where
  "run_updates A m [] s = Inr ([], s)"
| "run_updates A m (v # vs) s =
     rbind (aggregator_stream_update A m v s) (\<lambda>(r, s).
     rbind (run_updates A m vs s) (\<lambda>(rs, s). Inr (r # rs, s)))"

text \<open>The reference: what a stream of a type has recorded after the values \<open>vs\<close>.\<close>

fun accepted :: "aggregator_stream_type_t \<Rightarrow> double list \<Rightarrow> double list \<Rightarrow> double list" where
  "accepted t hist [] = hist"
| "accepted t hist (v # vs) = accepted t (if refuses t hist v then hist else hist @ [v]) vs"

lemma svals_appended: "appended m v mv s s' \<Longrightarrow> svals s' m = svals s m @ [v]"
  by (auto simp: appended_def svals_def)

lemma run_updates_ok:
  assumes A: "argobots_ok A mv" and "stream_wf s m" "mutex_is mv False s m"
    "length (svals s m) + length vs \<le> STREAM_BUFFER_SIZE"
  shows "\<exists>rs s'. run_updates A m vs s = Inr (rs, s') \<and> svals s' m = accepted (stype (ST s m)) (svals s m) vs \<and>
    stream_wf s' m \<and> mutex_is mv False s' m \<and> length rs = length vs"
  using assms(2-)
proof (induction vs arbitrary: s)
  case (Cons v vs)
  show ?case
  proof (cases "refuses (stype (ST s m)) (svals s m) v")
    case True
    with Cons.IH [of s] Cons.prems show ?thesis by (auto simp: update_invalid)
  next
    case False
    have lt: "unat (buffer_index (ST s m)) < STREAM_BUFFER_SIZE" using Cons.prems(3) by (simp add: svals_def)
    from update_ok [OF A Cons.prems(1,2) lt False] obtain s1 where
      s1: "aggregator_stream_update A m v s = Inr (AGGREGATOR_SUCCESS, s1)" "appended m v mv s s1" by blast
    have "mutex_is mv False s1 m" "stream_wf s1 m" "stype (ST s1 m) = stype (ST s m)"
      using s1(2) Cons.prems(2) by (auto simp: appended_def mutex_is_def)
    with Cons.IH [of s1] Cons.prems(3) s1 False svals_appended [OF s1(2)] show ?thesis by auto
  qed
qed auto

text \<open>What a type promises of the values: a counter never falls, a timer is never negative.\<close>

definition type_ok :: "aggregator_stream_type_t \<Rightarrow> double list \<Rightarrow> bool" where
  "type_ok t vs = (case t of
     AGGREGATOR_TYPE_COUNTER \<Rightarrow> successively (\<lambda>a b. \<not> dgt a b) vs
   | AGGREGATOR_TYPE_TIMER \<Rightarrow> \<forall>v \<in> set vs. \<not> dlt v dzero
   | AGGREGATOR_TYPE_GAUGE \<Rightarrow> True)"

lemma accepted_type_ok: "type_ok t hist \<Longrightarrow> type_ok t (accepted t hist vs)"
proof (induction vs arbitrary: hist)
  case (Cons v vs)
  have "type_ok t (hist @ [v])" if "\<not> refuses t hist v"
    using that Cons.prems by (cases t) (auto simp: type_ok_def refuses_def successively_append_iff)
  with Cons show ?case by simp
qed simp

lemma not_dgt_dval: "\<not> is_nan a \<Longrightarrow> \<not> is_nan b \<Longrightarrow> \<not> dgt a b \<longleftrightarrow> dval a \<le> dval b"
  by (simp add: dgt_def dlt_def dkey_less_iff not_less)

lemma counter_sorted:
  assumes "type_ok AGGREGATOR_TYPE_COUNTER vs" "\<forall>v \<in> set vs. \<not> is_nan v"
  shows "sorted (map dval vs)"
proof -
  have "successively (\<lambda>a b. dval a \<le> dval b) vs"
    using assms by (auto simp: type_ok_def not_dgt_dval elim!: successively_mono intro: successively_mono)
  then show ?thesis
    by (simp add: sorted_wrt_map successively_conv_sorted_wrt transp_def)
qed

lemma successively_stretch: "successively P xs \<Longrightarrow> successively P (take k (drop i xs))"
proof -
  assume "successively P xs"
  then have "successively P (take i xs @ take k (drop i xs) @ drop k (drop i xs))" by (simp only: append_take_drop_id)
  then show ?thesis unfolding successively_append_iff by blast
qed

lemma counter_stretch_sorted:
  assumes "type_ok AGGREGATOR_TYPE_COUNTER vs" "\<forall>v \<in> set (take k (drop i vs)). \<not> is_nan v"
  shows "sorted (map dval (take k (drop i vs)))"
  by (rule counter_sorted) (use assms in \<open>simp_all add: type_ok_def successively_stretch\<close>)

lemma timer_nonneg:
  assumes "type_ok AGGREGATOR_TYPE_TIMER vs" "v \<in> set vs" "\<not> is_nan v"
  shows "0 \<le> dval v"
proof -
  have "\<not> is_nan dzero" "dval dzero = 0"
    by (simp_all add: is_nan_def dval_def dsign_def dmag_def dzero_def inf_mag_def)
  then show ?thesis using assms by (auto simp: type_ok_def dlt_def dkey_less_iff)
qed

text \<open>Sequences of fixed-amount updates of a gauge: a running sum that starts at 1.\<close>

fun run_gauge :: "'x argobots \<Rightarrow> addr \<Rightarrow> double list \<Rightarrow> 'x server \<Rightarrow> 'x server res" where
  "run_gauge A m [] s = Inr s"
| "run_gauge A m (d # ds) s =
     rbind (aggregator_stream_update_gauge_by_fixed_amount A m d s) (\<lambda>(r, s). run_gauge A m ds s)"

fun gauge_sums :: "double list \<Rightarrow> double list \<Rightarrow> double list" where
  "gauge_sums hist [] = hist"
| "gauge_sums hist (d # ds) = gauge_sums (hist @ [gauge_next hist d]) ds"

lemma run_gauge_ok:
  assumes A: "argobots_ok A mv" and "stream_wf s m" "mutex_is mv False s m"
    "length (svals s m) + length ds \<le> STREAM_BUFFER_SIZE" "stype (ST s m) = AGGREGATOR_TYPE_GAUGE"
  shows "\<exists>s'. run_gauge A m ds s = Inr s' \<and> svals s' m = gauge_sums (svals s m) ds \<and> stream_wf s' m"
  using assms(2-)
proof (induction ds arbitrary: s)
  case (Cons d ds)
  have lt: "unat (buffer_index (ST s m)) < STREAM_BUFFER_SIZE" using Cons.prems(3) by (simp add: svals_def)
  from gauge_update_ok [OF A Cons.prems(1,2) lt Cons.prems(4)] obtain s1 where
    s1: "aggregator_stream_update_gauge_by_fixed_amount A m d s = Inr (AGGREGATOR_SUCCESS, s1)"
    "appended m (gauge_next (svals s m) d) mv s s1" by blast
  have "mutex_is mv False s1 m" "stream_wf s1 m" "stype (ST s1 m) = AGGREGATOR_TYPE_GAUGE"
    using s1(2) Cons.prems by (auto simp: appended_def mutex_is_def)
  with Cons.IH [of s1] Cons.prems(3) s1 svals_appended [OF s1(2)] show ?case by auto
qed auto

lemma set_accepted: "set (accepted t hist vs) \<subseteq> set hist \<union> set vs"
  by (induction t hist vs rule: accepted.induct) auto

lemma gauge_sums_scan:
  "hist \<noteq> [] \<Longrightarrow> gauge_sums hist ds = hist @ map (\<lambda>k. foldl dadd (last hist) (take (Suc k) ds)) [0..<length ds]"
proof (induction ds arbitrary: hist)
  case (Cons d ds)
  have "[0..<length (d # ds)] = 0 # map Suc [0..<length ds]" by (simp add: map_Suc_upt upt_conv_Cons del: upt_Suc)
  then show ?case using Cons by (simp add: gauge_next_def o_def)
qed simp

lemma gauge_sums_empty:
  "gauge_sums [] ds = map (\<lambda>k. foldl dadd done1 (take k (tl ds))) [0..<length ds]"
proof (cases ds)
  case (Cons d ds')
  have "[0..<length (d # ds')] = 0 # map Suc [0..<length ds']" by (simp add: map_Suc_upt upt_conv_Cons del: upt_Suc)
  then show ?thesis by (simp add: Cons gauge_next_def gauge_sums_scan o_def)
qed simp

end
