(* ===== verification/Process_Spec.thy ===== *)
theory Process_Spec
  imports Client_Rpc Stream_Update
begin

text \<open>
  What a process with a provider promises, without memory. Its state (\<open>astate\<close>) has two ordered lists of
  streams, each with the handle that its creation gave out: those that the provider knows
  under their identifiers (\<open>registry\<close> with its contents), and those that were created under an identifier
  in use, which only their handle leads to. For each call \<open>aexec\<close> gives the answer and the new
  state, and \<open>arun\<close> replays a trace of calls with their answers. \<open>Process\<close> shows that the code refines it.
\<close>

section \<open>The abstract streams\<close>

record astream =
  as_handle :: addr
  as_type :: aggregator_stream_type_t
  as_ns :: "byte list"
  as_name :: "byte list"
  as_desc :: "byte list"
  as_vals :: "double list"

record astate =
  named :: "(u32 \<times> astream) list"
  unnamed :: "(u32 \<times> astream) list"

text \<open>
  The calls on a process and what they answer. Creation is given the address that the allocator has
  next; updates and destruction take the handle of a stream, a fetch takes an identifier.
\<close>

datatype call =
    Make_tags
  | Drop_tags
  | Create addr u32 aggregator_stream_type_t "byte list" "byte list" "byte list"
  | Create_without_name
  | Update addr double
  | Gauge addr double
  | Fetch u32 u64 int
  | List_streams "u64 option"
  | Destroy addr
  | Destroy_all

datatype answer =
    Code aggregator_return_t
  | Created aggregator_return_t "addr option"
  | Fetched "double list" u64 "byte list" "byte list"
  | Fetch_failed u32
  | Listed u32 u64 "u32 list option"

definition by_handle :: "addr \<Rightarrow> astate \<Rightarrow> (u32 \<times> astream) option" where
  "by_handle h m = find (\<lambda>(i, a). as_handle a = h) (named m @ unnamed m)"

definition add_value :: "addr \<Rightarrow> double \<Rightarrow> u32 \<times> astream \<Rightarrow> u32 \<times> astream" where
  "add_value h v = (\<lambda>(i, a). (i, if as_handle a = h then a\<lparr>as_vals := as_vals a @ [v]\<rparr> else a))"

definition arecord :: "addr \<Rightarrow> double \<Rightarrow> astate \<Rightarrow> astate" where
  "arecord h v m = \<lparr>named = map (add_value h v) (named m), unnamed = map (add_value h v) (unnamed m)\<rparr>"

text \<open>
  \<open>None\<close> is a call that does not end well: an update through the handle of a stream that was destroyed,
  an accepted update of a full buffer, a fetch of an unknown identifier, a listing whose input does
  not decode, the destruction of a stream whose identifier is in use. Without streams the
  handle that is to be destroyed is not looked at.
\<close>

fun aexec :: "call \<Rightarrow> astate \<Rightarrow> (answer \<times> astate) option" where
  "aexec Make_tags m = Some (Code AGGREGATOR_SUCCESS, m)"
| "aexec Drop_tags m = Some (Code AGGREGATOR_SUCCESS, m)"
| "aexec (Create h i t ns name dsc) m =
     (let e = (i, \<lparr>as_handle = h, as_type = t, as_ns = ns, as_name = name, as_desc = dsc, as_vals = []\<rparr>) in
      Some (Created AGGREGATOR_SUCCESS (Some h),
        if i \<in> fst ` set (named m) then m\<lparr>unnamed := unnamed m @ [e]\<rparr> else m\<lparr>named := named m @ [e]\<rparr>))"
| "aexec Create_without_name m = Some (Created AGGREGATOR_ERR_INVALID_NAME None, m)"
| "aexec (Update h v) m =
     (case by_handle h m of
        None \<Rightarrow> None
      | Some (i, a) \<Rightarrow>
          if refuses (as_type a) (as_vals a) v then Some (Code AGGREGATOR_ERR_INVALID_VALUE, m)
          else if length (as_vals a) < STREAM_BUFFER_SIZE then Some (Code AGGREGATOR_SUCCESS, arecord h v m)
          else None)"
| "aexec (Gauge h d) m =
     (case by_handle h m of
        None \<Rightarrow> None
      | Some (i, a) \<Rightarrow>
          if as_type a \<noteq> AGGREGATOR_TYPE_GAUGE then Some (Code AGGREGATOR_ERR_INVALID_VALUE, m)
          else if length (as_vals a) < STREAM_BUFFER_SIZE
          then Some (Code AGGREGATOR_SUCCESS, arecord h (gauge_next (as_vals a) d) m)
          else None)"
| "aexec (Fetch i n tr) m =
     (case map_of (named m) i of
        None \<Rightarrow> None
      | Some a \<Rightarrow>
          Some (if tr = HG_SUCCESS
                then Fetched (last_n (unat n) (as_vals a) @ replicate (unat n - length (as_vals a)) dzero)
                       (of_nat (min (unat n) (length (as_vals a)))) (as_name a) (as_ns a)
                else Fetch_failed (ret_code AGGREGATOR_ERR_FROM_MERCURY), m))"
| "aexec (List_streams x) m =
     (case x of
        None \<Rightarrow> None
      | Some n \<Rightarrow> Some (Listed (ret_code AGGREGATOR_SUCCESS) (of_nat (min (length (named m)) (unat n)))
          (Some (take (unat n) (map fst (named m)))), m))"
| "aexec (Destroy h) m =
     (if named m = [] then Some (Code AGGREGATOR_ERR_INVALID_STREAM, m)
      else case by_handle h m of
        None \<Rightarrow> None
      | Some (i, a) \<Rightarrow> if i \<in> fst ` set (named m) then None else Some (Code AGGREGATOR_ERR_INVALID_STREAM, m))"
| "aexec Destroy_all m = Some (Code AGGREGATOR_SUCCESS, m\<lparr>named := []\<rparr>)"

fun arun :: "(call \<times> answer) list \<Rightarrow> astate \<Rightarrow> astate option" where
  "arun [] m = Some m"
| "arun ((c, a) # l) m =
     (case aexec c m of None \<Rightarrow> None | Some (b, m') \<Rightarrow> if a = b then arun l m' else None)"

lemma arun_snoc:
  "arun l m = Some m1 \<Longrightarrow> aexec c m1 = Some (a, m2) \<Longrightarrow> arun (l @ [(c, a)]) m = Some m2"
  by (induction l arbitrary: m) (auto split: option.splits if_splits)

text \<open>The handles that the creations of a trace have given out, and the handle that a call takes.\<close>

fun handle_given :: "answer \<Rightarrow> addr set" where
  "handle_given (Created r (Some h)) = {h}"
| "handle_given _ = {}"

definition given_handles :: "(call \<times> answer) list \<Rightarrow> addr set" where
  "given_handles l = (\<Union>x \<in> set l. handle_given (snd x))"

fun handle_used :: "call \<Rightarrow> addr set" where
  "handle_used (Update h v) = {h}"
| "handle_used (Gauge h v) = {h}"
| "handle_used (Destroy h) = {h}"
| "handle_used _ = {}"

section \<open>The abstraction\<close>

definition strm :: "'x server \<Rightarrow> addr \<Rightarrow> astream" where
  "strm s x = \<lparr>as_handle = x, as_type = stype (ST s x), as_ns = cstring (sns (ST s x)), as_name = cstring (sname (ST s x)),
     as_desc = cstring (desc (ST s x)), as_vals = svals s x\<rparr>"

lemma strm_simps [simp]:
  "as_handle (strm s x) = x" "as_type (strm s x) = stype (ST s x)" "as_ns (strm s x) = cstring (sns (ST s x))"
  "as_name (strm s x) = cstring (sname (ST s x))" "as_desc (strm s x) = cstring (desc (ST s x))"
  "as_vals (strm s x) = svals s x"
  by (simp_all add: strm_def)

definition astreams :: "'x server \<Rightarrow> addr list \<Rightarrow> (u32 \<times> astream) list" where
  "astreams s xs = map (\<lambda>x. (SID s x, strm s x)) xs"

lemma astreams_simps [simp]:
  "astreams s [] = []" "length (astreams s xs) = length xs" "map fst (astreams s xs) = map (SID s) xs"
  "fst ` set (astreams s xs) = SID s ` set xs" "astreams s (xs @ ys) = astreams s xs @ astreams s ys"
  by (simp_all add: astreams_def image_image)

lemma map_of_astreams: "map_of (astreams s xs) i = map_option (strm s) (registry s xs i)"
  unfolding astreams_def registry_def index_map_def by (induction xs) auto

text \<open>A change of memory that leaves the streams' objects and buffers alone.\<close>

lemma astreams_same:
  assumes "elems s' = elems s" "cells (bufs s') = cells (bufs s)"
  shows "astreams s' xs = astreams s xs"
proof -
  have v: "ST s' = ST s" using assms by (simp add: ST_def fun_eq_iff)
  have "sbuf s' x = sbuf s x" for x using assms v by (simp add: sbuf_def)
  then have "svals s' x = svals s x" for x by (simp add: svals_def samples_def v)
  moreover have "SID s' = SID s" using v by (simp add: SID_ST fun_eq_iff)
  ultimately show ?thesis by (simp add: astreams_def strm_def v)
qed

lemma astreams_cong: "(\<And>x. x \<in> set xs \<Longrightarrow> SID s' x = SID s x \<and> strm s' x = strm s x) \<Longrightarrow> astreams s' xs = astreams s xs"
  by (simp add: astreams_def)

text \<open>The abstract state of a memory with the streams \<open>xs\<close>, known to the provider, and \<open>zs\<close>.\<close>

definition astate_of :: "'x server \<Rightarrow> addr list \<Rightarrow> addr list \<Rightarrow> astate" where
  "astate_of s xs zs = \<lparr>named = astreams s xs, unnamed = astreams s zs\<rparr>"

lemma astate_of_simps [simp]:
  "named (astate_of s xs zs) = astreams s xs" "unnamed (astate_of s xs zs) = astreams s zs"
  "astate_of s [] [] = \<lparr>named = [], unnamed = []\<rparr>"
  by (simp_all add: astate_of_def)

lemma by_handle_astate: "by_handle h (astate_of s xs zs) = (if h \<in> set xs \<union> set zs then Some (SID s h, strm s h) else None)"
proof -
  have "find (\<lambda>(i, a). as_handle a = h) (astreams s ys) = (if h \<in> set ys then Some (SID s h, strm s h) else None)" for ys
    by (induction ys) (auto simp: astreams_def)
  from this [of "xs @ zs"] show ?thesis by (simp add: by_handle_def)
qed

lemma astate_same:
  assumes "elems s' = elems s" "cells (bufs s') = cells (bufs s)"
  shows "astate_of s' xs zs = astate_of s xs zs"
  using assms by (simp add: astate_of_def astreams_same [OF assms])

lemma appended_astreams:
  assumes ap: "appended m v mv s s'" and inj: "inj_on (\<lambda>x. buffer (ST s x)) (insert m (set xs))"
  shows "astreams s' xs = map (add_value m v) (astreams s xs)"
proof -
  have ST': "ST s' = (ST s)(m := (ST s m)\<lparr>buffer_index := buffer_index (ST s m) + 1\<rparr>)" using ap by (simp add: appended_def)
  have sid: "SID s' = SID s" by (simp add: SID_ST ST' fun_eq_iff)
  have sv: "svals s' x = (if x = m then svals s m @ [v] else svals s x)" if "x \<in> set xs" for x
  proof (cases "x = m")
    case True
    then show ?thesis using svals_appended [OF ap] by simp
  next
    case False
    then have "buffer (ST s x) \<noteq> buffer (ST s m)" using inj_onD [OF inj, of x m] that by auto
    then show ?thesis using ap False by (simp add: appended_def svals_def)
  qed
  have "strm s' x = (if x = m then (strm s x)\<lparr>as_vals := as_vals (strm s x) @ [v]\<rparr> else strm s x)" if "x \<in> set xs" for x
    using sv [OF that] by (auto simp: strm_def ST')
  then show ?thesis by (simp add: astreams_def add_value_def sid)
qed

lemma appended_astate:
  assumes "appended m v mv s s'" "inj_on (\<lambda>x. buffer (ST s x)) (set xs \<union> set zs)" "m \<in> set xs \<union> set zs"
  shows "astate_of s' xs zs = arecord m v (astate_of s xs zs)"
proof -
  have "inj_on (\<lambda>x. buffer (ST s x)) (insert m (set xs))" "inj_on (\<lambda>x. buffer (ST s x)) (insert m (set zs))"
    by (rule inj_on_subset [OF assms(2)]; use assms(3) in auto)+
  from this [THEN appended_astreams [OF assms(1)]] show ?thesis by (simp add: astate_of_def arecord_def)
qed

end
