(* ===== verification/Process.thy ===== *)
theory Process
  imports Process_Spec
begin

text \<open>
  A process that runs a provider: every sequence of the operations that a microservice and the
  RPC handlers make on it, one operation at a time. \<open>process_inv\<close> is the invariant of the whole: the
  hash table holds the registered streams under distinct identifiers, each has a buffer and a mutex
  of its own, the mutex is free, and its values keep what its type promises. \<open>process_all\<close> adds the streams that the provider does not know. A call ends exactly when the
  specification of \<open>Process_Spec\<close> has an answer, with that answer and its effect (\<open>pcall_refines\<close>);
  so does every sequence of calls (\<open>preach_refines\<close>).
\<close>

section \<open>The invariant\<close>

definition stream_ok :: "('x \<Rightarrow> addr \<rightharpoonup> bool) \<Rightarrow> 'x server \<Rightarrow> addr \<Rightarrow> bool" where
  "stream_ok mv s x \<longleftrightarrow> stream_wf s x \<and> mutex_is mv False s x \<and> type_ok (stype (ST s x)) (svals s x)"

definition process_inv :: "('x \<Rightarrow> addr \<rightharpoonup> bool) \<Rightarrow> 'x server \<Rightarrow> addr \<Rightarrow> addr list \<Rightarrow> bool" where
  "process_inv mv s p xs \<longleftrightarrow> prov_inv s p xs \<and> mem_ok s \<and> (\<forall>x \<in> set xs. stream_ok mv s x) \<and>
     inj_on (\<lambda>x. buffer (ST s x)) (set xs) \<and> inj_on (\<lambda>x. stream_mutex (ST s x)) (set xs)"

lemma process_inv_prov: "process_inv mv s p xs \<Longrightarrow> prov_inv s p xs"
  by (simp add: process_inv_def)

text \<open>
  The same with the streams \<open>zs\<close> that the provider does not know, those whose creation found the
  identifier in use.
\<close>

definition process_all :: "('x \<Rightarrow> addr \<rightharpoonup> bool) \<Rightarrow> 'x server \<Rightarrow> addr \<Rightarrow> addr list \<Rightarrow> addr list \<Rightarrow> bool" where
  "process_all mv s p xs zs \<longleftrightarrow> process_inv mv s p xs \<and> (\<forall>x \<in> set zs. stream_ok mv s x) \<and> set xs \<inter> set zs = {} \<and>
     inj_on (\<lambda>x. buffer (ST s x)) (set xs \<union> set zs) \<and> inj_on (\<lambda>x. stream_mutex (ST s x)) (set xs \<union> set zs)"

lemma process_all_Nil [simp]: "process_all mv s p xs [] \<longleftrightarrow> process_inv mv s p xs"
  by (auto simp: process_all_def process_inv_def)

lemma process_all_inv: "process_all mv s p xs zs \<Longrightarrow> process_inv mv s p xs"
  by (simp add: process_all_def)

lemma process_all_stream: "process_all mv s p xs zs \<Longrightarrow> x \<in> set xs \<union> set zs \<Longrightarrow> stream_ok mv s x"
  by (auto simp: process_all_def process_inv_def)

text \<open>A change of memory that no stream sees.\<close>

lemma process_allI:
  assumes "prov_inv s p xs" "mem_ok s" "\<And>x. x \<in> set xs \<union> set zs \<Longrightarrow> stream_ok mv s x" "set xs \<inter> set zs = {}"
    "inj_on (\<lambda>x. buffer (ST s x)) (set xs \<union> set zs)" "inj_on (\<lambda>x. stream_mutex (ST s x)) (set xs \<union> set zs)"
  shows "process_all mv s p xs zs"
  using assms inj_on_subset [OF assms(5), of "set xs"] inj_on_subset [OF assms(6), of "set xs"]
  by (simp add: process_all_def process_inv_def)

lemma stream_ok_same:
  assumes "elems s' = elems s" "cells (bufs s') = cells (bufs s)" "abt s' = abt s"
  shows "stream_ok mv s' x = stream_ok mv s x"
proof -
  have v: "ST s' = ST s" using assms by (simp add: ST_def fun_eq_iff)
  have b: "sbuf s' x = sbuf s x" using assms v by (simp add: sbuf_def)
  then have "svals s' x = svals s x" by (simp add: svals_def samples_def v)
  then show ?thesis using assms v b by (simp add: stream_ok_def stream_wf_def mutex_is_def live_def)
qed

lemma process_inv_same:
  assumes inv: "process_inv mv s p xs"
    and same: "elems s' = elems s" "tbls s' = tbls s" "bkts s' = bkts s" "provs s' = provs s"
    "cells (bufs s') = cells (bufs s)" "abt s' = abt s" and mem: "mem_ok s'"
  shows "process_inv mv s' p xs"
proof -
  have v: "ST s' = ST s" using same by (simp add: ST_def fun_eq_iff)
  have "prov_inv s' p xs" using prov_inv_same(1) [OF same(1-4)] inv by (simp add: process_inv_def)
  then show ?thesis using inv mem v stream_ok_same [OF same(1,5,6)] by (simp add: process_inv_def)
qed

lemma process_all_keep:
  assumes all: "process_all mv s p xs zs" and "process_inv mv s' p xs"
    and same: "elems s' = elems s" "cells (bufs s') = cells (bufs s)" "abt s' = abt s"
  shows "process_all mv s' p xs zs"
proof -
  have v: "ST s' = ST s" using same by (simp add: ST_def fun_eq_iff)
  then show ?thesis using assms stream_ok_same [OF same] by (simp add: process_all_def)
qed

lemma type_ok_append: "type_ok t vs \<Longrightarrow> \<not> refuses t vs v \<Longrightarrow> type_ok t (vs @ [v])"
  by (cases t) (auto simp: type_ok_def refuses_def successively_append_iff)

section \<open>Every operation keeps it\<close>

text \<open>A sample appended to a stream: what the others and the provider see of it.\<close>

lemma appended_fields:
  assumes "appended m v mv s s'"
  shows "ST s' = (ST s)(m := (ST s m)\<lparr>buffer_index := buffer_index (ST s m) + 1\<rparr>)"
    "hh (ST s' x) = hh (ST s x)" "sid (ST s' x) = sid (ST s x)" "buffer (ST s' x) = buffer (ST s x)"
    "stream_mutex (ST s' x) = stream_mutex (ST s x)" "stype (ST s' x) = stype (ST s x)"
  using assms by (simp_all add: appended_def)

lemma prov_inv_appended:
  assumes pi: "prov_inv s p xs" and ap: "appended m v mv s s'"
  shows "prov_inv s' p xs"
proof -
  note f = appended_fields [OF ap]
  have same: "tbls s' = tbls s" "bkts s' = bkts s" "provs s' = provs s" "live (elems s') = live (elems s)"
    and hk: "heap_ok (elems s')" using pi ap by (simp_all add: appended_def prov_inv_def ut_inv_def ut_mem_ok_def)
  have PR': "PR s' = PR s" using same by (simp add: PR_def fun_eq_iff)
  have "ut_inv s' (streams (PR s p)) xs"
    by (rule ut_inv_agree [of s]) (use pi hk same ut_inv_live in \<open>auto simp: prov_inv_def HH_ST SID_ST f(2,3)\<close>)
  then show ?thesis using pi same PR' by (simp add: prov_inv_def)
qed

lemma stream_ok_appended:
  assumes ok: "stream_ok mv s x" and ap: "appended m v mv s s'"
    and m: "x = m \<Longrightarrow> type_ok (stype (ST s m)) (svals s m @ [v])"
    and other: "x \<noteq> m \<Longrightarrow> buffer (ST s x) \<noteq> buffer (ST s m)"
  shows "stream_ok mv s' x"
proof -
  note f = appended_fields [OF ap]
  have same: "live (elems s') = live (elems s)" "live (bufs s') = live (bufs s)" and mvs: "mv (abt s') = mv (abt s)"
    and wf: "stream_wf s' m" using ap by (simp_all add: appended_def)
  show ?thesis
  proof (cases "x = m")
    case True
    then have "mutex_is mv False s' x" using ok mvs f(5) by (simp add: stream_ok_def mutex_is_def)
    with True wf m svals_appended [OF ap] f(6) show ?thesis by (simp add: stream_ok_def)
  next
    case False
    then have sb: "sbuf s' x = sbuf s x" and sa: "samples s' x = samples s x" using other ap by (simp_all add: appended_def)
    have e: "ST s' x = ST s x" using False f(1) by simp
    show ?thesis using ok same mvs by (simp add: stream_ok_def stream_wf_def mutex_is_def sb e svals_def sa)
  qed
qed

lemma process_all_appended:
  assumes all: "process_all mv s p xs zs" and m: "m \<in> set xs \<union> set zs" and ap: "appended m v mv s s'"
    and ty: "type_ok (stype (ST s m)) (svals s m @ [v])"
  shows "process_all mv s' p xs zs"
proof -
  note f = appended_fields [OF ap]
  have inj: "inj_on (\<lambda>x. buffer (ST s x)) (set xs \<union> set zs)" using all by (simp add: process_all_def)
  have "stream_ok mv s' x" if x: "x \<in> set xs \<union> set zs" for x
    using stream_ok_appended [OF process_all_stream [OF all x] ap ty] inj_onD [OF inj _ x m] by blast
  moreover have "prov_inv s' p xs" using prov_inv_appended [OF _ ap] all by (simp add: process_all_def process_inv_def)
  moreover have "mem_ok s'" using all ap by (simp add: process_all_def process_inv_def appended_def)
  ultimately show ?thesis using all by (simp add: process_all_def process_inv_def f(4,5))
qed

lemma process_appended:
  assumes "process_inv mv s p xs" "m \<in> set xs" "appended m v mv s s'"
    and "type_ok (stype (ST s m)) (svals s m @ [v])"
  shows "process_inv mv s' p xs"
  using process_all_appended [of mv s p xs "[]" m v s'] assms by simp

text \<open>Creation: the new object is a stream of its own, the others are as they were.\<close>

lemma create_new_ok:
  assumes A: "argobots_ok A mv" and hb: "heap_ok (bufs s)" and st: "live (elems s') st" "stream_init i ns name t dsc tgl (ST s' st)"
    "buffer (ST s' st) = brk (bufs s)" "stream_mutex (ST s' st) = fst (ABT_mutex_create A (abt s))"
    and ab: "abt s' = snd (ABT_mutex_create A (abt s))"
    and bf: "cells (bufs s') = (cells (bufs s))(brk (bufs s) := Some (azero STREAM_BUFFER_SIZE zero_sample))"
  shows "stream_ok mv s' st" "SID s' st = i" "strm s' st = \<lparr>as_handle = st, as_type = t, as_ns = cstring (the ns),
    as_name = cstring (the name), as_desc = cstring (the dsc), as_vals = []\<rparr>"
proof -
  have mc: "mv (abt s') = (mv (abt s))(fst (ABT_mutex_create A (abt s)) \<mapsto> False)"
    using A unfolding argobots_ok_def ab by (metis prod.collapse)
  have "sbuf s' st = azero STREAM_BUFFER_SIZE zero_sample" using bf st(3) by (simp add: sbuf_def)
  then have sb: "alen (sbuf s' st) = STREAM_BUFFER_SIZE" by (simp add: azero_def)
  have "live (bufs s') (buffer (ST s' st))" unfolding st(3) using hb bf by (simp add: live_def heap_ok_def)
  then have "stream_wf s' st" using st(1,2) sb by (simp add: stream_wf_def stream_init_def)
  moreover have "mutex_is mv False s' st" using mc st(4) by (simp add: mutex_is_def)
  moreover have v: "svals s' st = []" using st(2) by (simp add: svals_def samples_def stream_init_def)
  moreover have "type_ok u []" for u by (cases u) (simp_all add: type_ok_def)
  ultimately show "stream_ok mv s' st" by (simp add: stream_ok_def)
  show "SID s' st = i" "strm s' st = \<lparr>as_handle = st, as_type = t, as_ns = cstring (the ns),
    as_name = cstring (the name), as_desc = cstring (the dsc), as_vals = []\<rparr>"
    using st(2) v by (simp_all add: SID_ST strm_def stream_init_def)
qed

lemma create_old_ok:
  assumes A: "argobots_ok A mv" and hb: "heap_ok (bufs s)" and fr: "create_frame s s'" and ok: "stream_ok mv s x"
    and ab: "abt s' = snd (ABT_mutex_create A (abt s))"
    and bf: "cells (bufs s') = (cells (bufs s))(brk (bufs s) := Some B)"
  shows "stream_ok mv s' x" "SID s' x = SID s x" "strm s' x = strm s x" "buffer (ST s' x) = buffer (ST s x)"
    "stream_mutex (ST s' x) = stream_mutex (ST s x)" "buffer (ST s x) \<noteq> brk (bufs s)"
    "stream_mutex (ST s x) \<noteq> fst (ABT_mutex_create A (abt s))"
proof -
  define m where "m = fst (ABT_mutex_create A (abt s))"
  have mc: "mv (abt s) m = None" "mv (abt s') = (mv (abt s))(m \<mapsto> False)"
    using A unfolding argobots_ok_def ab m_def by (metis prod.collapse)+
  have o: "stream_wf s x" "mutex_is mv False s x" "type_ok (stype (ST s x)) (svals s x)"
    using ok by (simp_all add: stream_ok_def)
  have le: "live (elems s) x" and lb: "live (bufs s) (buffer (ST s x))" using o(1) by (simp_all add: stream_wf_def)
  have same: "ST_same (ST s x) (ST s' x)" and le': "live (elems s') x" using fr le by (simp_all add: create_frame_def)
  note f = ST_same_fields [OF same]
  have nb: "buffer (ST s x) \<noteq> brk (bufs s)" using heap_ok_live_lt [OF hb lb] by simp
  have nm: "stream_mutex (ST s x) \<noteq> m" using o(2) mc(1) by (auto simp: mutex_is_def)
  have sb: "sbuf s' x = sbuf s x" using nb bf by (simp add: sbuf_def f)
  have lb': "live (bufs s') (buffer (ST s x))" using lb nb bf by (simp add: live_def)
  have "stream_wf s' x" using o(1) le' lb' by (simp add: stream_wf_def f sb)
  moreover have "mutex_is mv False s' x" using o(2) nm mc(2) by (simp add: mutex_is_def f)
  moreover have sv: "svals s' x = svals s x" by (simp add: svals_def samples_def sb f)
  ultimately show "stream_ok mv s' x" using o(3) by (simp add: stream_ok_def f)
  show "SID s' x = SID s x" "strm s' x = strm s x" using sv by (simp_all add: SID_ST strm_def f)
  show "buffer (ST s' x) = buffer (ST s x)" "stream_mutex (ST s' x) = stream_mutex (ST s x)" by (rule f)+
  show "buffer (ST s x) \<noteq> brk (bufs s)" "stream_mutex (ST s x) \<noteq> fst (ABT_mutex_create A (abt s))"
    using nb nm by (simp_all add: m_def)
qed

lemma inj_on_new:
  assumes "inj_on f S" "\<And>x. x \<in> S \<Longrightarrow> g x = f x" "\<And>x. x \<in> S \<Longrightarrow> f x \<noteq> g y"
  shows "inj_on g (insert y S)"
  using assms by (simp add: inj_on_def) metis

lemma process_all_create:
  fixes s :: "'x server"
  assumes A: "argobots_ok A mv" and all: "process_all mv s p xs zs" and pre: "create_pre ns name dsc tgl s i"
    and room: "ut_room s (streams (PR s p)) xs"
  defines "st \<equiv> brk (elems s)"
  defines "xs' \<equiv> if registry s xs i = None then xs @ [st] else xs"
  defines "zs' \<equiv> if registry s xs i = None then zs else zs @ [st]"
  shows "\<exists>s'. aggregator_stream_create A ns name t dsc tgl p s = Inr (AGGREGATOR_SUCCESS, Some st, s') \<and>
    process_all mv s' p xs' zs' \<and> (\<forall>q. live (elems s') q \<longleftrightarrow> live (elems s) q \<or> q = st) \<and>
    aexec (Create st i t (cstring (the ns)) (cstring (the name)) (cstring (the dsc))) (astate_of s xs zs) =
      Some (Created AGGREGATOR_SUCCESS (Some st), astate_of s' xs' zs')"
proof -
  have pi: "prov_inv s p xs" and mem: "mem_ok s"
    and inj: "inj_on (\<lambda>x. buffer (ST s x)) (set xs \<union> set zs)" "inj_on (\<lambda>x. stream_mutex (ST s x)) (set xs \<union> set zs)"
    and dis: "set xs \<inter> set zs = {}"
    using all by (simp_all add: process_all_def process_inv_def)
  from stream_create_cases [OF pre pi room, of A t, folded st_def] obtain s' where
    run: "aggregator_provider_stream_create A ns name t dsc tgl p s = Inr (AGGREGATOR_SUCCESS, Some st, s')"
    and st: "live (elems s') st" "stream_init i ns name t dsc tgl (ST s' st)"
      "buffer (ST s' st) = brk (bufs s)" "stream_mutex (ST s' st) = fst (ABT_mutex_create A (abt s))"
    and ab: "abt s' = snd (ABT_mutex_create A (abt s))"
    and bf: "cells (bufs s') = (cells (bufs s))(brk (bufs s) := Some (azero STREAM_BUFFER_SIZE zero_sample))"
    and fr: "create_frame s s'"
    and reg: "if registry s xs i = None
       then prov_inv s' p (xs @ [st]) \<and> registry s' (xs @ [st]) = (registry s xs)(i \<mapsto> st) \<and>
         ut_log2 s' (streams (PR s' p)) \<le> Suc (ut_log2 s (streams (PR s p)))
       else prov_inv s' p xs \<and> registry s' xs = registry s xs" by blast
  have mem': "mem_ok s'" using create_frame_mem_ok [OF fr mem bf] .
  have hb: "heap_ok (bufs s)" using mem by (simp add: mem_ok_def)
  have lv: "\<forall>q. live (elems s') q \<longleftrightarrow> live (elems s) q \<or> q = st" using fr by (simp add: create_frame_def st_def)
  note new = create_new_ok [OF A hb st ab bf]
  note old = create_old_ok [OF A hb fr process_all_stream [OF all] ab bf]
  have "heap_ok (elems s)" using pi by (simp add: prov_inv_def ut_inv_def ut_mem_ok_def)
  then have nst: "st \<notin> set xs \<union> set zs"
    using process_all_stream [OF all] heap_ok_live_lt by (force simp: stream_ok_def stream_wf_def st_def)
  have set': "set xs' \<union> set zs' = insert st (set xs \<union> set zs)" by (simp add: xs'_def zs'_def)
  have "inj_on (\<lambda>x. buffer (ST s' x)) (insert st (set xs \<union> set zs))"
    by (rule inj_on_new [OF inj(1)]) (use old(4,6) st(3) in auto)
  moreover have "inj_on (\<lambda>x. stream_mutex (ST s' x)) (insert st (set xs \<union> set zs))"
    by (rule inj_on_new [OF inj(2)]) (use old(5,7) st(4) in auto)
  moreover have "stream_ok mv s' x" if "x \<in> set xs' \<union> set zs'" for x
    using that old(1) new(1) unfolding set' by blast
  moreover have "prov_inv s' p xs'" using reg by (auto simp: xs'_def)
  moreover have "set xs' \<inter> set zs' = {}" using dis nst by (auto simp: xs'_def zs'_def)
  ultimately have all': "process_all mv s' p xs' zs'" using mem' by (intro process_allI) (simp_all add: set')
  have "astreams s' xs = astreams s xs" "astreams s' zs = astreams s zs"
    by (rule astreams_cong; use old(2,3) in auto)+
  moreover have "i \<in> SID s ` set xs \<longleftrightarrow> registry s xs i \<noteq> None" by (simp add: registry_def index_map_None_iff)
  moreover have "astreams s' [st] = [(i, \<lparr>as_handle = st, as_type = t, as_ns = cstring (the ns),
    as_name = cstring (the name), as_desc = cstring (the dsc), as_vals = []\<rparr>)]" using new(2,3) by (simp add: astreams_def)
  ultimately have "aexec (Create st i t (cstring (the ns)) (cstring (the name)) (cstring (the dsc))) (astate_of s xs zs) =
      Some (Created AGGREGATOR_SUCCESS (Some st), astate_of s' xs' zs')"
    by (simp add: xs'_def zs'_def astate_of_def Let_def)
  with run all' lv show ?thesis by (simp add: aggregator_stream_create_def)
qed

lemma process_create:
  assumes A: "argobots_ok A mv" and inv: "process_inv mv s p xs" and pre: "create_pre ns name dsc tgl s i"
    and room: "ut_room s (streams (PR s p)) xs"
  shows "\<exists>st s' ys. aggregator_stream_create A ns name t dsc tgl p s = Inr (AGGREGATOR_SUCCESS, Some st, s') \<and>
    process_inv mv s' p ys \<and> (if registry s xs i = None then ys = xs @ [st] else ys = xs) \<and>
    astreams s' ys = (if registry s xs i = None
      then astreams s xs @ [(i, \<lparr>as_handle = st, as_type = t, as_ns = cstring (the ns), as_name = cstring (the name),
        as_desc = cstring (the dsc), as_vals = []\<rparr>)]
      else astreams s xs)"
proof -
  have "process_all mv s p xs []" using inv by simp
  from process_all_create [OF A this pre room, of t, unfolded append_Nil] obtain s' where
    s': "aggregator_stream_create A ns name t dsc tgl p s = Inr (AGGREGATOR_SUCCESS, Some (brk (elems s)), s')"
      "process_all mv s' p (if registry s xs i = None then xs @ [brk (elems s)] else xs) (if registry s xs i = None then [] else [brk (elems s)])"
      "aexec (Create (brk (elems s)) i t (cstring (the ns)) (cstring (the name)) (cstring (the dsc))) (astate_of s xs []) =
      Some (Created AGGREGATOR_SUCCESS (Some (brk (elems s))), astate_of s' (if registry s xs i = None then xs @ [brk (elems s)] else xs)
        (if registry s xs i = None then [] else [brk (elems s)]))"
    by blast
  have i: "i \<in> SID s ` set xs \<longleftrightarrow> registry s xs i \<noteq> None" by (simp add: registry_def index_map_None_iff)
  show ?thesis
  proof (cases "registry s xs i = None")
    case True
    with s' i show ?thesis by (simp add: Let_def astate_of_def)
  next
    case False
    then obtain x where r: "registry s xs i = Some x" by auto
    with s'(2) have "process_inv mv s' p xs" by (auto intro: process_all_inv)
    with r s'(1,3) i show ?thesis by (simp add: Let_def astate_of_def)
  qed
qed

lemma process_all_destroy_all:
  assumes all: "process_all mv s p xs zs"
  shows "\<exists>s'. aggregator_stream_destroy_all p s = Inr (AGGREGATOR_SUCCESS, s') \<and> process_all mv s' p [] zs \<and>
    (\<forall>q. live (elems s') q \<longleftrightarrow> live (elems s) q \<and> q \<notin> set xs) \<and> astreams s' zs = astreams s zs"
proof -
  from remove_all_streams_ok [OF process_inv_prov [OF process_all_inv [OF all]]] obtain s' where
    s': "remove_all_streams p s = Inr s'" "prov_inv s' p []" "prov_frame p s s'"
      "\<forall>q. live (elems s') q \<longleftrightarrow> live (elems s) q \<and> q \<notin> set xs"
      "\<forall>q. live (elems s) q \<and> q \<notin> set xs \<longrightarrow> ST_same (ST s q) (ST s' q)" by blast
  have "mem_ok s'" using all s'(3) by (auto simp: process_all_def process_inv_def prov_frame_def mem_ok_def no_oom_def)
  then have inv': "process_inv mv s' p []" using s'(2) by (simp add: process_inv_def)
  have bf: "bufs s' = bufs s" "abt s' = abt s" using s'(3) by (simp_all add: prov_frame_def)
  have z: "stream_ok mv s' z \<and> SID s' z = SID s z \<and> strm s' z = strm s z \<and> buffer (ST s' z) = buffer (ST s z) \<and>
      stream_mutex (ST s' z) = stream_mutex (ST s z)" if z: "z \<in> set zs" for z
  proof -
    have ok: "stream_ok mv s z" and nz: "z \<notin> set xs" using all z by (auto simp: process_all_def)
    then have l: "live (elems s) z" by (simp add: stream_ok_def stream_wf_def)
    then have l': "live (elems s') z" using s'(4) nz by simp
    have "ST_same (ST s z) (ST s' z)" using s'(5) l nz by simp
    note f = ST_same_fields [OF this]
    have sb: "sbuf s' z = sbuf s z" by (simp add: sbuf_def bf f)
    have sv: "svals s' z = svals s z" by (simp add: svals_def samples_def sb f)
    have "stream_ok mv s' z" using ok l' by (simp add: stream_ok_def stream_wf_def mutex_is_def f bf sb sv)
    then show ?thesis by (simp add: SID_ST strm_def sv f)
  qed
  have "inj_on (\<lambda>x. buffer (ST s x)) (set zs)" "inj_on (\<lambda>x. stream_mutex (ST s x)) (set zs)"
    using all by (auto simp: process_all_def intro: inj_on_subset)
  then have "process_all mv s' p [] zs" using inv' z by (simp add: process_all_def inj_on_def)
  moreover have "astreams s' zs = astreams s zs" by (rule astreams_cong) (use z in auto)
  ultimately show ?thesis using s'(1,4)
    by (simp add: aggregator_stream_destroy_all_def aggregator_provider_destroy_all_streams_def)
qed

lemma process_fetch:
  assumes inv: "process_inv mv s p xs" and reg: "registry s xs (fi_stream_id i) = Some st"
    and env: "fe_input env = Some i" "fe_bulk_create env = HG_SUCCESS" and cnt: "24 * unat (fi_count i) < 2 ^ 63"
  shows "\<exists>s' out. aggregator_stream_fetch_ult env p s =
      Inr (if fe_bulk_transfer env = HG_SUCCESS
           then (out, Some (fetch_data (fi_count i) (samples s st)), s')
           else (out\<lparr>fo_ret := ret_code AGGREGATOR_ERR_FROM_MERCURY\<rparr>, None, s')) \<and> fetch_frame s s' \<and> mem_ok s' \<and> out = \<lparr>fo_actual_count = of_nat (min (unat (fi_count i)) (length (samples s st))),
       fo_name = cstring (sname (ST s st)), fo_ns = cstring (sns (ST s st)), fo_ret = ret_code AGGREGATOR_SUCCESS\<rparr>"
proof -
  have pi: "prov_inv s p xs" and mem: "mem_ok s" using inv by (simp_all add: process_inv_def)
  have "st \<in> set xs" using reg pi by (auto simp: registry_def prov_inv_def index_map_Some_iff [OF ut.idents])
  then have wf: "stream_wf s st" using inv by (simp add: process_inv_def stream_ok_def)
  have h: "no_oom s" "heap_ok (bufs s)" "heap_ok (strs s)" using mem by (simp_all add: mem_ok_def)
  from fetch_ok [OF pi reg wf env cnt h] mem obtain s' where
    s': "aggregator_stream_fetch_ult env p s =
      Inr (if fe_bulk_transfer env = HG_SUCCESS
           then (\<lparr>fo_actual_count = of_nat (min (unat (fi_count i)) (unat (buffer_index (ST s st)))),
       fo_name = cstring (sname (ST s st)), fo_ns = cstring (sns (ST s st)), fo_ret = ret_code AGGREGATOR_SUCCESS\<rparr>, Some (fetch_data (fi_count i) (samples s st)), s')
           else (\<lparr>fo_actual_count = of_nat (min (unat (fi_count i)) (unat (buffer_index (ST s st)))),
       fo_name = cstring (sname (ST s st)), fo_ns = cstring (sns (ST s st)), fo_ret = ret_code AGGREGATOR_SUCCESS\<rparr>\<lparr>fo_ret := ret_code AGGREGATOR_ERR_FROM_MERCURY\<rparr>, None, s'))"
    "fetch_frame s s'" "mem_ok s'" by blast
  then show ?thesis by simp
qed

lemma process_taglist:
  assumes inv: "process_inv mv s p xs" and va: "\<forall>t \<in> set va. terminated t \<and> length (cstring t) < 36 * 8"
  shows "\<exists>tgl s' b. aggregator_taglist_create (int (length va)) va s = Inr (AGGREGATOR_SUCCESS, tgl, s') \<and>
    process_inv mv s' p xs \<and> tags_at s' tgl b va \<and> astreams s' xs = astreams s xs"
proof -
  have m: "mem_ok s" using inv by (simp add: process_inv_def)
  then have h: "no_oom s" "heap_ok (tagls s)" "heap_ok (ptrs s)" "heap_ok (strs s)" by (simp_all add: mem_ok_def)
  from taglist_create_ok [OF h va] m obtain tgl s' where
    s': "aggregator_taglist_create (int (length va)) va s = Inr (AGGREGATOR_SUCCESS, tgl, s')"
    "tags_frame s s'" "tags_at s' tgl (brk (strs s)) va" "mem_ok s'" by blast
  have "process_inv mv s' p xs"
    using s'(2,4) by (intro process_inv_same [OF inv]) (simp_all add: tags_frame_def)
  moreover have "astreams s' xs = astreams s xs" using s'(2) by (intro astreams_same) (simp_all add: tags_frame_def)
  ultimately show ?thesis using s' by blast
qed

section \<open>Sequences of operations\<close>

text \<open>
  One call and its outcome: the answer with the new memory, or \<open>None\<close> where it ends in a fault. Texts of
  a new stream fit its fields and tags their arrays, there is room in the table and in the counters, the
  tag list given back is one that was made, a request reaches the handler and its buffer is not
  larger than the largest object. What else the caller passes is arbitrary, and so is the answer.
\<close>

definition fetch_answer :: "stream_fetch_out_t \<Rightarrow> aggregator_stream_sample list option \<Rightarrow> answer" where
  "fetch_answer out pushed = (case pushed of
     None \<Rightarrow> Fetch_failed (fo_ret out)
   | Some xs \<Rightarrow> Fetched (map val xs) (fo_actual_count out) (fo_name out) (fo_ns out))"

definition outcome :: "('r \<Rightarrow> answer \<times> 'x server) \<Rightarrow> 'r res \<Rightarrow> (answer \<times> 'x server) option" where
  "outcome f r = (case r of Inl e \<Rightarrow> None | Inr x \<Rightarrow> Some (f x))"

lemma outcome_simps [simp]: "outcome f (Inl e) = None" "outcome f (Inr x) = Some (f x)"
  by (simp_all add: outcome_def)

inductive pcall :: "'x argobots \<Rightarrow> addr \<Rightarrow> 'x server \<Rightarrow> call \<Rightarrow> (answer \<times> 'x server) option \<Rightarrow> bool"
  for A :: "'x argobots" and p :: addr where
  tags: "\<forall>t \<in> set va. terminated t \<and> length (cstring t) < 36 * 8 \<Longrightarrow>
    pcall A p s Make_tags (outcome (\<lambda>(r, tgl, s'). (Code r, s')) (aggregator_taglist_create (int (length va)) va s))"
| untags: "tags_at s tgl b va \<Longrightarrow>
    pcall A p s Drop_tags (outcome (\<lambda>(r, s'). (Code r, s')) (aggregator_taglist_destroy tgl s))"
| create: "create_pre ns name dsc tgl s i \<Longrightarrow> unat (num_streams (PR s p)) + 1 < 2 ^ 32 \<Longrightarrow>
    ut_log2 s (streams (PR s p)) < 31 \<Longrightarrow>
    pcall A p s (Create (brk (elems s)) i t (cstring (the ns)) (cstring (the name)) (cstring (the dsc)))
      (outcome (\<lambda>(r, m, s'). (Created r m, s')) (aggregator_stream_create A ns name t dsc tgl p s))"
| create_no_name: "ns = None \<or> name = None \<Longrightarrow>
    pcall A p s Create_without_name (outcome (\<lambda>(r, m, s'). (Created r m, s')) (aggregator_stream_create A ns name t dsc tgl p s))"
| update: "pcall A p s (Update m v) (outcome (\<lambda>(r, s'). (Code r, s')) (aggregator_stream_update A m v s))"
| gauge: "pcall A p s (Gauge m v)
    (outcome (\<lambda>(r, s'). (Code r, s')) (aggregator_stream_update_gauge_by_fixed_amount A m v s))"
| fetch: "fe_input env = Some i \<Longrightarrow> fe_bulk_create env = HG_SUCCESS \<Longrightarrow> 24 * unat (fi_count i) < 2 ^ 63 \<Longrightarrow>
    pcall A p s (Fetch (fi_stream_id i) (fi_count i) (fe_bulk_transfer env))
      (outcome (\<lambda>(out, pushed, s'). (fetch_answer out pushed, s')) (aggregator_stream_fetch_ult env p s))"
| list: "pcall A p s (List_streams input)
    (outcome (\<lambda>(l, s'). (Listed (lr_ret l) (lr_count l) (lr_ids l), s')) (aggregator_list_streams_ult input p s))"
| destroy: "pcall A p s (Destroy m) (outcome (\<lambda>(r, s'). (Code r, s')) (aggregator_stream_destroy A m p s))"
| destroy_all: "pcall A p s Destroy_all (outcome (\<lambda>(r, s'). (Code r, s')) (aggregator_stream_destroy_all p s))"

inductive_cases pcallE: "pcall A p s c r"

text \<open>
  The memory after a sequence of calls that all end. The handle that an update or a destruction takes
  is one that an earlier creation of the sequence gave out; the stream may be gone.
\<close>

inductive preach :: "'x argobots \<Rightarrow> addr \<Rightarrow> 'x server \<Rightarrow> (call \<times> answer) list \<Rightarrow> 'x server \<Rightarrow> bool"
  for A :: "'x argobots" and p :: addr and s :: "'x server" where
  here: "preach A p s [] s"
| next_step: "preach A p s l s' \<Longrightarrow> handle_used c \<subseteq> given_handles l \<Longrightarrow> pcall A p s' c (Some (a, s'')) \<Longrightarrow>
    preach A p s (l @ [(c, a)]) s''"

lemma fetch_data_vals: "map val (fetch_data n xs) = last_n (unat n) (map val xs) @ replicate (unat n - length xs) dzero"
  by (simp add: fetch_data_def last_n_def drop_map zero_sample_def dzero_def)

text \<open>What a call through a handle meets: a stream, or memory that was given back.\<close>

lemma dead_load: "\<not> live (elems s) m \<Longrightarrow> \<exists>e. load (elems s) m = Inl e"
  by (cases "load (elems s) m") (auto simp: live_def load_def split: if_splits)

lemma dead_update: "\<not> live (elems s) m \<Longrightarrow> \<exists>e. aggregator_stream_update A m v s = Inl e"
  using dead_load [of s m] by (auto simp: aggregator_stream_update_def update_refused_def)

lemma dead_gauge: "\<not> live (elems s) m \<Longrightarrow> \<exists>e. aggregator_stream_update_gauge_by_fixed_amount A m v s = Inl e"
  using dead_load [of s m] by (auto simp: aggregator_stream_update_gauge_by_fixed_amount_def)

lemma dead_destroy:
  assumes inv: "prov_inv s p xs" and m: "\<not> live (elems s) m"
  shows "\<exists>e. aggregator_stream_destroy A m p s = (if xs = [] then Inr (AGGREGATOR_ERR_INVALID_STREAM, s) else Inl e)"
proof -
  from dead_load [OF m] obtain e where e: "load (elems s) m = Inl e" by blast
  have "streams (PR s p) = NULL \<longleftrightarrow> xs = []" using ut.NULL_iff [of s "streams (PR s p)" xs] inv by (simp add: prov_inv_def)
  moreover have "live (provs s) p" using inv by (simp add: prov_inv_def)
  ultimately show ?thesis
    using e by (simp add: aggregator_stream_destroy_def aggregator_provider_stream_destroy_def find_stream_def view_run)
qed

lemma mem_stream:
  assumes all: "process_all mv s p xs zs" and m: "m \<in> set xs \<union> set zs"
  shows "live (elems s) m" "stream_wf s m" "mutex_is mv False s m" "type_ok (stype (ST s m)) (svals s m)"
    "by_handle m (astate_of s xs zs) = Some (SID s m, strm s m)"
    "unat (buffer_index (ST s m)) = length (svals s m)" "length (svals s m) \<le> STREAM_BUFFER_SIZE"
  using process_all_stream [OF all m] m by (auto simp: stream_ok_def stream_wf_def by_handle_astate unat_index [symmetric])

text \<open>
  A call and its specification: they end together, with the same answer, and the new memory holds the
  new state; no handle other than a stream's comes to life.
\<close>

definition agrees :: "('x \<Rightarrow> addr \<rightharpoonup> bool) \<Rightarrow> addr \<Rightarrow> 'x server \<Rightarrow> addr set \<Rightarrow>
    (answer \<times> 'x server) option \<Rightarrow> (answer \<times> astate) option \<Rightarrow> bool" where
  "agrees mv p s ms r ar \<longleftrightarrow> (case ar of
     None \<Rightarrow> r = None
   | Some (a, m') \<Rightarrow> \<exists>s' xs' zs'. r = Some (a, s') \<and> process_all mv s' p xs' zs' \<and> m' = astate_of s' xs' zs' \<and>
       (\<forall>q. live (elems s') q \<longrightarrow> q \<in> set xs' \<union> set zs' \<or> live (elems s) q \<and> q \<notin> ms) \<and>
       (\<forall>e h. a = Created e (Some h) \<longrightarrow> h \<in> set xs' \<union> set zs'))"

lemma agrees_None [simp]: "agrees mv p s ms r None \<longleftrightarrow> r = None"
  by (simp add: agrees_def)

lemma agreesI:
  assumes "process_all mv s' p xs' zs'" "m' = astate_of s' xs' zs'" "r = Some (a, s')"
    "\<And>q. live (elems s') q \<Longrightarrow> q \<in> set xs' \<union> set zs' \<or> live (elems s) q \<and> q \<notin> ms"
    "\<And>e h. a = Created e (Some h) \<Longrightarrow> h \<in> set xs' \<union> set zs'"
  shows "agrees mv p s ms r (Some (a, m'))"
  using assms unfolding agrees_def by auto

lemma agrees_same:
  assumes "process_all mv s' p xs zs" "astate_of s' xs zs = m'" "live (elems s') = live (elems s)" "r = Some (a, s')"
    "\<And>e h. a \<noteq> Created e (Some h)"
  shows "agrees mv p s (set xs \<union> set zs) r (Some (a, m'))"
  by (rule agreesI [OF assms(1)]) (use assms in auto)

lemma tags_agree:
  assumes all: "process_all mv s p xs zs" and va: "\<forall>t \<in> set va. terminated t \<and> length (cstring t) < 36 * 8"
  shows "agrees mv p s (set xs \<union> set zs) (outcome (\<lambda>(r, tgl, s'). (Code r, s')) (aggregator_taglist_create (int (length va)) va s))
    (Some (Code AGGREGATOR_SUCCESS, astate_of s xs zs))"
proof -
  have mem: "mem_ok s" using all by (simp add: process_all_def process_inv_def)
  then have h: "no_oom s" "heap_ok (tagls s)" "heap_ok (ptrs s)" "heap_ok (strs s)" by (simp_all add: mem_ok_def)
  from taglist_create_ok [OF h va] mem obtain tgl s' where
    s': "aggregator_taglist_create (int (length va)) va s = Inr (AGGREGATOR_SUCCESS, tgl, s')" "tags_frame s s'" "mem_ok s'" by blast
  have f: "elems s' = elems s" "tbls s' = tbls s" "bkts s' = bkts s" "provs s' = provs s" "cells (bufs s') = cells (bufs s)" "abt s' = abt s"
    using s'(2) by (simp_all add: tags_frame_def)
  have "process_all mv s' p xs zs"
    by (rule process_all_keep [OF all process_inv_same [OF process_all_inv [OF all] f s'(3)] f(1,5,6)])
  then show ?thesis by (rule agrees_same) (simp_all add: astate_same [OF f(1,5)] f(1) s'(1))
qed

lemma untags_agree:
  assumes all: "process_all mv s p xs zs" and at: "tags_at s tgl b va"
  shows "agrees mv p s (set xs \<union> set zs) (outcome (\<lambda>(r, s'). (Code r, s')) (aggregator_taglist_destroy tgl s))
    (Some (Code AGGREGATOR_SUCCESS, astate_of s xs zs))"
proof -
  have mem: "mem_ok s" using all by (simp add: process_all_def process_inv_def)
  from at obtain T where T: "cells (tagls s) tgl = Some T" by (auto simp: tags_at_def)
  from taglist_destroy_ok [OF at T] mem obtain s' where
    s': "aggregator_taglist_destroy tgl s = Inr (AGGREGATOR_SUCCESS, s')" "tags_frame s s'" "mem_ok s'" by blast
  have f: "elems s' = elems s" "tbls s' = tbls s" "bkts s' = bkts s" "provs s' = provs s" "cells (bufs s') = cells (bufs s)" "abt s' = abt s"
    using s'(2) by (simp_all add: tags_frame_def)
  have "process_all mv s' p xs zs"
    by (rule process_all_keep [OF all process_inv_same [OF process_all_inv [OF all] f s'(3)] f(1,5,6)])
  then show ?thesis by (rule agrees_same) (simp_all add: astate_same [OF f(1,5)] f(1) s'(1))
qed

lemma update_agrees:
  assumes A: "argobots_ok A mv" and all: "process_all mv s p xs zs" and m: "live (elems s) m \<Longrightarrow> m \<in> set xs \<union> set zs"
  shows "agrees mv p s (set xs \<union> set zs) (outcome (\<lambda>(r, s'). (Code r, s')) (aggregator_stream_update A m v s))
    (aexec (Update m v) (astate_of s xs zs))"
proof (cases "m \<in> set xs \<union> set zs")
  case False
  then have none: "aexec (Update m v) (astate_of s xs zs) = None" by (simp add: by_handle_astate)
  have "\<not> live (elems s) m" using False m by blast
  from dead_update [OF this, of A v] obtain e where "aggregator_stream_update A m v s = Inl e" by blast
  with none show ?thesis by simp
next
  case True
  note o = mem_stream [OF all True]
  consider (refused) "refuses (stype (ST s m)) (svals s m) v"
    | (room) "\<not> refuses (stype (ST s m)) (svals s m) v" "length (svals s m) < STREAM_BUFFER_SIZE"
    | (full) "\<not> refuses (stype (ST s m)) (svals s m) v" "length (svals s m) = STREAM_BUFFER_SIZE"
    using o(7) by linarith
  then show ?thesis
  proof cases
    case refused
    have "agrees mv p s (set xs \<union> set zs) (Some (Code AGGREGATOR_ERR_INVALID_VALUE, s))
        (Some (Code AGGREGATOR_ERR_INVALID_VALUE, astate_of s xs zs))" by (rule agrees_same [OF all]) simp_all
    with update_invalid [OF o(2) refused, of A] refused o(5) show ?thesis by simp
  next
    case room
    then have "unat (buffer_index (ST s m)) < STREAM_BUFFER_SIZE" by (simp add: o(6))
    from update_ok [OF A o(2,3) this room(1)] obtain s' where
      s': "aggregator_stream_update A m v s = Inr (AGGREGATOR_SUCCESS, s')" and ap: "appended m v mv s s'" by blast
    have l: "live (elems s') = live (elems s)" using ap by (simp add: appended_def)
    have inj: "inj_on (\<lambda>x. buffer (ST s x)) (set xs \<union> set zs)" using all by (simp add: process_all_def)
    from process_all_appended [OF all True ap type_ok_append [OF o(4) room(1)]] appended_astate [OF ap inj True]
    have "agrees mv p s (set xs \<union> set zs) (Some (Code AGGREGATOR_SUCCESS, s')) (Some (Code AGGREGATOR_SUCCESS, arecord m v (astate_of s xs zs)))"
      using l by (intro agrees_same) simp_all
    with s' room o(5) show ?thesis by simp
  next
    case full
    from update_full [OF A o(2,3) _ full(1)] full(2) o(5,6) full(1) show ?thesis by simp
  qed
qed

lemma gauge_agrees:
  assumes A: "argobots_ok A mv" and all: "process_all mv s p xs zs" and m: "live (elems s) m \<Longrightarrow> m \<in> set xs \<union> set zs"
  shows "agrees mv p s (set xs \<union> set zs) (outcome (\<lambda>(r, s'). (Code r, s')) (aggregator_stream_update_gauge_by_fixed_amount A m d s))
    (aexec (Gauge m d) (astate_of s xs zs))"
proof (cases "m \<in> set xs \<union> set zs")
  case False
  then have none: "aexec (Gauge m d) (astate_of s xs zs) = None" by (simp add: by_handle_astate)
  have "\<not> live (elems s) m" using False m by blast
  from dead_gauge [OF this, of A d] obtain e where "aggregator_stream_update_gauge_by_fixed_amount A m d s = Inl e" by blast
  with none show ?thesis by simp
next
  case True
  note o = mem_stream [OF all True]
  consider (refused) "stype (ST s m) \<noteq> AGGREGATOR_TYPE_GAUGE"
    | (room) "stype (ST s m) = AGGREGATOR_TYPE_GAUGE" "length (svals s m) < STREAM_BUFFER_SIZE"
    | (full) "stype (ST s m) = AGGREGATOR_TYPE_GAUGE" "length (svals s m) = STREAM_BUFFER_SIZE"
    using o(7) by linarith
  then show ?thesis
  proof cases
    case refused
    have "agrees mv p s (set xs \<union> set zs) (Some (Code AGGREGATOR_ERR_INVALID_VALUE, s))
        (Some (Code AGGREGATOR_ERR_INVALID_VALUE, astate_of s xs zs))" by (rule agrees_same [OF all]) simp_all
    with gauge_update_wrong_type [OF o(1) refused, of A d] refused o(5) show ?thesis by simp
  next
    case room
    then have "unat (buffer_index (ST s m)) < STREAM_BUFFER_SIZE" by (simp add: o(6))
    from gauge_update_ok [OF A o(2,3) this room(1), of d] obtain s' where
      s': "aggregator_stream_update_gauge_by_fixed_amount A m d s = Inr (AGGREGATOR_SUCCESS, s')"
      and ap: "appended m (gauge_next (svals s m) d) mv s s'" by blast
    have l: "live (elems s') = live (elems s)" using ap by (simp add: appended_def)
    have inj: "inj_on (\<lambda>x. buffer (ST s x)) (set xs \<union> set zs)" using all by (simp add: process_all_def)
    have ty: "type_ok (stype (ST s m)) (svals s m @ [gauge_next (svals s m) d])" using room(1) by (simp add: type_ok_def)
    from process_all_appended [OF all True ap ty] appended_astate [OF ap inj True]
    have "agrees mv p s (set xs \<union> set zs) (Some (Code AGGREGATOR_SUCCESS, s'))
        (Some (Code AGGREGATOR_SUCCESS, arecord m (gauge_next (svals s m) d) (astate_of s xs zs)))"
      using l by (intro agrees_same) simp_all
    with s' room o(5) show ?thesis by simp
  next
    case full
    from gauge_update_full [OF A o(2,3) _ full(1)] full(2) o(5,6) full(1) show ?thesis by simp
  qed
qed

lemma destroy_agrees:
  assumes all: "process_all mv s p xs zs" and m: "live (elems s) m \<Longrightarrow> m \<in> set xs \<union> set zs"
  shows "agrees mv p s (set xs \<union> set zs) (outcome (\<lambda>(r, s'). (Code r, s')) (aggregator_stream_destroy A m p s))
    (aexec (Destroy m) (astate_of s xs zs))"
proof -
  have pi: "prov_inv s p xs" by (rule process_inv_prov [OF process_all_inv [OF all]])
  have refused: "agrees mv p s (set xs \<union> set zs) (Some (Code AGGREGATOR_ERR_INVALID_STREAM, s))
        (Some (Code AGGREGATOR_ERR_INVALID_STREAM, astate_of s xs zs))" by (rule agrees_same [OF all]) simp_all
  have nil: "astreams s xs = [] \<longleftrightarrow> xs = []" by (simp add: astreams_def)
  have r: "SID s m \<in> SID s ` set xs \<longleftrightarrow> registry s xs (SID s m) \<noteq> None" by (simp add: registry_def index_map_None_iff)
  show ?thesis
  proof (cases "m \<in> set xs \<union> set zs")
    case False
    with m have "\<not> live (elems s) m" by blast
    from dead_destroy [OF pi this, of A] obtain e where
      "aggregator_stream_destroy A m p s = (if xs = [] then Inr (AGGREGATOR_ERR_INVALID_STREAM, s) else Inl e)" by blast
    with False refused nil show ?thesis by (cases "xs = []") (simp_all add: by_handle_astate)
  next
    case True
    note o = mem_stream [OF all True]
    show ?thesis
    proof (cases "registry s xs (SID s m)")
      case None
      with refused r o(5) stream_destroy_unknown [OF pi o(1), of A] show ?thesis by (simp add: aggregator_stream_destroy_def)
    next
      case (Some x)
      then have "xs \<noteq> []" by (auto simp: registry_def index_map_def)
      with Some r o(5) nil stream_destroy_faults [OF pi o(1) Some, of A] show ?thesis by (simp add: aggregator_stream_destroy_def)
    qed
  qed
qed

lemma fetch_agrees:
  assumes all: "process_all mv s p xs zs" and env: "fe_input env = Some i" "fe_bulk_create env = HG_SUCCESS"
    and cnt: "24 * unat (fi_count i) < 2 ^ 63"
  shows "agrees mv p s (set xs \<union> set zs) (outcome (\<lambda>(out, pushed, s'). (fetch_answer out pushed, s')) (aggregator_stream_fetch_ult env p s))
    (aexec (Fetch (fi_stream_id i) (fi_count i) (fe_bulk_transfer env)) (astate_of s xs zs))"
proof (cases "registry s xs (fi_stream_id i)")
  case None
  have "heap_ok (bufs s)" using all by (simp add: process_all_def process_inv_def mem_ok_def)
  from fetch_unknown [OF process_inv_prov [OF process_all_inv [OF all]] None this env] None
  show ?thesis by (simp add: map_of_astreams)
next
  case (Some st)
  from process_fetch [OF process_all_inv [OF all] Some env cnt] obtain s' out where
    s': "aggregator_stream_fetch_ult env p s =
      Inr (if fe_bulk_transfer env = HG_SUCCESS
           then (out, Some (fetch_data (fi_count i) (samples s st)), s')
           else (out\<lparr>fo_ret := ret_code AGGREGATOR_ERR_FROM_MERCURY\<rparr>, None, s'))" "fetch_frame s s'" "mem_ok s'"
    "out = \<lparr>fo_actual_count = of_nat (min (unat (fi_count i)) (length (samples s st))),
       fo_name = cstring (sname (ST s st)), fo_ns = cstring (sns (ST s st)), fo_ret = ret_code AGGREGATOR_SUCCESS\<rparr>" by blast
  have f: "elems s' = elems s" "tbls s' = tbls s" "bkts s' = bkts s" "provs s' = provs s" "cells (bufs s') = cells (bufs s)" "abt s' = abt s"
    using s'(2) by (simp_all add: fetch_frame_def)
  have "process_all mv s' p xs zs"
    by (rule process_all_keep [OF all process_inv_same [OF process_all_inv [OF all] f s'(3)] f(1,5,6)])
  then have "agrees mv p s (set xs \<union> set zs) (Some (a, s')) (Some (a, astate_of s xs zs))" if "\<And>e h. a \<noteq> Created e (Some h)" for a
    by (rule agrees_same) (simp_all add: astate_same [OF f(1,5)] f(1) that)
  then show ?thesis
    by (simp add: map_of_astreams Some s'(1,4) fetch_answer_def fetch_data_vals svals_def)
qed

lemma list_agrees:
  assumes all: "process_all mv s p xs zs"
  shows "agrees mv p s (set xs \<union> set zs)
    (outcome (\<lambda>(l, s'). (Listed (lr_ret l) (lr_count l) (lr_ids l), s')) (aggregator_list_streams_ult input p s))
    (aexec (List_streams input) (astate_of s xs zs))"
proof (cases input)
  case None
  then show ?thesis by (simp add: list_bad_input)
next
  case (Some mx)
  let ?s = "s\<lparr>oom := tl (oom s), idarrs := (idarrs s)\<lparr>brk := Suc (brk (idarrs s))\<rparr>\<rparr>"
  have m: "mem_ok s" using all by (simp add: process_all_def process_inv_def)
  then have m': "mem_ok ?s" by (auto simp: mem_ok_def no_oom_def no_oom_tl heap_ok_def less_Suc_eq)
  have "process_all mv ?s p xs zs"
    by (rule process_all_keep [OF all process_inv_same [OF process_all_inv [OF all]]]) (use m' in simp_all)
  then have "agrees mv p s (set xs \<union> set zs) (Some (a, ?s)) (Some (a, astate_of s xs zs))" if "\<And>e h. a \<noteq> Created e (Some h)" for a
    by (rule agrees_same) (simp_all add: that astate_same [of ?s s])
  then show ?thesis using Some m list_ok [OF process_inv_prov [OF process_all_inv [OF all]]] by (simp add: mem_ok_def)
qed

lemma pcall_refines:
  assumes A: "argobots_ok A mv" and all: "process_all mv s p xs zs" and call: "pcall A p s c r"
    and known: "\<And>h. h \<in> handle_used c \<Longrightarrow> live (elems s) h \<Longrightarrow> h \<in> set xs \<union> set zs"
  shows "agrees mv p s (set xs \<union> set zs) r (aexec c (astate_of s xs zs))"
  using call
proof (rule pcallE, goal_cases)
  case (1 va)
  with tags_agree [OF all, of va] show ?case by simp
next
  case (2 tgl b va)
  with untags_agree [OF all 2(3)] show ?case by simp
next
  case (3 ns name dsc tgl i t)
  have "ut_room s (streams (PR s p)) xs"
    using 3 num_streams_length [OF process_inv_prov [OF process_all_inv [OF all]]] by (simp add: ut_room_def)
  from process_all_create [OF A all 3(3) this, of t] obtain s' where
    s': "aggregator_stream_create A ns name t dsc tgl p s = Inr (AGGREGATOR_SUCCESS, Some (brk (elems s)), s')"
      "process_all mv s' p (if registry s xs i = None then xs @ [brk (elems s)] else xs) (if registry s xs i = None then zs else zs @ [brk (elems s)])"
      "\<forall>q. live (elems s') q \<longleftrightarrow> live (elems s) q \<or> q = brk (elems s)"
      "aexec c (astate_of s xs zs) = Some (Created AGGREGATOR_SUCCESS (Some (brk (elems s))),
        astate_of s' (if registry s xs i = None then xs @ [brk (elems s)] else xs) (if registry s xs i = None then zs else zs @ [brk (elems s)]))"
    unfolding 3(1) by blast
  show ?case unfolding s'(4) 3(2) s'(1) by (rule agreesI [OF s'(2) refl]) (use s'(3) in auto)
next
  case (4 ns name t dsc tgl)
  have "agrees mv p s (set xs \<union> set zs) (Some (Created AGGREGATOR_ERR_INVALID_NAME None, s))
      (Some (Created AGGREGATOR_ERR_INVALID_NAME None, astate_of s xs zs))" by (rule agrees_same [OF all]) simp_all
  with 4 show ?case by (simp add: aggregator_stream_create_def stream_create_no_name)
next
  case (5 m v)
  with update_agrees [OF A all, of m v] known show ?case by simp
next
  case (6 m v)
  with gauge_agrees [OF A all, of m v] known show ?case by simp
next
  case (7 env i)
  then have "24 * unat (fi_count i) < 2 ^ 63" by simp
  with fetch_agrees [OF all 7(3,4)] 7(1,2) show ?case by simp
next
  case (8 input)
  with list_agrees [OF all, of input] show ?case by simp
next
  case (9 m)
  with destroy_agrees [OF all, of m A] known show ?case by simp
next
  case 10
  from process_all_destroy_all [OF all] obtain s' where
    s': "aggregator_stream_destroy_all p s = Inr (AGGREGATOR_SUCCESS, s')" "process_all mv s' p [] zs"
      "\<forall>q. live (elems s') q \<longleftrightarrow> live (elems s) q \<and> q \<notin> set xs" "astreams s' zs = astreams s zs" by blast
  have "aexec c (astate_of s xs zs) = Some (Code AGGREGATOR_SUCCESS, astate_of s' [] zs)"
    using 10 s'(4) by (simp add: astate_of_def)
  moreover have "agrees mv p s (set xs \<union> set zs) (Some (Code AGGREGATOR_SUCCESS, s')) (Some (Code AGGREGATOR_SUCCESS, astate_of s' [] zs))"
    by (rule agreesI [OF s'(2) refl refl]) (use s'(3) in auto)
  ultimately show ?case using 10 s'(1) by simp
qed

lemma given_handles_snoc: "given_handles (l @ [(c, a)]) = given_handles l \<union> handle_given a"
  by (auto simp: given_handles_def)

lemma handle_givenD: "h \<in> handle_given a \<Longrightarrow> \<exists>e. a = Created e (Some h)"
  by (cases a rule: handle_given.cases) auto

text \<open>The handles that were given out are streams, or their memory was given back.\<close>

lemma preach_refines:
  assumes A: "argobots_ok A mv" and reach: "preach A p s l s'" and inv: "process_inv mv s p xs"
  shows "\<exists>ys zs. process_all mv s' p ys zs \<and> arun l (astate_of s xs []) = Some (astate_of s' ys zs) \<and>
    (\<forall>h \<in> given_handles l. live (elems s') h \<longrightarrow> h \<in> set ys \<union> set zs)"
  using reach
proof induction
  case here
  have "process_all mv s p xs []" using inv by simp
  then show ?case by (intro exI [of _ xs] exI [of _ "[]"]) (simp add: given_handles_def)
next
  case (next_step l s' c a s'')
  then obtain ys zs where ys: "process_all mv s' p ys zs" "arun l (astate_of s xs []) = Some (astate_of s' ys zs)"
    "\<forall>h \<in> given_handles l. live (elems s') h \<longrightarrow> h \<in> set ys \<union> set zs" by blast
  have "agrees mv p s' (set ys \<union> set zs) (Some (a, s'')) (aexec c (astate_of s' ys zs))"
    by (rule pcall_refines [OF A ys(1) next_step.hyps(3)]) (use ys(3) next_step.hyps(2) in blast)
  then obtain ys' zs' where new: "aexec c (astate_of s' ys zs) = Some (a, astate_of s'' ys' zs')" "process_all mv s'' p ys' zs'"
    "\<forall>q. live (elems s'') q \<longrightarrow> q \<in> set ys' \<union> set zs' \<or> live (elems s') q \<and> q \<notin> set ys \<union> set zs"
    "\<forall>e h. a = Created e (Some h) \<longrightarrow> h \<in> set ys' \<union> set zs'"
    by (auto simp: agrees_def split: option.splits)
  have "h \<in> set ys' \<union> set zs'" if "h \<in> given_handles (l @ [(c, a)])" "live (elems s'') h" for h
  proof (cases "h \<in> given_handles l")
    case True
    then show ?thesis using that(2) new(3) ys(3) by blast
  next
    case False
    then have "h \<in> handle_given a" using that(1) by (simp add: given_handles_snoc)
    with handle_givenD [OF this] new(4) show ?thesis by blast
  qed
  with arun_snoc [OF ys(2) new(1)] new(2) show ?case by blast
qed

text \<open>A sequence of updates of one registered stream.\<close>

lemma process_updates:
  assumes A: "argobots_ok A mv" and "process_inv mv s p xs" "m \<in> set xs" "length (svals s m) + length vs \<le> STREAM_BUFFER_SIZE"
  shows "\<exists>rs s' n. run_updates A m vs s = Inr (rs, s') \<and> process_inv mv s' p xs \<and>
    svals s' m = accepted (stype (ST s m)) (svals s m) vs \<and> ST s' m = (ST s m)\<lparr>buffer_index := n\<rparr> \<and> registry s' xs = registry s xs"
  using assms(2-)
proof (induction vs arbitrary: s)
  case Nil
  have "ST s m = (ST s m)\<lparr>buffer_index := buffer_index (ST s m)\<rparr>" by simp
  then have "\<exists>n. ST s m = (ST s m)\<lparr>buffer_index := n\<rparr>" by (rule exI)
  with Nil show ?case by simp
next
  case (Cons v vs)
  have o: "stream_wf s m" "mutex_is mv False s m" "type_ok (stype (ST s m)) (svals s m)"
    using Cons.prems(1,2) by (simp_all add: process_inv_def stream_ok_def)
  show ?case
  proof (cases "refuses (stype (ST s m)) (svals s m) v")
    case True
    with Cons.IH [OF Cons.prems(1,2)] Cons.prems(3) o(1) show ?thesis by (auto simp: update_invalid)
  next
    case False
    have "unat (buffer_index (ST s m)) < STREAM_BUFFER_SIZE" using Cons.prems(3) by (simp add: svals_def)
    from update_ok [OF A o(1,2) this False] obtain s1 where
      s1: "aggregator_stream_update A m v s = Inr (AGGREGATOR_SUCCESS, s1)" "appended m v mv s s1" by blast
    from process_appended [OF Cons.prems(1,2) s1(2) type_ok_append [OF o(3) False]] have inv1: "process_inv mv s1 p xs" .
    have ST1: "ST s1 = (ST s)(m := (ST s m)\<lparr>buffer_index := buffer_index (ST s m) + 1\<rparr>)"
      using s1(2) by (simp add: appended_def)
    have "SID s1 = SID s" by (simp add: SID_ST ST1 fun_eq_iff)
    then have "registry s1 xs = registry s xs" by (simp add: registry_def)
    with Cons.IH [OF inv1 Cons.prems(2)] Cons.prems(3) s1(1) False svals_appended [OF s1(2)] ST1
    show ?thesis by fastforce
  qed
qed

lemma process_start:
  assumes env: "re_listening env" "\<not> re_registered env" and mem: "ut_mem_ok s" "heap_ok (provs s)" "mem_ok s"
  shows "\<exists>p s'. aggregator_provider_register env mid pid args s = Inr (AGGREGATOR_SUCCESS, p, s') \<and>
    process_inv mv s' p []"
proof -
  have "alloc_ok (oom s)" using mem(3) by (simp add: mem_ok_def no_oom_alloc_ok)
  from register_ok [OF env this mem(1,2), of mid pid args] mem(3) show ?thesis
    by (auto simp: process_inv_def)
qed

end
