(* ===== verification/Modules.thy ===== *)
theory Modules
  imports Client_Rpc
begin

text \<open>
  The small modules around clients and providers: the administrator of \<open>src/admin.c\<close>, the Bedrock
  module of \<open>src/bedrock-module.c\<close> and the backend of \<open>src/dummy/dummy-backend.c\<close>. The functions
  that Bedrock calls are those of the client and the provider, and the two that keep provider
  handles.
\<close>

section \<open>Administrators\<close>

record aggregator_admin =
  a_mid :: addr

record admin_st =
  aoom :: "bool list"
  admins :: "aggregator_admin heap"

definition aggregator_admin_init :: "addr \<Rightarrow> admin_st \<Rightarrow> (aggregator_return_t \<times> addr \<times> admin_st) res" where
  "aggregator_admin_init mid s =
     (let (a, sch, h) = calloc \<lparr>a_mid = NULL\<rparr> (aoom s) (admins s); s = s\<lparr>aoom := sch, admins := h\<rparr> in
      if a = NULL then Inr (AGGREGATOR_ERR_ALLOCATION, NULL, s)
      else
        rbind (load (admins s) a) (\<lambda>A.
        rbind (store (admins s) a (A\<lparr>a_mid := mid\<rparr>)) (\<lambda>h.
        Inr (AGGREGATOR_SUCCESS, a, s\<lparr>admins := h\<rparr>))))"

definition aggregator_admin_finalize :: "addr \<Rightarrow> admin_st \<Rightarrow> (aggregator_return_t \<times> admin_st) res" where
  "aggregator_admin_finalize a s =
     rbind (dealloc (admins s) a) (\<lambda>h. Inr (AGGREGATOR_SUCCESS, s\<lparr>admins := h\<rparr>))"

section \<open>The Bedrock module\<close>

text \<open>What Bedrock passes to a provider's registration.\<close>

record bedrock_args =
  ba_mid :: addr
  ba_provider_id :: u16
  ba_config :: "byte list option"
  ba_pool :: addr
  ba_abtio :: addr

text \<open>\<open>{ 0 }\<close> zeroes every member of the structure, the flag for the finalize callback included.\<close>

definition bedrock_provider_args :: "bedrock_args \<Rightarrow> aggregator_provider_args" where
  "bedrock_provider_args b =
     \<lparr>a_push_finalize_callback = 0, a_token = None, a_config = None, a_pool = NULL, a_abtio = NULL\<rparr>
       \<lparr>a_config := ba_config b, a_pool := ba_pool b, a_abtio := ba_abtio b\<rparr>"

definition aggregator_register_provider :: "register_env \<Rightarrow> bedrock_args \<Rightarrow> 'x server \<Rightarrow>
    (aggregator_return_t \<times> addr \<times> 'x server) res" where
  "aggregator_register_provider env b s =
     aggregator_provider_register env (ba_mid b) (ba_provider_id b) (Some (bedrock_provider_args b)) s"

definition aggregator_deregister_provider :: "addr \<Rightarrow> 'x server \<Rightarrow> (aggregator_return_t \<times> 'x server) res" where
  "aggregator_deregister_provider p s = aggregator_provider_destroy p s"

text \<open>\<open>strdup("{}")\<close>.\<close>

definition aggregator_get_provider_config :: "'x server \<Rightarrow> addr \<times> 'x server" where
  "aggregator_get_provider_config s =
     (let (q, sch, h) = calloc [123, 125, 0] (oom s) (strs s) in (q, s\<lparr>oom := sch, strs := h\<rparr>))"

definition aggregator_init_client :: "init_env \<Rightarrow> addr \<Rightarrow> 'a client_st_scheme \<Rightarrow>
    (aggregator_return_t \<times> addr \<times> 'a client_st_scheme) res" where
  "aggregator_init_client env mid s = aggregator_client_init env mid s"

definition aggregator_finalize_client :: "addr \<Rightarrow> 'a client_st_scheme \<Rightarrow>
    (aggregator_return_t \<times> 'a client_st_scheme) res" where
  "aggregator_finalize_client c s = aggregator_client_finalize c s"

record aggregator_provider_handle =
  ph_mid :: addr
  ph_addr :: addr
  ph_provider_id :: u16

record bedrock_st = client_st +
  phandles :: "aggregator_provider_handle heap"

definition upd_ph :: "addr \<Rightarrow> (aggregator_provider_handle \<Rightarrow> aggregator_provider_handle) \<Rightarrow> bedrock_st \<Rightarrow> bedrock_st res" where
  "upd_ph p f s =
     rbind (load (phandles s) p) (\<lambda>H. rbind (store (phandles s) p (f H)) (\<lambda>h. Inr (s\<lparr>phandles := h\<rparr>)))"

abbreviation BEDROCK_SUCCESS :: int where
  "BEDROCK_SUCCESS \<equiv> 0"

text \<open>\<open>ad'\<close> is the duplicate that \<open>margo_addr_dup\<close> makes of \<open>ad\<close>.\<close>

definition aggregator_create_provider_handle :: "addr \<Rightarrow> addr \<Rightarrow> addr \<Rightarrow> u16 \<Rightarrow> bedrock_st \<Rightarrow>
    (int \<times> addr \<times> bedrock_st) res" where
  "aggregator_create_provider_handle ad' c ad pid s =
     (let (t, sch, h) = calloc \<lparr>ph_mid = NULL, ph_addr = NULL, ph_provider_id = 0\<rparr> (coom s) (phandles s);
          s = s\<lparr>coom := sch, phandles := h\<rparr> in
      rbind (load (clients s) c) (\<lambda>C.
      let s = ccall (margo_addr_dup ad ad') s in
      rbind (upd_ph t (\<lambda>H. H\<lparr>ph_addr := ad'\<rparr>) s) (\<lambda>s.
      rbind (upd_ph t (\<lambda>H. H\<lparr>ph_provider_id := pid\<rparr>) s) (\<lambda>s.
      Inr (BEDROCK_SUCCESS, t, s)))))"

text \<open>
  \<open>margo_addr_free\<close> is handed the handle's Margo instance: the second component of the result is
  the instance used.
\<close>

definition aggregator_destroy_provider_handle :: "addr \<Rightarrow> bedrock_st \<Rightarrow> (int \<times> addr \<times> bedrock_st) res" where
  "aggregator_destroy_provider_handle p s =
     rbind (load (phandles s) p) (\<lambda>H.
     let s = ccall (margo_addr_free (ph_addr H)) s in
     rbind (dealloc (phandles s) p) (\<lambda>h. Inr (BEDROCK_SUCCESS, ph_mid H, s\<lparr>phandles := h\<rparr>)))"

section \<open>The dummy backend\<close>

record dummy_st =
  doom :: "bool list"
  dummies :: "u32 heap"

definition dummy_create_stream :: "addr \<Rightarrow> dummy_st \<Rightarrow> aggregator_return_t \<times> addr \<times> dummy_st" where
  "dummy_create_stream provider s =
     (let (ctx, sch, h) = calloc 0 (doom s) (dummies s) in (AGGREGATOR_SUCCESS, ctx, s\<lparr>doom := sch, dummies := h\<rparr>))"

definition dummy_open_stream :: "addr \<Rightarrow> dummy_st \<Rightarrow> aggregator_return_t \<times> addr \<times> dummy_st" where
  "dummy_open_stream provider s =
     (let (ctx, sch, h) = calloc 0 (doom s) (dummies s) in (AGGREGATOR_SUCCESS, ctx, s\<lparr>doom := sch, dummies := h\<rparr>))"

definition dummy_close_stream :: "addr \<Rightarrow> dummy_st \<Rightarrow> (aggregator_return_t \<times> dummy_st) res" where
  "dummy_close_stream ctx s = rbind (dealloc (dummies s) ctx) (\<lambda>h. Inr (AGGREGATOR_SUCCESS, s\<lparr>dummies := h\<rparr>))"

definition dummy_destroy_stream :: "addr \<Rightarrow> dummy_st \<Rightarrow> (aggregator_return_t \<times> dummy_st) res" where
  "dummy_destroy_stream ctx s = rbind (dealloc (dummies s) ctx) (\<lambda>h. Inr (AGGREGATOR_SUCCESS, s\<lparr>dummies := h\<rparr>))"

text \<open>The sum of two \<open>int32_t\<close>; overflow of a signed sum is undefined in C.\<close>

definition dummy_compute_sum :: "addr \<Rightarrow> u32 \<Rightarrow> u32 \<Rightarrow> u32 res" where
  "dummy_compute_sum ctx x y =
     (let r = sint x + sint y in
      if - (2 ^ 31) \<le> r \<and> r < 2 ^ 31 then Inr (word_of_int r) else Inl Overflow)"

definition dummy_say_hello :: "addr \<Rightarrow> string" where
  "dummy_say_hello ctx = ''Hello World from Dummy stream'' @ [CHR 0x0A]"

text \<open>The table of functions of a backend; \<open>'s\<close> is the memory they work on, and \<open>be_hello\<close> gives what it prints.\<close>

record 's aggregator_backend_impl =
  be_name :: string
  be_create_stream :: "addr \<Rightarrow> 's \<Rightarrow> aggregator_return_t \<times> addr \<times> 's"
  be_open_stream :: "addr \<Rightarrow> 's \<Rightarrow> aggregator_return_t \<times> addr \<times> 's"
  be_close_stream :: "addr \<Rightarrow> 's \<Rightarrow> (aggregator_return_t \<times> 's) res"
  be_destroy_stream :: "addr \<Rightarrow> 's \<Rightarrow> (aggregator_return_t \<times> 's) res"
  be_hello :: "addr \<Rightarrow> string"
  be_sum :: "addr \<Rightarrow> u32 \<Rightarrow> u32 \<Rightarrow> u32 res"

definition dummy_backend :: "dummy_st aggregator_backend_impl" where
  "dummy_backend = \<lparr>be_name = ''dummy'', be_create_stream = dummy_create_stream, be_open_stream = dummy_open_stream,
     be_close_stream = dummy_close_stream, be_destroy_stream = dummy_destroy_stream,
     be_hello = dummy_say_hello, be_sum = dummy_compute_sum\<rparr>"

definition aggregator_provider_register_dummy_backend :: "addr \<Rightarrow> aggregator_return_t" where
  "aggregator_provider_register_dummy_backend p = aggregator_provider_register_backend"

section \<open>What they do\<close>

lemma admin_init_finalize:
  assumes "alloc_ok (aoom s)" "heap_ok (admins s)"
  shows "\<exists>a s'. aggregator_admin_init mid s = Inr (AGGREGATOR_SUCCESS, a, s') \<and>
    cells (admins s') = (cells (admins s))(a \<mapsto> \<lparr>a_mid = mid\<rparr>) \<and> \<not> live (admins s) a \<and>
    (\<exists>s''. aggregator_admin_finalize a s' = Inr (AGGREGATOR_SUCCESS, s'') \<and> cells (admins s'') = cells (admins s))"
  using assms heap_ok_fresh [OF assms(2)]
  by (simp add: aggregator_admin_init_def aggregator_admin_finalize_def calloc_def load_def store_def dealloc_def
      heap_ok_def live_def fun_upd_idem)

text \<open>A provider that Bedrock registers has no finalize callback.\<close>

lemma bedrock_register_calls:
  assumes "re_listening env" "\<not> re_registered env" "alloc_ok (oom s)" "ut_mem_ok s" "heap_ok (provs s)"
  shows "\<exists>p s'. aggregator_register_provider env b s = Inr (AGGREGATOR_SUCCESS, p, s') \<and> prov_inv s' p [] \<and>
    pool (PR s' p) = ba_pool b \<and> abtio (PR s' p) = ba_abtio b \<and>
    (\<exists>cs. calls s' = calls s @ cs \<and> (\<forall>q. margo_provider_push_finalize_callback q \<notin> set cs))"
  using register_ok [OF assms, of "ba_mid b" "ba_provider_id b" "Some (bedrock_provider_args b)"]
  by (auto simp: aggregator_register_provider_def register_calls_def bedrock_provider_args_def)

text \<open>
  A provider handle never learns its Margo instance: whatever the client's, the address is freed
  with a null instance.
\<close>

lemma provider_handle_mid:
  assumes "live (clients s) c" "alloc_ok (coom s)" "heap_ok (phandles s)"
  shows "\<exists>p s'. aggregator_create_provider_handle ad' c ad pid s = Inr (BEDROCK_SUCCESS, p, s') \<and>
    cells (phandles s') p = Some \<lparr>ph_mid = NULL, ph_addr = ad', ph_provider_id = pid\<rparr> \<and>
    (\<exists>s''. aggregator_destroy_provider_handle p s' = Inr (BEDROCK_SUCCESS, NULL, s'') \<and>
       cells (phandles s'') = cells (phandles s) \<and>
       ccalls s'' = ccalls s @ [margo_addr_dup ad ad', margo_addr_free ad'])"
proof -
  let ?z = "\<lparr>ph_mid = NULL, ph_addr = NULL, ph_provider_id = 0\<rparr>"
  define p where "p = brk (phandles s)"
  have p0: "p \<noteq> NULL" using assms(3) by (simp add: heap_ok_def p_def)
  define s1 where "s1 = s\<lparr>coom := tl (coom s), phandles := \<lparr>cells = (cells (phandles s))(p := Some ?z), brk = Suc p\<rparr>\<rparr>"
  have c1: "calloc ?z (coom s) (phandles s) = (p, tl (coom s), phandles s1)" "s\<lparr>coom := tl (coom s), phandles := phandles s1\<rparr> = s1"
    using assms(2) by (simp_all add: calloc_def s1_def p_def)
  have lC: "load (clients s1) c = Inr (CL s c)" using assms(1) by (simp add: s1_def load_live CL_def)
  define s2 where "s2 = ccall (margo_addr_dup ad ad') s1"
  define s3 where "s3 = s2\<lparr>phandles := (phandles s2)\<lparr>cells := (cells (phandles s2))(p := Some (?z\<lparr>ph_addr := ad'\<rparr>))\<rparr>\<rparr>"
  define s4 where "s4 = s3\<lparr>phandles := (phandles s3)\<lparr>cells := (cells (phandles s3))(p := Some \<lparr>ph_mid = NULL, ph_addr = ad', ph_provider_id = pid\<rparr>)\<rparr>\<rparr>"
  have c2: "cells (phandles s2) p = Some ?z" by (simp add: s2_def s1_def ccall_def)
  then have u1: "upd_ph p (\<lambda>H. H\<lparr>ph_addr := ad'\<rparr>) s2 = Inr s3" using p0 by (simp add: upd_ph_def load_def store_def s3_def)
  have "cells (phandles s3) p = Some (?z\<lparr>ph_addr := ad'\<rparr>)" by (simp add: s3_def)
  then have u2: "upd_ph p (\<lambda>H. H\<lparr>ph_provider_id := pid\<rparr>) s3 = Inr s4" using p0 by (simp add: upd_ph_def load_def store_def s4_def)
  have run: "aggregator_create_provider_handle ad' c ad pid s = Inr (BEDROCK_SUCCESS, p, s4)"
    unfolding aggregator_create_provider_handle_def c1 Let_def prod.case lC rbind_Inr s2_def [symmetric] u1 u2 ..
  have c4: "cells (phandles s4) p = Some \<lparr>ph_mid = NULL, ph_addr = ad', ph_provider_id = pid\<rparr>" by (simp add: s4_def)
  define s5 where "s5 = ccall (margo_addr_free ad') s4"
  have v5: "phandles s5 = phandles s4" "ccalls s5 = ccalls s @ [margo_addr_dup ad ad', margo_addr_free ad']"
    by (simp_all add: s5_def s4_def s3_def s2_def s1_def ccall_def)
  have "aggregator_destroy_provider_handle p s4 =
      Inr (BEDROCK_SUCCESS, NULL, s5\<lparr>phandles := (phandles s5)\<lparr>cells := (cells (phandles s5))(p := None)\<rparr>\<rparr>)"
    using p0 c4 v5(1) by (simp add: aggregator_destroy_provider_handle_def load_def dealloc_def s5_def [symmetric])
  moreover have "(cells (phandles s5))(p := None) = cells (phandles s)"
    using heap_ok_fresh [OF assms(3)] by (auto simp: v5 s4_def s3_def s2_def s1_def ccall_def p_def fun_eq_iff)
  ultimately show ?thesis
    using run c4 v5(2) by (intro exI [of _ p] exI [of _ s4] conjI exI) (assumption | simp)+
qed

lemma dummy_sum:
  assumes "- (2 ^ 31) \<le> sint x + sint y" "sint x + sint y < 2 ^ 31"
  shows "dummy_compute_sum ctx x y = Inr (x + y) \<and> sint (x + y) = sint x + sint y"
proof -
  have "word_of_int (sint x + sint y) = x + y" by simp
  moreover have "sint (x + y) = sint x + sint y"
    using signed_take_bit_int_eq_self [of 31 "sint x + sint y"] assms
    by (simp add: sint_word_ariths)
  ultimately show ?thesis using assms by (simp add: dummy_compute_sum_def)
qed

lemma dummy_sum_overflow:
  "sint x + sint y < - (2 ^ 31) \<or> 2 ^ 31 \<le> sint x + sint y \<Longrightarrow> dummy_compute_sum ctx x y = Inl Overflow"
  by (auto simp: dummy_compute_sum_def)

section \<open>The contract of a backend\<close>

text \<open>
  A backend keeps a set of contexts: creating or opening a stream adds one, unless there is no memory, and
  closing or destroying it takes it away. A provider may then close its contexts in any order.
\<close>

fun close_contexts :: "'s aggregator_backend_impl \<Rightarrow> addr list \<Rightarrow> 's \<Rightarrow> 's res" where
  "close_contexts impl [] s = Inr s"
| "close_contexts impl (c # cs) s = rbind (be_close_stream impl c s) (\<lambda>(ret, s). close_contexts impl cs s)"

locale stream_backend =
  fixes impl :: "'s aggregator_backend_impl"
    and ok :: "'s \<Rightarrow> bool"
    and ctxs :: "'s \<Rightarrow> addr set"
  assumes create: "ok s \<Longrightarrow> be_create_stream impl p s = (r, c, s') \<Longrightarrow>
      ok s' \<and> r = AGGREGATOR_SUCCESS \<and> c \<notin> ctxs s \<and> ctxs s' = ctxs s \<union> ({c} - {NULL})"
    and op: "ok s \<Longrightarrow> be_open_stream impl p s = (r, c, s') \<Longrightarrow>
      ok s' \<and> r = AGGREGATOR_SUCCESS \<and> c \<notin> ctxs s \<and> ctxs s' = ctxs s \<union> ({c} - {NULL})"
    and close: "ok s \<Longrightarrow> c \<in> insert NULL (ctxs s) \<Longrightarrow>
      \<exists>s'. be_close_stream impl c s = Inr (AGGREGATOR_SUCCESS, s') \<and> ok s' \<and> ctxs s' = ctxs s - {c}"
    and destroy: "ok s \<Longrightarrow> c \<in> insert NULL (ctxs s) \<Longrightarrow>
      \<exists>s'. be_destroy_stream impl c s = Inr (AGGREGATOR_SUCCESS, s') \<and> ok s' \<and> ctxs s' = ctxs s - {c}"
begin

lemma create_destroy:
  assumes "ok s" "be_create_stream impl p s = (r, c, s')"
  shows "\<exists>s''. be_destroy_stream impl c s' = Inr (AGGREGATOR_SUCCESS, s'') \<and> ctxs s'' = ctxs s"
proof -
  note c = create [OF assms]
  from c have "ok s'" "c \<in> insert NULL (ctxs s')" by auto
  from destroy [OF this] obtain s'' where s'': "be_destroy_stream impl c s' = Inr (AGGREGATOR_SUCCESS, s'')"
    "ctxs s'' = ctxs s' - {c}" by blast
  from c have "ctxs s' - {c} = ctxs s" by auto
  with s'' show ?thesis by auto
qed

lemma close_all: "ok s \<Longrightarrow> distinct cs \<Longrightarrow> set cs \<subseteq> ctxs s \<Longrightarrow>
  \<exists>s'. close_contexts impl cs s = Inr s' \<and> ok s' \<and> ctxs s' = ctxs s - set cs"
proof (induction cs arbitrary: s)
  case (Cons c cs)
  from close [of s c] Cons.prems obtain s1 where s1: "be_close_stream impl c s = Inr (AGGREGATOR_SUCCESS, s1)" "ok s1"
    "ctxs s1 = ctxs s - {c}" by auto
  with Cons.prems have "set cs \<subseteq> ctxs s1" by auto
  from Cons.IH [OF s1(2) _ this] Cons.prems s1 show ?case by auto
qed simp

end

interpretation dummy: stream_backend dummy_backend "\<lambda>s. heap_ok (dummies s)" "\<lambda>s. {c. live (dummies s) c}"
proof unfold_locales
  fix s s' :: dummy_st and p c :: addr and r
  have mk: "heap_ok (dummies s') \<and> r = AGGREGATOR_SUCCESS \<and> c \<notin> {c. live (dummies s) c} \<and>
      {c. live (dummies s') c} = {c. live (dummies s) c} \<union> ({c} - {NULL})"
    if ok: "heap_ok (dummies s)" and r: "(case calloc 0 (doom s) (dummies s) of (ctx, sch, h) \<Rightarrow>
      (AGGREGATOR_SUCCESS, ctx, s\<lparr>doom := sch, dummies := h\<rparr>)) = (r, c, s')"
  proof -
    obtain sch h where k: "calloc 0 (doom s) (dummies s) = (c, sch, h)" "r = AGGREGATOR_SUCCESS"
      "s' = s\<lparr>doom := sch, dummies := h\<rparr>" using r by (auto split: prod.splits)
    have "c \<notin> {c. live (dummies s) c} \<and> {c. live h c} = {c. live (dummies s) c} \<union> ({c} - {NULL})"
      using k(1) ok heap_ok_fresh [OF ok] by (auto simp: calloc_def live_def heap_ok_def split: if_splits)
    then show ?thesis using heap_ok_calloc [OF ok k(1)] k(2,3) by simp
  qed
  show "heap_ok (dummies s) \<Longrightarrow> be_create_stream dummy_backend p s = (r, c, s') \<Longrightarrow>
      heap_ok (dummies s') \<and> r = AGGREGATOR_SUCCESS \<and> c \<notin> {c. live (dummies s) c} \<and>
      {c. live (dummies s') c} = {c. live (dummies s) c} \<union> ({c} - {NULL})"
    by (rule mk) (simp_all add: dummy_backend_def dummy_create_stream_def)
  show "heap_ok (dummies s) \<Longrightarrow> be_open_stream dummy_backend p s = (r, c, s') \<Longrightarrow>
      heap_ok (dummies s') \<and> r = AGGREGATOR_SUCCESS \<and> c \<notin> {c. live (dummies s) c} \<and>
      {c. live (dummies s') c} = {c. live (dummies s) c} \<union> ({c} - {NULL})"
    by (rule mk) (simp_all add: dummy_backend_def dummy_open_stream_def)
  have rm: "\<exists>h. dealloc (dummies s) c = Inr h \<and> heap_ok h \<and> {d. live h d} = {d. live (dummies s) d} - {c}"
    if "heap_ok (dummies s)" "c \<in> insert NULL {c. live (dummies s) c}"
    using that by (auto simp: dealloc_def live_def heap_ok_def)
  show "heap_ok (dummies s) \<Longrightarrow> c \<in> insert NULL {c. live (dummies s) c} \<Longrightarrow>
      \<exists>s'. be_close_stream dummy_backend c s = Inr (AGGREGATOR_SUCCESS, s') \<and> heap_ok (dummies s') \<and>
        {c. live (dummies s') c} = {c. live (dummies s) c} - {c}"
    using rm by (auto simp: dummy_backend_def dummy_close_stream_def)
  show "heap_ok (dummies s) \<Longrightarrow> c \<in> insert NULL {c. live (dummies s) c} \<Longrightarrow>
      \<exists>s'. be_destroy_stream dummy_backend c s = Inr (AGGREGATOR_SUCCESS, s') \<and> heap_ok (dummies s') \<and>
        {c. live (dummies s') c} = {c. live (dummies s) c} - {c}"
    using rm by (auto simp: dummy_backend_def dummy_destroy_stream_def)
qed

end
