(* ===== verification/Stream_Dump.thy ===== *)
theory Stream_Dump
  imports Stream_Update
begin

text \<open>
  The two functions of \<open>src/client.c\<close> that write a stream to a file. What \<open>fprintf\<close> is given is the
  result; whether \<open>fopen\<close> succeeds is an argument, and a null \<open>FILE*\<close> is dereferenced by the calls
  that follow. Both functions end without a \<open>return\<close>, so they have no result of their own.

  The histogram puts a value \<open>v\<close> into bucket \<open>(int)((v - min) / (max - min) * num_buckets)\<close>. The
  maximum itself gets the number \<open>num_buckets\<close>, one past the last bucket.
\<close>

section \<open>Operations\<close>

text \<open>
  The loops are \<open>for(i = 0; i < m->buffer_index; i++)\<close>. Their bodies leave \<open>buffer_index\<close> alone, so it is
  read once, and a loop runs over the list of its indices.
\<close>

definition index_of :: "addr \<Rightarrow> 'x server \<Rightarrow> u32 res" where
  "index_of m s = rbind (load (elems s) m) (\<lambda>e. Inr (buffer_index e))"

definition stream_val :: "addr \<Rightarrow> nat \<Rightarrow> 'x server \<Rightarrow> double res" where
  "stream_val m i s = rbind (read_sample m (of_nat i) s) (\<lambda>x. Inr (val x))"

fun raw_loop :: "nat list \<Rightarrow> addr \<Rightarrow> 'x server \<Rightarrow> (double \<times> double \<times> u64) list res" where
  "raw_loop [] m s = Inr []"
| "raw_loop (i # is) m s =
     rbind (read_sample m (of_nat i) s) (\<lambda>x.
     rbind (raw_loop is m s) (\<lambda>ls. Inr ((val x, time x, sample_id x) # ls)))"

definition aggregator_stream_dump_raw_data :: "bool \<Rightarrow> addr \<Rightarrow> 'x server \<Rightarrow> (double \<times> double \<times> u64) list res" where
  "aggregator_stream_dump_raw_data opened m s =
     rbind (index_of m s) (\<lambda>n.
     if opened then raw_loop [0..<unat n] m s else Inl NullDeref)"

fun range_loop :: "nat list \<Rightarrow> addr \<Rightarrow> double \<Rightarrow> double \<Rightarrow> 'x server \<Rightarrow> (double \<times> double) res" where
  "range_loop [] m mx mn s = Inr (mx, mn)"
| "range_loop (i # is) m mx mn s =
     rbind (stream_val m i s) (\<lambda>v.
     range_loop is m (if dgt v mx then v else mx) (if dlt v mn then v else mn) s)"

definition hist_bucket :: "u64 \<Rightarrow> double \<Rightarrow> double \<Rightarrow> double \<Rightarrow> int res" where
  "hist_bucket nbk mx mn v =
     d_to_int (dmul (ddiv (dsub v mn) (dsub mx mn)) (dof_nat (unat nbk)))"

fun count_loop :: "nat list \<Rightarrow> addr \<Rightarrow> u64 \<Rightarrow> double \<Rightarrow> double \<Rightarrow> u64 carr option \<Rightarrow> 'x server \<Rightarrow> u64 carr option res" where
  "count_loop [] m nb mx mn b s = Inr b"
| "count_loop (i # is) m nb mx mn b s =
     rbind (stream_val m i s) (\<lambda>v.
     rbind (hist_bucket nb mx mn v) (\<lambda>k.
     case b of
       None \<Rightarrow> Inl NullDeref
     | Some B \<Rightarrow>
         if k < 0 then Inl OutOfBounds
         else
           rbind (aget B (nat k)) (\<lambda>c.
           rbind (aset B (nat k) (c + 1)) (\<lambda>B.
           count_loop is m nb mx mn (Some B) s))))"

definition hist_min0 :: double where
  "hist_min0 = dof_nat 9999999999999"

text \<open>
  The line the file starts with (number of buckets, minimum, maximum) and the counts below it. The
  loop that prints the counts has an \<open>int\<close> variable.
\<close>

definition aggregator_stream_dump_histogram :: "bool \<Rightarrow> addr \<Rightarrow> u64 \<Rightarrow> 'x server \<Rightarrow>
    ((u64 \<times> double \<times> double \<times> u64 list) \<times> 'x server) res" where
  "aggregator_stream_dump_histogram opened m nbk s =
     (let b = (if 8 * unat nbk < 2 ^ 63 \<and> alloc_ok (oom s)
               then Some (azero (unat nbk) (0 :: u64)) else None);
          s = s\<lparr>oom := tl (oom s)\<rparr> in
      rbind (index_of m s) (\<lambda>n.
      rbind (range_loop [0..<unat n] m dzero hist_min0 s) (\<lambda>(mx, mn).
      rbind (count_loop [0..<unat n] m nbk mx mn b s) (\<lambda>b.
      if \<not> opened then Inl NullDeref
      else if 2 ^ 31 \<le> unat nbk then Inl Overflow
      else
        case b of
          None \<Rightarrow> if unat nbk = 0 then Inr ((nbk, mn, mx, []), s) else Inl NullDeref
        | Some B \<Rightarrow> Inr ((nbk, mn, mx, aslice B 0 (unat nbk)), s)))))"

section \<open>Reading the samples\<close>

lemma stream_wf_oom [simp]: "stream_wf (s\<lparr>oom := w\<rparr>) m = stream_wf s m" "ST (s\<lparr>oom := w\<rparr>) = ST s"
  "samples (s\<lparr>oom := w\<rparr>) m = samples s m" "svals (s\<lparr>oom := w\<rparr>) m = svals s m"
  by (simp_all add: stream_wf_def ST_def sbuf_def samples_def svals_def fun_eq_iff)

lemma read_sample_nth:
  assumes wf: "stream_wf s m" and i: "i < length (samples s m)"
  shows "read_sample m (of_nat i) s = Inr (samples s m ! i)"
proof -
  have b: "i < unat (buffer_index (ST s m))" using i by simp
  moreover have "unat (buffer_index (ST s m)) < 2 ^ 32" using unsigned_less [of "buffer_index (ST s m)"] by simp
  ultimately have u: "unat (of_nat i :: u32) = i" by (simp add: unat_of_nat)
  have "alen (sbuf s m) = STREAM_BUFFER_SIZE" "unat (buffer_index (ST s m)) \<le> STREAM_BUFFER_SIZE"
    using wf by (simp_all add: stream_wf_def)
  with b u show ?thesis
    using stream_wf_load [OF wf] by (simp add: read_sample_def aget_def samples_def nth_aslice)
qed

lemma stream_val_nth:
  assumes "stream_wf s m" "i < length (svals s m)"
  shows "stream_val m i s = Inr (svals s m ! i)"
  using assms read_sample_nth [OF assms(1), of i] by (simp add: stream_val_def svals_def)

lemma index_of_wf: "stream_wf s m \<Longrightarrow> index_of m s = Inr (buffer_index (ST s m))"
  by (simp add: index_of_def stream_wf_load)

lemma map_nth_upt: "map (nth xs) [0..<length xs] = xs"
  by (rule map_nth)

lemma raw_loop_ok:
  assumes "stream_wf s m" "\<And>i. i \<in> set is \<Longrightarrow> i < length (samples s m)"
  shows "raw_loop is m s = Inr (map (\<lambda>x. (val x, time x, sample_id x)) (map (nth (samples s m)) is))"
  using assms by (induction "is") (simp_all add: read_sample_nth del: length_samples)

lemma dump_raw_ok:
  assumes "stream_wf s m"
  shows "aggregator_stream_dump_raw_data True m s = Inr (map (\<lambda>x. (val x, time x, sample_id x)) (samples s m))"
proof -
  have "raw_loop [0..<length (samples s m)] m s =
      Inr (map (\<lambda>x. (val x, time x, sample_id x)) (map (nth (samples s m)) [0..<length (samples s m)]))"
    by (rule raw_loop_ok [OF assms]) simp
  then show ?thesis
    using assms by (simp only: map_nth) (simp add: aggregator_stream_dump_raw_data_def index_of_wf)
qed

section \<open>The range\<close>

definition range_step :: "double \<times> double \<Rightarrow> double \<Rightarrow> double \<times> double" where
  "range_step r v = (case r of (mx, mn) \<Rightarrow> (if dgt v mx then v else mx, if dlt v mn then v else mn))"

definition hist_range :: "double list \<Rightarrow> double \<times> double" where
  "hist_range vs = foldl range_step (dzero, hist_min0) vs"

lemma range_loop_ok:
  assumes "stream_wf s m" "\<And>i. i \<in> set is \<Longrightarrow> i < length (svals s m)"
  shows "range_loop is m mx mn s = Inr (foldl range_step (mx, mn) (map (nth (svals s m)) is))"
  using assms by (induction "is" arbitrary: mx mn) (simp_all add: stream_val_nth range_step_def)

lemma hist_min0_fin: "is_fin hist_min0" "dval hist_min0 = 9999999999999 * 2 ^ 1074"
  using dof_nat_exact [of 9999999999999] by (simp_all add: hist_min0_def dval_def)

lemma dzero_fin: "is_fin dzero" "dval dzero = 0" "dmag dzero = 0"
  by (simp_all add: is_fin_def dval_def dsign_def dmag_def dzero_def inf_mag_def)

lemma fin_not_nan: "is_fin x \<Longrightarrow> \<not> is_nan x"
  by (simp add: is_fin_def is_nan_def)

lemma dlt_fin: "is_fin x \<Longrightarrow> is_fin y \<Longrightarrow> dlt x y \<longleftrightarrow> dval x < dval y"
  by (simp add: dlt_def fin_not_nan dkey_less_iff)

text \<open>The range covers every value; its ends are values, 0 or the initial minimum.\<close>

definition covers :: "double list \<Rightarrow> double \<times> double \<Rightarrow> double \<times> double \<Rightarrow> bool" where
  "covers vs r r' \<longleftrightarrow> is_fin (fst r') \<and> is_fin (snd r') \<and>
     dval (fst r) \<le> dval (fst r') \<and> dval (snd r') \<le> dval (snd r) \<and>
     (\<forall>v \<in> set vs. dval v \<le> dval (fst r') \<and> dval (snd r') \<le> dval v) \<and>
     (fst r' = fst r \<or> fst r' \<in> set vs) \<and> (snd r' = snd r \<or> snd r' \<in> set vs)"

lemma range_fold:
  assumes "\<forall>v \<in> set vs. is_fin v" "is_fin (fst r)" "is_fin (snd r)"
  shows "covers vs r (foldl range_step r vs)"
  using assms
proof (induction vs arbitrary: r)
  case (Cons v vs)
  obtain mx mn where r: "r = (mx, mn)" by (cases r)
  let ?mx = "if dgt v mx then v else mx" and ?mn = "if dlt v mn then v else mn"
  have f: "is_fin ?mx" "is_fin ?mn" "is_fin v" using Cons.prems r by auto
  have le: "dval mx \<le> dval ?mx" "dval v \<le> dval ?mx" "dval ?mn \<le> dval mn" "dval ?mn \<le> dval v"
    using Cons.prems(2,3) f(3) r by (auto simp: dgt_def dlt_fin)
  have "covers vs (?mx, ?mn) (foldl range_step (?mx, ?mn) vs)"
    using Cons.prems f by (intro Cons.IH) auto
  then have IH: "covers vs (?mx, ?mn) (foldl range_step r (v # vs))" by (simp add: r range_step_def)
  show ?case using IH le unfolding covers_def r by (auto split: if_splits)
qed (simp add: covers_def)

section \<open>The counts\<close>

definition in_bucket :: "u64 \<Rightarrow> double \<times> double \<Rightarrow> nat \<Rightarrow> double \<Rightarrow> bool" where
  "in_bucket nb r k v \<longleftrightarrow> hist_bucket nb (fst r) (snd r) v = Inr (int k)"

lemma count_loop_ok:
  assumes "stream_wf s m" "\<And>i. i \<in> set is \<Longrightarrow> i < length (svals s m)"
    "count_loop is m nb mx mn (Some B) s = Inr B'"
  shows "\<exists>C. B' = Some C \<and> alen C = alen B \<and>
    (\<forall>k. adat C k = adat B k + of_nat (length (filter (in_bucket nb (mx, mn) k) (map (nth (svals s m)) is)))) \<and>
    (\<forall>v \<in> set (map (nth (svals s m)) is). \<exists>k < alen B. in_bucket nb (mx, mn) k v)"
  using assms
proof (induction "is" arbitrary: B)
  case (Cons i "is")
  let ?v = "svals s m ! i"
  have "stream_val m i s = Inr ?v" using Cons.prems by (simp add: stream_val_nth)
  with Cons.prems(3) obtain k where k: "hist_bucket nb mx mn ?v = Inr k" "0 \<le> k" "nat k < alen B"
    and run: "count_loop is m nb mx mn (Some (B\<lparr>adat := (adat B)(nat k := adat B (nat k) + 1)\<rparr>)) s = Inr B'"
    by (auto simp: rbind_eq_Inr aget_def aset_def split: if_splits)
  from Cons.IH [OF Cons.prems(1) _ run] Cons.prems(2) obtain C where
    C: "B' = Some C" "alen C = alen B"
      "\<And>j. adat C j = (if j = nat k then adat B j + 1 else adat B j) +
         of_nat (length (filter (in_bucket nb (mx, mn) j) (map (nth (svals s m)) is)))"
      "\<forall>v \<in> set (map (nth (svals s m)) is). \<exists>k < alen B. in_bucket nb (mx, mn) k v"
    by (auto simp: fun_upd_def)
  have "in_bucket nb (mx, mn) j ?v \<longleftrightarrow> j = nat k" for j using k(1,2) by (auto simp: in_bucket_def)
  then show ?case using C k(3) by (intro exI [of _ C]) auto
qed auto

lemma count_loop_none:
  assumes "stream_wf s m" "\<And>i. i \<in> set is \<Longrightarrow> i < length (svals s m)" "count_loop is m nb mx mn None s = Inr B'"
  shows "is = []"
  using assms by (cases "is") (auto simp: rbind_eq_Inr)

text \<open>A dump that ends well: every sample is in the bucket its value belongs to.\<close>

lemma histogram_counts:
  assumes wf: "stream_wf s m" and run: "aggregator_stream_dump_histogram True m nb s = Inr ((nb', mn, mx, cs), s')"
  shows "nb' = nb \<and> s' = s\<lparr>oom := tl (oom s)\<rparr> \<and> (mx, mn) = hist_range (svals s m) \<and> length cs = unat nb \<and>
    (\<forall>k < unat nb. cs ! k = of_nat (length (filter (in_bucket nb (mx, mn) k) (svals s m)))) \<and>
    (\<forall>v \<in> set (svals s m). \<exists>k < unat nb. in_bucket nb (mx, mn) k v)"
proof -
  let ?s = "s\<lparr>oom := tl (oom s)\<rparr>" and ?is = "[0..<length (svals s m)]"
  have wf': "stream_wf ?s m" using wf by simp
  have ri: "range_loop ?is m dzero hist_min0 ?s = Inr (hist_range (svals s m))"
    using range_loop_ok [OF wf', of ?is] by (simp add: map_nth hist_range_def)
  obtain mx0 mn0 where r: "hist_range (svals s m) = (mx0, mn0)" by (cases "hist_range (svals s m)")
  define b where "b = (if 8 * unat nb < 2 ^ 63 \<and> alloc_ok (oom s) then Some (azero (unat nb) (0 :: u64)) else None)"
  have run': "rbind (count_loop ?is m nb mx0 mn0 b ?s) (\<lambda>b.
      if 2 ^ 31 \<le> unat nb then Inl Overflow
      else case b of None \<Rightarrow> if unat nb = 0 then Inr ((nb, mn0, mx0, []), ?s) else Inl NullDeref
        | Some B \<Rightarrow> Inr ((nb, mn0, mx0, aslice B 0 (unat nb)), ?s)) = Inr ((nb', mn, mx, cs), s')"
    using run ri index_of_wf [OF wf'] unfolding aggregator_stream_dump_histogram_def b_def [symmetric] Let_def
    by (simp add: r unat_index)
  then obtain B' where cl: "count_loop ?is m nb mx0 mn0 b ?s = Inr B'" by (auto simp: rbind_eq_Inr)
  show ?thesis
  proof (cases b)
    case None
    from count_loop_none [OF wf' _ cl [unfolded None]] have "?is = []" by simp
    with run' None r show ?thesis by (auto split: if_splits)
  next
    case (Some B)
    then have B: "B = azero (unat nb) 0" by (simp add: b_def split: if_splits)
    from count_loop_ok [OF wf' _ cl [unfolded Some]] obtain C where
      C: "B' = Some C" "\<And>k. adat C k = of_nat (length (filter (in_bucket nb (mx0, mn0) k) (svals s m)))"
        "\<forall>v \<in> set (svals s m). \<exists>k < unat nb. in_bucket nb (mx0, mn0) k v"
      by (auto simp: B azero_def map_nth)
    from run' cl C(1) have "nb' = nb" "s' = ?s" "mn = mn0" "mx = mx0" "cs = aslice C 0 (unat nb)"
      by (auto split: if_splits)
    with C r show ?thesis by (auto simp: nth_aslice)
  qed
qed

text \<open>
  A stream of finite values with one that is not negative: the maximum is in no bucket, or the
  quotient is not a number. The dump never ends well.
\<close>

lemma max_no_bucket:
  assumes fin: "is_fin v" "is_fin mx" "is_fin mn" and eq: "dval v = dval mx"
  shows "hist_bucket nb mx mn v = Inr k \<Longrightarrow> unat nb < 2 ^ 31 \<Longrightarrow> k = int (unat nb)"
proof -
  assume h: "hist_bucket nb mx mn v = Inr k" and nb: "unat nb < 2 ^ 31"
  let ?x = "dsub v mn" and ?y = "dsub mx mn"
  from dsub_cong [OF eq fin(1,2)] have c: "?x = ?y \<or> dmag ?x = 0 \<and> dmag ?y = 0" .
  show "k = int (unat nb)"
  proof (cases "is_fin ?x \<and> dmag ?x \<noteq> 0")
    case True
    with c have "ddiv ?x ?y = done1" using ddiv_same by auto
    moreover have "is_fin (dof_nat (unat nb))" using nb by (intro dof_nat_exact(1)) simp
    ultimately show ?thesis using h nb by (simp add: hist_bucket_def dmul_done1 d_to_int_of_nat)
  next
    case False
    then have "is_nan (ddiv ?x ?y)" using c by (intro is_nan_ddiv_same) auto
    then show ?thesis using h by (simp add: hist_bucket_def d_to_int_nan dmul_nan)
  qed
qed

lemma histogram_faults:
  assumes wf: "stream_wf s m" and fin: "\<forall>v \<in> set (svals s m). is_fin v"
    and pos: "\<exists>v \<in> set (svals s m). 0 \<le> dval v"
  shows "\<exists>e. aggregator_stream_dump_histogram opened m nb s = Inl e"
proof (rule ccontr)
  assume no: "\<not> ?thesis"
  then obtain r where r: "aggregator_stream_dump_histogram opened m nb s = Inr r"
    by (cases "aggregator_stream_dump_histogram opened m nb s") auto
  have op: opened using r by (auto simp: aggregator_stream_dump_histogram_def Let_def rbind_eq_Inr split: if_splits)
  have nb: "unat nb < 2 ^ 31"
    using r by (auto simp: aggregator_stream_dump_histogram_def Let_def rbind_eq_Inr split: if_splits)
  obtain nb' mn mx cs s' where r': "r = ((nb', mn, mx, cs), s')" by (metis prod.exhaust)
  have run: "aggregator_stream_dump_histogram True m nb s = Inr ((nb', mn, mx, cs), s')" using r op r' by simp
  note H = histogram_counts [OF wf run]
  have rg: "foldl range_step (dzero, hist_min0) (svals s m) = (mx, mn)" using H by (simp add: hist_range_def)
  have all: "\<forall>v \<in> set (svals s m). \<exists>k < unat nb. in_bucket nb (mx, mn) k v" using H by blast
  have R: "covers (svals s m) (dzero, hist_min0) (mx, mn)"
    using range_fold [of "svals s m" "(dzero, hist_min0)"] fin dzero_fin(1) hist_min0_fin(1) rg by simp
  have "\<exists>v \<in> set (svals s m). dval v = dval mx"
  proof (cases "mx \<in> set (svals s m)")
    case False
    then have "dval mx = 0" using R dzero_fin(2) by (auto simp: covers_def)
    with pos R show ?thesis by (force simp: covers_def)
  qed auto
  then obtain v where v: "v \<in> set (svals s m)" "dval v = dval mx" by blast
  with all obtain k where k: "k < unat nb" "hist_bucket nb mx mn v = Inr (int k)" by (auto simp: in_bucket_def)
  have "int k = int (unat nb)"
    by (rule max_no_bucket [OF _ _ _ v(2) k(2) nb]) (use fin v(1) R in \<open>auto simp: covers_def\<close>)
  with k(1) show False by (simp only: of_nat_eq_iff)
qed

lemma count_loop_runs:
  assumes "stream_wf s m" "\<And>i. i \<in> set is \<Longrightarrow> i < length (svals s m)"
    "\<forall>v \<in> set (map (nth (svals s m)) is). \<exists>k < alen B. in_bucket nb (mx, mn) k v"
  shows "\<exists>C. count_loop is m nb mx mn (Some B) s = Inr (Some C)"
  using assms
proof (induction "is" arbitrary: B)
  case (Cons i "is")
  have v: "stream_val m i s = Inr (svals s m ! i)" using Cons.prems by (simp add: stream_val_nth)
  from Cons.prems(3) obtain k where k: "k < alen B" "hist_bucket nb mx mn (svals s m ! i) = Inr (int k)"
    by (auto simp: in_bucket_def)
  define B1 where "B1 = B\<lparr>adat := (adat B)(k := adat B k + 1)\<rparr>"
  have "\<exists>C. count_loop is m nb mx mn (Some B1) s = Inr (Some C)"
    using Cons.prems by (intro Cons.IH) (auto simp: B1_def)
  then show ?case using k by (simp add: v aget_def aset_def B1_def)
qed simp

text \<open>A dump into an open file returns when every value has a bucket.\<close>

lemma histogram_returns:
  assumes wf: "stream_wf s m" and nb: "unat nb < 2 ^ 31" and ok: "alloc_ok (oom s)"
    and all: "\<forall>v \<in> set (svals s m). \<exists>k < unat nb. in_bucket nb (hist_range (svals s m)) k v"
  shows "\<exists>r. aggregator_stream_dump_histogram True m nb s = Inr r"
proof -
  let ?s = "s\<lparr>oom := tl (oom s)\<rparr>" and ?is = "[0..<length (svals s m)]"
  have wf': "stream_wf ?s m" using wf by simp
  obtain mx mn where r: "hist_range (svals s m) = (mx, mn)" by (cases "hist_range (svals s m)")
  have ri: "range_loop ?is m dzero hist_min0 ?s = Inr (mx, mn)"
    using range_loop_ok [OF wf', of ?is] r by (simp add: map_nth hist_range_def)
  have "\<exists>C. count_loop ?is m nb mx mn (Some (azero (unat nb) (0 :: u64))) ?s = Inr (Some C)"
    using all r by (intro count_loop_runs [OF wf']) (simp_all add: map_nth azero_def)
  then show ?thesis
    using ri index_of_wf [OF wf'] nb ok by (auto simp: aggregator_stream_dump_histogram_def unat_index)
qed

end
