(* ===== verification/Stream_Threads.thy ===== *)
theory Stream_Threads
  imports Stream_Update
begin

text \<open>
  Several threads that update one stream at once. Every thread runs \<open>aggregator_stream_update\<close>,
  and any other thread may run between two of its steps: the check, taking the mutex, the three
  stores, raising the index, releasing the mutex. A configuration is the memory, where each thread
  stands (\<open>pc\<close>), and a record of the samples made so far, which no step reads.

  The mutex keeps the stores of two threads apart, so no sample is lost (\<open>threads_inv\<close>). The check
  of a counter is made before the mutex is taken: two threads that pass it can record their values
  in the wrong order (\<open>race\<close>).
\<close>

section \<open>Steps\<close>

datatype pc =
    Check double
  | Lock double
  | StVal double
  | StTime double
  | StId double
  | Incr double
  | Unlock double
  | Done aggregator_return_t

type_synonym 'x config = "'x server \<times> (nat \<Rightarrow> pc) \<times> (nat \<times> double) list"

inductive ustep :: "'x argobots \<Rightarrow> (nat \<Rightarrow> u64) \<Rightarrow> addr \<Rightarrow> 'x config \<Rightarrow> 'x config \<Rightarrow> bool"
  for A :: "'x argobots" and self :: "nat \<Rightarrow> u64" and m :: addr where
  pass: "tp t = Check v \<Longrightarrow> update_refused m v s = Inr False \<Longrightarrow>
    ustep A self m (s, tp, l) (s, tp(t := Lock v), l)"
| refuse: "tp t = Check v \<Longrightarrow> update_refused m v s = Inr True \<Longrightarrow>
    ustep A self m (s, tp, l) (s, tp(t := Done AGGREGATOR_ERR_INVALID_VALUE), l)"
| lock: "tp t = Lock v \<Longrightarrow> mutex_lock A m s = Inr s' \<Longrightarrow>
    ustep A self m (s, tp, l) (s', tp(t := StVal v), l)"
| st_val: "tp t = StVal v \<Longrightarrow> store_sample m (\<lambda>y. y\<lparr>val := v\<rparr>) s = Inr s' \<Longrightarrow>
    ustep A self m (s, tp, l) (s', tp(t := StTime v), l)"
| st_time: "tp t = StTime v \<Longrightarrow> store_time A m s = Inr s' \<Longrightarrow>
    ustep A self m (s, tp, l) (s', tp(t := StId v), l)"
| st_id: "tp t = StId v \<Longrightarrow> store_sample m (\<lambda>y. y\<lparr>sample_id := self t\<rparr>) s = Inr s' \<Longrightarrow>
    ustep A self m (s, tp, l) (s', tp(t := Incr v), l)"
| incr: "tp t = Incr v \<Longrightarrow> incr_index m s = Inr s' \<Longrightarrow>
    ustep A self m (s, tp, l) (s', tp(t := Unlock v), l @ [(t, v)])"
| unlock: "tp t = Unlock v \<Longrightarrow> mutex_unlock A m s = Inr s' \<Longrightarrow>
    ustep A self m (s, tp, l) (s', tp(t := Done AGGREGATOR_SUCCESS), l)"

inductive_cases ustepE: "ustep A self m (s, tp, l) c'"

inductive ureach :: "'x argobots \<Rightarrow> (nat \<Rightarrow> u64) \<Rightarrow> addr \<Rightarrow> 'x config \<Rightarrow> 'x config \<Rightarrow> bool"
  for A :: "'x argobots" and self :: "nat \<Rightarrow> u64" and m :: addr and c :: "'x config" where
  init: "ureach A self m c c"
| more: "ureach A self m c c' \<Longrightarrow> ustep A self m c' c'' \<Longrightarrow> ureach A self m c c''"

text \<open>Locking a taken mutex does not return; the thread waits.\<close>

definition argobots_blocks :: "'x argobots \<Rightarrow> ('x \<Rightarrow> addr \<rightharpoonup> bool) \<Rightarrow> bool" where
  "argobots_blocks A mv \<longleftrightarrow> (\<forall>x m x'. mv x m = Some True \<longrightarrow> ABT_mutex_lock A m x \<noteq> Inr x')"

section \<open>The invariant\<close>

fun critical :: "pc \<Rightarrow> bool" where
  "critical (StVal v) = True"
| "critical (StTime v) = True"
| "critical (StId v) = True"
| "critical (Incr v) = True"
| "critical (Unlock v) = True"
| "critical p = False"

text \<open>The value a thread has stored but not yet counted, and the value it has recorded.\<close>

fun pending :: "pc \<Rightarrow> double option" where
  "pending (StTime v) = Some v"
| "pending (StId v) = Some v"
| "pending (Incr v) = Some v"
| "pending p = None"

fun recorded_pc :: "pc \<Rightarrow> bool" where
  "recorded_pc (Unlock v) = True"
| "recorded_pc (Done r) = (r = AGGREGATOR_SUCCESS)"
| "recorded_pc p = False"

definition threads_ok :: "('x \<Rightarrow> addr \<rightharpoonup> bool) \<Rightarrow> addr \<Rightarrow> double list \<Rightarrow> 'x config \<Rightarrow> bool" where
  "threads_ok mv m vs0 c \<longleftrightarrow> (case c of (s, tp, l) \<Rightarrow>
     stream_wf s m \<and>
     mutex_is mv (\<exists>t. critical (tp t)) s m \<and>
     (\<forall>t u. critical (tp t) \<and> critical (tp u) \<longrightarrow> t = u) \<and>
     (\<forall>t v. pending (tp t) = Some v \<longrightarrow>
        unat (buffer_index (ST s m)) < STREAM_BUFFER_SIZE \<and> val (cur_sample s m) = v) \<and>
     svals s m = vs0 @ map snd l \<and> distinct (map fst l) \<and> (\<forall>t. t \<in> fst ` set l \<longleftrightarrow> recorded_pc (tp t)))"

lemma pending_critical: "pending p = Some v \<Longrightarrow> critical p"
  by (cases p) auto

lemma mutex_is_abt: "mutex_is mv b (s\<lparr>abt := x\<rparr>) m \<longleftrightarrow> mv x (stream_mutex (ST s m)) = Some b"
  by (simp add: mutex_is_def)

lemma svals_abt [simp]: "svals (s\<lparr>abt := x\<rparr>) m = svals s m"
  by (simp add: svals_def)

lemma store_sample_Inr:
  assumes wf: "stream_wf s m" and st: "store_sample m f s = Inr s'"
  shows "unat (buffer_index (ST s m)) < STREAM_BUFFER_SIZE" "s' = put_sample m (f (cur_sample s m)) s"
proof -
  have "unat (buffer_index (ST s m)) \<le> STREAM_BUFFER_SIZE" using wf by (simp add: stream_wf_def)
  then show lt: "unat (buffer_index (ST s m)) < STREAM_BUFFER_SIZE"
    using store_sample_full [OF wf] st by (cases "unat (buffer_index (ST s m)) = STREAM_BUFFER_SIZE") auto
  show "s' = put_sample m (f (cur_sample s m)) s" using store_sample_run [OF wf lt] st by simp
qed

lemma samples_put_sample:
  assumes "stream_wf s m"
  shows "samples (put_sample m x s) m = samples s m" "svals (put_sample m x s) m = svals s m"
proof -
  show "samples (put_sample m x s) m = samples s m"
    by (simp add: samples_def srv_simps aslice_upd_outside)
  then show "svals (put_sample m x s) m = svals s m" by (simp add: svals_def)
qed

lemma mutex_is_put_sample [simp]: "mutex_is mv b (put_sample m x s) q = mutex_is mv b s q"
  by (simp add: mutex_is_def srv_simps)

lemma incr_index_views:
  assumes wf: "stream_wf s m" and lt: "unat (buffer_index (ST s m)) < STREAM_BUFFER_SIZE"
    and run: "incr_index m s = Inr s'"
  shows "stream_wf s' m" "svals s' m = svals s m @ [val (cur_sample s m)]" "mutex_is mv b s' m = mutex_is mv b s m"
    "stream_mutex (ST s' m) = stream_mutex (ST s m)"
proof -
  let ?i = "unat (buffer_index (ST s m))"
  have l: "live (elems s) m" using wf by (simp add: stream_wf_def)
  have s': "s' = put_stream m ((ST s m)\<lparr>buffer_index := buffer_index (ST s m) + 1\<rparr>) s"
    using run l by (simp add: incr_index_def upd_stream_live)
  have "?i + 1 < 2 ^ 32" using lt by (simp add: STREAM_BUFFER_SIZE_def)
  then have i1: "unat (buffer_index (ST s m) + 1) = Suc ?i" by (simp add: unat_word_ariths)
  have sb: "sbuf s' m = sbuf s m" by (simp add: s' sbuf_put_stream)
  show "stream_wf s' m" using wf lt l i1 sb by (simp add: stream_wf_def) (simp add: s' srv_simps i1)
  show "svals s' m = svals s m @ [val (cur_sample s m)]"
    by (simp add: svals_def samples_def sb) (simp add: s' srv_simps i1 aslice_Suc cur_sample_def)
  show "mutex_is mv b s' m = mutex_is mv b s m" "stream_mutex (ST s' m) = stream_mutex (ST s m)"
    by (simp_all add: mutex_is_def s' srv_simps)
qed

lemma threads_ok_upd:
  assumes "stream_wf s' m" "mutex_is mv (critical p \<or> (\<exists>u. u \<noteq> t \<and> critical (tp u))) s' m"
    "\<And>u w. u \<noteq> t \<Longrightarrow> w \<noteq> t \<Longrightarrow> critical (tp u) \<Longrightarrow> critical (tp w) \<Longrightarrow> u = w"
    "\<And>u. u \<noteq> t \<Longrightarrow> critical p \<Longrightarrow> \<not> critical (tp u)"
    "\<And>v. pending p = Some v \<Longrightarrow> unat (buffer_index (ST s' m)) < STREAM_BUFFER_SIZE \<and> val (cur_sample s' m) = v"
    "\<And>u v. u \<noteq> t \<Longrightarrow> pending (tp u) = Some v \<Longrightarrow>
       unat (buffer_index (ST s' m)) < STREAM_BUFFER_SIZE \<and> val (cur_sample s' m) = v"
    "svals s' m = vs0 @ map snd l'" "distinct (map fst l')"
    "t \<in> fst ` set l' \<longleftrightarrow> recorded_pc p" "\<And>u. u \<noteq> t \<Longrightarrow> u \<in> fst ` set l' \<longleftrightarrow> recorded_pc (tp u)"
  shows "threads_ok mv m vs0 (s', tp(t := p), l')"
proof -
  have "(\<exists>u. critical ((tp(t := p)) u)) \<longleftrightarrow> critical p \<or> (\<exists>u. u \<noteq> t \<and> critical (tp u))" by auto
  then have "mutex_is mv (\<exists>u. critical ((tp(t := p)) u)) s' m" using assms(2) by simp
  moreover have "\<forall>u w. critical ((tp(t := p)) u) \<and> critical ((tp(t := p)) w) \<longrightarrow> u = w"
    using assms(3,4) by (metis fun_upd_apply)
  moreover have "\<forall>u v. pending ((tp(t := p)) u) = Some v \<longrightarrow>
      unat (buffer_index (ST s' m)) < STREAM_BUFFER_SIZE \<and> val (cur_sample s' m) = v"
    using assms(5,6) by (metis fun_upd_apply)
  moreover have "\<forall>u. u \<in> fst ` set l' \<longleftrightarrow> recorded_pc ((tp(t := p)) u)"
    using assms(9,10) by (metis fun_upd_apply)
  ultimately show ?thesis using assms(1,7,8) by (simp add: threads_ok_def del: fun_upd_apply)
qed

lemma threads_ok_step:
  assumes A: "argobots_ok A mv" and B: "argobots_blocks A mv"
    and ok: "threads_ok mv m vs0 c" and step: "ustep A self m c c'"
  shows "threads_ok mv m vs0 c'"
proof -
  obtain s tp l where c: "c = (s, tp, l)" by (cases c) auto
  from ok have wf: "stream_wf s m" and mx: "mutex_is mv (\<exists>t. critical (tp t)) s m"
    and one: "\<And>t u. critical (tp t) \<Longrightarrow> critical (tp u) \<Longrightarrow> t = u"
    and pend: "\<And>t v. pending (tp t) = Some v \<Longrightarrow> unat (buffer_index (ST s m)) < STREAM_BUFFER_SIZE \<and> val (cur_sample s m) = v"
    and sv: "svals s m = vs0 @ map snd l" and dl: "distinct (map fst l)" and fl: "\<And>t. t \<in> fst ` set l \<longleftrightarrow> recorded_pc (tp t)"
    by (auto simp: threads_ok_def c)
  have l: "live (elems s) m" using wf by (simp add: stream_wf_def)
  have others: "\<not> critical (tp u)" if "critical (tp t)" "u \<noteq> t" for t u using one that by blast
  have nopend: "pending (tp u) \<noteq> Some v" if "critical (tp t)" "u \<noteq> t" for t u v
    using others [OF that] pending_critical by blast
  have held: "mutex_is mv True s m" if "critical (tp t)" for t
  proof -
    have "(\<exists>t. critical (tp t)) = True" using that by blast
    then show ?thesis using mx by simp
  qed
  have nc: "mutex_is mv (\<exists>u. u \<noteq> t \<and> critical (tp u)) s m" if "\<not> critical (tp t)" for t
  proof -
    have "(\<exists>u. u \<noteq> t \<and> critical (tp u)) = (\<exists>u. critical (tp u))" using that by metis
    then show ?thesis using mx by simp
  qed
  from step [unfolded c] show ?thesis
  proof (rule ustepE, goal_cases)
    case (1 t v)
    show ?thesis
      unfolding 1(1) by (rule threads_ok_upd) (use 1(2) wf nc [of t] one pend sv dl fl [of t] fl in auto)
  next
    case (2 t v)
    show ?thesis
      unfolding 2(1) by (rule threads_ok_upd) (use 2(2) wf nc [of t] one pend sv dl fl [of t] fl in auto)
  next
    case (3 t v s')
    have none: "\<not> critical (tp u)" for u
    proof
      assume "critical (tp u)"
      from held [OF this] show False using B 3(3) load_stream_live [OF l]
        by (auto simp: argobots_blocks_def mutex_lock_def mutex_is_def rbind_eq_Inr)
    qed
    then have "mutex_is mv False s m" using mx by simp
    from mutex_lock_ok [OF A wf this] 3(3) obtain x where s': "s' = s\<lparr>abt := x\<rparr>"
      "mv x = (mv (abt s))(stream_mutex (ST s m) \<mapsto> True)" by auto
    then have "mutex_is mv True s' m" by (simp add: mutex_is_def)
    then show ?thesis
      unfolding 3(1) by (intro threads_ok_upd) (use 3(2) wf none pending_critical sv dl fl [of t] fl s' in auto)
  next
    case (4 t v s')
    from store_sample_Inr [OF wf 4(3)] have lt: "unat (buffer_index (ST s m)) < STREAM_BUFFER_SIZE"
      and s': "s' = put_sample m ((cur_sample s m)\<lparr>val := v\<rparr>) s" by auto
    have ct: "critical (tp t)" using 4 by simp
    show ?thesis
      unfolding 4(1) s'
      by (rule threads_ok_upd)
        (use 4(2) wf lt held [OF ct] others [OF ct] nopend [OF ct] sv dl fl [of t] fl
          in \<open>auto simp: samples_put_sample srv_simps\<close>)
  next
    case (5 t v s')
    have ct: "critical (tp t)" using 5 by simp
    have lt: "unat (buffer_index (ST s m)) < STREAM_BUFFER_SIZE" "val (cur_sample s m) = v" using pend [of t v] 5 by auto
    obtain a x where ax: "ABT_get_wtime A (abt s) = (a, x)" by (cases "ABT_get_wtime A (abt s)")
    have mvx: "mv x = mv (abt s)" using wtime_mv [OF A, of "abt s"] ax by simp
    have s': "s' = put_sample m ((cur_sample s m)\<lparr>time := a\<rparr>) (s\<lparr>abt := x\<rparr>)"
      using store_sample_Inr(2) [of "s\<lparr>abt := x\<rparr>" m] 5(3) wf by (simp add: store_time_def ax)
    have "mutex_is mv True (s\<lparr>abt := x\<rparr>) m" using mvx held [OF ct] by (simp add: mutex_is_def)
    then show ?thesis
      unfolding 5(1) s'
      by (intro threads_ok_upd)
        (use 5(2) wf lt others [OF ct] nopend [OF ct] sv dl fl [of t] fl
          in \<open>auto simp: samples_put_sample srv_simps\<close>)
  next
    case (6 t v s')
    have ct: "critical (tp t)" using 6 by simp
    have lt: "unat (buffer_index (ST s m)) < STREAM_BUFFER_SIZE" "val (cur_sample s m) = v" using pend [of t v] 6 by auto
    have s': "s' = put_sample m ((cur_sample s m)\<lparr>sample_id := self t\<rparr>) s"
      by (rule store_sample_Inr(2) [OF wf 6(3)])
    show ?thesis
      unfolding 6(1) s'
      by (rule threads_ok_upd)
        (use 6(2) wf lt held [OF ct] others [OF ct] nopend [OF ct] sv dl fl [of t] fl
          in \<open>auto simp: samples_put_sample srv_simps\<close>)
  next
    case (7 t v s')
    have ct: "critical (tp t)" using 7 by simp
    have lt: "unat (buffer_index (ST s m)) < STREAM_BUFFER_SIZE" "val (cur_sample s m) = v" using pend [of t v] 7 by auto
    note iv = incr_index_views [OF wf lt(1) 7(3)]
    have "mutex_is mv True s' m" using iv(3) held [OF ct] by blast
    moreover have "t \<notin> fst ` set l" using fl [of t] 7 by simp
    ultimately show ?thesis
      unfolding 7(1)
      by (intro threads_ok_upd) (use 7(2) iv(1,2) lt others [OF ct] nopend [OF ct] sv dl fl in auto)
  next
    case (8 t v s')
    have ct: "critical (tp t)" using 8 by simp
    from mutex_unlock_ok [OF A l held [OF ct]] 8(3) obtain x where s': "s' = s\<lparr>abt := x\<rparr>"
      "mv x = (mv (abt s))(stream_mutex (ST s m) \<mapsto> False)" by auto
    have "(\<exists>u. u \<noteq> t \<and> critical (tp u)) = False" using others [OF ct] by blast
    then have "mutex_is mv (\<exists>u. u \<noteq> t \<and> critical (tp u)) s' m" using s' by (simp add: mutex_is_def)
    then show ?thesis
      unfolding 8(1)
      by (intro threads_ok_upd) (use 8(2) wf others [OF ct] nopend [OF ct] sv dl fl [of t] fl s' in auto)
  qed
qed


text \<open>Threads that have not checked yet, on a stream nobody has locked.\<close>

definition threads_init :: "('x \<Rightarrow> addr \<rightharpoonup> bool) \<Rightarrow> addr \<Rightarrow> (nat \<Rightarrow> pc) \<Rightarrow> 'x server \<Rightarrow> bool" where
  "threads_init mv m tp s \<longleftrightarrow> stream_wf s m \<and> mutex_is mv False s m \<and>
     (\<forall>t. (\<exists>v. tp t = Check v) \<or> tp t = Done AGGREGATOR_ERR_OTHER)"

lemma threads_init_ok: "threads_init mv m tp s \<Longrightarrow> threads_ok mv m (svals s m) (s, tp, [])"
proof -
  assume i: "threads_init mv m tp s"
  have p: "\<not> critical (tp t) \<and> pending (tp t) = None \<and> \<not> recorded_pc (tp t)" for t
  proof -
    from i have "(\<exists>v. tp t = Check v) \<or> tp t = Done AGGREGATOR_ERR_OTHER" by (simp add: threads_init_def)
    then show ?thesis by auto
  qed
  with i show ?thesis by (simp add: threads_ok_def threads_init_def)
qed

lemma ureach_ok:
  assumes "argobots_ok A mv" "argobots_blocks A mv" "ureach A self m c c'" "threads_ok mv m vs0 c"
  shows "threads_ok mv m vs0 c'"
  using assms(3,4) by (induction) (auto intro: threads_ok_step [OF assms(1,2)])

text \<open>
  No sample is lost or doubled: what was recorded is what the threads that have counted their sample
  were given, each once, in the order in which they counted.
\<close>

lemma threads_no_loss:
  assumes A: "argobots_ok A mv" "argobots_blocks A mv" and i: "threads_init mv m tp s"
    and r: "ureach A self m (s, tp, []) (s', tp', l)"
  shows "svals s' m = svals s m @ map snd l \<and> distinct (map fst l) \<and>
    (\<forall>t. tp' t = Done AGGREGATOR_SUCCESS \<longrightarrow> t \<in> fst ` set l) \<and> stream_wf s' m"
  using ureach_ok [OF A r threads_init_ok [OF i]] by (auto simp: threads_ok_def)

lemma threads_exclusion:
  assumes A: "argobots_ok A mv" "argobots_blocks A mv" and i: "threads_init mv m tp s"
    and r: "ureach A self m (s, tp, []) (s', tp', l)" and c: "critical (tp' t)" "critical (tp' u)"
  shows "t = u"
  using ureach_ok [OF A r threads_init_ok [OF i]] c by (auto simp: threads_ok_def)

section \<open>The race of the check\<close>

lemma ureach_step: "ustep A self m c c' \<Longrightarrow> ureach A self m c' c'' \<Longrightarrow> ureach A self m c c''"
proof -
  assume st: "ustep A self m c c'" and r: "ureach A self m c' c''"
  from r show ?thesis by (induction) (use st in \<open>auto intro: ureach.intros\<close>)
qed

lemma ureach_trans: "ureach A self m c c' \<Longrightarrow> ureach A self m c' c'' \<Longrightarrow> ureach A self m c c''"
proof -
  assume a: "ureach A self m c c'" and r: "ureach A self m c' c''"
  from r show ?thesis by (induction) (use a in \<open>auto intro: ureach.intros\<close>)
qed

text \<open>A thread that stands before the lock can run to its end when the mutex is free.\<close>

lemma finish_thread:
  assumes A: "argobots_ok A mv" and wf: "stream_wf s m" and free: "mutex_is mv False s m"
    and lt: "unat (buffer_index (ST s m)) < STREAM_BUFFER_SIZE" and t: "tp t = Lock v"
  shows "\<exists>s'. ureach A self m (s, tp, l) (s', tp(t := Done AGGREGATOR_SUCCESS), l @ [(t, v)]) \<and> appended m v mv s s'"
proof -
  from locked_record [OF A wf free lt, of v "self t"] obtain x s' where
    lock: "mutex_lock A m s = Inr (s\<lparr>abt := x\<rparr>)" and
    rec: "rbind (record_sample A m v (self t) (s\<lparr>abt := x\<rparr>)) (\<lambda>s. rbind (mutex_unlock A m s) (\<lambda>s.
      Inr (AGGREGATOR_SUCCESS, s))) = Inr (AGGREGATOR_SUCCESS, s')" and ap: "appended m v mv s s'" by blast
  from rec obtain s1 s2 s3 s4 where
    st: "store_sample m (\<lambda>y. y\<lparr>val := v\<rparr>) (s\<lparr>abt := x\<rparr>) = Inr s1" "store_time A m s1 = Inr s2"
      "store_sample m (\<lambda>y. y\<lparr>sample_id := self t\<rparr>) s2 = Inr s3" "incr_index m s3 = Inr s4"
      "mutex_unlock A m s4 = Inr s'"
    by (auto simp: record_sample_def rbind_eq_Inr)
  have "ustep A self m (s, tp, l) (s\<lparr>abt := x\<rparr>, tp(t := StVal v), l)"
    using t lock by (rule ustep.lock)
  moreover have "ustep A self m (s\<lparr>abt := x\<rparr>, tp(t := StVal v), l) (s1, tp(t := StTime v), l)"
    using ustep.st_val [of "tp(t := StVal v)" t v m "s\<lparr>abt := x\<rparr>" s1 A self l] st by simp
  moreover have "ustep A self m (s1, tp(t := StTime v), l) (s2, tp(t := StId v), l)"
    using ustep.st_time [of "tp(t := StTime v)" t v A m s1 s2 self l] st by simp
  moreover have "ustep A self m (s2, tp(t := StId v), l) (s3, tp(t := Incr v), l)"
    using ustep.st_id [of "tp(t := StId v)" t v m self s2 s3 A l] st by simp
  moreover have "ustep A self m (s3, tp(t := Incr v), l) (s4, tp(t := Unlock v), l @ [(t, v)])"
    using ustep.incr [of "tp(t := Incr v)" t v m s3 s4 A self l] st by simp
  moreover have "ustep A self m (s4, tp(t := Unlock v), l @ [(t, v)]) (s', tp(t := Done AGGREGATOR_SUCCESS), l @ [(t, v)])"
    using ustep.unlock [of "tp(t := Unlock v)" t v A m s4 s' self "l @ [(t, v)]"] st by simp
  ultimately have "ureach A self m (s, tp, l) (s', tp(t := Done AGGREGATOR_SUCCESS), l @ [(t, v)])"
    by (meson ureach_step ureach.init)
  with ap show ?thesis by blast
qed

text \<open>Two threads whose values pass the check run to their ends, one after the other.\<close>

lemma both_record:
  assumes A: "argobots_ok A mv" and i: "threads_init mv m tp s"
    and tu: "t \<noteq> u" "tp t = Check a" "tp u = Check b"
    and acc: "\<not> refuses (stype (ST s m)) (svals s m) a" "\<not> refuses (stype (ST s m)) (svals s m) b"
    and room: "length (svals s m) + 2 \<le> STREAM_BUFFER_SIZE"
  shows "\<exists>s' tp' l. ureach A self m (s, tp, []) (s', tp', l) \<and>
    tp' t = Done AGGREGATOR_SUCCESS \<and> tp' u = Done AGGREGATOR_SUCCESS \<and>
    svals s' m = svals s m @ [a, b] \<and> stype (ST s' m) = stype (ST s m) \<and> stream_wf s' m"
proof -
  have wf: "stream_wf s m" and free: "mutex_is mv False s m" using i by (simp_all add: threads_init_def)
  have lt: "unat (buffer_index (ST s m)) < STREAM_BUFFER_SIZE" using room by (simp add: svals_def)
  define tp1 tp2 where "tp1 = tp(t := Lock a)" and "tp2 = tp1(u := Lock b)"
  have "ustep A self m (s, tp, []) (s, tp1, [])"
    unfolding tp1_def using tu acc update_refused_iff [OF wf] by (intro ustep.pass) auto
  moreover have "ustep A self m (s, tp1, []) (s, tp2, [])"
    unfolding tp2_def using tu acc update_refused_iff [OF wf] by (intro ustep.pass) (auto simp: tp1_def)
  ultimately have r2: "ureach A self m (s, tp, []) (s, tp2, [])" by (meson ureach_step ureach.init)
  have t2: "tp2 t = Lock a" "tp2 u = Lock b" using tu by (simp_all add: tp2_def tp1_def)
  from finish_thread [where tp = tp2 and t = t and self = self and l = "[]", OF A wf free lt t2(1)] obtain s1 where
    r3: "ureach A self m (s, tp2, []) (s1, tp2(t := Done AGGREGATOR_SUCCESS), [(t, a)])" and ap1: "appended m a mv s s1"
    by auto
  have wf1: "stream_wf s1 m" and free1: "mutex_is mv False s1 m" and ty1: "stype (ST s1 m) = stype (ST s m)"
    using ap1 free by (auto simp: appended_def mutex_is_def)
  have lt1: "unat (buffer_index (ST s1 m)) < STREAM_BUFFER_SIZE"
    using svals_appended [OF ap1] room unat_index [of s1 m] by simp
  have "(tp2(t := Done AGGREGATOR_SUCCESS)) u = Lock b" using t2 tu by simp
  from finish_thread [where tp = "tp2(t := Done AGGREGATOR_SUCCESS)" and t = u and self = self and l = "[(t, a)]",
      OF A wf1 free1 lt1 this] obtain s2 where
    r4: "ureach A self m (s1, tp2(t := Done AGGREGATOR_SUCCESS), [(t, a)])
      (s2, tp2(t := Done AGGREGATOR_SUCCESS, u := Done AGGREGATOR_SUCCESS), [(t, a), (u, b)])" and ap2: "appended m b mv s1 s2"
    by auto
  have "svals s2 m = svals s m @ [a, b]" using svals_appended [OF ap1] svals_appended [OF ap2] by simp
  moreover have "stype (ST s2 m) = stype (ST s m)" "stream_wf s2 m" using ap2 ty1 by (auto simp: appended_def)
  ultimately show ?thesis using r2 r3 r4 tu
    by (intro exI [of _ s2] exI [of _ "tp2(t := Done AGGREGATOR_SUCCESS, u := Done AGGREGATOR_SUCCESS)"] exI [of _ "[(t, a), (u, b)]"])
      (auto intro: ureach_trans)
qed

lemma race:
  assumes A: "argobots_ok A mv" and i: "threads_init mv m tp s"
    and ct: "stype (ST s m) = AGGREGATOR_TYPE_COUNTER"
    and tu: "t \<noteq> u" "tp t = Check a" "tp u = Check b"
    and acc: "\<not> refuses AGGREGATOR_TYPE_COUNTER (svals s m) a" "\<not> refuses AGGREGATOR_TYPE_COUNTER (svals s m) b"
    and gt: "dgt a b" and room: "length (svals s m) + 2 \<le> STREAM_BUFFER_SIZE"
  shows "\<exists>s' tp' l. ureach A self m (s, tp, []) (s', tp', l) \<and>
    tp' t = Done AGGREGATOR_SUCCESS \<and> tp' u = Done AGGREGATOR_SUCCESS \<and>
    svals s' m = svals s m @ [a, b] \<and> \<not> type_ok (stype (ST s' m)) (svals s' m)"
proof -
  from both_record [OF A i tu _ _ room] acc ct obtain s' tp' l where
    r: "ureach A self m (s, tp, []) (s', tp', l)" "tp' t = Done AGGREGATOR_SUCCESS" "tp' u = Done AGGREGATOR_SUCCESS"
      "svals s' m = svals s m @ [a, b]" "stype (ST s' m) = AGGREGATOR_TYPE_COUNTER" by metis
  then have "\<not> type_ok (stype (ST s' m)) (svals s' m)" using gt by (simp add: type_ok_def successively_append_iff)
  with r show ?thesis by blast
qed

section \<open>Progress\<close>

text \<open>The steps a thread has before it.\<close>

fun rank :: "pc \<Rightarrow> nat" where
  "rank (Check v) = 7"
| "rank (Lock v) = 6"
| "rank (StVal v) = 5"
| "rank (StTime v) = 4"
| "rank (StId v) = 3"
| "rank (Incr v) = 2"
| "rank (Unlock v) = 1"
| "rank (Done r) = 0"

lemma rank_updI:
  "(s', tp', l') = (s1, tp(t := p), l1) \<Longrightarrow> tp t = q \<Longrightarrow> rank p < rank q \<Longrightarrow> \<exists>t p. tp' = tp(t := p) \<and> rank p < rank (tp t)"
  by (intro exI [of _ t] exI [of _ p]) simp

lemma ustep_rank:
  assumes "ustep A self m (s, tp, l) (s', tp', l')"
  shows "\<exists>t p. tp' = tp(t := p) \<and> rank p < rank (tp t)"
  using assms by (rule ustepE) (erule rank_updI, assumption, simp)+

lemma sum_rank_less:
  assumes "ustep A self m (s, tp, l) (s', tp', l')" "finite S" "\<forall>t. t \<notin> S \<longrightarrow> rank (tp t) = 0"
  shows "(\<Sum>t\<in>S. rank (tp' t)) < (\<Sum>t\<in>S. rank (tp t))" "\<forall>t. t \<notin> S \<longrightarrow> rank (tp' t) = 0"
proof -
  from ustep_rank [OF assms(1)] obtain t p where tp': "tp' = tp(t := p)" "rank p < rank (tp t)" by blast
  with assms(3) have t: "t \<in> S" by (metis not_less_zero)
  show "(\<Sum>t\<in>S. rank (tp' t)) < (\<Sum>t\<in>S. rank (tp t))"
    by (rule sum_strict_mono_ex1) (use assms(2) tp' t in auto)
  show "\<forall>t. t \<notin> S \<longrightarrow> rank (tp' t) = 0" using assms(3) tp' t by auto
qed

lemma critical_steps:
  assumes A: "argobots_ok A mv" and wf: "stream_wf s m" and held: "mutex_is mv True s m"
    and lt: "unat (buffer_index (ST s m)) < STREAM_BUFFER_SIZE" and c: "critical (tp u)"
  shows "\<exists>c'. ustep A self m (s, tp, l) c'"
proof -
  have l: "live (elems s) m" using wf by (simp add: stream_wf_def)
  obtain a x where w: "ABT_get_wtime A (abt s) = (a, x)" by (cases "ABT_get_wtime A (abt s)")
  have tm: "\<exists>s'. store_time A m s = Inr s'"
    using store_sample_run [of "s\<lparr>abt := x\<rparr>" m] wf lt by (simp add: store_time_def w)
  have ix: "\<exists>s'. incr_index m s = Inr s'" using l by (simp add: incr_index_def upd_stream_live)
  from c show ?thesis
  proof (cases "tp u")
    case (StVal v)
    from ustep.st_val [where v = v and t = u and tp = tp and s = s, OF StVal store_sample_run [where f = "\<lambda>y. y\<lparr>val := v\<rparr>", OF wf lt]] show ?thesis by (rule exI)
  next
    case (StTime v)
    from tm obtain s1 where "store_time A m s = Inr s1" ..
    from ustep.st_time [where tp = tp and t = u, OF StTime this] show ?thesis by (rule exI)
  next
    case (StId v)
    from ustep.st_id [where self = self and v = v and t = u and tp = tp and s = s, OF StId store_sample_run [where f = "\<lambda>y. y\<lparr>sample_id := self u\<rparr>", OF wf lt]] show ?thesis by (rule exI)
  next
    case (Incr v)
    from ix obtain s1 where "incr_index m s = Inr s1" ..
    from ustep.incr [where tp = tp and t = u, OF Incr this] show ?thesis by (rule exI)
  next
    case (Unlock v)
    from mutex_unlock_ok [OF A l held] obtain x where "mutex_unlock A m s = Inr (s\<lparr>abt := x\<rparr>)" by blast
    from ustep.unlock [where tp = tp and t = u, OF Unlock this] show ?thesis by (rule exI)
  qed simp_all
qed

lemma threads_progress:
  assumes A: "argobots_ok A mv" and ok: "threads_ok mv m vs0 (s, tp, l)"
    and lt: "unat (buffer_index (ST s m)) < STREAM_BUFFER_SIZE" and t: "rank (tp t) \<noteq> 0"
  shows "\<exists>c'. ustep A self m (s, tp, l) c'"
proof (cases "\<exists>u. critical (tp u)")
  case True
  then obtain u where u: "critical (tp u)" by blast
  have wf: "stream_wf s m" and "mutex_is mv True s m" using ok True by (simp_all add: threads_ok_def)
  from critical_steps [where tp = tp and u = u, OF A this lt u] show ?thesis .
next
  case False
  then have wf: "stream_wf s m" and free: "mutex_is mv False s m" using ok by (simp_all add: threads_ok_def)
  have "\<not> critical (tp t)" using False by blast
  with t consider v where "tp t = Check v" | v where "tp t = Lock v" by (cases "tp t") auto
  then show ?thesis
  proof cases
    case (1 v)
    note u = update_refused_iff [OF wf, of v]
    show ?thesis
    proof (cases "refuses (stype (ST s m)) (svals s m) v")
      case True
      with u have "update_refused m v s = Inr True" by simp
      from ustep.refuse [where tp = tp and t = t, OF 1 this] show ?thesis by (rule exI)
    next
      case False
      with u have "update_refused m v s = Inr False" by simp
      from ustep.pass [where tp = tp and t = t, OF 1 this] show ?thesis by (rule exI)
    qed
  next
    case (2 v)
    from mutex_lock_ok [OF A wf free] obtain x where "mutex_lock A m s = Inr (s\<lparr>abt := x\<rparr>)" by blast
    from ustep.lock [where tp = tp and t = t, OF 2 this] show ?thesis by (rule exI)
  qed
qed

end
