(* ===== verification/Uthash_Select.thy ===== *)
theory Uthash_Select
  imports Uthash_Index
begin

text \<open>
  \<open>HASH_SELECT\<close>: the elements of one table that satisfy a condition, entered into a second table through a
  second handle. The handle \<open>hh\<close> is the one the macros work on, that of the destination, and \<open>hh_src\<close> that of
  the source, which is only read (\<open>src_view\<close> is the memory as the macros see it through \<open>hh_src\<close>).
\<close>

section \<open>The macro\<close>

record elem2 = elem +
  hh_src :: UT_hash_handle

definition get_src :: "addr \<Rightarrow> ('a elem2_scheme, 'b) ut_mem_scheme \<Rightarrow> UT_hash_handle res" where
  "get_src p s = rbind (load (elems s) p) (\<lambda>e. Inr (hh_src e))"

text \<open>One element that is selected; \<open>lst\<close> is \<open>_last_elt\<close>. The new \<open>dst\<close> is returned.\<close>

definition sel_add :: "addr \<Rightarrow> addr \<Rightarrow> addr \<Rightarrow> ('a elem2_scheme, 'b) ut_mem_scheme \<Rightarrow>
    (addr \<times> ('a elem2_scheme, 'b) ut_mem_scheme) res" where
  "sel_add elt dst lst s =
     rbind (get_src elt s) (\<lambda>sh.
     rbind (upd_hh elt (\<lambda>h. h\<lparr>key := key sh, keylen := keylen sh, hashv := hashv sh, prv := lst, nxt := NULL\<rparr>) s) (\<lambda>s.
     rbind (if lst \<noteq> NULL then upd_hh lst (\<lambda>h. h\<lparr>nxt := elt\<rparr>) s else Inr s) (\<lambda>s.
     rbind (if dst = NULL then rbind (HASH_MAKE_TABLE elt s) (\<lambda>s. Inr (elt, s))
            else rbind (get_hh dst s) (\<lambda>hd. rbind (upd_hh elt (\<lambda>h. h\<lparr>tbl := tbl hd\<rparr>) s) (\<lambda>s. Inr (dst, s)))) (\<lambda>(dst, s).
     rbind (get_hh elt s) (\<lambda>h.
     rbind (get_tbl (tbl h) s) (\<lambda>T.
     rbind (HASH_ADD_TO_BKT (buckets T) (HASH_TO_BKT (hashv h) (num_buckets T)) elt s) (\<lambda>s.
     rbind (get_hh dst s) (\<lambda>hd.
     rbind (upd_tbl (tbl hd) (\<lambda>T. T\<lparr>num_items := num_items T + 1\<rparr>) s) (\<lambda>s. Inr (dst, s))))))))))"

text \<open>The loop over one bucket of the source, and the loop over its buckets.\<close>

fun sel_chain :: "nat \<Rightarrow> ('a elem2_scheme \<Rightarrow> bool) \<Rightarrow> addr \<Rightarrow> addr \<Rightarrow> addr \<Rightarrow> ('a elem2_scheme, 'b) ut_mem_scheme \<Rightarrow>
    (addr \<times> addr \<times> ('a elem2_scheme, 'b) ut_mem_scheme) res" where
  "sel_chain 0 cond p dst lst s = Inl Diverge"
| "sel_chain (Suc n) cond p dst lst s =
     (if p = NULL then Inr (dst, lst, s)
      else
        rbind (load (elems s) p) (\<lambda>e.
        rbind (if cond e then rbind (sel_add p dst lst s) (\<lambda>(dst, s). Inr (dst, p, s)) else Inr (dst, lst, s)) (\<lambda>(dst, lst, s).
        rbind (get_src p s) (\<lambda>h. sel_chain n cond (hh_next h) dst lst s))))"

fun sel_outer :: "nat \<Rightarrow> nat \<Rightarrow> ('a elem2_scheme \<Rightarrow> bool) \<Rightarrow> addr \<Rightarrow> addr \<Rightarrow> addr \<Rightarrow> ('a elem2_scheme, 'b) ut_mem_scheme \<Rightarrow>
    (addr \<times> addr \<times> ('a elem2_scheme, 'b) ut_mem_scheme) res" where
  "sel_outer 0 i cond t dst lst s = Inr (dst, lst, s)"
| "sel_outer (Suc n) i cond t dst lst s =
     rbind (get_tbl t s) (\<lambda>T.
     rbind (get_bkt (buckets T) (of_nat i) s) (\<lambda>B.
     rbind (sel_chain (fuel s) cond (hh_head B) dst lst s) (\<lambda>(dst, lst, s).
     sel_outer n (Suc i) cond t dst lst s)))"

definition HASH_SELECT :: "('a elem2_scheme \<Rightarrow> bool) \<Rightarrow> addr \<Rightarrow> addr \<Rightarrow> ('a elem2_scheme, 'b) ut_mem_scheme \<Rightarrow>
    (addr \<times> ('a elem2_scheme, 'b) ut_mem_scheme) res" where
  "HASH_SELECT cond dst src s =
     (if src \<noteq> NULL then
        rbind (get_src src s) (\<lambda>h.
        rbind (get_tbl (tbl h) s) (\<lambda>T.
        rbind (sel_outer (unat (num_buckets T)) 0 cond (tbl h) dst NULL s) (\<lambda>(dst, lst, s). Inr (dst, s))))
      else Inr (dst, s))"

section \<open>The source\<close>

definition src_view :: "('a elem2_scheme, 'b) ut_mem_scheme \<Rightarrow> ('a elem2_scheme, 'b) ut_mem_scheme" where
  "src_view s = s\<lparr>elems := (elems s)\<lparr>cells := \<lambda>p. map_option (\<lambda>e. e\<lparr>hh := hh_src e\<rparr>) (cells (elems s) p)\<rparr>\<rparr>"

definition SRC :: "('a elem2_scheme, 'b) ut_mem_scheme \<Rightarrow> addr \<Rightarrow> UT_hash_handle" where
  "SRC s p = hh_src (the (cells (elems s) p))"

lemma src_view_simps:
  "live (elems (src_view s)) = live (elems s)" "tbls (src_view s) = tbls s" "bkts (src_view s) = bkts s"
  "TT (src_view s) = TT s" "BB (src_view s) = BB s" "oom (src_view s) = oom s"
  "live (elems s) p \<Longrightarrow> HH (src_view s) p = SRC s p" "live (elems s) p \<Longrightarrow> SID (src_view s) p = SID s p"
  by (auto simp: src_view_def live_def fun_eq_iff TT_def BB_def HH_def SRC_def SID_def)

lemma get_src_live: "live (elems s) p \<Longrightarrow> get_src p s = Inr (SRC s p)"
  by (simp add: get_src_def load_live SRC_def)

lemma src_view_frame:
  assumes "ut_frame s s'"
  shows "elems (src_view s') = elems (src_view s)" "live (elems s) p \<Longrightarrow> SRC s' p = SRC s p"
proof -
  have pl: "map_option (\<lambda>e. e\<lparr>hh := zero_handle\<rparr>) (cells (elems s') q) = map_option (\<lambda>e. e\<lparr>hh := zero_handle\<rparr>) (cells (elems s) q)" for q
    using assms by (simp add: ut_frame_def payload_def fun_eq_iff)
  have e: "hh_src x = hh_src y" "x\<lparr>hh := hh_src x\<rparr> = y\<lparr>hh := hh_src y\<rparr>" if "x\<lparr>hh := zero_handle\<rparr> = y\<lparr>hh := zero_handle\<rparr>" for x y :: "'c elem2_scheme"
  proof -
    from arg_cong [OF that, of hh_src] show a: "hh_src x = hh_src y" by simp
    from arg_cong [OF that, of "\<lambda>e. e\<lparr>hh := hh_src x\<rparr>"] a show "x\<lparr>hh := hh_src x\<rparr> = y\<lparr>hh := hh_src y\<rparr>" by simp
  qed
  have "map_option (\<lambda>e. e\<lparr>hh := hh_src e\<rparr>) (cells (elems s') q) = map_option (\<lambda>e. e\<lparr>hh := hh_src e\<rparr>) (cells (elems s) q)" for q
    using pl [of q] e(2) by (cases "cells (elems s') q"; cases "cells (elems s) q") auto
  then show "elems (src_view s') = elems (src_view s)" using assms by (simp add: src_view_def ut_frame_def)
  show "SRC s' p = SRC s p" if "live (elems s) p"
    using pl [of p] e(1) that by (cases "cells (elems s') p"; cases "cells (elems s) p") (auto simp: SRC_def live_def)
qed

text \<open>A table does not change if its elements, its record and its buckets do not.\<close>

lemma table_ok_same:
  assumes "elems s' = elems s" "live (tbls s') t" "TT s' t = TT s t" "live (bkts s') (buckets (TT s t))"
    "BB s' (buckets (TT s t)) = BB s (buckets (TT s t))" "table_ok s head xs t L cs"
  shows "table_ok s' head xs t L cs"
proof -
  have "HH s' = HH s" "SID s' = SID s" using assms(1) by (simp_all add: HH_def SID_def fun_eq_iff)
  then have "NX s' = NX s" "PV s' = PV s" "HN s' = HN s" "HP s' = HP s" "HV s' = HV s" "TB s' = TB s" "KY s' = KY s" "KL s' = KL s"
    by (simp_all add: NX_def PV_def HN_def HP_def HV_def TB_def KY_def KL_def fun_eq_iff)
  with assms \<open>SID s' = SID s\<close> show ?thesis by (simp add: table_ok_def member_ok_def)
qed

section \<open>One selected element\<close>

text \<open>
  The state of the selection from the source table \<open>ts\<close> after \<open>ys\<close> have been entered, in memory that was \<open>s0\<close>: the
  source is untouched, the destination's buckets hold \<open>ys\<close> and its list runs through them in this order, but its
  \<open>tail\<close> has stayed at the first of them. Each doubling of the buckets (\<open>n\<close> so far) has cost an allocation, and
  the multiplier of a bucket is not above the length of its chain.
\<close>

definition src_kept :: "('a elem2_scheme, 'b) ut_mem_scheme \<Rightarrow> addr \<Rightarrow> ('a elem2_scheme, 'b) ut_mem_scheme \<Rightarrow> bool" where
  "src_kept s0 ts s \<longleftrightarrow> ut_mem_ok s \<and> ut_frame s0 s \<and> SID s = SID s0 \<and>
     live (tbls s) ts \<and> TT s ts = TT s0 ts \<and> live (bkts s) (buckets (TT s0 ts)) \<and>
     BB s (buckets (TT s0 ts)) = BB s0 (buckets (TT s0 ts))"

definition dst_core :: "('a elem2_scheme, 'b) ut_mem_scheme \<Rightarrow> addr \<Rightarrow> ('a elem2_scheme, 'b) ut_mem_scheme \<Rightarrow>
    addr \<Rightarrow> nat \<Rightarrow> addr set \<Rightarrow> bool" where
  "dst_core s0 ts s t n P \<longleftrightarrow> (\<exists>cs. table_core s P t (5 + n) cs \<and> mult_ok (BB s (buckets (TT s t))) (2 ^ (5 + n)) cs) \<and>
     t \<noteq> ts \<and> buckets (TT s t) \<noteq> buckets (TT s0 ts) \<and>
     oom s = drop (n + 2) (oom s0) \<and> False \<notin> set (take (n + 2) (oom s0))"

definition dst_list :: "('a elem2_scheme, 'b) ut_mem_scheme \<Rightarrow> addr \<Rightarrow> addr \<Rightarrow> addr list \<Rightarrow> bool" where
  "dst_list s t dst ys \<longleftrightarrow> dll (NX s) (PV s) dst ys (last ys) \<and> tail (TT s t) = dst"

definition sel_ok :: "('a elem2_scheme, 'b) ut_mem_scheme \<Rightarrow> addr \<Rightarrow> ('a elem2_scheme, 'b) ut_mem_scheme \<Rightarrow>
    addr \<Rightarrow> addr \<Rightarrow> addr list \<Rightarrow> bool" where
  "sel_ok s0 ts s dst lst ys \<longleftrightarrow> src_kept s0 ts s \<and>
     (if ys = [] then dst = NULL \<and> lst = NULL \<and> oom s = oom s0
      else lst = last ys \<and> (\<exists>t n. dst_core s0 ts s t n (set ys) \<and> n \<le> length ys \<and> dst_list s t dst ys \<and>
        num_items (TT s t) = of_nat (length ys)))"

lemma sel_okI:
  assumes "src_kept s0 ts s" "dst_core s0 ts s t n (set (ys @ [x]))" "n \<le> length (ys @ [x])" "dst_list s t dst (ys @ [x])"
    "num_items (TT s t) = of_nat (length (ys @ [x]))"
  shows "sel_ok s0 ts s dst x (ys @ [x])"
  unfolding sel_ok_def using assms by (simp del: set_append) blast

text \<open>
  The room for a selection of the elements \<open>Y\<close>: the buckets stay below \<open>2 ^ 31\<close>. Each element doubles them at most
  once, so 26 elements always fit; an allocation that fails ends the doubling; and the buckets do not double from
  \<open>2 ^ 31\<close> when no ten of the elements go into one bucket, that is, agree in the low 31 bits of their hash.
\<close>

definition low31 :: "('a elem_scheme, 'b) ut_mem_scheme \<Rightarrow> addr \<Rightarrow> nat" where
  "low31 s x = unat (HASH_JEN (id_bytes (SID s x))) mod 2 ^ 31"

definition sel_room :: "('a elem2_scheme, 'b) ut_mem_scheme \<Rightarrow> addr set \<Rightarrow> bool" where
  "sel_room s Y \<longleftrightarrow> card Y \<le> 26 \<or> False \<in> set (take 28 (oom s)) \<or> (\<forall>x \<in> Y. card {y \<in> Y. low31 s y = low31 s x} < 10)"

lemma sel_room_mono:
  assumes r: "sel_room s Z" and s: "Y \<subseteq> Z" "finite Z"
  shows "sel_room s Y"
proof -
  have "card {y \<in> Y. low31 s y = low31 s x} \<le> card {y \<in> Z. low31 s y = low31 s x}" for x
    by (rule card_mono) (use s in auto)
  then show ?thesis using r s(1) card_mono [OF s(2,1)] unfolding sel_room_def by (meson le_less_trans order_trans subsetD)
qed

lemma sel_room_doublings:
  assumes "sel_room s0 (insert x (set ys))" "x \<notin> set ys" "n \<le> length ys" "distinct ys" "False \<notin> set (take (n + 2) (oom s0))" "n \<le> 26"
  shows "n < 26 \<or> n = 26 \<and> card {y \<in> set ys. low31 s0 y = low31 s0 x} < 9"
proof -
  consider "length ys + 1 \<le> 26" | "False \<in> set (take 28 (oom s0))"
    | "card {y \<in> insert x (set ys). low31 s0 y = low31 s0 x} < 10"
    using assms(1,2,4) by (auto simp: sel_room_def distinct_card)
  then show ?thesis
  proof cases
    case 2
    with assms(5) have "\<not> 28 \<le> n + 2" using set_take_subset_set_take [of 28 "n + 2" "oom s0"] by blast
    then show ?thesis by simp
  next
    case 3
    have "{y \<in> insert x (set ys). low31 s0 y = low31 s0 x} = insert x {y \<in> set ys. low31 s0 y = low31 s0 x}" by auto
    with 3 assms(2,6) show ?thesis by auto
  qed (use assms(3) in simp)
qed

lemma take_drop_alloc:
  assumes "False \<notin> set (take k os)" "alloc_ok (drop k os)"
  shows "tl (drop k os) = drop (Suc k) os" "False \<notin> set (take (Suc k) os)"
proof -
  show "tl (drop k os) = drop (Suc k) os" by (simp add: drop_Suc tl_drop)
  show "False \<notin> set (take (Suc k) os)"
  proof (cases "k < length os")
    case True
    then have "drop k os = os ! k # drop (Suc k) os" by (simp add: Cons_nth_drop_Suc)
    with assms(2) have "os ! k" by simp
    with assms(1) True show ?thesis by (simp add: take_Suc_conv_app_nth)
  qed (use assms(1) in simp)
qed

lemma no_alloc_oom: "\<not> alloc_ok (drop k (oom s)) \<Longrightarrow> \<not> no_oom s"
  using set_drop_subset [of k "oom s"] by (cases "drop k (oom s)") (auto simp: no_oom_def)

text \<open>From the element set up for the destination to its place in the bucket.\<close>

lemma sel_link:
  assumes k: "src_kept s0 ts s" and d: "dst_core s0 ts s t n P" and x: "member_ok s t x" "x \<notin> P"
    and L: "n < 26 \<or> n = 26 \<and> card {y \<in> P. low31 s0 y = low31 s0 x} < 9"
    and h: "live (elems s) dst" "TB s dst = t"
  shows "case rbind (get_hh x s) (\<lambda>h. rbind (get_tbl (tbl h) s) (\<lambda>T.
     rbind (HASH_ADD_TO_BKT (buckets T) (HASH_TO_BKT (hashv h) (num_buckets T)) x s) (\<lambda>s.
     rbind (get_hh dst s) (\<lambda>hd.
     rbind (upd_tbl (tbl hd) (\<lambda>T. T\<lparr>num_items := num_items T + 1\<rparr>) s) (\<lambda>s. Inr (dst, s)))))) of
      Inl e \<Rightarrow> e = Exit (- 1) \<and> \<not> no_oom s0
    | Inr (dst', s') \<Rightarrow> dst' = dst \<and> src_kept s0 ts s' \<and> (\<exists>n'. dst_core s0 ts s' t n' (insert x P) \<and> n' \<le> Suc n) \<and>
        NX s' = NX s \<and> PV s' = PV s \<and> tail (TT s' t) = tail (TT s t) \<and> num_items (TT s' t) = num_items (TT s t) + 1"
proof -
  from d obtain cs where core: "table_core s P t (5 + n) cs" and mu: "mult_ok (BB s (buckets (TT s t))) (2 ^ (5 + n)) cs" and t: "t \<noteq> ts" "buckets (TT s t) \<noteq> buckets (TT s0 ts)"
    and oom: "oom s = drop (n + 2) (oom s0)" "False \<notin> set (take (n + 2) (oom s0))" by (auto simp: dst_core_def)
  have mem: "ut_mem_ok s" using k by (simp add: src_kept_def)
  have lt: "live (tbls s) t" using core by (simp add: table_core_def)
  have lx: "get_hh x s = Inr (HH s x)" "tbl (HH s x) = t" "hashv (HH s x) = HV s x" "get_tbl t s = Inr (TT s t)"
    using x lt by (simp_all add: member_ok_def view_run view_simps)
  have "length (cs (unat (HV s x) mod 2 ^ (5 + n))) = card {y \<in> P. low31 s0 y = low31 s0 x}" if "n = 26"
  proof -
    let ?i = "unat (HV s x) mod 2 ^ (5 + n)"
    have "?i < 2 ^ (5 + n)" by simp
    with core have c: "distinct (cs ?i)" "set (cs ?i) = {y \<in> P. unat (HV s y) mod 2 ^ (5 + n) = ?i}"
      and mo: "y \<in> P \<Longrightarrow> member_ok s t y" for y
      by (simp_all only: table_core_def bkts_ok_def dll_def) blast+
    have "unat (HV s y) mod 2 ^ (5 + n) = low31 s0 y" if "y \<in> insert x P" for y
      using that x(1) mo [of y] k \<open>n = 26\<close> by (auto simp: member_ok_def low31_def src_kept_def)
    then have "set (cs ?i) = {y \<in> P. low31 s0 y = low31 s0 x}" using c(2) by auto
    with distinct_card [OF c(1)] show ?thesis by simp
  qed
  with L mu have "5 + n < 31 \<or> 5 + n = 31 \<and> mult_ok (BB s (buckets (TT s t))) (2 ^ (5 + n)) cs \<and>
    length (cs (unat (HV s x) mod 2 ^ (5 + n))) < 9" by (elim disjE) simp_all
  note B = HASH_ADD_TO_BKT_core [OF core x mem this]
  show ?thesis
  proof (cases "HASH_ADD_TO_BKT (buckets (TT s t)) (HASH_TO_BKT (HV s x) (num_buckets (TT s t))) x s")
    case (Inl e)
    with B oom(1) no_alloc_oom show ?thesis by (auto simp: lx)
  next
    case (Inr s1)
    with B obtain L' cs' where c1: "table_core s1 (insert x P) t L' cs'" and fr: "bkt_frame s t s1"
      and s1: "ut_mem_ok s1" "ut_frame s s1" "SID s1 = SID s"
      and L': "L' = 5 + n \<and> oom s1 = oom s \<or> L' = Suc (5 + n) \<and> alloc_ok (oom s) \<and> oom s1 = tl (oom s)"
      and mu1: "mult_ok (BB s1 (buckets (TT s1 t))) (2 ^ L') cs'" using mu by auto
    define s2 where "s2 = put_tbl t ((TT s1 t)\<lparr>num_items := num_items (TT s1 t) + 1\<rparr>) s1"
    note F = fr [unfolded bkt_frame_def]
    have lt1: "live (tbls s1) t" using lt F by simp
    have hd: "get_hh dst s1 = Inr (HH s1 dst)" "tbl (HH s1 dst) = t" using h F by (simp_all add: view_run view_simps)
    have run: "upd_tbl t (\<lambda>T. T\<lparr>num_items := num_items T + 1\<rparr>) s1 = Inr s2" using lt1 by (simp add: view_run s2_def)
    have v2: "NX s2 = NX s1" "PV s2 = PV s1" "HN s2 = HN s1" "HP s2 = HP s1" "HV s2 = HV s1" "TB s2 = TB s1" "KY s2 = KY s1" "KL s2 = KL s1"
      "SID s2 = SID s1" "BB s2 = BB s1" "live (elems s2) = live (elems s1)" "live (tbls s2) = live (tbls s1)" "live (bkts s2) = live (bkts s1)"
      "oom s2 = oom s1" "TT s2 = (TT s1)(t := (TT s1 t)\<lparr>num_items := num_items (TT s1 t) + 1\<rparr>)" "ut_mem_ok s2" "ut_frame s1 s2"
      using lt1 s1 by (simp_all add: s2_def view_simps ut_mem_ok_put)
    have core2: "table_core s2 (insert x P) t L' cs'" "mult_ok (BB s2 (buckets (TT s2 t))) (2 ^ L') cs'"
      using c1 mu1 by (simp_all add: table_core_def member_ok_def v2)
    have kept: "src_kept s0 ts s2"
    proof -
      have "ut_frame s0 s2" using k s1(2) v2(17) by (auto simp: src_kept_def intro: ut_frame_trans)
      moreover have "live (bkts s1) (buckets (TT s0 ts)) \<and> BB s1 (buckets (TT s0 ts)) = BB s (buckets (TT s0 ts))"
        using F k t(2) unfolding src_kept_def by metis
      moreover have "TT s2 ts = TT s0 ts" using F k t(1) by (simp add: v2 src_kept_def)
      ultimately show ?thesis using k F s1(3) v2(16) by (simp add: src_kept_def v2)
    qed
    have nb: "buckets (TT s2 t) \<noteq> buckets (TT s0 ts)"
      using F k t(2) unfolding v2 src_kept_def by (auto simp: v2)
    have "\<exists>n'. dst_core s0 ts s2 t n' (insert x P) \<and> n' \<le> Suc n"
    proof (cases "L' = 5 + n \<and> oom s1 = oom s")
      case True
      then show ?thesis using core2 t(1) nb oom by (intro exI [of _ n]) (auto simp: dst_core_def v2)
    next
      case False
      with L' have e: "L' = 5 + Suc n" "alloc_ok (oom s)" "oom s1 = tl (oom s)" by auto
      from take_drop_alloc [OF oom(2) e(2) [unfolded oom(1)]]
      have "oom s2 = drop (Suc n + 2) (oom s0)" "False \<notin> set (take (Suc n + 2) (oom s0))" using e(3) oom(1) by (simp_all add: v2)
      then show ?thesis using core2 t(1) nb e(1) by (intro exI [of _ "Suc n"]) (auto simp: dst_core_def)
    qed
    moreover have "tail (TT s2 t) = tail (TT s t)" "num_items (TT s2 t) = num_items (TT s t) + 1" "NX s2 = NX s" "PV s2 = PV s"
      using F by (simp_all add: v2)
    ultimately show ?thesis using kept Inr by (simp add: lx hd run)
  qed
qed

lemma src_kept_put:
  assumes "src_kept s0 ts s" "live (elems s) x"
  shows "src_kept s0 ts (put_hh x h s)"
  using assms by (simp add: src_kept_def view_simps ut_mem_ok_put)

lemma table_core_put_other:
  assumes "table_core s P t L cs" "live (elems s) a" "a \<notin> P"
  shows "table_core (put_hh a h s) P t L cs"
proof -
  have "bkts_ok (HN (put_hh a h s)) (HP (put_hh a h s)) (HV (put_hh a h s)) B n P cs = bkts_ok (HN s) (HP s) (HV s) B n P cs" for B n
    by (rule bkts_ok_cong) (use assms in \<open>auto simp: view_simps\<close>)
  moreover have "\<forall>x \<in> P. member_ok (put_hh a h s) t x = member_ok s t x"
    using assms by (auto simp: member_ok_def view_simps)
  ultimately show ?thesis using assms unfolding table_core_def by (simp add: TT_put BB_put live_put)
qed

text \<open>Links other than those into the buckets can change.\<close>

lemma table_core_relink:
  assumes "table_core s P t L cs" "live (elems s) a" "hn = nxt h" "h = (HH s a)\<lparr>nxt := hn\<rparr>"
  shows "table_core (put_hh a h s) P t L cs"
proof -
  have "HN (put_hh a h s) = HN s" "HP (put_hh a h s) = HP s" "HV (put_hh a h s) = HV s" "TB (put_hh a h s) = TB s" "KY (put_hh a h s) = KY s"
    "KL (put_hh a h s) = KL s"
    using assms(4) by (auto simp: view_simps fun_eq_iff)
  then show ?thesis using assms(1,2) unfolding table_core_def member_ok_def by (simp add: TT_put BB_put live_put SID_put)
qed

lemma dst_core_put:
  "dst_core s0 ts s t n P \<Longrightarrow> (\<And>cs. table_core s P t (5 + n) cs \<Longrightarrow> table_core (put_hh a h s) P t (5 + n) cs) \<Longrightarrow>
   dst_core s0 ts (put_hh a h s) t n P"
  by (auto simp: dst_core_def view_simps)

definition src_member :: "('a elem2_scheme, 'b) ut_mem_scheme \<Rightarrow> addr \<Rightarrow> bool" where
  "src_member s x \<longleftrightarrow> live (elems s) x \<and> key (SRC s x) = x \<and> keylen (SRC s x) = 4 \<and> hashv (SRC s x) = HASH_JEN (id_bytes (SID s x))"

text \<open>Once it stands at the end of the list, linking it keeps the invariant.\<close>

lemma sel_enter:
  assumes k: "src_kept s0 ts s" and d: "dst_core s0 ts s t n (set ys)" and x: "member_ok s t x" "x \<notin> set ys"
    and n: "n \<le> length ys" and room: "sel_room s0 (insert x (set ys))" and h: "live (elems s) dst" "TB s dst = t"
    and l: "dll (NX s) (PV s) dst (ys @ [x]) x" "tail (TT s t) = dst" "num_items (TT s t) = of_nat (length ys)"
  shows "case rbind (get_hh x s) (\<lambda>h. rbind (get_tbl (tbl h) s) (\<lambda>T.
     rbind (HASH_ADD_TO_BKT (buckets T) (HASH_TO_BKT (hashv h) (num_buckets T)) x s) (\<lambda>s.
     rbind (get_hh dst s) (\<lambda>hd.
     rbind (upd_tbl (tbl hd) (\<lambda>T. T\<lparr>num_items := num_items T + 1\<rparr>) s) (\<lambda>s. Inr (dst, s)))))) of
      Inl e \<Rightarrow> e = Exit (- 1) \<and> \<not> no_oom s0 | Inr (dst', s') \<Rightarrow> sel_ok s0 ts s' dst' x (ys @ [x])"
proof -
  define r where "r = rbind (get_hh x s) (\<lambda>h. rbind (get_tbl (tbl h) s) (\<lambda>T.
     rbind (HASH_ADD_TO_BKT (buckets T) (HASH_TO_BKT (hashv h) (num_buckets T)) x s) (\<lambda>s.
     rbind (get_hh dst s) (\<lambda>hd.
     rbind (upd_tbl (tbl hd) (\<lambda>T. T\<lparr>num_items := num_items T + 1\<rparr>) s) (\<lambda>s. Inr (dst, s))))))"
  have "False \<notin> set (take (n + 2) (oom s0))" "n \<le> 26" using d by (auto simp: dst_core_def table_core_def)
  moreover have "distinct ys" using l(1) by (simp add: dll_def)
  ultimately have "n < 26 \<or> n = 26 \<and> card {y \<in> set ys. low31 s0 y = low31 s0 x} < 9"
    using sel_room_doublings [OF room x(2) n] by simp
  from sel_link [OF k d x this h]
  have S: "case r of Inl e \<Rightarrow> e = Exit (- 1) \<and> \<not> no_oom s0
    | Inr (dst', s') \<Rightarrow> dst' = dst \<and> src_kept s0 ts s' \<and> (\<exists>n'. dst_core s0 ts s' t n' (insert x (set ys)) \<and> n' \<le> Suc n) \<and>
        NX s' = NX s \<and> PV s' = PV s \<and> tail (TT s' t) = tail (TT s t) \<and> num_items (TT s' t) = num_items (TT s t) + 1"
    unfolding r_def .
  have "case r of Inl e \<Rightarrow> e = Exit (- 1) \<and> \<not> no_oom s0 | Inr (dst', s') \<Rightarrow> sel_ok s0 ts s' dst' x (ys @ [x])"
  proof (cases r)
    case (Inl e)
    with S show ?thesis by simp
  next
    case (Inr q)
    obtain dst' s' where q: "q = (dst', s')" by (cases q)
    from S [unfolded Inr q] obtain n' where p: "dst' = dst" "src_kept s0 ts s'" "dst_core s0 ts s' t n' (insert x (set ys))" "n' \<le> Suc n"
      "NX s' = NX s" "PV s' = PV s" "tail (TT s' t) = dst" "num_items (TT s' t) = of_nat (length ys) + 1" using l by auto
    have "dst_core s0 ts s' t n' (set (ys @ [x]))" "n' \<le> length (ys @ [x])" "dst_list s' t dst (ys @ [x])"
      "num_items (TT s' t) = of_nat (length (ys @ [x]))"
      using p n l by (simp_all add: dst_list_def)
    from sel_okI [OF p(2) this] show ?thesis unfolding Inr q p(1) by simp
  qed
  then show ?thesis unfolding r_def .
qed

text \<open>The element with the handle that the macro gives it first.\<close>

definition sel_new :: "addr \<Rightarrow> addr \<Rightarrow> ('a elem2_scheme, 'b) ut_mem_scheme \<Rightarrow> ('a elem2_scheme, 'b) ut_mem_scheme" where
  "sel_new x lst s = put_hh x ((HH s x)\<lparr>key := x, keylen := 4, hashv := HASH_JEN (id_bytes (SID s x)), prv := lst, nxt := NULL\<rparr>) s"

lemma sel_new_live:
  assumes "src_kept s0 ts s" "src_member s0 x"
  shows "live (elems s) x" "x \<noteq> NULL"
  using ut_frame_live [of s0 s x] assms unfolding src_kept_def src_member_def by (auto simp: live_def)

lemma sel_new_ok:
  assumes kept: "src_kept s0 ts s" and x: "src_member s0 x"
  shows "get_src x s = Inr (SRC s x)"
    "upd_hh x (\<lambda>h. h\<lparr>key := key (SRC s x), keylen := keylen (SRC s x), hashv := hashv (SRC s x), prv := lst, nxt := NULL\<rparr>) s =
      Inr (sel_new x lst s)"
    "src_kept s0 ts (sel_new x lst s)" "x \<notin> P \<Longrightarrow> dst_core s0 ts s t n P \<Longrightarrow> dst_core s0 ts (sel_new x lst s) t n P"
proof -
  note lx = sel_new_live [OF kept x]
  have "key (SRC s x) = x" "keylen (SRC s x) = 4" "hashv (SRC s x) = HASH_JEN (id_bytes (SID s x))"
    using x kept src_view_frame(2) [of s0 s x] by (simp_all add: src_kept_def src_member_def)
  then show "get_src x s = Inr (SRC s x)"
    "upd_hh x (\<lambda>h. h\<lparr>key := key (SRC s x), keylen := keylen (SRC s x), hashv := hashv (SRC s x), prv := lst, nxt := NULL\<rparr>) s =
      Inr (sel_new x lst s)"
    using lx by (simp_all add: get_src_live view_run sel_new_def)
  show "src_kept s0 ts (sel_new x lst s)" unfolding sel_new_def by (rule src_kept_put [OF kept lx(1)])
  show "x \<notin> P \<Longrightarrow> dst_core s0 ts s t n P \<Longrightarrow> dst_core s0 ts (sel_new x lst s) t n P"
    unfolding sel_new_def by (rule dst_core_put) (auto intro: table_core_put_other [OF _ lx(1)])
qed

lemma sel_new_views:
  assumes "live (elems s) x"
  shows "live (elems (sel_new x lst s)) = live (elems s)" "TT (sel_new x lst s) = TT s" "oom (sel_new x lst s) = oom s"
    "SID (sel_new x lst s) = SID s" "NX (sel_new x lst s) = (NX s)(x := NULL)" "PV (sel_new x lst s) = (PV s)(x := lst)"
    "KY (sel_new x lst s) = (KY s)(x := x)" "KL (sel_new x lst s) = (KL s)(x := 4)"
    "HV (sel_new x lst s) = (HV s)(x := HASH_JEN (id_bytes (SID s x)))" "TB (sel_new x lst s) = TB s"
  using assms by (simp_all add: sel_new_def view_simps)

lemma sel_add_first:
  assumes I: "sel_ok s0 ts s dst lst []" and x: "src_member s0 x"
  shows "case sel_add x dst lst s of Inl e \<Rightarrow> e = Exit (- 1) \<and> \<not> no_oom s0 | Inr (dst', s') \<Rightarrow> sel_ok s0 ts s' dst' x [x]"
proof -
  from I have n: "dst = NULL" "lst = NULL" "oom s = oom s0" and kept: "src_kept s0 ts s" by (simp_all add: sel_ok_def)
  note lx = sel_new_live [OF kept x]
  define s1 where "s1 = sel_new x NULL s"
  note new = sel_new_ok(1) [OF kept x] sel_new_ok(2,3) [OF kept x, where lst = NULL, folded s1_def] and v1 = sel_new_views [OF lx(1), of NULL, folded s1_def]
  have mem1: "ut_mem_ok s1" and sid: "SID s = SID s0" using new(3) kept by (simp_all add: src_kept_def)
  have la: "live (elems s1) x" using lx v1 by simp
  show ?thesis
  proof (cases "HASH_MAKE_TABLE x s1")
    case (Inl e)
    with HASH_MAKE_TABLE_ok [OF la mem1] have "e = Exit (- 1)" "\<not> no_oom s1" by simp_all
    then show ?thesis using n v1(3) by (simp add: sel_add_def new Inl no_oom_def)
  next
    case (Inr s3)
    define t b where "t = brk (tbls s1)" and "b = brk (bkts s1)"
    from HASH_MAKE_TABLE_ok [OF la mem1] Inr have m: "ut_step s1 s3" "live (tbls s3) t" "live (bkts s3) b"
      "TT s3 t = first_table x b" "BB s3 b = replicate 32 zero_bucket" "HH s3 = (HH s1)(x := (HH s1 x)\<lparr>tbl := t\<rparr>)"
      "alloc_ok (oom s1)" "alloc_ok (tl (oom s1))" "oom s3 = tl (tl (oom s1))"
      "\<And>u. live (tbls s1) u \<Longrightarrow> live (tbls s3) u \<and> TT s3 u = TT s1 u" "\<And>c. live (bkts s1) c \<Longrightarrow> live (bkts s3) c \<and> BB s3 c = BB s1 c"
      by (simp_all add: t_def b_def)
    have v3: "NX s3 = NX s1" "PV s3 = PV s1" "HV s3 = HV s1" "TB s3 = (TB s1)(x := t)" "KY s3 = KY s1" "KL s3 = KL s1" "SID s3 = SID s1"
      using m(1) by (simp_all add: NX_def PV_def HV_def TB_def KY_def KL_def m(6) fun_eq_iff ut_step_def)
    have l3: "live (elems s3) x" using m(1) la ut_frame_live by (auto simp: ut_step_def)
    have fresh: "t \<noteq> ts" "b \<noteq> buckets (TT s0 ts)"
      using new(3) fresh_not_live [OF mem1] by (auto simp: src_kept_def t_def b_def)
    have kept3: "src_kept s0 ts s3"
      using new(3) m(1,10,11) by (auto simp: src_kept_def ut_step_def intro: ut_frame_trans)
    have "oom s3 = drop (0 + 2) (oom s0)" "False \<notin> set (take (0 + 2) (oom s0))"
      using m(7-9) v1(3) n(3) by (cases "oom s0"; cases "tl (oom s0)"; auto simp: drop_Suc)+
    moreover have "table_core s3 {} t 5 (\<lambda>_. [])"
      using bkts_ok_empty [of "HN s3" "HP s3" "HV s3" 32] m(2-5)
      by (simp add: table_core_def first_table_def HASH_INITIAL_NUM_BUCKETS_def HASH_INITIAL_NUM_BUCKETS_LOG2_def zero_table_def)
    moreover have "mult_ok (BB s3 (buckets (TT s3 t))) (2 ^ 5) (\<lambda>_. [])"
      by (simp add: m(4,5) first_table_def mult_ok_def zero_bucket_def)
    moreover have "buckets (TT s3 t) = b" by (simp add: m(4) first_table_def)
    ultimately have core3: "dst_core s0 ts s3 t 0 (set [])" using fresh by (auto simp: dst_core_def)
    have mo: "member_ok s3 t x" using l3 by (simp add: member_ok_def v3 v1 sid)
    show ?thesis
      using sel_enter [OF kept3 core3 mo _ _ _ l3, unfolded append_Nil] lx n
      by (simp add: sel_add_def new Inr v3 v1 dll_def live_def m(4) first_table_def zero_table_def sel_room_def)
  qed
qed

lemma sel_add_next:
  assumes I: "sel_ok s0 ts s dst lst ys" and ys: "ys \<noteq> []" and x: "src_member s0 x" "x \<notin> set ys" and room: "sel_room s0 (insert x (set ys))"
  shows "case sel_add x dst lst s of Inl e \<Rightarrow> e = Exit (- 1) \<and> \<not> no_oom s0 | Inr (dst', s') \<Rightarrow> sel_ok s0 ts s' dst' x (ys @ [x])"
proof -
  from I ys obtain t n where kept: "src_kept s0 ts s" and l: "lst = last ys" and core: "dst_core s0 ts s t n (set ys)" and n: "n \<le> length ys"
    and dl: "dll (NX s) (PV s) dst ys (last ys)" and T: "tail (TT s t) = dst" "num_items (TT s t) = of_nat (length ys)"
    by (auto simp: sel_ok_def dst_list_def)
  note lx = sel_new_live [OF kept x(1)]
  have mo: "member_ok s t y" if "y \<in> set ys" for y using core that by (auto simp: dst_core_def table_core_def)
  have l': "lst \<noteq> x" "live (elems s) lst" "lst \<noteq> NULL" 
    using ys l x(2) mo [of lst] by (auto simp: member_ok_def live_def)
  have "dst \<in> set ys" using dll_head [OF dl] ys by (cases ys) auto
  then have dst: "dst \<noteq> x" "live (elems s) dst" "dst \<noteq> NULL" "TB s dst = t"
    using x(2) mo [of dst] by (auto simp: member_ok_def live_def)
  define s1 where "s1 = sel_new x lst s"
  define s2 where "s2 = put_hh lst ((HH s1 lst)\<lparr>nxt := x\<rparr>) s1"
  define s3 where "s3 = put_hh x ((HH s2 x)\<lparr>tbl := t\<rparr>) s2"
  note new = sel_new_ok(1) [OF kept x(1)] sel_new_ok(2,3,4) [OF kept x(1), where lst = lst, folded s1_def] and v1 = sel_new_views [OF lx(1), of lst, folded s1_def]
  have l1: "live (elems s1) lst" and l2: "live (elems s2) x" and d2: "live (elems s2) dst" "TB s2 dst = t"
    using l' lx dst v1 by (auto simp: s2_def view_simps)
  have v3: "live (elems s3) = live (elems s)" "TT s3 = TT s" "NX s3 = (NX s)(x := NULL, lst := x)" "PV s3 = (PV s)(x := lst)"
    "KY s3 = (KY s)(x := x)" "KL s3 = (KL s)(x := 4)" "HV s3 = (HV s)(x := HASH_JEN (id_bytes (SID s x)))" "TB s3 = (TB s)(x := t)" "SID s3 = SID s"
    using l1 l2 l'(1) by (simp_all add: s3_def s2_def view_simps v1 fun_upd_idem fun_upd_twist)
  have run: "upd_hh lst (\<lambda>h. h\<lparr>nxt := x\<rparr>) s1 = Inr s2" "get_hh dst s2 = Inr (HH s2 dst)" "tbl (HH s2 dst) = t"
    "upd_hh x (\<lambda>h. h\<lparr>tbl := t\<rparr>) s2 = Inr s3"
    using l1 l2 d2 by (simp_all add: view_run s2_def [symmetric] s3_def handle_views)
  have kept3: "src_kept s0 ts s3"
    unfolding s3_def by (rule src_kept_put [OF _ l2]) (simp add: s2_def src_kept_put [OF new(3) l1])
  have core2: "dst_core s0 ts s2 t n (set ys)"
    unfolding s2_def by (rule dst_core_put [OF new(4) [OF x(2) core]]) (rule table_core_relink [OF _ l1], simp_all)
  have core3: "dst_core s0 ts s3 t n (set ys)"
    unfolding s3_def by (rule dst_core_put [OF core2]) (rule table_core_put_other [OF _ l2 x(2)])
  have mo3: "member_ok s3 t x" using lx by (simp add: member_ok_def v3)
  have d3: "live (elems s3) dst" "TB s3 dst = t" using dst by (simp_all add: v3)
  have "dll (NX s3) (PV s3) dst (ys @ [x]) x"
    using dll_append [OF dl ys lx(2) x(2)] unfolding v3 l .
  from sel_enter [OF kept3 core3 mo3 x(2) n room d3 this] T show ?thesis
    using dst(3) l'(3) by (simp add: sel_add_def new run v3)
qed

lemma sel_add_ok:
  assumes "sel_ok s0 ts s dst lst ys" "src_member s0 x" "x \<notin> set ys" "sel_room s0 (insert x (set ys))"
  shows "case sel_add x dst lst s of Inl e \<Rightarrow> e = Exit (- 1) \<and> \<not> no_oom s0 | Inr (dst', s') \<Rightarrow> sel_ok s0 ts s' dst' x (ys @ [x])"
proof (cases "ys = []")
  case True
  with sel_add_first [of s0 ts s dst lst x] assms(1,2) show ?thesis by (simp only: append_Nil)
qed (rule sel_add_next, use assms in auto)

section \<open>The loops\<close>

text \<open>The condition does not look at the handle of the destination, which the macro changes.\<close>

definition hh_blind :: "('a elem2_scheme \<Rightarrow> bool) \<Rightarrow> bool" where
  "hh_blind cond \<longleftrightarrow> (\<forall>e h. cond (e\<lparr>hh := h\<rparr>) = cond e)"

definition picked :: "('a elem2_scheme, 'b) ut_mem_scheme \<Rightarrow> ('a elem2_scheme \<Rightarrow> bool) \<Rightarrow> addr \<Rightarrow> bool" where
  "picked s cond x = cond (the (cells (elems s) x))"

lemma picked_frame:
  assumes "ut_frame s s'" "live (elems s) x" "hh_blind cond"
  shows "picked s' cond x = picked s cond x"
proof -
  have "map_option (\<lambda>e. e\<lparr>hh := zero_handle\<rparr>) (cells (elems s') x) = map_option (\<lambda>e. e\<lparr>hh := zero_handle\<rparr>) (cells (elems s) x)"
    using assms(1) by (simp add: ut_frame_def payload_def fun_eq_iff)
  moreover obtain e where e: "cells (elems s) x = Some e" using assms(2) by (auto simp: live_def)
  ultimately obtain e' where e': "cells (elems s') x = Some e'" and eq: "e'\<lparr>hh := zero_handle\<rparr> = e\<lparr>hh := zero_handle\<rparr>" by auto
  show ?thesis using assms(3) e e' eq unfolding picked_def hh_blind_def by (metis option.sel)
qed

lemma sel_chain_ok:
  assumes "sel_ok s0 ts s dst lst ys" "path (HN (src_view s0)) p zs NULL" "\<forall>z \<in> set zs. src_member s0 z"
    "distinct (ys @ filter (picked s0 cond) zs)" "distinct zs" "length zs < n" "hh_blind cond"
    "sel_room s0 (set (ys @ filter (picked s0 cond) zs))"
  shows "case sel_chain n cond p dst lst s of Inl e \<Rightarrow> e = Exit (- 1) \<and> \<not> no_oom s0
    | Inr (dst', lst', s') \<Rightarrow> sel_ok s0 ts s' dst' lst' (ys @ filter (picked s0 cond) zs)"
  using assms
proof (induction zs arbitrary: s dst lst ys p n)
  case Nil
  then show ?case by (cases n) auto
next
  case (Cons z zs)
  then obtain m where n: "n = Suc m" by (cases n) auto
  have p: "p = z" "z \<noteq> NULL" and rest: "path (HN (src_view s0)) (HN (src_view s0) z) zs NULL" using Cons.prems(2) by auto
  have sm: "src_member s0 z" and lz0: "live (elems s0) z" using Cons.prems(3) by (auto simp: src_member_def)
  have hn: "hh_next (SRC s0 z) = HN (src_view s0) z" using lz0 by (simp add: HN_def src_view_simps)
  have view: "live (elems s') z" "get_src z s' = Inr (SRC s0 z)" if "sel_ok s0 ts s' d' l' ys'" for s' d' l' ys'
  proof -
    have fr: "ut_frame s0 s'" using that by (simp add: sel_ok_def src_kept_def)
    show "live (elems s') z" using ut_frame_live [OF fr] lz0 by simp
    then show "get_src z s' = Inr (SRC s0 z)" using src_view_frame(2) [OF fr lz0] by (simp add: get_src_live)
  qed
  have ld: "load (elems s) z = Inr (the (cells (elems s) z))" by (rule load_live [OF view(1) [OF Cons.prems(1)]])
  have pk: "cond (the (cells (elems s) z)) = picked s0 cond z"
    using picked_frame [OF _ lz0 Cons.prems(7), of s] Cons.prems(1) by (simp add: sel_ok_def src_kept_def picked_def)
  show ?case
  proof (cases "picked s0 cond z")
    case False
    have "case sel_chain m cond (HN (src_view s0) z) dst lst s of Inl e \<Rightarrow> e = Exit (- 1) \<and> \<not> no_oom s0
      | Inr (dst', lst', s') \<Rightarrow> sel_ok s0 ts s' dst' lst' (ys @ filter (picked s0 cond) zs)"
      by (rule Cons.IH [OF Cons.prems(1) rest]) (use Cons.prems n False in auto)
    then show ?thesis using False p by (simp add: n ld pk view(2) [OF Cons.prems(1)] hn split: sum.splits prod.splits)
  next
    case True
    have zs: "z \<notin> set ys" using Cons.prems(4) True by auto
    have rm: "sel_room s0 (insert z (set ys))" by (rule sel_room_mono [OF Cons.prems(8)]) (use True in auto)
    note A = sel_add_ok [OF Cons.prems(1) sm zs rm]
    show ?thesis
    proof (cases "sel_add z dst lst s")
      case (Inl e)
      with A True p show ?thesis by (simp add: n ld pk)
    next
      case (Inr r)
      obtain d' s' where r: "r = (d', s')" by (cases r)
      from A [unfolded Inr r] have I: "sel_ok s0 ts s' d' z (ys @ [z])" by simp
      have "case sel_chain m cond (HN (src_view s0) z) d' z s' of Inl e \<Rightarrow> e = Exit (- 1) \<and> \<not> no_oom s0
        | Inr (dst', lst', s') \<Rightarrow> sel_ok s0 ts s' dst' lst' ((ys @ [z]) @ filter (picked s0 cond) zs)"
        by (rule Cons.IH [OF I rest]) (use Cons.prems n True in auto)
      then show ?thesis using True p by (simp add: n ld pk Inr r view(2) [OF I] hn split: sum.splits prod.splits)
    qed
  qed
qed

text \<open>The elements of the table that are picked, in the order in which the loops come to them.\<close>

definition sel_list :: "('a elem2_scheme, 'b) ut_mem_scheme \<Rightarrow> ('a elem2_scheme \<Rightarrow> bool) \<Rightarrow> (nat \<Rightarrow> addr list) \<Rightarrow> nat \<Rightarrow> addr list" where
  "sel_list s cond cs n = concat (map (\<lambda>i. filter (picked s cond) (cs i)) [0..<n])"

lemma sel_list_Suc: "sel_list s cond cs (Suc n) = sel_list s cond cs n @ filter (picked s cond) (cs n)"
  by (simp add: sel_list_def)

lemma set_sel_list:
  assumes "\<And>i. i < n \<Longrightarrow> set (cs i) = {x \<in> P. unat (hv x) mod N = i}"
  shows "set (sel_list s cond cs n) = {x \<in> P. unat (hv x) mod N < n \<and> picked s cond x}"
  using assms by (auto simp: sel_list_def)

lemma distinct_sel_list:
  assumes "\<And>i. i < n \<Longrightarrow> set (cs i) = {x \<in> P. unat (hv x) mod N = i}" "\<And>i. i < n \<Longrightarrow> distinct (cs i)"
  shows "distinct (sel_list s cond cs n)"
  using assms
proof (induction n)
  case (Suc n)
  then have "distinct (sel_list s cond cs n)" by simp
  moreover have "set (sel_list s cond cs n) \<inter> set (cs n) = {}"
    using set_sel_list [of n cs P hv N s cond] Suc.prems(1) by auto
  ultimately show ?case using Suc.prems(2) by (auto simp: sel_list_Suc)
qed (simp add: sel_list_def)

lemma sel_outer_ok:
  assumes I: "sel_ok s0 ts s dst lst (sel_list s0 cond cs i)"
    and tab: "table_ok (src_view s0) src xs ts L cs" and k: "i + k = 2 ^ L" and b: "hh_blind cond"
    and room: "sel_room s0 (set (sel_list s0 cond cs (2 ^ L)))"
  shows "case sel_outer k i cond ts dst lst s of Inl e \<Rightarrow> e = Exit (- 1) \<and> \<not> no_oom s0
    | Inr (dst', lst', s') \<Rightarrow> sel_ok s0 ts s' dst' lst' (sel_list s0 cond cs (2 ^ L))"
  using I k
proof (induction k arbitrary: i s dst lst)
  case 0
  then show ?case by simp
next
  case (Suc k)
  define B where "B = BB s0 (buckets (TT s0 ts))"
  from tab have len: "length B = 2 ^ L" and L: "L < 32" and bk: "\<And>j. j < 2 ^ L \<Longrightarrow>
      path (HN (src_view s0)) (hh_head (B ! j)) (cs j) NULL \<and> distinct (cs j) \<and> set (cs j) = {x \<in> set xs. unat (HV (src_view s0) x) mod 2 ^ L = j}"
    and mem: "\<And>x. x \<in> set xs \<Longrightarrow> member_ok (src_view s0) ts x"
    by (auto simp: table_ok_def bkts_ok_def dll_def src_view_simps B_def)
  have sm: "src_member s0 x" if "x \<in> set xs" for x
    using mem [OF that] by (auto simp: member_ok_def src_member_def src_view_simps KY_def KL_def HV_def)
  have i: "i < 2 ^ L" using Suc.prems(2) by simp
  have "(2 :: nat) ^ L < 2 ^ 32" using L by (intro power_strict_increasing) simp_all
  then have ui: "unat (of_nat i :: u32) = i" using i by (simp add: unat_of_nat)
  have kept: "src_kept s0 ts s" using Suc.prems(1) by (simp add: sel_ok_def)
  have run: "get_tbl ts s = Inr (TT s0 ts)" "get_bkt (buckets (TT s0 ts)) (of_nat i) s = Inr (B ! i)"
    using kept i len by (simp_all add: src_kept_def view_run B_def ui)
  have mono: "sel_room s0 (set (sel_list s0 cond cs (Suc i)))"
    by (rule sel_room_mono [OF room]) (use i in \<open>fastforce simp: sel_list_def\<close>)+
  have fuel: "length (cs i) < fuel s"
    using kept bk [OF i] sm ut_frame_live [of s0 s]
    by (intro live_length_fuel) (auto simp: src_kept_def src_member_def)
  have C: "case sel_chain (fuel s) cond (hh_head (B ! i)) dst lst s of Inl e \<Rightarrow> e = Exit (- 1) \<and> \<not> no_oom s0
    | Inr (dst', lst', s') \<Rightarrow> sel_ok s0 ts s' dst' lst' (sel_list s0 cond cs (Suc i))"
    unfolding sel_list_Suc
  proof (rule sel_chain_ok [OF Suc.prems(1)])
    show "distinct (sel_list s0 cond cs i @ filter (picked s0 cond) (cs i))"
      unfolding sel_list_Suc [symmetric] by (rule distinct_sel_list [of _ _ "set xs" "HV (src_view s0)" "2 ^ L"]) (use bk i in auto)
  qed (use bk [OF i] sm fuel b mono in \<open>auto simp: sel_list_Suc\<close>)
  show ?case
  proof (cases "sel_chain (fuel s) cond (hh_head (B ! i)) dst lst s")
    case (Inl e)
    with C show ?thesis by (simp add: run)
  next
    case (Inr r)
    obtain d' l' s' where r: "r = (d', l', s')" by (cases r)
    have "case sel_outer k (Suc i) cond ts d' l' s' of Inl e \<Rightarrow> e = Exit (- 1) \<and> \<not> no_oom s0
      | Inr (dst', lst', s') \<Rightarrow> sel_ok s0 ts s' dst' lst' (sel_list s0 cond cs (2 ^ L))"
      by (rule Suc.IH) (use C Suc.prems(2) in \<open>simp_all add: Inr r\<close>)
    then show ?thesis by (simp add: run Inr r)
  qed
qed

section \<open>What the macro does\<close>

text \<open>The destination with the \<open>tail\<close> that its list has.\<close>

definition with_tail :: "addr \<Rightarrow> addr \<Rightarrow> ('a elem_scheme, 'b) ut_mem_scheme \<Rightarrow> ('a elem_scheme, 'b) ut_mem_scheme" where
  "with_tail dst x s = put_tbl (TB s dst) ((TT s (TB s dst))\<lparr>tail := x\<rparr>) s"

definition select_dst :: "('a elem_scheme, 'b) ut_mem_scheme \<Rightarrow> addr \<Rightarrow> addr list \<Rightarrow> bool" where
  "select_dst s dst ys \<longleftrightarrow> (if ys = [] then dst = NULL else
     dst = hd ys \<and> live (tbls s) (TB s dst) \<and> tail (TT s (TB s dst)) = hd ys \<and> ut_inv (with_tail dst (last ys) s) dst ys)"

lemma sel_ok_dst:
  assumes I: "sel_ok s0 ts s dst lst ys" and d: "distinct (map (SID s0) ys)" "length ys < 2 ^ 32"
  shows "select_dst s dst ys"
proof (cases "ys = []")
  case True
  with I show ?thesis by (simp add: sel_ok_def select_dst_def)
next
  case False
  with I obtain t n where core: "dst_core s0 ts s t n (set ys)" and dl: "dll (NX s) (PV s) dst ys (last ys)" and T: "tail (TT s t) = dst"
    "num_items (TT s t) = of_nat (length ys)" and k: "src_kept s0 ts s" by (auto simp: sel_ok_def dst_list_def)
  obtain cs where c: "table_core s (set ys) t (5 + n) cs" using core by (auto simp: dst_core_def)
  have h: "dst = hd ys" using dll_head [OF dl] False by (cases ys) auto
  then have mem: "member_ok s t dst" using c False by (auto simp: table_core_def)
  have lt: "live (tbls s) t" using c by (simp add: table_core_def)
  define s' where "s' = with_tail dst (last ys) s"
  have v: "NX s' = NX s" "PV s' = PV s" "HN s' = HN s" "HP s' = HP s" "HV s' = HV s" "TB s' = TB s" "KY s' = KY s" "KL s' = KL s" "SID s' = SID s"
    "TT s' = (TT s)(t := (TT s t)\<lparr>tail := last ys\<rparr>)" "BB s' = BB s" "live (elems s') = live (elems s)" "live (tbls s') = live (tbls s)"
    "live (bkts s') = live (bkts s)" "ut_mem_ok s'"
    using lt mem k by (simp_all add: s'_def with_tail_def member_ok_def view_simps ut_mem_ok_put src_kept_def)
  have "table_core s' (set ys) t (5 + n) cs" using c by (simp add: table_core_def member_ok_def v)
  then have "table_ok s' dst ys t (5 + n) cs" using dl T d k by (simp add: table_ok_core v src_kept_def)
  then have "ut_inv s' dst ys" using False v(15) by (auto simp: ut_inv_def)
  then show ?thesis using False h T mem lt by (simp add: select_dst_def s'_def member_ok_def)
qed

lemma HASH_SELECT_correct:
  assumes inv: "ut_inv (src_view s) src xs" and b: "hh_blind cond" and room: "sel_room s (set (filter (picked s cond) xs))"
  shows "case HASH_SELECT cond NULL src s of Inl e \<Rightarrow> e = Exit (- 1) \<and> \<not> no_oom s
    | Inr (dst, s') \<Rightarrow> ut_frame s s' \<and> SID s' = SID s \<and> ut_inv (src_view s') src xs \<and>
        (\<exists>ys. distinct ys \<and> set ys = {x \<in> set xs. picked s cond x} \<and> select_dst s' dst ys)"
proof (cases "xs = []")
  case True
  with inv show ?thesis by (simp add: HASH_SELECT_def select_dst_def)
next
  case False
  with inv obtain ts L cs where tab: "table_ok (src_view s) src xs ts L cs" and mv: "ut_mem_ok (src_view s)" by (auto simp: ut_inv_def)
  have mem: "ut_mem_ok s" using mv by (simp add: ut_mem_ok_def src_view_def heap_ok_def)
  have src: "src \<in> set xs" using tab False by (cases xs) (auto dest: table_ok_head)
  then have ls: "live (elems s) src" "tbl (SRC s src) = ts"
    using tab by (auto simp: table_ok_def member_ok_def src_view_simps TB_def)
  have L: "L < 32" "num_buckets (TT s ts) = 2 ^ L" "live (tbls s) ts" "live (bkts s) (buckets (TT s ts))"
    using tab by (simp_all add: table_ok_def src_view_simps)
  define ys where "ys = sel_list s cond cs (2 ^ L)"
  have bk: "j < 2 ^ L \<Longrightarrow> distinct (cs j) \<and> set (cs j) = {x \<in> set xs. unat (HV (src_view s) x) mod 2 ^ L = j}" for j
    using tab by (auto simp: table_ok_def bkts_ok_def dll_def)
  have ys: "distinct ys" "set ys = {x \<in> set xs. picked s cond x}"
    unfolding ys_def using bk distinct_sel_list [of "2 ^ L" cs "set xs" "HV (src_view s)" "2 ^ L"]
      set_sel_list [of "2 ^ L" cs "set xs" "HV (src_view s)" "2 ^ L" s cond] by auto
  have dx: "distinct (map (SID s) xs)" "length xs < 2 ^ 32"
  proof -
    have e: "map (SID (src_view s)) xs = map (SID s) xs" using tab by (auto simp: table_ok_def member_ok_def src_view_simps)
    show "distinct (map (SID s) xs)" "length xs < 2 ^ 32" using tab unfolding e [symmetric] by (simp_all add: table_ok_def)
  qed
  have len: "length ys = length (filter (picked s cond) xs)"
    using ys dx(1) distinct_card [OF ys(1)] distinct_card [of "filter (picked s cond) xs"] by (simp add: distinct_map)
  have dy: "distinct (map (SID s) ys)" using dx(1) ys by (auto simp: distinct_map intro: inj_on_subset)
  have ly: "length ys < 2 ^ 32" using len dx(2) length_filter_le [of "picked s cond" xs] by linarith
  have I0: "sel_ok s ts s NULL NULL (sel_list s cond cs 0)"
    using mem L by (simp add: sel_ok_def src_kept_def sel_list_def)
  have O: "case sel_outer (2 ^ L) 0 cond ts NULL NULL s of Inl e \<Rightarrow> e = Exit (- 1) \<and> \<not> no_oom s
    | Inr (dst', lst', s') \<Rightarrow> sel_ok s ts s' dst' lst' ys"
    unfolding ys_def by (rule sel_outer_ok [OF I0 tab _ b]) (use room ys(2) in \<open>auto simp: ys_def\<close>)
  have run: "HASH_SELECT cond NULL src s =
      rbind (sel_outer (2 ^ L) 0 cond ts NULL NULL s) (\<lambda>(dst, lst, s). Inr (dst, s))"
    using ls L by (simp add: HASH_SELECT_def get_src_live view_run live_def unat_pow2)
  show ?thesis
  proof (cases "sel_outer (2 ^ L) 0 cond ts NULL NULL s")
    case (Inl e)
    with O show ?thesis by (simp add: run)
  next
    case (Inr r)
    obtain dst l s' where r: "r = (dst, l, s')" by (cases r)
    have I: "sel_ok s ts s' dst l ys" using O by (simp add: Inr r)
    then have k: "src_kept s ts s'" by (simp add: sel_ok_def)
    then have fr: "ut_frame s s'" "SID s' = SID s" by (simp_all add: src_kept_def)
    have "table_ok (src_view s') src xs ts L cs"
      by (rule table_ok_same [OF _ _ _ _ _ tab])
        (use k src_view_frame(1) [OF fr(1)] in \<open>simp_all add: src_kept_def src_view_simps\<close>)
    moreover have "ut_mem_ok (src_view s')" using k by (simp add: src_kept_def ut_mem_ok_def src_view_def heap_ok_def)
    ultimately have "ut_inv (src_view s') src xs" using False by (auto simp: ut_inv_def)
    moreover have "select_dst s' dst ys" by (rule sel_ok_dst [OF I dy ly])
    ultimately show ?thesis using fr ys by (auto simp: run Inr r)
  qed
qed

text \<open>Lookups do not read \<open>tail\<close>: the destination answers for the elements that were picked.\<close>

lemma HASH_FIND_with_tail:
  assumes "live (elems s) dst" "live (tbls s) (TB s dst)"
  shows "HASH_FIND dst i (with_tail dst x s) = HASH_FIND dst i s"
proof -
  have b: "HASH_FIND_IN_BKT n p k l hv (put_tbl u T s) = HASH_FIND_IN_BKT n p k l hv s" for n p k l hv u T
    by (induction n arbitrary: p) (simp_all add: put_tbl_def get_hh_def cong: if_cong)
  show ?thesis using assms
    by (simp add: HASH_FIND_def with_tail_def Let_def view_run view_simps b get_bkt_def cong: if_cong)
      (simp add: put_tbl_def cong: if_cong)
qed

lemma select_dst_find:
  assumes "select_dst s dst ys"
  shows "HASH_FIND dst i s = Inr (ptr (find (\<lambda>x. SID s x = i) ys))"
proof (cases "ys = []")
  case True
  with assms show ?thesis by (simp add: select_dst_def HASH_FIND_def)
next
  case False
  then have inv: "ut_inv (with_tail dst (last ys) s) dst ys" and lt: "live (tbls s) (TB s dst)" "dst \<in> set ys"
    using assms by (auto simp: select_dst_def)
  have v: "SID (with_tail dst (last ys) s) = SID s" "live (elems (with_tail dst (last ys) s)) = live (elems s)"
    using lt by (simp_all add: with_tail_def view_simps)
  have "live (elems s) dst" using ut.present_in [OF inv lt(2)] v by simp
  from HASH_FIND_with_tail [OF this lt(1), of i "last ys"] ut.look_find [OF inv, of i] v show ?thesis by simp
qed

text \<open>An element appended to the destination follows its first element, and the others drop out of its list.\<close>

lemma select_append:
  assumes "select_dst s dst ys" "ys \<noteq> []" "live (elems s) x" "x \<noteq> dst"
  shows "\<exists>s'. HASH_APPEND_LIST dst x s = Inr s' \<and> path (NX s') dst [dst, x] NULL"
proof -
  have inv: "ut_inv (with_tail dst (last ys) s) dst ys" and lt: "live (tbls s) (TB s dst)" "dst \<in> set ys" "tail (TT s (TB s dst)) = dst"
    using assms by (auto simp: select_dst_def)
  have "live (elems (with_tail dst (last ys) s)) = live (elems s)" using lt by (simp add: with_tail_def view_simps)
  then have ld: "live (elems s) dst" using ut.present_in [OF inv lt(2)] by simp
  then show ?thesis using assms(3,4) lt by (auto simp: HASH_APPEND_LIST_def view_run view_simps live_def)
qed

end
