(* ===== verification/Scenario.thy ===== *)
theory Scenario
  imports Process Modules Stream_Dump Stream_Threads Uthash_Select
begin

text \<open>
  A concrete run, on which the theorems' hypotheses hold: instances of the libraries the model
  takes as parameters (\<open>sim_abt\<close> for Argobots, \<open>sim_prims\<close> for Mercury's serialization), a process
  that registers a provider (\<open>sv1\<close>), makes a tag list (\<open>sv2\<close>) and creates a stream of a given type
  (\<open>sv3\<close>), a client with a handle on it (\<open>cl2\<close>), and a hash table with two elements (\<open>um2\<close>).
\<close>

definition val_of :: "'a res \<Rightarrow> 'a" where
  "val_of r = (case r of Inr x \<Rightarrow> x)"

lemma val_of_Inr [simp]: "val_of (Inr x) = x"
  by (simp add: val_of_def)

section \<open>Argobots\<close>

text \<open>The number of mutexes made so far, and which of them are taken.\<close>

type_synonym sim = "nat \<times> (addr \<Rightarrow> bool option)"

definition sim_mv :: "sim \<Rightarrow> addr \<rightharpoonup> bool" where
  "sim_mv x m = (if m < fst x then snd x m else None)"

definition sim_abt :: "sim argobots" where
  "sim_abt = \<lparr>ABT_mutex_create = (\<lambda>(n, f). (n, (Suc n, f(n := Some False)))),
     ABT_mutex_free = (\<lambda>m (n, f). Inr (n, f(m := None))),
     ABT_mutex_lock = (\<lambda>m (n, f). if sim_mv (n, f) m = Some False then Inr (n, f(m := Some True)) else Inl Deadlock),
     ABT_mutex_unlock = (\<lambda>m (n, f). Inr (n, f(m := Some False))),
     ABT_self_get_thread_id = (\<lambda>_. 1),
     ABT_get_wtime = (\<lambda>x. (dzero, x))\<rparr>"

lemma sim_abt_ok: "argobots_ok sim_abt sim_mv"
  by (simp add: argobots_ok_def sim_abt_def sim_mv_def split_paired_all) (auto simp: fun_eq_iff less_Suc_eq sim_mv_def)

lemma sim_abt_blocks: "argobots_blocks sim_abt sim_mv"
  by (auto simp: argobots_blocks_def sim_abt_def)

section \<open>Serialization\<close>

text \<open>A routine from an encoder and a decoder of what follows; freeing does nothing.\<close>

definition sim_proc :: "('a \<Rightarrow> byte list) \<Rightarrow> (byte list \<Rightarrow> ('a \<times> byte list) option) \<Rightarrow> 'a hg_proc" where
  "sim_proc enc dec op v b = (case op of
     HG_ENCODE \<Rightarrow> (HG_SUCCESS, v, b @ enc v)
   | HG_DECODE \<Rightarrow> (case dec b of None \<Rightarrow> (1, v, b) | Some (w, r) \<Rightarrow> (HG_SUCCESS, w, r))
   | HG_FREE \<Rightarrow> (HG_SUCCESS, v, b))"

lemma sim_proc_ok: "(\<And>v r. dec (enc v @ r) = Some (v, r)) \<Longrightarrow> proc_ok (sim_proc enc dec) enc"
  by (simp add: proc_ok_def sim_proc_def)

definition dec32 :: "byte list \<Rightarrow> (u32 \<times> byte list) option" where
  "dec32 b = (if length b < 4 then None else Some (bytes_id (take 4 b), drop 4 b))"

definition enc64 :: "u64 \<Rightarrow> byte list" where
  "enc64 w = id_bytes (ucast w) @ id_bytes (ucast (drop_bit 32 w))"

definition dec64 :: "byte list \<Rightarrow> (u64 \<times> byte list) option" where
  "dec64 b = (if length b < 8 then None
     else Some (ucast (bytes_id (take 4 b)) OR push_bit 32 (ucast (bytes_id (take 4 (drop 4 b)))), drop 8 b))"

text \<open>A number in unary, and a string after its length.\<close>

definition enc_nat :: "nat \<Rightarrow> byte list" where
  "enc_nat n = replicate n 1 @ [0]"

fun dec_nat :: "byte list \<Rightarrow> (nat \<times> byte list) option" where
  "dec_nat [] = None"
| "dec_nat (b # bs) = (if b = 0 then Some (0, bs) else map_option (apfst Suc) (dec_nat bs))"

definition enc_str :: "byte list \<Rightarrow> byte list" where
  "enc_str t = enc_nat (length t) @ t"

definition dec_str :: "byte list \<Rightarrow> (byte list \<times> byte list) option" where
  "dec_str b = (case dec_nat b of None \<Rightarrow> None
     | Some (n, r) \<Rightarrow> if length r < n then None else Some (take n r, drop n r))"

definition sim_memcpy :: "byte list hg_proc" where
  "sim_memcpy op v b = (case op of
     HG_ENCODE \<Rightarrow> (HG_SUCCESS, v, b @ v)
   | HG_DECODE \<Rightarrow> if length b < length v then (1, v, b) else (HG_SUCCESS, take (length v) b, drop (length v) b)
   | HG_FREE \<Rightarrow> (HG_SUCCESS, v, b))"

definition sim_prims :: hg_prims where
  "sim_prims = \<lparr>hg_proc_int32_t = sim_proc id_bytes dec32, hg_proc_int64_t = sim_proc enc64 dec64,
     hg_proc_hg_size_t = sim_proc enc64 dec64, hg_proc_hg_string_t = sim_proc enc_str dec_str,
     hg_proc_hg_bulk_t = sim_proc enc_nat dec_nat, hg_proc_memcpy = sim_memcpy\<rparr>"

lemma dec32_enc: "dec32 (id_bytes v @ r) = Some (v, r)"
  by (simp add: dec32_def)

lemma dec64_enc: "dec64 (enc64 v @ r) = Some (v, r)"
proof -
  have "ucast (ucast v :: u32) OR push_bit 32 (ucast (ucast (drop_bit 32 v) :: u32)) = v"
    by (rule bit_word_eqI) (auto simp: bit_or_iff bit_push_bit_iff bit_ucast_iff bit_drop_bit_eq not_less)
  then show ?thesis by (simp add: dec64_def enc64_def)
qed

lemma dec_nat_enc: "dec_nat (enc_nat n @ r) = Some (n, r)"
  by (induction n) (simp_all add: enc_nat_def)

lemma dec_str_enc: "dec_str (enc_str t @ r) = Some (t, r)"
  by (simp add: dec_str_def enc_str_def dec_nat_enc)

lemma sim_prims_ok: "prims_ok sim_prims id_bytes enc64 enc64 enc_str enc_nat"
  by (simp add: prims_ok_def sim_prims_def sim_proc_ok dec32_enc dec64_enc dec_nat_enc dec_str_enc memcpy_ok_def sim_memcpy_def)
    (simp add: sim_proc_def)

section \<open>A process\<close>

definition sv0 :: "sim server" where
  "sv0 = \<lparr>oom = [], elems = heap_empty, tbls = heap_empty, bkts = heap_empty, bufs = heap_empty,
     provs = heap_empty, tagls = heap_empty, ptrs = heap_empty, strs = heap_empty, idarrs = heap_empty,
     abt = (1, \<lambda>_. None), calls = []\<rparr>"

definition demo_env :: register_env where
  "demo_env = \<lparr>re_listening = True, re_registered = False, re_fetch_id = 7, re_list_id = 8\<rparr>"

text \<open>\<open>"ns"\<close>, \<open>"name"\<close>, \<open>"desc"\<close> and the tag \<open>"tag"\<close>, as bytes.\<close>

definition demo_ns :: "byte list" where "demo_ns = [110, 115, 0]"
definition demo_name :: "byte list" where "demo_name = [110, 97, 109, 101, 0]"
definition demo_desc :: "byte list" where "demo_desc = [100, 101, 115, 99, 0]"
definition demo_tag :: "byte list" where "demo_tag = [116, 97, 103, 0]"

definition sv1 :: "sim server" where
  "sv1 = snd (snd (val_of (aggregator_provider_register demo_env 5 3 None sv0)))"

definition sv2 :: "sim server" where
  "sv2 = snd (snd (val_of (aggregator_taglist_create 1 [demo_tag] sv1)))"

definition sv3 :: "aggregator_stream_type_t \<Rightarrow> sim server" where
  "sv3 t = snd (snd (val_of (aggregator_stream_create sim_abt (Some demo_ns) (Some demo_name) t (Some demo_desc) 1 1 sv2)))"

definition demo_id :: u32 where
  "demo_id = stream_id_spec demo_ns demo_name [demo_tag]"

lemma sv0_ok: "ut_mem_ok sv0" "heap_ok (provs sv0)" "mem_ok sv0"
  by (simp_all add: sv0_def ut_mem_ok_def mem_ok_def no_oom_def)

lemma register_sv0: "aggregator_provider_register demo_env 5 3 None sv0 = Inr (AGGREGATOR_SUCCESS, 1, sv1)"
  and sv1_ok: "process_inv sim_mv sv1 1 []"
proof -
  have "alloc_ok (oom sv0)" by (simp add: sv0_def)
  from register_ok [of demo_env sv0 5 3 None, OF _ _ this sv0_ok(1,2)] sv0_ok(3) obtain s where
    s: "aggregator_provider_register demo_env 5 3 None sv0 = Inr (AGGREGATOR_SUCCESS, brk (provs sv0), s)"
      "prov_inv s (brk (provs sv0)) []" "mem_ok s"
    by (auto simp: demo_env_def)
  have b: "brk (provs sv0) = 1" by (simp add: sv0_def heap_empty_def)
  show r: "aggregator_provider_register demo_env 5 3 None sv0 = Inr (AGGREGATOR_SUCCESS, 1, sv1)"
    using s(1) by (simp add: sv1_def b)
  have "s = sv1" using s(1) by (simp add: sv1_def b)
  then show "process_inv sim_mv sv1 1 []" using s(2,3) by (simp add: process_inv_def b)
qed

lemma demo_texts: "terminated demo_ns" "terminated demo_name" "terminated demo_desc" "terminated demo_tag"
  "cstring demo_ns = [110, 115]" "cstring demo_name = [110, 97, 109, 101]" "cstring demo_desc = [100, 101, 115, 99]"
  "cstring demo_tag = [116, 97, 103]"
  by (simp_all add: terminated_def demo_ns_def demo_name_def demo_desc_def demo_tag_def)

lemma brk_sv0: "brk (tagls sv0) = 1" "brk (strs sv0) = 1" "brk (elems sv0) = 1" "brk (bufs sv0) = 1"
  by (simp_all add: sv0_def heap_empty_def)

text \<open>Registration allocates the provider only.\<close>

lemma sv1_views: "tagls sv1 = tagls sv0" "strs sv1 = strs sv0" "elems sv1 = elems sv0" "bufs sv1 = bufs sv0" "abt sv1 = abt sv0"
  by (simp_all add: sv1_def aggregator_provider_register_def demo_env_def sv0_def calloc_def heap_empty_def
      upd_prov_def load_def store_def margo_def AGGREGATOR_PROVIDER_ARGS_INIT_def)

lemma create_tags_sv1: "aggregator_taglist_create 1 [demo_tag] sv1 = Inr (AGGREGATOR_SUCCESS, 1, sv2)"
  and sv2_tags: "tags_at sv2 1 1 [demo_tag]"
  and sv2_frame: "tags_frame sv1 sv2"
proof -
  have "no_oom sv1" "heap_ok (tagls sv1)" "heap_ok (ptrs sv1)" "heap_ok (strs sv1)"
    using sv1_ok by (simp_all add: process_inv_def mem_ok_def)
  moreover have "\<forall>t \<in> set [demo_tag]. terminated t \<and> length (cstring t) < 36 * 8" by (simp add: demo_texts)
  ultimately obtain tgl s where s: "aggregator_taglist_create (int (length [demo_tag])) [demo_tag] sv1 = Inr (AGGREGATOR_SUCCESS, tgl, s)"
    "tags_frame sv1 s" "tags_at s tgl (brk (strs sv1)) [demo_tag]" "tgl = brk (tagls sv1)"
    using taglist_create_ok by blast
  have "tgl = 1" "brk (strs sv1) = 1" using s(4) by (simp_all add: sv1_views brk_sv0)
  moreover have "s = sv2" using s(1) by (simp add: sv2_def)
  ultimately show "aggregator_taglist_create 1 [demo_tag] sv1 = Inr (AGGREGATOR_SUCCESS, 1, sv2)"
    "tags_at sv2 1 1 [demo_tag]" "tags_frame sv1 sv2"
    using s by simp_all
qed

lemma sv2_ok: "process_inv sim_mv sv2 1 []"
  using process_taglist [OF sv1_ok, of "[demo_tag]"] create_tags_sv1 demo_texts by auto

lemma demo_fits: "str_fits 36 (Some demo_ns)" "str_fits 36 (Some demo_name)" "str_fits 200 (Some demo_desc)"
  by (simp_all add: str_fits_def demo_texts)

lemma demo_pre: "create_pre (Some demo_ns) (Some demo_name) (Some demo_desc) 1 sv2 demo_id"
  unfolding demo_id_def
  by (rule create_pre_tags [OF sv2_tags demo_fits])
    (use sv2_ok in \<open>simp add: process_inv_def mem_ok_def\<close>)

lemma sv2_views: "brk (elems sv2) = 1" "brk (bufs sv2) = 1" "streams (PR sv2 1) = NULL"
  using sv2_frame sv2_ok
  by (auto simp: tags_frame_def sv1_views brk_sv0 process_inv_def prov_inv_def)

lemma sv2_room: "ut_room sv2 (streams (PR sv2 1)) []"
  using sv2_views(3) by (simp add: ut_room_def ut_log2_def)

lemma create_sv2:
  "aggregator_stream_create sim_abt (Some demo_ns) (Some demo_name) t (Some demo_desc) 1 1 sv2 = Inr (AGGREGATOR_SUCCESS, Some 1, sv3 t)"
  and sv3_ok: "process_inv sim_mv (sv3 t) 1 [1]"
  and sv3_registry: "registry (sv3 t) [1] = [demo_id \<mapsto> 1]"
  and sv3_room: "ut_log2 (sv3 t) (streams (PR (sv3 t) 1)) \<le> 6"
  and sv3_frame: "create_frame sv2 (sv3 t)"
  and sv3_stream: "stream_init demo_id (Some demo_ns) (Some demo_name) t (Some demo_desc) 1 (ST (sv3 t) 1)"
proof -
  have r0: "registry sv2 [] demo_id = None" by (simp add: registry_def index_map_def)
  from process_create [OF sim_abt_ok sv2_ok demo_pre sv2_room, of t] obtain st s where
    s: "aggregator_stream_create sim_abt (Some demo_ns) (Some demo_name) t (Some demo_desc) 1 1 sv2 = Inr (AGGREGATOR_SUCCESS, Some st, s)"
      "process_inv sim_mv s 1 [st]"
    by (auto simp: r0)
  have e: "s = sv3 t" using s(1) by (simp add: sv3_def)
  from stream_create_cases [OF demo_pre process_inv_prov [OF sv2_ok] sv2_room, of sim_abt t] s(1) e
  have st: "st = brk (elems sv2)" "stream_init demo_id (Some demo_ns) (Some demo_name) t (Some demo_desc) 1 (ST (sv3 t) st)"
    "registry (sv3 t) [st] = (registry sv2 [])(demo_id \<mapsto> st)" "create_frame sv2 (sv3 t)"
    "ut_log2 (sv3 t) (streams (PR (sv3 t) 1)) \<le> Suc (ut_log2 sv2 (streams (PR sv2 1)))"
    by (auto simp: r0 aggregator_stream_create_def)
  then have st1: "st = 1" by (simp add: sv2_views)
  show "aggregator_stream_create sim_abt (Some demo_ns) (Some demo_name) t (Some demo_desc) 1 1 sv2 = Inr (AGGREGATOR_SUCCESS, Some 1, sv3 t)"
    "process_inv sim_mv (sv3 t) 1 [1]"
    using s e st1 by simp_all
  show "create_frame sv2 (sv3 t)" by (rule st(4))
  show "ut_log2 (sv3 t) (streams (PR (sv3 t) 1)) \<le> 6" using st(5) sv2_views(3) by (simp add: ut_log2_def)
  show "registry (sv3 t) [1] = [demo_id \<mapsto> 1]"
    using st(3) st1 by (simp add: registry_def index_map_def)
  show "stream_init demo_id (Some demo_ns) (Some demo_name) t (Some demo_desc) 1 (ST (sv3 t) 1)"
    using st(2) st1 by simp
qed

lemma sv3_facts:
  "prov_inv (sv3 t) 1 [1]" "mem_ok (sv3 t)" "stream_wf (sv3 t) 1" "mutex_is sim_mv False (sv3 t) 1"
  "stype (ST (sv3 t) 1) = t" "buffer_index (ST (sv3 t) 1) = 0" "svals (sv3 t) 1 = []" "samples (sv3 t) 1 = []"
  "SID (sv3 t) 1 = demo_id" "live (elems (sv3 t)) 1" "no_oom (sv3 t)" "heap_ok (bufs (sv3 t))" "heap_ok (strs (sv3 t))"
  "heap_ok (idarrs (sv3 t))"
proof -
  show "prov_inv (sv3 t) 1 [1]" "mem_ok (sv3 t)" "stream_wf (sv3 t) 1" "mutex_is sim_mv False (sv3 t) 1"
    using sv3_ok [of t] by (simp_all add: process_inv_def stream_ok_def)
  then show "live (elems (sv3 t)) 1" "no_oom (sv3 t)" "heap_ok (bufs (sv3 t))" "heap_ok (strs (sv3 t))" "heap_ok (idarrs (sv3 t))"
    by (simp_all add: stream_wf_def mem_ok_def)
  show "stype (ST (sv3 t) 1) = t" "buffer_index (ST (sv3 t) 1) = 0" "SID (sv3 t) 1 = demo_id"
    using sv3_stream [of t] by (simp_all add: stream_init_def SID_ST)
  then show "samples (sv3 t) 1 = []" by (simp add: samples_Nil_iff)
  then show "svals (sv3 t) 1 = []" by (simp add: svals_def)
qed

text \<open>The same names once more.\<close>

lemma sv3_pre: "create_pre (Some demo_ns) (Some demo_name) (Some demo_desc) 1 (sv3 t) demo_id"
proof -
  have "tags_at (sv3 t) 1 1 [demo_tag]"
    using sv2_tags sv3_frame [of t] by (simp add: tags_at_def create_frame_def)
  from create_pre_tags [OF this demo_fits sv3_facts(11)] show ?thesis by (simp add: demo_id_def)
qed

lemma sv3_ut_room: "ut_room (sv3 t) (streams (PR (sv3 t) 1)) [1]"
  using sv3_room [of t] by (simp add: ut_room_def)

text \<open>
  The counter with the values 1 and 2: the value 1 that comes after 2 is refused.
\<close>

definition demo_vals :: "double list" where
  "demo_vals = [0x3FF0000000000000, 0x4000000000000000, 0x3FF0000000000000]"

definition sv4 :: "sim server" where
  "sv4 = snd (val_of (run_updates sim_abt 1 demo_vals (sv3 AGGREGATOR_TYPE_COUNTER)))"

lemma accepted_demo: "accepted AGGREGATOR_TYPE_COUNTER [] demo_vals = [0x3FF0000000000000, 0x4000000000000000]"
  by (simp add: demo_vals_def refuses_def dgt_def dlt_def is_nan_def dkey_def dsign_def dmag_def inf_mag_def)

lemma sv4_ok: "process_inv sim_mv sv4 1 [1]" and sv4_svals: "svals sv4 1 = [0x3FF0000000000000, 0x4000000000000000]"
  and sv4_registry: "registry sv4 [1] = [demo_id \<mapsto> 1]"
  and sv4_stream: "cstring (sname (ST sv4 1)) = [110, 97, 109, 101]" "cstring (sns (ST sv4 1)) = [110, 115]"
    "stype (ST sv4 1) = AGGREGATOR_TYPE_COUNTER"
proof -
  let ?s = "sv3 AGGREGATOR_TYPE_COUNTER"
  have "length (svals ?s 1) + length demo_vals \<le> STREAM_BUFFER_SIZE"
    using sv3_facts(7) [of AGGREGATOR_TYPE_COUNTER] by (simp add: demo_vals_def STREAM_BUFFER_SIZE_def)
  from process_updates [OF sim_abt_ok sv3_ok _ this] obtain rs s n where
    s: "run_updates sim_abt 1 demo_vals ?s = Inr (rs, s)" "process_inv sim_mv s 1 [1]"
      "svals s 1 = accepted (stype (ST ?s 1)) (svals ?s 1) demo_vals" "ST s 1 = (ST ?s 1)\<lparr>buffer_index := n\<rparr>"
      "registry s [1] = registry ?s [1]"
    by auto
  have e: "s = sv4" using s(1) by (simp add: sv4_def)
  have "stream_init demo_id (Some demo_ns) (Some demo_name) AGGREGATOR_TYPE_COUNTER (Some demo_desc) 1 (ST ?s 1)" by (rule sv3_stream)
  then have f: "cstring (sname (ST ?s 1)) = [110, 97, 109, 101]" "cstring (sns (ST ?s 1)) = [110, 115]"
    by (simp_all add: stream_init_def demo_texts)
  show "process_inv sim_mv sv4 1 [1]" using s(2) e by simp
  show "svals sv4 1 = [0x3FF0000000000000, 0x4000000000000000]" using s(3) unfolding e sv3_facts accepted_demo .
  show "registry sv4 [1] = [demo_id \<mapsto> 1]" using s(5) unfolding e sv3_registry .
  show "cstring (sname (ST sv4 1)) = [110, 97, 109, 101]" "cstring (sns (ST sv4 1)) = [110, 115]"
    "stype (ST sv4 1) = AGGREGATOR_TYPE_COUNTER"
    using s(4) f sv3_facts(5) [of AGGREGATOR_TYPE_COUNTER] unfolding e by simp_all
qed

lemma sv4_facts: "prov_inv sv4 1 [1]" "mem_ok sv4" "stream_wf sv4 1" "length (samples sv4 1) = 2"
  using sv4_ok arg_cong [OF sv4_svals, of length]
  by (simp_all add: process_inv_def stream_ok_def svals_def)

section \<open>A client\<close>

definition cl0 :: client_mem where
  "cl0 = \<lparr>coom = [], clients = heap_empty, handles = heap_empty, ccalls = [], cbufs = heap_empty, cstrs = heap_empty,
     cids = \<lparr>cells = [1 \<mapsto> azero 4 0], brk = 2\<rparr>\<rparr>"

definition demo_ienv :: init_env where
  "demo_ienv = \<lparr>ie_registered = False, ie_fetch_id = 7, ie_list_id = 8\<rparr>"

definition cl1 :: client_mem where
  "cl1 = snd (snd (val_of (aggregator_client_init demo_ienv 9 cl0)))"

definition cl2 :: client_mem where
  "cl2 = snd (snd (val_of (aggregator_remote_stream_handle_create (HG_SUCCESS, 12) 1 11 3 demo_id cl1)))"

lemma cl0_inv: "client_inv cl0"
  by (simp add: client_inv_def cl0_def heap_empty_def heap_ok_def live_def)

lemma init_cl0: "aggregator_client_init demo_ienv 9 cl0 = Inr (AGGREGATOR_SUCCESS, 1, cl1)"
  and cl1_inv: "client_inv cl1" and cl1_live: "live (clients cl1) 1" and cl1_refs: "refs cl1 = Map.empty"
proof -
  have "alloc_ok (coom cl0)" by (simp add: cl0_def)
  from client_init_ok [OF cl0_inv this, of demo_ienv 9] obtain c s where
    s: "aggregator_client_init demo_ienv 9 cl0 = Inr (AGGREGATOR_SUCCESS, c, s)" "client_inv s" "live (clients s) c" "refs s = refs cl0"
    by blast
  have "c = 1"
    using s(1) by (auto simp: aggregator_client_init_def cl0_def calloc_def heap_empty_def demo_ienv_def rbind_eq_Inr Let_def)
  moreover have "s = cl1" using s(1) by (simp add: cl1_def)
  moreover have "refs cl0 = Map.empty" by (simp add: refs_def cl0_def heap_empty_def live_def fun_eq_iff)
  ultimately show "aggregator_client_init demo_ienv 9 cl0 = Inr (AGGREGATOR_SUCCESS, 1, cl1)"
    "client_inv cl1" "live (clients cl1) 1" "refs cl1 = Map.empty"
    using s by simp_all
qed

lemma cl1_mem: "coom cl1 = []" "cbufs cl1 = heap_empty" "cstrs cl1 = heap_empty" "cids cl1 = cids cl0" "handles cl1 = heap_empty"
  by (simp_all add: cl1_def aggregator_client_init_def cl0_def calloc_def heap_empty_def demo_ienv_def upd_client_def
      load_def store_def ccall_def)

lemma create_cl1: "aggregator_remote_stream_handle_create (HG_SUCCESS, 12) 1 11 3 demo_id cl1 = Inr (AGGREGATOR_SUCCESS, 1, cl2)"
  and cl2_inv: "client_inv cl2" and cl2_refs: "refs cl2 = [1 \<mapsto> 1]"
  and cl2_handle: "HD cl2 1 = \<lparr>h_client = 1, h_addr = 12, h_provider_id = 3, refcount = 1, h_stream_id = demo_id\<rparr>"
  and cl2_live: "live (clients cl2) 1"
proof -
  have "alloc_ok (coom cl1)" by (simp add: cl1_mem)
  from handle_create_ok [OF cl1_inv cl1_live this, of 12 11 3 demo_id] obtain rh s where
    s: "aggregator_remote_stream_handle_create (HG_SUCCESS, 12) 1 11 3 demo_id cl1 = Inr (AGGREGATOR_SUCCESS, rh, s)"
      "client_inv s" "refs s = (refs cl1)(rh \<mapsto> 1)"
      "HD s rh = \<lparr>h_client = 1, h_addr = 12, h_provider_id = 3, refcount = 1, h_stream_id = demo_id\<rparr>"
      "live (clients s) = live (clients cl1)"
    by blast
  have "rh = 1"
    using s(1) cl1_live
    by (auto simp: aggregator_remote_stream_handle_create_def cl1_mem calloc_def heap_empty_def rbind_eq_Inr Let_def)
  moreover have "s = cl2" using s(1) by (simp add: cl2_def)
  ultimately show "aggregator_remote_stream_handle_create (HG_SUCCESS, 12) 1 11 3 demo_id cl1 = Inr (AGGREGATOR_SUCCESS, 1, cl2)"
    "client_inv cl2" "refs cl2 = [1 \<mapsto> 1]"
    "HD cl2 1 = \<lparr>h_client = 1, h_addr = 12, h_provider_id = 3, refcount = 1, h_stream_id = demo_id\<rparr>" "live (clients cl2) 1"
    using s cl1_refs cl1_live by simp_all
qed

lemma cl2_mem: "coom cl2 = []" "cbufs cl2 = heap_empty" "cstrs cl2 = heap_empty" "cids cl2 = cids cl0"
proof -
  obtain c where c: "cells (clients cl1) 1 = Some c" using cl1_live by (auto simp: live_def)
  then show "coom cl2 = []" "cbufs cl2 = heap_empty" "cstrs cl2 = heap_empty" "cids cl2 = cids cl0"
    by (simp_all add: cl2_def aggregator_remote_stream_handle_create_def calloc_def cl1_mem heap_empty_def upd_client_def
        upd_handle_def load_def store_def ccall_def)
qed

lemma cl2_live_handle: "live (handles cl2) 1"
  using cl2_refs by (auto simp: refs_def fun_eq_iff split: if_splits)

section \<open>A hash table\<close>

definition um_elem :: "u32 \<Rightarrow> elem" where
  "um_elem i = \<lparr>sid = i, hh = zero_handle\<rparr>"

text \<open>Three elements, the first two of which are added to a table.\<close>

definition um0 :: "elem ut_mem" where
  "um0 = \<lparr>oom = [], elems = \<lparr>cells = [1 \<mapsto> um_elem 10, 2 \<mapsto> um_elem 20, 3 \<mapsto> um_elem 30], brk = 4\<rparr>,
     tbls = heap_empty, bkts = heap_empty\<rparr>"

definition um1 :: "addr \<times> elem ut_mem" where
  "um1 = val_of (HASH_ADD NULL 1 um0)"

definition um2 :: "addr \<times> elem ut_mem" where
  "um2 = val_of (HASH_ADD (fst um1) 2 (snd um1))"

lemma um0_ok: "ut_inv um0 NULL []" "no_oom um0"
  "live (elems um0) 1" "live (elems um0) 2" "live (elems um0) 3" "SID um0 1 = 10" "SID um0 2 = 20" "SID um0 3 = 30"
  by (auto simp: ut_inv_def ut_mem_ok_def um0_def heap_ok_def live_def no_oom_def SID_def um_elem_def heap_empty_def)

lemma um1_ok: "ut_inv (snd um1) (fst um1) [1]" "no_oom (snd um1)" "live (elems (snd um1)) = live (elems um0)"
  "SID (snd um1) = SID um0" "ut_log2 (snd um1) (fst um1) \<le> 6" "HASH_ADD NULL 1 um0 = Inr um1"
proof -
  have "add_result um0 (HASH_ADD NULL 1 um0) (\<lambda>(h, s). ut_inv s h ([] @ [1]) \<and> ut_step um0 s \<and> ut_log2 s h \<le> Suc (ut_log2 um0 NULL))"
    by (rule HASH_ADD_correct) (use um0_ok in \<open>simp_all add: ut_log2_def\<close>)
  then obtain h s where r: "HASH_ADD NULL 1 um0 = Inr (h, s)" "ut_inv s h [1]" "ut_step um0 s" "ut_log2 s h \<le> 6"
    using um0_ok(2) by (auto simp: add_result_def ut_log2_def split: sum.splits)
  then have u: "um1 = (h, s)" by (simp add: um1_def)
  show "ut_inv (snd um1) (fst um1) [1]" "no_oom (snd um1)" "live (elems (snd um1)) = live (elems um0)"
    "SID (snd um1) = SID um0" "ut_log2 (snd um1) (fst um1) \<le> 6" "HASH_ADD NULL 1 um0 = Inr um1"
    using r um0_ok(2) by (simp_all add: u ut.step_healthy ut.step_present ut.step_ident)
qed

lemma um2_ok: "ut_inv (snd um2) (fst um2) [1, 2]" "no_oom (snd um2)" "live (elems (snd um2)) = live (elems um0)"
  "SID (snd um2) = SID um0" "ut_log2 (snd um2) (fst um2) \<le> 7" "HASH_ADD (fst um1) 2 (snd um1) = Inr um2"
proof -
  have "add_result (snd um1) (HASH_ADD (fst um1) 2 (snd um1)) (\<lambda>(h, s). ut_inv s h ([1] @ [2]) \<and> ut_step (snd um1) s \<and>
      ut_log2 s h \<le> Suc (ut_log2 (snd um1) (fst um1)))"
    by (rule HASH_ADD_correct) (use um1_ok um0_ok in simp_all)
  then obtain h s where r: "HASH_ADD (fst um1) 2 (snd um1) = Inr (h, s)" "ut_inv s h [1, 2]" "ut_step (snd um1) s" "ut_log2 s h \<le> 7"
    using um1_ok(2,5) by (auto simp: add_result_def split: sum.splits)
  then have u: "um2 = (h, s)" by (simp add: um2_def)
  show "ut_inv (snd um2) (fst um2) [1, 2]" "no_oom (snd um2)" "live (elems (snd um2)) = live (elems um0)"
    "SID (snd um2) = SID um0" "ut_log2 (snd um2) (fst um2) \<le> 7" "HASH_ADD (fst um1) 2 (snd um1) = Inr um2"
    using r um1_ok(2-4) by (simp_all add: u ut.step_healthy ut.step_present ut.step_ident)
qed

text \<open>A memory whose elements have a second handle, which is their only one before.\<close>

definition with_src :: "elem ut_mem \<Rightarrow> elem2 ut_mem" where
  "with_src s = \<lparr>oom = oom s, elems = \<lparr>cells = \<lambda>p. map_option (\<lambda>e. \<lparr>sid = sid e, hh = zero_handle, hh_src = hh e\<rparr>) (cells (elems s) p),
     brk = brk (elems s)\<rparr>, tbls = tbls s, bkts = bkts s\<rparr>"

lemma with_src_simps:
  "live (elems (src_view (with_src s))) = live (elems s)" "live (tbls (src_view (with_src s))) = live (tbls s)"
  "live (bkts (src_view (with_src s))) = live (bkts s)" "TT (src_view (with_src s)) = TT s" "BB (src_view (with_src s)) = BB s"
  "live (elems s) p \<Longrightarrow> HH (src_view (with_src s)) p = HH s p" "live (elems s) p \<Longrightarrow> SID (with_src s) p = SID s p"
  "ut_mem_ok s \<Longrightarrow> ut_mem_ok (src_view (with_src s))" "live (elems (with_src s)) = live (elems s)"
  by (auto simp: with_src_def src_view_def live_def fun_eq_iff HH_def SID_def TT_def BB_def ut_mem_ok_def heap_ok_def)

lemma with_src_ok:
  assumes "ut_inv s h xs"
  shows "ut_inv (src_view (with_src s)) h xs"
proof (cases "xs = []")
  case False
  with assms obtain t L cs where tab: "table_ok s h xs t L cs" and mem: "ut_mem_ok s" by (auto simp: ut_inv_def)
  let ?v = "src_view (with_src s)"
  have l: "live (elems s) x" if "x \<in> set xs" for x using tab that by (auto simp: table_ok_def member_ok_def)
  have w: "NX ?v x = NX s x" "PV ?v x = PV s x" "HN ?v x = HN s x" "HP ?v x = HP s x" "HV ?v x = HV s x" "TB ?v x = TB s x"
    "KY ?v x = KY s x" "KL ?v x = KL s x" "SID ?v x = SID s x" if "x \<in> set xs" for x
    using l [OF that] by (simp_all add: NX_def PV_def HN_def HP_def HV_def TB_def KY_def KL_def with_src_simps src_view_simps(8))
  have "dll (NX ?v) (PV ?v) h xs (tail (TT s t))"
    using tab by (subst dll_cong [of _ _ "NX s" _ "PV s"]) (simp_all add: w table_ok_def)
  moreover have "bkts_ok (HN ?v) (HP ?v) (HV ?v) B n (set xs) cs = bkts_ok (HN s) (HP s) (HV s) B n (set xs) cs" for B n
    by (rule bkts_ok_cong) (simp add: w)
  moreover have "map (SID ?v) xs = map (SID s) xs" by (simp add: w)
  ultimately have "table_ok ?v h xs t L cs"
    using tab by (auto simp: table_ok_def member_ok_def with_src_simps w simp del: map_eq_conv)
  with False with_src_simps(8) [OF mem] show ?thesis by (auto simp: ut_inv_def)
qed (use assms in \<open>simp add: with_src_simps\<close>)

end
