(* ===== verification/Uthash_Check.thy ===== *)
theory Uthash_Check
  imports Uthash_Index
begin

text \<open>
  \<open>HASH_FSCK\<close>, the table's own consistency check, which uthash runs after every change when
  \<open>HASH_DEBUG\<close> is defined, and \<open>HASH_CLEAR\<close>, which drops a table. The check passes exactly on tables
  whose chains are doubly linked and whose counters agree (\<open>fsck_ok\<close>), and so on every table that
  the invariant describes.
\<close>

section \<open>The check\<close>

text \<open>\<open>HASH_OOPS\<close> prints and calls \<open>exit(-1)\<close>.\<close>

fun fsck_bucket :: "nat \<Rightarrow> addr \<Rightarrow> addr \<Rightarrow> u32 \<Rightarrow> ('a elem_scheme, 'b) ut_mem_scheme \<Rightarrow> u32 res" where
  "fsck_bucket 0 thh prev n s = Inl Diverge"
| "fsck_bucket (Suc k) thh prev n s =
     (if thh = NULL then Inr n
      else
        rbind (get_hh thh s) (\<lambda>h.
        if prev \<noteq> hh_prev h then Inl (Exit (-1))
        else fsck_bucket k (hh_next h) thh (n + 1) s))"

fun fsck_buckets :: "nat \<Rightarrow> nat \<Rightarrow> addr \<Rightarrow> u32 \<Rightarrow> ('a elem_scheme, 'b) ut_mem_scheme \<Rightarrow> u32 res" where
  "fsck_buckets 0 i head n s = Inr n"
| "fsck_buckets (Suc k) i head n s =
     rbind (get_hh head s) (\<lambda>h.
     rbind (get_tbl (tbl h) s) (\<lambda>T.
     rbind (get_bkt (buckets T) (of_nat i) s) (\<lambda>B.
     rbind (fsck_bucket (fuel s) (hh_head B) NULL 0 s) (\<lambda>m.
     if bcount B \<noteq> m then Inl (Exit (-1)) else fsck_buckets k (Suc i) head (n + m) s))))"

fun fsck_list :: "nat \<Rightarrow> addr \<Rightarrow> addr \<Rightarrow> u32 \<Rightarrow> ('a elem_scheme, 'b) ut_mem_scheme \<Rightarrow> u32 res" where
  "fsck_list 0 thh prev n s = Inl Diverge"
| "fsck_list (Suc k) thh prev n s =
     (if thh = NULL then Inr n
      else
        rbind (get_hh thh s) (\<lambda>h.
        if prev \<noteq> prv h then Inl (Exit (-1))
        else fsck_list k (nxt h) thh (n + 1) s))"

definition HASH_FSCK :: "addr \<Rightarrow> ('a elem_scheme, 'b) ut_mem_scheme \<Rightarrow> unit res" where
  "HASH_FSCK head s =
     (if head = NULL then Inr ()
      else
        rbind (get_hh head s) (\<lambda>h.
        rbind (get_tbl (tbl h) s) (\<lambda>T.
        rbind (fsck_buckets (unat (num_buckets T)) 0 head 0 s) (\<lambda>n.
        if n \<noteq> num_items T then Inl (Exit (-1))
        else
          rbind (fsck_list (fuel s) head NULL 0 s) (\<lambda>n.
          if n \<noteq> num_items T then Inl (Exit (-1)) else Inr ())))))"

definition HASH_CLEAR :: "addr \<Rightarrow> ('a elem_scheme, 'b) ut_mem_scheme \<Rightarrow> (addr \<times> ('a elem_scheme, 'b) ut_mem_scheme) res" where
  "HASH_CLEAR head s =
     (if head = NULL then Inr (head, s)
      else
        rbind (get_hh head s) (\<lambda>h.
        rbind (get_tbl (tbl h) s) (\<lambda>T.
        rbind (dealloc (bkts s) (buckets T)) (\<lambda>bs. let s = s\<lparr>bkts := bs\<rparr> in
        rbind (dealloc (tbls s) (tbl h)) (\<lambda>ts.
        Inr (NULL, s\<lparr>tbls := ts\<rparr>))))))"

section \<open>What the loops check\<close>

text \<open>\<open>backlinks pv p xs\<close>: each element of \<open>xs\<close> points back to the one before it, the first to \<open>p\<close>.\<close>

fun backlinks :: "(addr \<Rightarrow> addr) \<Rightarrow> addr \<Rightarrow> addr list \<Rightarrow> bool" where
  "backlinks pv p [] \<longleftrightarrow> True"
| "backlinks pv p (x # xs) \<longleftrightarrow> pv x = p \<and> backlinks pv x xs"

lemma backlinks_snoc: "backlinks pv p (xs @ [y]) \<longleftrightarrow> backlinks pv p xs \<and> pv y = (if xs = [] then p else last xs)"
  by (induction xs arbitrary: p) auto

lemma back_path: "xs \<noteq> [] \<Longrightarrow> backlinks pv p xs \<and> NULL \<notin> set xs \<longleftrightarrow> path pv (last xs) (rev xs) p"
proof (induction xs rule: rev_induct)
  case (snoc y ys)
  show ?case
  proof (cases "ys = []")
    case False
    have "path pv (pv y) (rev ys) p \<Longrightarrow> pv y = last ys"
      using path_hd [of "rev ys" pv "pv y" p] False by (simp add: hd_rev)
    with snoc.IH [OF False] False show ?thesis by (auto simp: backlinks_snoc)
  qed auto
qed simp

lemma path_distinct: "path nx p xs NULL \<Longrightarrow> distinct xs"
proof (induction xs arbitrary: p)
  case (Cons x xs)
  then have r: "x \<noteq> NULL" "path nx (nx x) xs NULL" by simp_all
  have "x \<notin> set xs"
  proof
    assume "x \<in> set xs"
    then obtain ys zs where xs: "xs = ys @ x # zs" by (meson split_list)
    with r(2) have "path nx (nx x) zs NULL" by auto
    from path_unique [OF r(2) this] xs show False by simp
  qed
  with Cons.IH [OF r(2)] show ?case by simp
qed simp

lemma dll_back: "(\<exists>t. dll nx pv h xs t) \<longleftrightarrow> path nx h xs NULL \<and> backlinks pv NULL xs"
proof (cases "xs = []")
  case False
  have "backlinks pv NULL xs \<longleftrightarrow> path pv (last xs) (rev xs) NULL" if "path nx h xs NULL"
    using back_path [OF False, of pv NULL] path_not_NULL [OF that] by simp
  moreover have "path pv t (rev xs) NULL \<Longrightarrow> t = last xs" for t
    using path_hd [of "rev xs" pv t NULL] False by (simp add: hd_rev)
  ultimately show ?thesis using path_distinct [of nx h xs] by (auto simp: dll_def)
qed auto

definition chain_ok :: "('a elem_scheme, 'b) ut_mem_scheme \<Rightarrow> (addr \<Rightarrow> addr) \<Rightarrow> (addr \<Rightarrow> addr) \<Rightarrow> addr \<Rightarrow> addr list \<Rightarrow> bool" where
  "chain_ok s nx pv h xs \<longleftrightarrow> (\<exists>t. dll nx pv h xs t) \<and> (\<forall>x \<in> set xs. live (elems s) x)"

lemma get_hh_dead: "\<not> live (elems s) p \<Longrightarrow> \<exists>e. get_hh p s = Inl e"
  by (auto simp: get_hh_def load_def live_def)

lemma fsck_bucket_iff:
  "fsck_bucket k thh p n s = Inr n' \<longleftrightarrow>
    (\<exists>ys. path (HN s) thh ys NULL \<and> backlinks (HP s) p ys \<and> (\<forall>y \<in> set ys. live (elems s) y) \<and> length ys < k \<and> n' = n + of_nat (length ys))"
proof (induction k arbitrary: thh p n)
  case (Suc k)
  show ?case
  proof (cases "thh = NULL")
    case False
    show ?thesis
    proof (cases "live (elems s) thh")
      case True
      have "fsck_bucket (Suc k) thh p n s = Inr n' \<longleftrightarrow> p = HP s thh \<and> fsck_bucket k (HN s thh) thh (n + 1) s = Inr n'"
        using False True by (simp add: view_run view_simps)
      also have "\<dots> \<longleftrightarrow> (\<exists>ys. path (HN s) thh (thh # ys) NULL \<and> backlinks (HP s) p (thh # ys) \<and> (\<forall>y \<in> set (thh # ys). live (elems s) y) \<and>
          length (thh # ys) < Suc k \<and> n' = n + of_nat (length (thh # ys)))"
        unfolding Suc.IH using False True by (auto simp: algebra_simps)
      also have "\<dots> \<longleftrightarrow> (\<exists>ys. path (HN s) thh ys NULL \<and> backlinks (HP s) p ys \<and> (\<forall>y \<in> set ys. live (elems s) y) \<and> length ys < Suc k \<and>
          n' = n + of_nat (length ys))"
        using path_nonnull [OF False] by metis
      finally show ?thesis .
    next
      case dead: False
      with get_hh_dead [OF dead] False path_nonnull [OF False] show ?thesis by fastforce
    qed
  qed auto
qed simp

lemma fsck_list_iff:
  "fsck_list k thh p n s = Inr n' \<longleftrightarrow>
    (\<exists>ys. path (NX s) thh ys NULL \<and> backlinks (PV s) p ys \<and> (\<forall>y \<in> set ys. live (elems s) y) \<and> length ys < k \<and> n' = n + of_nat (length ys))"
proof (induction k arbitrary: thh p n)
  case (Suc k)
  show ?case
  proof (cases "thh = NULL")
    case False
    show ?thesis
    proof (cases "live (elems s) thh")
      case True
      have "fsck_list (Suc k) thh p n s = Inr n' \<longleftrightarrow> p = PV s thh \<and> fsck_list k (NX s thh) thh (n + 1) s = Inr n'"
        using False True by (simp add: view_run view_simps)
      also have "\<dots> \<longleftrightarrow> (\<exists>ys. path (NX s) thh (thh # ys) NULL \<and> backlinks (PV s) p (thh # ys) \<and> (\<forall>y \<in> set (thh # ys). live (elems s) y) \<and>
          length (thh # ys) < Suc k \<and> n' = n + of_nat (length (thh # ys)))"
        unfolding Suc.IH using False True by (auto simp: algebra_simps)
      also have "\<dots> \<longleftrightarrow> (\<exists>ys. path (NX s) thh ys NULL \<and> backlinks (PV s) p ys \<and> (\<forall>y \<in> set ys. live (elems s) y) \<and> length ys < Suc k \<and>
          n' = n + of_nat (length ys))"
        using path_nonnull [OF False] by metis
      finally show ?thesis .
    next
      case dead: False
      with get_hh_dead [OF dead] False path_nonnull [OF False] show ?thesis by fastforce
    qed
  qed auto
qed simp

lemma chain_ok_iff:
  assumes "ut_mem_ok s"
  shows "chain_ok s nx pv h ys \<longleftrightarrow>
    path nx h ys NULL \<and> backlinks pv NULL ys \<and> (\<forall>y \<in> set ys. live (elems s) y) \<and> length ys < fuel s"
  using live_length_fuel [OF assms, of ys] path_distinct [of nx h ys] by (auto simp: chain_ok_def dll_back)

lemma chain_ok_unique: "chain_ok s nx pv h xs \<Longrightarrow> chain_ok s nx pv h ys \<Longrightarrow> xs = ys"
  by (auto simp: chain_ok_def dll_def intro: path_unique)

definition bucket_ok :: "('a elem_scheme, 'b) ut_mem_scheme \<Rightarrow> UT_hash_bucket \<Rightarrow> addr list \<Rightarrow> bool" where
  "bucket_ok s B c \<longleftrightarrow> chain_ok s (HN s) (HP s) (hh_head B) c \<and> bcount B = of_nat (length c)"

lemma fsck_buckets_iff:
  assumes ok: "ut_mem_ok s" and h: "live (elems s) head" "TB s head = t" "live (tbls s) t" "buckets (TT s t) = b" "live (bkts s) b"
    and k: "i + k \<le> length (BB s b)" "i + k < 2 ^ 32"
  shows "fsck_buckets k i head n s = Inr n' \<longleftrightarrow>
    (\<exists>cs. list_all2 (bucket_ok s) (take k (drop i (BB s b))) cs \<and> n' = n + of_nat (sum_list (map length cs)))"
  using k
proof (induction k arbitrary: i n)
  case (Suc k)
  define B where "B = BB s b ! i"
  have i: "unat (of_nat i :: u32) = i" using Suc.prems(2) by (simp add: unat_of_nat take_bit_nat_eq_self)
  have d: "take (Suc k) (drop i (BB s b)) = B # take k (drop (Suc i) (BB s b))"
    using Suc.prems(1) by (simp add: B_def flip: Cons_nth_drop_Suc)
  have fb: "fsck_bucket (fuel s) (hh_head B) NULL 0 s = Inr m \<longleftrightarrow>
      (\<exists>c. chain_ok s (HN s) (HP s) (hh_head B) c \<and> m = of_nat (length c))" for m
    by (auto simp: fsck_bucket_iff chain_ok_iff [OF ok])
  have "fsck_buckets (Suc k) i head n s =
      rbind (fsck_bucket (fuel s) (hh_head B) NULL 0 s) (\<lambda>m.
      if bcount B \<noteq> m then Inl (Exit (-1)) else fsck_buckets k (Suc i) head (n + m) s)"
    using h Suc.prems(1) by (simp add: view_run view_simps i B_def)
  also have "\<dots> = Inr n' \<longleftrightarrow> (\<exists>c. bucket_ok s B c \<and> fsck_buckets k (Suc i) head (n + of_nat (length c)) s = Inr n')"
    by (auto simp: rbind_eq_Inr fb bucket_ok_def)
  also have "\<dots> \<longleftrightarrow> (\<exists>c cs. bucket_ok s B c \<and> list_all2 (bucket_ok s) (take k (drop (Suc i) (BB s b))) cs \<and>
      n' = n + of_nat (sum_list (map length (c # cs))))"
    using Suc.IH [of "Suc i"] Suc.prems by (auto simp: algebra_simps)
  also have "\<dots> \<longleftrightarrow> (\<exists>cs. list_all2 (bucket_ok s) (take (Suc k) (drop i (BB s b))) cs \<and> n' = n + of_nat (sum_list (map length cs)))"
    unfolding d list_all2_Cons1 by blast
  finally show ?case .
qed auto

text \<open>
  What the check establishes: the list of all elements and every bucket are doubly linked and end, each
  bucket counts its elements, and both the list and the buckets hold \<open>num_items\<close> elements (modulo \<open>2 ^ 32\<close>).
\<close>

definition fsck_ok :: "('a elem_scheme, 'b) ut_mem_scheme \<Rightarrow> addr \<Rightarrow> UT_hash_table \<Rightarrow> bool" where
  "fsck_ok s head T \<longleftrightarrow> (\<exists>xs cs. chain_ok s (NX s) (PV s) head xs \<and> num_items T = of_nat (length xs) \<and>
     list_all2 (bucket_ok s) (take (unat (num_buckets T)) (BB s (buckets T))) cs \<and>
     num_items T = of_nat (sum_list (map length cs)))"

lemma HASH_FSCK_iff:
  assumes ok: "ut_mem_ok s" and h: "live (elems s) head" "TB s head = t" "live (tbls s) t" "live (bkts s) (buckets (TT s t))"
    and n: "unat (num_buckets (TT s t)) \<le> length (BB s (buckets (TT s t)))"
  shows "HASH_FSCK head s = Inr () \<longleftrightarrow> fsck_ok s head (TT s t)"
proof -
  have nn: "head \<noteq> NULL" using h(1) by (auto simp: live_def)
  have "0 + unat (num_buckets (TT s t)) < 2 ^ 32" using unsigned_less [of "num_buckets (TT s t)"] by simp
  note b = fsck_buckets_iff [OF ok h(1,2,3) refl h(4) _ this, simplified, OF n]
  have "HASH_FSCK head s = Inr () \<longleftrightarrow>
      fsck_buckets (unat (num_buckets (TT s t))) 0 head 0 s = Inr (num_items (TT s t)) \<and>
      fsck_list (fuel s) head NULL 0 s = Inr (num_items (TT s t))"
    using nn h by (auto simp: HASH_FSCK_def view_run view_simps rbind_eq_Inr)
  then show ?thesis by (auto simp: b fsck_list_iff chain_ok_iff [OF ok] fsck_ok_def)
qed

lemma buckets_sum:
  assumes "bkts_ok hn hp hv B n (set xs) cs" "distinct xs" "0 < n"
  shows "sum_list (map (\<lambda>i. length (cs i)) [0..<n]) = length xs"
proof -
  have c: "set (cs i) = {x \<in> set xs. unat (hv x) mod n = i}" "distinct (cs i)" if "i < n" for i
    using assms(1) that by (auto simp: bkts_ok_def dest: dll_distinct)
  have "sum_list (map (\<lambda>i. length (cs i)) [0..<n]) = (\<Sum>i < n. card (set (cs i)))"
    using c(2) by (simp add: sum_list_distinct_conv_sum_set distinct_card lessThan_atLeast0)
  also have "\<dots> = card (\<Union>i < n. set (cs i))" using c(1) by (intro card_UN_disjoint [symmetric]) auto
  also have "(\<Union>i < n. set (cs i)) = set xs" using c(1) assms(3) by auto
  finally show ?thesis using assms(2) by (simp add: distinct_card)
qed

text \<open>Every table in good order passes.\<close>

lemma HASH_FSCK_inv:
  assumes inv: "ut_inv s head xs"
  shows "HASH_FSCK head s = Inr ()"
proof (cases "xs = []")
  case True
  with inv show ?thesis by (simp add: HASH_FSCK_def)
next
  case False
  with inv obtain t L cs where tab: "table_ok s head xs t L cs" and ok: "ut_mem_ok s" by (auto simp: ut_inv_def)
  define T where "T = TT s t"
  have head: "head \<in> set xs" using False ut_inv_head [OF inv] by (cases xs) auto
  from tab have mem: "\<And>x. x \<in> set xs \<Longrightarrow> member_ok s t x" and L: "L < 32" and nb: "num_buckets T = 2 ^ L" and ni: "num_items T = of_nat (length xs)"
    and lt: "live (tbls s) t" and lb: "live (bkts s) (buckets T)" and dl: "dll (NX s) (PV s) head xs (tail T)"
    and bk: "bkts_ok (HN s) (HP s) (HV s) (BB s (buckets T)) (2 ^ L) (set xs) cs"
    by (auto simp: table_ok_def T_def)
  have len: "unat (num_buckets T) = length (BB s (buckets T))" using bk L nb by (simp add: bkts_ok_def unat_pow2)
  have h: "live (elems s) head" "TB s head = t" using mem [OF head] by (simp_all add: member_ok_def)
  have "chain_ok s (NX s) (PV s) head xs" using dl mem by (auto simp: chain_ok_def member_ok_def)
  moreover have "list_all2 (bucket_ok s) (BB s (buckets T)) (map cs [0..<2 ^ L])"
    using bk mem by (auto simp: list_all2_conv_all_nth bkts_ok_def bucket_ok_def chain_ok_def member_ok_def)
  moreover have "sum_list (map length (map cs [0..<2 ^ L])) = length xs"
    using buckets_sum [OF bk ut_inv_distinct [OF inv]] by (simp add: comp_def)
  ultimately have "fsck_ok s head T" using ni len
    unfolding fsck_ok_def by (intro exI [of _ xs] exI [of _ "map cs [0..<2 ^ L]"]) (simp del: map_map)
  then show ?thesis using HASH_FSCK_iff [OF ok h lt lb [unfolded T_def]] len by (simp add: T_def)
qed

text \<open>Dropping a table leaves the elements to their owner.\<close>

lemma HASH_CLEAR_ok:
  assumes inv: "ut_inv s head xs"
  shows "\<exists>s'. HASH_CLEAR head s = Inr (NULL, s') \<and> ut_inv s' NULL [] \<and> elems s' = elems s \<and> oom s' = oom s"
proof (cases "xs = []")
  case True
  with inv show ?thesis by (simp add: HASH_CLEAR_def)
next
  case False
  with inv obtain t L cs where tab: "table_ok s head xs t L cs" and ok: "ut_mem_ok s" by (auto simp: ut_inv_def)
  have head: "head \<in> set xs" using False ut_inv_head [OF inv] by (cases xs) auto
  then have h: "live (elems s) head" "TB s head = t" "live (tbls s) t" "live (bkts s) (buckets (TT s t))"
    using tab by (auto simp: table_ok_def member_ok_def)
  then have "head \<noteq> NULL" by (auto simp: live_def)
  with h have "HASH_CLEAR head s = Inr (NULL, del_tbl t (del_bkts (buckets (TT s t)) s))"
    by (simp add: HASH_CLEAR_def view_run view_simps dealloc_bkts_live dealloc_tbls_live del_fold Let_def) (simp add: del_tbl_def del_bkts_def)
  moreover have "ut_mem_ok (del_tbl t (del_bkts (buckets (TT s t)) s))" using ok by (simp add: ut_mem_ok_alloc)
  ultimately show ?thesis by (simp add: del_tbl_def del_bkts_def)
qed

end
