(* ===== verification/Merge_Sort.thy ===== *)
theory Merge_Sort
  imports Main "HOL-Library.Multiset"
begin

text \<open>
  The bottom-up merge sort that \<open>HASH_SRT\<close> performs, on lists: passes over the list merge neighbouring
  runs of \<open>n\<close> elements into runs of \<open>2 * n\<close>, for \<open>n = 1, 2, 4, \<dots>\<close>, until one merge is the whole list.
  \<open>c x y \<le> 0\<close> says that \<open>x\<close> may stand before \<open>y\<close>, as for \<open>qsort\<close>. The sort permutes, sorts, and is stable.
\<close>

fun merge_runs :: "('a \<Rightarrow> 'a \<Rightarrow> int) \<Rightarrow> 'a list \<Rightarrow> 'a list \<Rightarrow> 'a list" where
  "merge_runs c [] ys = ys"
| "merge_runs c xs [] = xs"
| "merge_runs c (x # xs) (y # ys) =
     (if c x y \<le> 0 then x # merge_runs c xs (y # ys) else y # merge_runs c (x # xs) ys)"

function merge_pass :: "('a \<Rightarrow> 'a \<Rightarrow> int) \<Rightarrow> nat \<Rightarrow> 'a list \<Rightarrow> 'a list" where
  "merge_pass c n xs =
     (if xs = [] \<or> n = 0 then xs
      else merge_runs c (take n xs) (take n (drop n xs)) @ merge_pass c n (drop n (drop n xs)))"
  by pat_completeness auto
termination
  by (relation "measure (\<lambda>(c, n, xs). length xs)") (auto simp: length_greater_0_conv [symmetric] simp del: length_greater_0_conv)

function merge_sort :: "('a \<Rightarrow> 'a \<Rightarrow> int) \<Rightarrow> nat \<Rightarrow> 'a list \<Rightarrow> 'a list" where
  "merge_sort c n xs =
     (if length xs \<le> 2 * n \<or> n = 0 then merge_pass c n xs else merge_sort c (2 * n) (merge_pass c n xs))"
  by pat_completeness auto

declare merge_pass.simps [simp del]

lemma merge_pass_Nil [simp]: "merge_pass c n [] = []"
  by (subst merge_pass.simps) simp

lemma merge_pass_step:
  "xs \<noteq> [] \<Longrightarrow> n \<noteq> 0 \<Longrightarrow>
    merge_pass c n xs = merge_runs c (take n xs) (take n (drop n xs)) @ merge_pass c n (drop n (drop n xs))"
  by (subst merge_pass.simps) simp

lemma mset_merge_runs [simp]: "mset (merge_runs c xs ys) = mset xs + mset ys"
  by (induction c xs ys rule: merge_runs.induct) auto

lemma length_merge_runs [simp]: "length (merge_runs c xs ys) = length xs + length ys"
  by (induction c xs ys rule: merge_runs.induct) auto

lemma set_merge_runs [simp]: "set (merge_runs c xs ys) = set xs \<union> set ys"
  by (induction c xs ys rule: merge_runs.induct) auto

lemma mset_merge_pass [simp]: "mset (merge_pass c n xs) = mset xs"
proof (induction c n xs rule: merge_pass.induct)
  case (1 c n xs)
  have "mset (take n xs) + (mset (take n (drop n xs)) + mset (drop n (drop n xs))) = mset xs"
    by (metis append_take_drop_id mset_append)
  with 1 show ?case by (cases "xs = [] \<or> n = 0") (auto simp: merge_pass.simps [of c 0] merge_pass_step add.assoc simp del: drop_drop)
qed

lemma length_merge_pass [simp]: "length (merge_pass c n xs) = length xs"
  using mset_eq_length [OF mset_merge_pass] .

termination merge_sort
  by (relation "measure (\<lambda>(c, n, xs). length xs - n)") auto

declare merge_sort.simps [simp del]

lemma merge_sort_last: "length xs \<le> 2 * n \<Longrightarrow> merge_sort c n xs = merge_pass c n xs"
  by (subst merge_sort.simps) simp

lemma merge_sort_step: "2 * n < length xs \<Longrightarrow> n \<noteq> 0 \<Longrightarrow> merge_sort c n xs = merge_sort c (2 * n) (merge_pass c n xs)"
  by (subst merge_sort.simps) simp

lemma mset_merge_sort: "n \<noteq> 0 \<Longrightarrow> mset (merge_sort c n xs) = mset xs"
proof (induction c n xs rule: merge_sort.induct)
  case (1 c n xs)
  show ?case
  proof (cases "length xs \<le> 2 * n")
    case True
    then show ?thesis by (simp add: merge_sort_last)
  next
    case False
    then have "mset (merge_sort c (2 * n) (merge_pass c n xs)) = mset xs" using 1 by simp
    with False 1(2) show ?thesis by (simp add: merge_sort_step)
  qed
qed

section \<open>Sortedness\<close>

text \<open>A comparison that is total and transitive on a set.\<close>

definition preorder_on_set :: "('a \<Rightarrow> 'a \<Rightarrow> int) \<Rightarrow> 'a set \<Rightarrow> bool" where
  "preorder_on_set c A \<longleftrightarrow> (\<forall>x \<in> A. \<forall>y \<in> A. c x y \<le> 0 \<or> c y x \<le> 0) \<and>
     (\<forall>x \<in> A. \<forall>y \<in> A. \<forall>z \<in> A. c x y \<le> 0 \<longrightarrow> c y z \<le> 0 \<longrightarrow> c x z \<le> 0)"

lemma preorder_on_set_mono: "preorder_on_set c A \<Longrightarrow> B \<subseteq> A \<Longrightarrow> preorder_on_set c B"
  unfolding preorder_on_set_def by blast

abbreviation run :: "('a \<Rightarrow> 'a \<Rightarrow> int) \<Rightarrow> 'a list \<Rightarrow> bool" where
  "run c \<equiv> sorted_wrt (\<lambda>x y. c x y \<le> 0)"

lemma preorder_total: "preorder_on_set c A \<Longrightarrow> x \<in> A \<Longrightarrow> y \<in> A \<Longrightarrow> \<not> c x y \<le> 0 \<Longrightarrow> c y x \<le> 0"
  unfolding preorder_on_set_def by blast

lemma preorder_trans:
  "preorder_on_set c A \<Longrightarrow> x \<in> A \<Longrightarrow> y \<in> A \<Longrightarrow> z \<in> A \<Longrightarrow> c x y \<le> 0 \<Longrightarrow> c y z \<le> 0 \<Longrightarrow> c x z \<le> 0"
  unfolding preorder_on_set_def by blast

lemma merge_runs_sorted:
  assumes "preorder_on_set c A" "set xs \<subseteq> A" "set ys \<subseteq> A" "run c xs" "run c ys"
  shows "run c (merge_runs c xs ys)"
  using assms
proof (induction c xs ys rule: merge_runs.induct)
  case (3 c x xs y ys)
  note IH = 3(1,2) and P = 3(3)
  have A: "x \<in> A" "y \<in> A" "set xs \<subseteq> A" "set ys \<subseteq> A" using 3(4,5) by simp_all
  have R: "\<forall>z \<in> set xs. c x z \<le> 0" "\<forall>z \<in> set ys. c y z \<le> 0" "run c xs" "run c ys" using 3(6,7) by simp_all
  show ?case
  proof (cases "c x y \<le> 0")
    case True
    have "\<forall>z \<in> set ys. c x z \<le> 0" using preorder_trans [OF P A(1,2)] True R(2) A(4) by blast
    moreover have "run c (merge_runs c xs (y # ys))" by (rule IH(1) [OF True P A(3) 3(5) R(3) 3(7)])
    ultimately show ?thesis using True R(1) by auto
  next
    case False
    then have yx: "c y x \<le> 0" using preorder_total [OF P A(1,2)] by blast
    then have "\<forall>z \<in> set xs. c y z \<le> 0" using preorder_trans [OF P A(2,1)] R(1) A(3) by blast
    moreover have "run c (merge_runs c (x # xs) ys)" by (rule IH(2) [OF False P 3(4) A(4) 3(6) R(4)])
    ultimately show ?thesis using False yx R(2) by auto
  qed
qed auto

text \<open>All runs of \<open>n\<close> elements, from the front, are sorted.\<close>

function runs :: "('a \<Rightarrow> 'a \<Rightarrow> int) \<Rightarrow> nat \<Rightarrow> 'a list \<Rightarrow> bool" where
  "runs c n xs = (if xs = [] \<or> n = 0 then True else run c (take n xs) \<and> runs c n (drop n xs))"
  by pat_completeness auto
termination
  by (relation "measure (\<lambda>(c, n, xs). length xs)") (auto simp: length_greater_0_conv [symmetric] simp del: length_greater_0_conv)

declare runs.simps [simp del]

lemma runs_Nil [simp]: "runs c n []"
  by (subst runs.simps) simp

lemma runs_step: "n \<noteq> 0 \<Longrightarrow> runs c n xs \<longleftrightarrow> run c (take n xs) \<and> runs c n (drop n xs)"
  by (cases "xs = []") (simp, subst runs.simps, simp)

lemma runs_1: "runs c (Suc 0) xs"
proof (induction xs)
  case (Cons x xs)
  then show ?case using runs_step [of "Suc 0" c "x # xs"] by simp
qed simp

lemma merge_pass_runs:
  assumes "preorder_on_set c (set xs)" "runs c n xs" "n \<noteq> 0"
  shows "runs c (2 * n) (merge_pass c n xs)"
  using assms
proof (induction c n xs rule: merge_pass.induct)
  case (1 c n xs)
  show ?case
  proof (cases "xs = []")
    case True
    then show ?thesis by simp
  next
    case False
    let ?l = "take n xs" and ?r = "take n (drop n xs)" and ?d = "drop n (drop n xs)"
    have sub: "set ?l \<subseteq> set xs" "set ?r \<subseteq> set xs" "set ?d \<subseteq> set xs"
      using set_take_subset [of n xs] set_take_subset [of n "drop n xs"] set_drop_subset [of n xs] set_drop_subset [of n "drop n xs"]
      by blast+
    have po: "preorder_on_set c (set ?d)" using 1(2) sub(3) unfolding preorder_on_set_def by blast
    have rd: "runs c n (drop n xs)" using 1 runs_step [of n c xs] by blast
    have IH: "runs c (2 * n) (merge_pass c n ?d)"
      by (rule "1.IH") (use False 1(4) po runs_step [of n c "drop n xs"] rd in auto)
    have m: "run c (merge_runs c ?l ?r)"
      by (rule merge_runs_sorted [OF 1(2) sub(1,2)]) (use 1 rd runs_step in blast)+
    have eq: "merge_pass c n xs = merge_runs c ?l ?r @ merge_pass c n ?d"
      using False 1(4) by (rule merge_pass_step)
    have len: "length (merge_runs c ?l ?r) = min (2 * n) (length xs)" by auto
    have "take (2 * n) (merge_pass c n xs) = merge_runs c ?l ?r \<and> drop (2 * n) (merge_pass c n xs) = merge_pass c n ?d"
    proof (cases "2 * n \<le> length xs")
      case True
      then show ?thesis unfolding eq using len by simp
    next
      case f: False
      then have "merge_pass c n ?d = []" by simp
      then show ?thesis unfolding eq using len f by simp
    qed
    with m IH 1(4) show ?thesis using runs_step [of "2 * n" c "merge_pass c n xs"] by simp
  qed
qed

lemma preorder_on_set_mset: "mset xs = mset ys \<Longrightarrow> preorder_on_set c (set xs) = preorder_on_set c (set ys)"
  by (metis set_mset_mset)

theorem merge_sort_sorted:
  assumes "preorder_on_set c (set xs)" "runs c n xs" "n \<noteq> 0"
  shows "run c (merge_sort c n xs)"
  using assms
proof (induction c n xs rule: merge_sort.induct)
  case (1 c n xs)
  note r = merge_pass_runs [OF 1(2-4)]
  show ?case
  proof (cases "length xs \<le> 2 * n")
    case True
    then have "run c (merge_pass c n xs)" using r runs_step [of "2 * n" c "merge_pass c n xs"] 1(4) by simp
    with True show ?thesis by (simp add: merge_sort_last)
  next
    case False
    then have "run c (merge_sort c (2 * n) (merge_pass c n xs))"
      using 1 r preorder_on_set_mset [OF mset_merge_pass [of c n xs]] by auto
    with False 1(4) show ?thesis by (simp add: merge_sort_step)
  qed
qed

section \<open>Stability\<close>

text \<open>The elements that compare equal to \<open>k\<close>.\<close>

abbreviation same :: "('a \<Rightarrow> 'a \<Rightarrow> int) \<Rightarrow> 'a \<Rightarrow> 'a \<Rightarrow> bool" where
  "same c k x \<equiv> c k x \<le> 0 \<and> c x k \<le> 0"

lemma merge_runs_stable:
  assumes "preorder_on_set c A" "set xs \<subseteq> A" "set ys \<subseteq> A" "k \<in> A" "run c xs" "run c ys"
  shows "filter (same c k) (merge_runs c xs ys) = filter (same c k) xs @ filter (same c k) ys"
  using assms
proof (induction c xs ys rule: merge_runs.induct)
  case (3 c x xs y ys)
  note IH = 3(1,2) and P = 3(3)
  have A: "x \<in> A" "y \<in> A" "set xs \<subseteq> A" "set ys \<subseteq> A" using 3(4,5) by simp_all
  have R: "\<forall>z \<in> set xs. c x z \<le> 0" "run c xs" "run c ys" using 3(7,8) by simp_all
  show ?case
  proof (cases "c x y \<le> 0")
    case True
    have "filter (same c k) (merge_runs c xs (y # ys)) = filter (same c k) xs @ filter (same c k) (y # ys)"
      by (rule IH(1) [OF True P A(3) 3(5,6) R(2) 3(8)])
    with True show ?thesis by simp
  next
    case False
    have i: "filter (same c k) (merge_runs c (x # xs) ys) = filter (same c k) (x # xs) @ filter (same c k) ys"
      by (rule IH(2) [OF False P 3(4) A(4) 3(6,7) R(3)])
    have "filter (same c k) (x # xs) = []" if y: "same c k y"
    proof -
      have "\<not> same c k z" if z: "z \<in> set (x # xs)" for z
      proof
        assume s: "same c k z"
        have zA: "z \<in> A" using z A(1,3) by auto
        have zy: "c z y \<le> 0" using preorder_trans [OF P zA 3(6) A(2)] s y by blast
        have "z = x \<or> c x z \<le> 0" using z R(1) by auto
        then have "c x y \<le> 0" using preorder_trans [OF P A(1) zA A(2)] zy by blast
        with False show False ..
      qed
      then show ?thesis by (simp add: filter_empty_conv)
    qed
    with i False show ?thesis by auto
  qed
qed auto

lemma merge_pass_stable:
  assumes "preorder_on_set c (set xs)" "k \<in> A" "preorder_on_set c A" "set xs \<subseteq> A" "runs c n xs" "n \<noteq> 0"
  shows "filter (same c k) (merge_pass c n xs) = filter (same c k) xs"
  using assms
proof (induction c n xs rule: merge_pass.induct)
  case (1 c n xs)
  show ?case
  proof (cases "xs = []")
    case True
    then show ?thesis by simp
  next
    case False
    let ?l = "take n xs" and ?r = "take n (drop n xs)" and ?d = "drop n (drop n xs)"
    have sub: "set ?l \<subseteq> set xs" "set ?r \<subseteq> set xs" "set ?d \<subseteq> set xs"
      using set_take_subset [of n xs] set_take_subset [of n "drop n xs"] set_drop_subset [of n xs] set_drop_subset [of n "drop n xs"]
      by blast+
    have po: "preorder_on_set c (set ?d)" using 1(2) sub(3) unfolding preorder_on_set_def by blast
    have rd: "runs c n (drop n xs)" using 1 runs_step [of n c xs] by blast
    have IH: "filter (same c k) (merge_pass c n ?d) = filter (same c k) ?d"
      by (rule "1.IH") (use False 1(3-7) po runs_step [OF 1(7), of c "drop n xs"] rd sub in auto)
    have rl: "run c ?l" "run c ?r" using conjunct1 [OF iffD1 [OF runs_step [OF 1(7)] 1(6)]] conjunct1 [OF iffD1 [OF runs_step [OF 1(7)] rd]] .
    have "filter (same c k) (merge_runs c ?l ?r) = filter (same c k) ?l @ filter (same c k) ?r"
      by (rule merge_runs_stable [OF 1(4) subset_trans [OF sub(1) 1(5)] subset_trans [OF sub(2) 1(5)] 1(3) rl])
    moreover have "filter (same c k) xs = filter (same c k) ?l @ filter (same c k) ?r @ filter (same c k) ?d"
      by (simp only: filter_append [symmetric] append_take_drop_id)
    ultimately show ?thesis unfolding merge_pass_step [OF False 1(7)] filter_append IH by (simp only: append_assoc)
  qed
qed

theorem merge_sort_stable:
  assumes "preorder_on_set c A" "k \<in> A" "set xs \<subseteq> A" "runs c n xs" "n \<noteq> 0"
  shows "filter (same c k) (merge_sort c n xs) = filter (same c k) xs"
  using assms
proof (induction c n xs rule: merge_sort.induct)
  case (1 c n xs)
  have po: "preorder_on_set c (set xs)" using 1 unfolding preorder_on_set_def by blast
  note p = merge_pass_stable [OF po 1(3,2,4,5,6)]
  have s: "set (merge_pass c n xs) = set xs" by (metis mset_merge_pass set_mset_mset)
  show ?case
  proof (cases "length xs \<le> 2 * n")
    case True
    with p show ?thesis by (simp add: merge_sort_last)
  next
    case False
    then have "filter (same c k) (merge_sort c (2 * n) (merge_pass c n xs)) = filter (same c k) (merge_pass c n xs)"
      using 1 merge_pass_runs [OF po 1(5,6)] s by simp
    with False 1(6) p show ?thesis by (simp add: merge_sort_step)
  qed
qed

end
