(* ===== verification/Uthash_Sort.thy ===== *)
theory Uthash_Sort
  imports Uthash_Index Merge_Sort
begin

text \<open>
  \<open>HASH_SRT\<close>, the bottom-up merge sort on the list of all elements of a table. It relinks \<open>next\<close> and
  \<open>prev\<close> of the elements and leaves the buckets alone. Its correctness is that the pointers do what
  \<open>merge_sort\<close> of \<open>Merge_Sort\<close> does to the list: the new order is sorted and stable, and the table still
  finds every element under its key.
\<close>

section \<open>The macro\<close>

text \<open>The loop that counts the first run and finds the second.\<close>

fun srt_seek :: "nat \<Rightarrow> addr \<Rightarrow> u32 \<Rightarrow> ('a elem_scheme, 'b) ut_mem_scheme \<Rightarrow> (addr \<times> u32) res" where
  "srt_seek 0 q psize s = Inr (q, psize)"
| "srt_seek (Suc k) q psize s =
     rbind (get_hh q s) (\<lambda>h.
     if nxt h = NULL then Inr (NULL, psize + 1) else srt_seek k (nxt h) (psize + 1) s)"

text \<open>The element taken next, and the two runs after it.\<close>

definition srt_pick :: "('a elem_scheme \<Rightarrow> 'a elem_scheme \<Rightarrow> int) \<Rightarrow> addr \<Rightarrow> addr \<Rightarrow> u32 \<Rightarrow> u32 \<Rightarrow>
    ('a elem_scheme, 'b) ut_mem_scheme \<Rightarrow> (addr \<times> addr \<times> addr \<times> u32 \<times> u32) res" where
  "srt_pick cmp p q psize qsize s =
     (if psize = 0 then
        rbind (get_hh q s) (\<lambda>h. Inr (q, p, nxt h, psize, qsize - 1))
      else if qsize = 0 \<or> q = NULL then
        rbind (if p \<noteq> NULL then rbind (get_hh p s) (\<lambda>h. Inr (nxt h)) else Inr p) (\<lambda>p'. Inr (p, p', q, psize - 1, qsize))
      else
        rbind (load (elems s) p) (\<lambda>x.
        rbind (load (elems s) q) (\<lambda>y.
        if cmp x y \<le> 0
        then rbind (if p \<noteq> NULL then rbind (get_hh p s) (\<lambda>h. Inr (nxt h)) else Inr p) (\<lambda>p'. Inr (p, p', q, psize - 1, qsize))
        else rbind (get_hh q s) (\<lambda>h. Inr (q, p, nxt h, psize, qsize - 1)))))"

text \<open>Appending the element \<open>e\<close> to the list made so far.\<close>

definition srt_append :: "addr \<Rightarrow> addr \<Rightarrow> addr \<Rightarrow> ('a elem_scheme, 'b) ut_mem_scheme \<Rightarrow>
    (addr \<times> ('a elem_scheme, 'b) ut_mem_scheme) res" where
  "srt_append e lst tlp s =
     rbind (if tlp \<noteq> NULL then rbind (upd_hh tlp (\<lambda>h. h\<lparr>nxt := e\<rparr>) s) (\<lambda>s. Inr (lst, s)) else Inr (e, s)) (\<lambda>(lst, s).
     rbind (if e \<noteq> NULL then upd_hh e (\<lambda>h. h\<lparr>prv := tlp\<rparr>) s else Inr s) (\<lambda>s. Inr (lst, s)))"

fun srt_merge :: "nat \<Rightarrow> ('a elem_scheme \<Rightarrow> 'a elem_scheme \<Rightarrow> int) \<Rightarrow> addr \<Rightarrow> addr \<Rightarrow> u32 \<Rightarrow> u32 \<Rightarrow> addr \<Rightarrow> addr \<Rightarrow>
    ('a elem_scheme, 'b) ut_mem_scheme \<Rightarrow> (addr \<times> addr \<times> addr \<times> ('a elem_scheme, 'b) ut_mem_scheme) res" where
  "srt_merge 0 cmp p q psize qsize lst tlp s = Inl Diverge"
| "srt_merge (Suc n) cmp p q psize qsize lst tlp s =
     (if psize \<noteq> 0 \<or> qsize \<noteq> 0 \<and> q \<noteq> NULL then
        rbind (srt_pick cmp p q psize qsize s) (\<lambda>(e, p, q, psize, qsize).
        rbind (srt_append e lst tlp s) (\<lambda>(lst, s).
        srt_merge n cmp p q psize qsize lst e s))
      else Inr (q, lst, tlp, s))"

text \<open>One pass: the number of merges, the list and its last element.\<close>

fun srt_pass :: "nat \<Rightarrow> ('a elem_scheme \<Rightarrow> 'a elem_scheme \<Rightarrow> int) \<Rightarrow> u32 \<Rightarrow> addr \<Rightarrow> u32 \<Rightarrow> addr \<Rightarrow> addr \<Rightarrow>
    ('a elem_scheme, 'b) ut_mem_scheme \<Rightarrow> (u32 \<times> addr \<times> addr \<times> ('a elem_scheme, 'b) ut_mem_scheme) res" where
  "srt_pass 0 cmp insize p nmerges lst tlp s = Inl Diverge"
| "srt_pass (Suc n) cmp insize p nmerges lst tlp s =
     (if p = NULL then Inr (nmerges, lst, tlp, s)
      else
        rbind (srt_seek (unat insize) p 0 s) (\<lambda>(q, psize).
        rbind (srt_merge (fuel s) cmp p q psize insize lst tlp s) (\<lambda>(q, lst, tlp, s).
        srt_pass n cmp insize q (nmerges + 1) lst tlp s)))"

fun srt_loop :: "nat \<Rightarrow> ('a elem_scheme \<Rightarrow> 'a elem_scheme \<Rightarrow> int) \<Rightarrow> addr \<Rightarrow> u32 \<Rightarrow> addr \<Rightarrow>
    ('a elem_scheme, 'b) ut_mem_scheme \<Rightarrow> (addr \<times> ('a elem_scheme, 'b) ut_mem_scheme) res" where
  "srt_loop 0 cmp head insize lst s = Inl Diverge"
| "srt_loop (Suc n) cmp head insize lst s =
     rbind (srt_pass (fuel s) cmp insize lst 0 NULL NULL s) (\<lambda>(nmerges, lst, tlp, s).
     rbind (if tlp \<noteq> NULL then upd_hh tlp (\<lambda>h. h\<lparr>nxt := NULL\<rparr>) s else Inr s) (\<lambda>s.
     if nmerges \<le> 1 then
       rbind (get_hh head s) (\<lambda>h.
       rbind (upd_tbl (tbl h) (\<lambda>T. T\<lparr>tail := tlp\<rparr>) s) (\<lambda>s. Inr (lst, s)))
     else srt_loop n cmp head (insize * 2) lst s))"

definition HASH_SRT :: "('a elem_scheme \<Rightarrow> 'a elem_scheme \<Rightarrow> int) \<Rightarrow> addr \<Rightarrow> ('a elem_scheme, 'b) ut_mem_scheme \<Rightarrow>
    (addr \<times> ('a elem_scheme, 'b) ut_mem_scheme) res" where
  "HASH_SRT cmp head s = (if head = NULL then Inr (head, s) else srt_loop (fuel s) cmp head 1 head s)"

section \<open>What changes\<close>

text \<open>The comparison function looks at the elements, not at their handles.\<close>

definition cmp_ok :: "('a elem_scheme \<Rightarrow> 'a elem_scheme \<Rightarrow> int) \<Rightarrow> bool" where
  "cmp_ok cmp \<longleftrightarrow> (\<forall>x y h k. cmp (x\<lparr>hh := h\<rparr>) (y\<lparr>hh := k\<rparr>) = cmp x y)"

definition CMP :: "('a elem_scheme \<Rightarrow> 'a elem_scheme \<Rightarrow> int) \<Rightarrow> ('a elem_scheme, 'b) ut_mem_scheme \<Rightarrow> addr \<Rightarrow> addr \<Rightarrow> int" where
  "CMP cmp s x y = cmp (the (cells (elems s) x)) (the (cells (elems s) y))"

definition srt_frame :: "('a elem_scheme, 'b) ut_mem_scheme \<Rightarrow> ('a elem_scheme, 'b) ut_mem_scheme \<Rightarrow> bool" where
  "srt_frame s s' \<longleftrightarrow> ut_frame s s' \<and> tbls s' = tbls s \<and> bkts s' = bkts s \<and> oom s' = oom s \<and> HN s' = HN s \<and> HP s' = HP s \<and>
     HV s' = HV s \<and> TB s' = TB s \<and> KY s' = KY s \<and> KL s' = KL s \<and> SID s' = SID s \<and> (ut_mem_ok s \<longrightarrow> ut_mem_ok s')"

lemma srt_frame_refl [simp]: "srt_frame s s"
  by (simp add: srt_frame_def)

lemma srt_frame_trans: "srt_frame s s' \<Longrightarrow> srt_frame s' s'' \<Longrightarrow> srt_frame s s''"
  by (auto simp: srt_frame_def intro: ut_frame_trans)

lemma srt_frame_live: "srt_frame s s' \<Longrightarrow> live (elems s') x = live (elems s) x"
  by (simp add: srt_frame_def ut_frame_live)

lemma srt_frame_fuel: "srt_frame s s' \<Longrightarrow> fuel s' = fuel s"
  by (simp add: srt_frame_def ut_frame_def fuel_def)

lemma srt_frame_put:
  assumes "live (elems s) p"
  shows "srt_frame s (put_hh p ((HH s p)\<lparr>nxt := v\<rparr>) s)" "srt_frame s (put_hh p ((HH s p)\<lparr>prv := v\<rparr>) s)"
  using assms ut_mem_ok_put(1) [OF assms]
  by (simp_all add: srt_frame_def view_simps fun_upd_idem) (simp_all add: put_hh_def)

lemma CMP_frame:
  assumes c: "cmp_ok cmp" and f: "ut_frame s s'" and l: "live (elems s) x" "live (elems s) y"
  shows "CMP cmp s' x y = CMP cmp s x y"
proof -
  have p: "(the (cells (elems s') z))\<lparr>hh := zero_handle\<rparr> = (the (cells (elems s) z))\<lparr>hh := zero_handle\<rparr>" if "live (elems s) z" for z
  proof -
    have "payload s' z = payload s z" using f by (simp add: ut_frame_def)
    with that show ?thesis by (auto simp: payload_def live_def)
  qed
  have e: "CMP cmp t x y = cmp ((the (cells (elems t) x))\<lparr>hh := zero_handle\<rparr>) ((the (cells (elems t) y))\<lparr>hh := zero_handle\<rparr>)" for t
    using c by (simp add: CMP_def cmp_ok_def)
  show ?thesis unfolding e using p [OF l(1)] p [OF l(2)] by simp
qed

text \<open>
  The list made so far, \<open>zs\<close> from \<open>lst\<close> to \<open>tlp\<close>: linked both ways, except that the last \<open>next\<close> still
  points where it did before.
\<close>

definition olist :: "('a elem_scheme, 'b) ut_mem_scheme \<Rightarrow> addr \<Rightarrow> addr \<Rightarrow> addr list \<Rightarrow> bool" where
  "olist s lst tlp zs \<longleftrightarrow> (if zs = [] then lst = NULL \<and> tlp = NULL
     else tlp = last zs \<and> path (NX s) lst (butlast zs) tlp \<and> path (PV s) tlp (rev zs) NULL)"

lemma olist_append:
  assumes o: "olist s lst tlp zs" and d: "e \<notin> set zs" "distinct zs" and l: "live (elems s) e" "\<forall>z \<in> set zs. live (elems s) z"
  shows "\<exists>lst' s'. srt_append e lst tlp s = Inr (lst', s') \<and> olist s' lst' e (zs @ [e]) \<and> srt_frame s s' \<and>
    (\<forall>x. x \<notin> set zs \<longrightarrow> NX s' x = NX s x)"
proof -
  have e0: "e \<noteq> NULL" using l(1) by (auto simp: live_def)
  show ?thesis
  proof (cases "zs = []")
    case True
    let ?s = "put_hh e ((HH s e)\<lparr>prv := NULL\<rparr>) s"
    have "srt_append e lst tlp s = Inr (e, ?s)" using o True e0 l(1) by (simp add: srt_append_def olist_def view_run)
    moreover have "olist ?s e e [e]" using e0 by (simp add: olist_def view_simps)
    moreover have "\<forall>x. NX ?s x = NX s x" by (simp add: view_simps)
    ultimately show ?thesis using True srt_frame_put(2) [OF l(1)] by (intro exI [of _ e] exI [of _ ?s]) simp
  next
    case False
    then have t: "tlp \<in> set zs" "tlp = last zs" using o by (simp_all add: olist_def)
    then have lt: "live (elems s) tlp" "tlp \<noteq> NULL" "tlp \<noteq> e" using l(2) d(1) by (auto simp: live_def)
    let ?s1 = "put_hh tlp ((HH s tlp)\<lparr>nxt := e\<rparr>) s"
    let ?s2 = "put_hh e ((HH ?s1 e)\<lparr>prv := tlp\<rparr>) ?s1"
    have l1: "live (elems ?s1) e" using l(1) lt by (simp add: view_simps)
    have run: "srt_append e lst tlp s = Inr (lst, ?s2)"
      using lt e0 l(1) l1 by (simp add: srt_append_def view_run)
    have f: "srt_frame s ?s2" using srt_frame_trans [OF srt_frame_put(1) [OF lt(1)] srt_frame_put(2) [OF l1]] .
    have nx: "NX ?s2 = (NX s)(tlp := e)" and pv: "PV ?s2 = (PV s)(e := tlp)"
      using lt by (auto simp: view_simps fun_eq_iff)
    have b: "zs = butlast zs @ [tlp]" using False t by simp
    have tn: "tlp \<notin> set (butlast zs)" using d(2) by (metis b distinct_append disjoint_iff list.set_intros(1))
    have p: "path (NX s) lst (butlast zs) tlp" "path (PV s) tlp (rev zs) NULL" using o False by (auto simp: olist_def)
    have "path (NX ?s2) lst (butlast zs @ [tlp]) e" using p(1) tn lt(2) by (simp add: nx)
    moreover have "path (PV ?s2) e (rev (zs @ [e])) NULL" using p(2) d(1) e0 by (simp add: pv)
    ultimately have "olist ?s2 lst e (zs @ [e])" using b by (simp add: olist_def)
    with run f nx t show ?thesis by (intro exI [of _ lst] exI [of _ ?s2]) auto
  qed
qed


section \<open>One merge\<close>

lemma path_outside: "\<forall>x. x \<notin> set zs \<longrightarrow> nx' x = nx x \<Longrightarrow> set xs \<inter> set zs = {} \<Longrightarrow> path nx' p xs q = path nx p xs q"
  by (rule path_cong) auto

text \<open>
  What holds between two elements taken: \<open>out\<close> is made, \<open>ps\<close> is left of the first run, \<open>rest\<close> is the second
  run and what follows it.
\<close>

definition minv :: "('a elem_scheme, 'b) ut_mem_scheme \<Rightarrow> ('a elem_scheme, 'b) ut_mem_scheme \<Rightarrow> addr list \<Rightarrow> addr list \<Rightarrow> addr list \<Rightarrow>
    addr \<Rightarrow> addr \<Rightarrow> u32 \<Rightarrow> addr \<Rightarrow> addr \<Rightarrow> bool" where
  "minv s0 s out ps rest p q psize lst tlp \<longleftrightarrow> srt_frame s0 s \<and> olist s lst tlp out \<and> (\<exists>r. path (NX s) p ps r) \<and>
     path (NX s) q rest NULL \<and> distinct (out @ ps @ rest) \<and> (\<forall>x \<in> set (out @ ps @ rest). live (elems s0) x) \<and> unat psize = length ps"

lemma minv_live: "minv s0 s out ps rest p q psize lst tlp \<Longrightarrow> x \<in> set (out @ ps @ rest) \<Longrightarrow> live (elems s) x"
  by (auto simp: minv_def srt_frame_live)

lemma minv_take:
  assumes m: "minv s0 s out ps rest p q psize lst tlp" and e: "e \<in> set (ps @ rest)"
  shows "\<exists>lst' s'. srt_append e lst tlp s = Inr (lst', s') \<and> srt_frame s0 s' \<and> olist s' lst' e (out @ [e]) \<and>
    (\<forall>x. x \<notin> set out \<longrightarrow> NX s' x = NX s x)"
proof -
  from m have o: "olist s lst tlp out" and d: "distinct (out @ ps @ rest)" and f: "srt_frame s0 s" by (simp_all add: minv_def)
  have ee: "e \<notin> set out" "distinct out" using d e by auto
  have l: "live (elems s) e" "\<forall>z \<in> set out. live (elems s) z" using minv_live [OF m] e by auto
  from olist_append [OF o ee l] f show ?thesis using srt_frame_trans by blast
qed

lemma minv_take_p:
  assumes m: "minv s0 s out (e # ps) rest p q psize lst tlp"
  shows "p = e \<and> e \<noteq> NULL \<and> (\<exists>lst' s'. srt_append e lst tlp s = Inr (lst', s') \<and> minv s0 s' (out @ [e]) ps rest (NX s e) q (psize - 1) lst' e)"
proof -
  obtain lst' s' where r: "srt_append e lst tlp s = Inr (lst', s')" "srt_frame s0 s'" "olist s' lst' e (out @ [e])"
      "\<forall>x. x \<notin> set out \<longrightarrow> NX s' x = NX s x"
    using minv_take [OF m, of e] by auto
  from m obtain r0 where p: "path (NX s) p (e # ps) r0" "path (NX s) q rest NULL" and d: "distinct (out @ (e # ps) @ rest)"
    and z: "unat psize = Suc (length ps)"
    by (auto simp: minv_def)
  have "path (NX s') (NX s e) ps r0 = path (NX s) (NX s e) ps r0" "path (NX s') q rest NULL = path (NX s) q rest NULL"
    by (rule path_outside [OF r(4)], use d in force)+
  moreover have "unat (psize - 1) = length ps" using z by (simp add: unat_sub word_le_nat_alt)
  ultimately have "minv s0 s' (out @ [e]) ps rest (NX s e) q (psize - 1) lst' e"
    using m p r d by (auto simp: minv_def)
  with r(1) p(1) show ?thesis by auto
qed

lemma minv_take_q:
  assumes m: "minv s0 s out ps (e # rest) p q psize lst tlp"
  shows "q = e \<and> e \<noteq> NULL \<and> (\<exists>lst' s'. srt_append e lst tlp s = Inr (lst', s') \<and> minv s0 s' (out @ [e]) ps rest p (NX s e) psize lst' e)"
proof -
  obtain lst' s' where r: "srt_append e lst tlp s = Inr (lst', s')" "srt_frame s0 s'" "olist s' lst' e (out @ [e])"
      "\<forall>x. x \<notin> set out \<longrightarrow> NX s' x = NX s x"
    using minv_take [OF m, of e] by auto
  from m obtain r0 where p: "path (NX s) p ps r0" "path (NX s) q (e # rest) NULL" and d: "distinct (out @ ps @ e # rest)"
    by (auto simp: minv_def)
  have "path (NX s') p ps r0 = path (NX s) p ps r0" "path (NX s') (NX s e) rest NULL = path (NX s) (NX s e) rest NULL"
    by (rule path_outside [OF r(4)], use d in force)+
  then have "minv s0 s' (out @ [e]) ps rest p (NX s e) psize lst' e"
    using m p r d by (auto simp: minv_def)
  with r(1) p(2) show ?thesis by auto
qed

lemma rest_null: "minv s0 s out ps rest p q psize lst tlp \<Longrightarrow> q = NULL \<longleftrightarrow> rest = []"
  by (cases rest) (auto simp: minv_def)

lemma psize_zero: "minv s0 s out ps rest p q psize lst tlp \<Longrightarrow> psize = 0 \<longleftrightarrow> ps = []"
  by (auto simp: minv_def unat_eq_0)

text \<open>Which element is taken, with the result of the comparison in the state before the sort.\<close>

lemma pick_p:
  assumes m: "minv s0 s out (e # ps) rest p q psize lst tlp"
    and c: "qsize = 0 \<or> rest = [] \<or> CMP cmp s e (hd rest) \<le> 0"
  shows "srt_pick cmp p q psize qsize s = Inr (e, NX s e, q, psize - 1, qsize)"
proof -
  have e: "p = e" "e \<noteq> NULL" using minv_take_p [OF m] by auto
  have l: "live (elems s) e" using minv_live [OF m] by simp
  have q: "rest \<noteq> [] \<Longrightarrow> q = hd rest \<and> live (elems s) q"
    using m minv_live [OF m, of q] by (cases rest) (auto simp: minv_def)
  show ?thesis
    using e l c q psize_zero [OF m] rest_null [OF m]
    by (cases "qsize = 0 \<or> rest = []") (auto simp: srt_pick_def view_run view_simps load_live CMP_def)
qed

lemma pick_q:
  assumes m: "minv s0 s out ps (e # rest) p q psize lst tlp" and z: "qsize \<noteq> 0"
    and c: "ps = [] \<or> \<not> CMP cmp s (hd ps) e \<le> 0"
  shows "srt_pick cmp p q psize qsize s = Inr (e, p, NX s e, psize, qsize - 1)"
proof -
  have e: "q = e" "e \<noteq> NULL" using minv_take_q [OF m] by auto
  have l: "live (elems s) e" using minv_live [OF m] by simp
  have p: "ps \<noteq> [] \<Longrightarrow> p = hd ps \<and> p \<noteq> NULL \<and> live (elems s) p"
    using m minv_live [OF m, of p] by (cases ps) (auto simp: minv_def)
  show ?thesis
    using e l c p z psize_zero [OF m]
    by (cases "ps = []") (auto simp: srt_pick_def view_run view_simps load_live CMP_def)
qed

lemma minv_CMP:
  assumes "minv s0 s out ps rest p q psize lst tlp" "cmp_ok cmp" "x \<in> set (out @ ps @ rest)" "y \<in> set (out @ ps @ rest)"
  shows "CMP cmp s x y = CMP cmp s0 x y"
  by (rule CMP_frame) (use assms in \<open>auto simp: minv_def srt_frame_def\<close>)

lemma take_unat_Cons: "qsize \<noteq> 0 \<Longrightarrow> take (unat qsize) (y # ys) = y # take (unat (qsize - 1)) ys \<and>
    drop (unat qsize) (y # ys) = drop (unat (qsize - 1)) ys" for qsize :: u32
proof -
  assume "qsize \<noteq> 0"
  then have "unat qsize = Suc (unat (qsize - 1))" by (metis Suc_pred' unat_gt_0 unat_minus_one)
  then show ?thesis by simp
qed


text \<open>The merge of two runs is \<open>merge_runs\<close>.\<close>

lemma srt_merge_ok:
  assumes "cmp_ok cmp" "minv s0 s out ps rest p q psize lst tlp" "length ps + length (take (unat qsize) rest) < n"
  shows "\<exists>q' lst' tlp' s'. srt_merge n cmp p q psize qsize lst tlp s = Inr (q', lst', tlp', s') \<and>
    minv s0 s' (out @ merge_runs (CMP cmp s0) ps (take (unat qsize) rest)) [] (drop (unat qsize) rest) q' q' 0 lst' tlp'"
  using assms
proof (induction n arbitrary: s out ps rest p q psize qsize lst tlp)
  case (Suc n)
  note cmp = Suc.prems(1) and m = Suc.prems(2)
  let ?c = "CMP cmp s0" and ?Q = "take (unat qsize) rest"
  note z = psize_zero [OF m] rest_null [OF m]
  consider (stop) "ps = []" "qsize = 0 \<or> rest = []"
    | (left) e ps' where "ps = e # ps'" "qsize = 0 \<or> rest = [] \<or> ?c e (hd rest) \<le> 0"
    | (right) e rest' where "rest = e # rest'" "qsize \<noteq> 0" "ps = [] \<or> \<not> ?c (hd ps) e \<le> 0"
    by (cases ps; cases rest; cases "qsize = 0") auto
  then show ?case
  proof cases
    case stop
    then have run: "srt_merge (Suc n) cmp p q psize qsize lst tlp s = Inr (q, lst, tlp, s)" using z by auto
    have Q: "?Q = []" "drop (unat qsize) rest = rest" using stop(2) by auto
    have "minv s0 s out [] rest q q 0 lst tlp" using m stop(1) by (auto simp: minv_def)
    then show ?thesis unfolding run stop(1) Q merge_runs.simps append_Nil2 by blast
  next
    case left
    have "qsize = 0 \<or> rest = [] \<or> CMP cmp s e (hd rest) \<le> 0"
      using left minv_CMP [OF m cmp, of e "hd rest"] by (cases rest) auto
    note pick = pick_p [OF m [unfolded left(1)] this]
    obtain lst' s' where a: "srt_append e lst tlp s = Inr (lst', s')"
        "minv s0 s' (out @ [e]) ps' rest (NX s e) q (psize - 1) lst' e"
      using minv_take_p [OF m [unfolded left(1)]] by auto
    have run: "srt_merge (Suc n) cmp p q psize qsize lst tlp s = srt_merge n cmp (NX s e) q (psize - 1) qsize lst' e s'"
      using pick a(1) z(1) left(1) by simp
    have mr: "merge_runs ?c ps ?Q = e # merge_runs ?c ps' ?Q"
      using left by (cases "qsize = 0 \<or> rest = []"; cases ps'; cases rest) (auto simp: take_unat_Cons)
    show ?thesis unfolding run mr using Suc.IH [OF cmp a(2), of qsize] Suc.prems(3) left(1) by simp
  next
    case right
    have "ps = [] \<or> \<not> CMP cmp s (hd ps) e \<le> 0"
      using right minv_CMP [OF m cmp, of "hd ps" e] by (cases ps) auto
    note pick = pick_q [OF m [unfolded right(1)] right(2) this]
    obtain lst' s' where a: "srt_append e lst tlp s = Inr (lst', s')"
        "minv s0 s' (out @ [e]) ps rest' p (NX s e) psize lst' e"
      using minv_take_q [OF m [unfolded right(1)]] by auto
    have run: "srt_merge (Suc n) cmp p q psize qsize lst tlp s = srt_merge n cmp p (NX s e) psize (qsize - 1) lst' e s'"
      using pick a(1) z right by simp
    have t: "?Q = e # take (unat (qsize - 1)) rest'" "drop (unat qsize) rest = drop (unat (qsize - 1)) rest'"
      unfolding right(1) using take_unat_Cons [OF right(2), of e rest'] by blast+
    have mr: "merge_runs ?c ps ?Q = e # merge_runs ?c ps (take (unat (qsize - 1)) rest')"
      using right(3) t(1) by (cases ps) auto
    show ?thesis unfolding run mr t(2) using Suc.IH [OF cmp a(2), of "qsize - 1"] Suc.prems(3) t(1) by simp
  qed
qed simp

section \<open>One pass\<close>

lemma srt_seek_ok:
  assumes "path (NX s) q xs NULL" "\<forall>x \<in> set xs. live (elems s) x" "xs \<noteq> []"
  shows "\<exists>r. srt_seek k q psize s = Inr (r, psize + of_nat (min k (length xs))) \<and> path (NX s) q (take k xs) r \<and> path (NX s) r (drop k xs) NULL"
  using assms
proof (induction k arbitrary: q xs psize)
  case (Suc k)
  then obtain ys where xs: "xs = q # ys" "q \<noteq> NULL" "path (NX s) (NX s q) ys NULL" by (cases xs) auto
  have l: "live (elems s) q" using Suc.prems(2) xs(1) by simp
  show ?case
  proof (cases "ys = []")
    case True
    then have "NX s q = NULL" using xs(3) by simp
    with True xs l show ?thesis by (auto simp: view_run view_simps)
  next
    case False
    then have n: "NX s q \<noteq> NULL" using xs(3) by (cases ys) auto
    obtain r where "srt_seek k (NX s q) (psize + 1) s = Inr (r, psize + 1 + of_nat (min k (length ys)))"
        "path (NX s) (NX s q) (take k ys) r" "path (NX s) r (drop k ys) NULL"
      using Suc.IH [OF xs(3) _ False, of "psize + 1"] Suc.prems(2) xs(1) by auto
    with n xs l show ?thesis by (auto simp: view_run view_simps add.assoc)
  qed
qed auto


lemma merge_start:
  assumes m: "minv s0 s out [] rest p p 0 lst tlp" and n: "rest \<noteq> []" "length rest < 2 ^ 32"
  shows "\<exists>q psize. srt_seek k p 0 s = Inr (q, psize) \<and> minv s0 s out (take k rest) (drop k rest) p q psize lst tlp"
proof -
  have l: "\<forall>x \<in> set rest. live (elems s) x" using minv_live [OF m] by auto
  have p: "path (NX s) p rest NULL" using m by (simp add: minv_def)
  obtain r where r: "srt_seek k p 0 s = Inr (r, of_nat (min k (length rest)))" "path (NX s) p (take k rest) r" "path (NX s) r (drop k rest) NULL"
    using srt_seek_ok [OF p l n(1), of k 0] by auto
  have "unat (of_nat (min k (length rest)) :: u32) = length (take k rest)"
    using n(2) by (simp add: unat_of_nat take_bit_nat_eq_self min.commute)
  moreover have "distinct (take k rest @ drop k rest)" using m by (simp add: minv_def)
  moreover have "set (take k rest @ drop k rest) = set rest" by simp
  ultimately have "minv s0 s out (take k rest) (drop k rest) p r (of_nat (min k (length rest))) lst tlp"
    using m r(2,3) unfolding minv_def by (auto simp del: append_take_drop_id)
  with r(1) show ?thesis by blast
qed

text \<open>A pass is \<open>merge_pass\<close>; the number of merges tells whether one was enough.\<close>

lemma srt_pass_ok:
  assumes "cmp_ok cmp" "insize \<noteq> 0" "fuel s0 = F" "minv s0 s out [] rest p p 0 lst tlp" "length rest < n" "length rest < F" "length rest < 2 ^ 32"
  shows "\<exists>m lst' tlp' s'. srt_pass n cmp insize p nm lst tlp s = Inr (nm + of_nat m, lst', tlp', s') \<and>
    minv s0 s' (out @ merge_pass (CMP cmp s0) (unat insize) rest) [] [] NULL NULL 0 lst' tlp' \<and>
    m \<le> length rest \<and> (m = 0 \<longleftrightarrow> rest = []) \<and> (m \<le> 1 \<longleftrightarrow> length rest \<le> 2 * unat insize)"
  using assms(4-)
proof (induction n arbitrary: s out rest p nm lst tlp)
  case (Suc n)
  note m = Suc.prems(1)
  let ?c = "CMP cmp s0" and ?k = "unat insize"
  show ?case
  proof (cases "rest = []")
    case True
    then have "p = NULL" using m by (simp add: minv_def)
    with True m show ?thesis by (intro exI [of _ 0] exI [of _ lst] exI [of _ tlp] exI [of _ s]) simp
  next
    case False
    then have p: "p \<noteq> NULL" using rest_null [OF m] by simp
    have k: "?k \<noteq> 0" using assms(2) by (simp add: unat_eq_0)
    let ?r = "drop ?k (drop ?k rest)"
    obtain q psize where s1: "srt_seek ?k p 0 s = Inr (q, psize)"
        "minv s0 s out (take ?k rest) (drop ?k rest) p q psize lst tlp"
      using merge_start [OF m False Suc.prems(4)] by blast
    have fs: "fuel s = F" using m srt_frame_fuel [of s0 s] assms(3) by (simp add: minv_def)
    have "length (take ?k rest) + length (take ?k (drop ?k rest)) < fuel s" using Suc.prems(3) fs by simp
    then obtain q' lst' tlp' s' where s2: "srt_merge (fuel s) cmp p q psize insize lst tlp s = Inr (q', lst', tlp', s')"
        "minv s0 s' (out @ merge_runs ?c (take ?k rest) (take ?k (drop ?k rest))) [] ?r q' q' 0 lst' tlp'"
      using srt_merge_ok [OF assms(1) s1(2), of insize "fuel s"] by blast
    have len: "length ?r < length rest" using k False by (cases rest) auto
    obtain m' lst'' tlp'' s'' where s3: "srt_pass n cmp insize q' (nm + 1) lst' tlp' s' = Inr (nm + 1 + of_nat m', lst'', tlp'', s'')"
        "minv s0 s'' ((out @ merge_runs ?c (take ?k rest) (take ?k (drop ?k rest))) @ merge_pass ?c ?k ?r) [] [] NULL NULL 0 lst'' tlp''"
        "m' \<le> length ?r" "m' = 0 \<longleftrightarrow> ?r = []"
      using Suc.IH [OF s2(2), of "nm + 1"] Suc.prems(2-4) len by auto
    have "srt_pass (Suc n) cmp insize p nm lst tlp s = Inr (nm + of_nat (Suc m'), lst'', tlp'', s'')"
      using p s1(1) s2(1) s3(1) by (simp add: add.assoc)
    moreover have "minv s0 s'' (out @ merge_pass ?c ?k rest) [] [] NULL NULL 0 lst'' tlp''"
      using s3(2) unfolding merge_pass_step [OF False k] append_assoc .
    moreover have "Suc m' \<le> length rest" "Suc m' \<le> 1 \<longleftrightarrow> length rest \<le> 2 * ?k" using s3(3,4) len by auto
    ultimately show ?thesis using False by (intro exI [of _ "Suc m'"] exI [of _ lst''] exI [of _ tlp''] exI [of _ s'']) blast
  qed
qed simp


section \<open>The sort\<close>

text \<open>After a pass the last \<open>next\<close> is cut, and the list is doubly linked again.\<close>

lemma olist_cut:
  assumes "minv s0 s zs [] [] NULL NULL 0 lst tlp" "zs \<noteq> []"
  shows "tlp = last zs \<and> tlp \<noteq> NULL \<and> live (elems s) tlp \<and>
    (let s' = put_hh tlp ((HH s tlp)\<lparr>nxt := NULL\<rparr>) s in srt_frame s0 s' \<and> dll (NX s') (PV s') lst zs tlp)"
proof -
  have t: "tlp = last zs" "path (NX s) lst (butlast zs) tlp" "path (PV s) tlp (rev zs) NULL" "distinct zs" "srt_frame s0 s"
    using assms by (auto simp: minv_def olist_def)
  have l: "live (elems s) tlp" using minv_live [OF assms(1), of tlp] assms(2) t(1) by simp
  then have nn: "tlp \<noteq> NULL" by (auto simp: live_def)
  have b: "zs = butlast zs @ [tlp]" using assms(2) t(1) by simp
  have tn: "tlp \<notin> set (butlast zs)" using t(4) by (metis b distinct_append disjoint_iff list.set_intros(1))
  have "path ((NX s)(tlp := NULL)) lst (butlast zs @ [tlp]) NULL" using t(2) tn nn by simp
  then have "dll ((NX s)(tlp := NULL)) (PV s) lst zs tlp" using t(3,4) b by (simp add: dll_def)
  moreover have "NX (put_hh tlp ((HH s tlp)\<lparr>nxt := NULL\<rparr>) s) = (NX s)(tlp := NULL)" "PV (put_hh tlp ((HH s tlp)\<lparr>nxt := NULL\<rparr>) s) = PV s"
    by (auto simp: view_simps fun_eq_iff)
  ultimately show ?thesis
    using t(1) l nn srt_frame_trans [OF t(5) srt_frame_put(1) [OF l]] by (simp add: Let_def)
qed

lemma srt_loop_ok:
  assumes cmp: "cmp_ok cmp" and head: "live (elems s0) head" "live (tbls s0) (TB s0 head)" and F: "length xs < fuel s0" "length xs < 2 ^ 32"
    and f: "srt_frame s0 s" and p: "path (NX s) lst xs NULL" "distinct xs" "xs \<noteq> []" "\<forall>x \<in> set xs. live (elems s0) x"
    and k: "unat insize \<noteq> 0" "length xs < k + unat insize" "k \<noteq> 0"
  shows "\<exists>lst' s'. srt_loop k cmp head insize lst s =
      Inr (lst', put_tbl (TB s0 head) ((TT s0 (TB s0 head))\<lparr>tail := last (merge_sort (CMP cmp s0) (unat insize) xs)\<rparr>) s') \<and> srt_frame s0 s' \<and>
    dll (NX s') (PV s') lst' (merge_sort (CMP cmp s0) (unat insize) xs) (last (merge_sort (CMP cmp s0) (unat insize) xs))"
  using f p k F
proof (induction k arbitrary: insize lst s xs)
  case (Suc k)
  note F = Suc.prems(9,10)
  let ?c = "CMP cmp s0" and ?n = "unat insize"
  let ?zs = "merge_pass ?c ?n xs"
  have fs: "fuel s = fuel s0" using srt_frame_fuel [OF Suc.prems(1)] .
  have ins: "insize \<noteq> 0" using Suc.prems(6) by auto
  have m0: "minv s0 s [] [] xs lst lst 0 NULL NULL" using Suc.prems(1-5) by (auto simp: minv_def olist_def)
  obtain m lst' tlp' s' where r: "srt_pass (fuel s) cmp insize lst 0 NULL NULL s = Inr (of_nat m, lst', tlp', s')"
      "minv s0 s' ?zs [] [] NULL NULL 0 lst' tlp'" "m \<le> length xs" "m \<le> 1 \<longleftrightarrow> length xs \<le> 2 * ?n"
    using srt_pass_ok [OF cmp ins refl m0, of "fuel s" 0] F fs by auto
  have len: "length ?zs = length xs" "set ?zs = set xs"
    using length_merge_pass mset_eq_setD [OF mset_merge_pass] .
  then have "?zs \<noteq> []" using Suc.prems(4) by (metis set_empty)
  note zs = this len
  let ?s2 = "put_hh tlp' ((HH s' tlp')\<lparr>nxt := NULL\<rparr>) s'"
  have c: "tlp' = last ?zs" "tlp' \<noteq> NULL" "live (elems s') tlp'" "srt_frame s0 ?s2" "dll (NX ?s2) (PV ?s2) lst' ?zs tlp'"
    using olist_cut [OF r(2) zs(1)] unfolding Let_def by blast+
  have nm: "(of_nat m :: u32) \<le> 1 \<longleftrightarrow> length xs \<le> 2 * ?n"
    using r(3,4) F(2) by (simp add: word_le_nat_alt unat_of_nat take_bit_nat_eq_self)
  have h2: "live (elems ?s2) head" "TB ?s2 head = TB s0 head" "live (tbls ?s2) (TB s0 head)" "TT ?s2 = TT s0"
    using head c(4) srt_frame_live [OF c(4), of head] by (simp_all add: srt_frame_def TT_def fun_eq_iff)
  show ?case
  proof (cases "length xs \<le> 2 * ?n")
    case True
    have run: "srt_loop (Suc k) cmp head insize lst s = Inr (lst', put_tbl (TB s0 head) ((TT s0 (TB s0 head))\<lparr>tail := tlp'\<rparr>) ?s2)"
      using r(1) c(2,3) nm True h2 by (simp add: upd_hh_live get_hh_live handle_views upd_tbl_live)
    show ?thesis unfolding run merge_sort_last [OF True] using c by blast
  next
    case False
    have run: "srt_loop (Suc k) cmp head insize lst s = srt_loop k cmp head (insize * 2) lst' ?s2"
      using r(1) c(2,3) nm False by (simp add: upd_hh_live)
    have dbl: "unat (insize * 2) = 2 * ?n" using False F(2) by (simp add: unat_word_ariths)
    have d: "path (NX ?s2) lst' ?zs NULL" "distinct ?zs" using c(5) by (simp_all add: dll_def)
    have k: "length ?zs < k + unat (insize * 2)" "k \<noteq> 0" using False Suc.prems(6,7) zs(2) dbl by auto
    note IH = Suc.IH [OF c(4) d zs(1) _ _ k, unfolded dbl zs(2,3), OF Suc.prems(5) _ F]
    show ?thesis unfolding run merge_sort_step [OF not_le_imp_less [OF False] Suc.prems(6)]
      by (rule IH) (use Suc.prems(6) in simp)
  qed
qed simp


text \<open>
  Sorting a table in good order leaves it in good order, with its elements in the order of \<open>merge_sort\<close>: every
  element is still found under its key, and enumeration is by the comparison function.
\<close>

lemma HASH_SRT_ok:
  assumes inv: "ut_inv s head xs" and cmp: "cmp_ok cmp"
  shows "\<exists>head' s'. HASH_SRT cmp head s = Inr (head', s') \<and> ut_inv s' head' (merge_sort (CMP cmp s) 1 xs) \<and> ut_step s s'"
proof (cases "xs = []")
  case True
  with inv have "head = NULL" "ut_mem_ok s" by simp_all
  with True show ?thesis by (simp add: HASH_SRT_def merge_sort_last ut_step_def)
next
  case False
  with inv obtain t L cs where tab: "table_ok s head xs t L cs" and ok: "ut_mem_ok s" by (auto simp: ut_inv_def)
  let ?ys = "merge_sort (CMP cmp s) 1 xs"
  have ys: "mset ?ys = mset xs" by (rule mset_merge_sort) simp
  then have set: "set ?ys = set xs" "length ?ys = length xs" by (auto dest: mset_eq_setD mset_eq_length)
  from tab have lt: "live (tbls s) t" and mem: "\<And>x. x \<in> set xs \<Longrightarrow> member_ok s t x" and dl: "dll (NX s) (PV s) head xs (tail (TT s t))"
    and L: "length xs < 2 ^ 32" and di: "distinct (map (SID s) xs)"
    by (auto simp: table_ok_def)
  have live: "\<forall>x \<in> set xs. live (elems s) x" using mem by (simp add: member_ok_def)
  have head: "head \<in> set xs" using False dll_head [OF dl] by (cases xs) auto
  then have h: "live (elems s) head" "TB s head = t" using mem by (simp_all add: member_ok_def)
  have F: "length xs < fuel s" using live_length_fuel [OF ok dll_distinct [OF dl]] live by blast
  have p: "path (NX s) head xs NULL" using dl by (simp add: dll_def)
  obtain head' s1 where r: "srt_loop (fuel s) cmp head 1 head s = Inr (head', put_tbl t ((TT s t)\<lparr>tail := last ?ys\<rparr>) s1)"
      "srt_frame s s1" "dll (NX s1) (PV s1) head' ?ys (last ?ys)"
    using srt_loop_ok [OF cmp h(1) _ F L srt_frame_refl p dll_distinct [OF dl] False live, of 1 "fuel s"] lt h(2) F by auto
  let ?s = "put_tbl t ((TT s t)\<lparr>tail := last ?ys\<rparr>) s1"
  have f: "tbls s1 = tbls s" "bkts s1 = bkts s" "HN s1 = HN s" "HP s1 = HP s" "HV s1 = HV s" "TB s1 = TB s" "KY s1 = KY s" "KL s1 = KL s"
      "oom s1 = oom s" "ut_mem_ok s1" "ut_frame s s1"
    using r(2) ok by (simp_all add: srt_frame_def)
  then have v: "TT s1 = TT s" "BB s1 = BB s" by (simp_all add: TT_def BB_def fun_eq_iff)
  have fs: "SID s1 = SID s" using r(2) by (simp add: srt_frame_def)
  have "live (elems s1) = live (elems s)" using ut_frame_live [OF f(11)] by blast
  then have "\<forall>x \<in> set ?ys. member_ok ?s t x"
    using mem set by (simp add: member_ok_def view_simps f fs)
  moreover have "distinct (map (SID s) ?ys)" using di ys by (metis mset_map mset_eq_imp_distinct_iff)
  ultimately have "table_ok ?s head' ?ys t L cs"
    using tab r(3) lt set by (simp add: table_ok_def view_simps f v fs)
  moreover have "ut_mem_ok ?s" using f(10) lt by (simp add: ut_mem_ok_put f)
  moreover have "?ys \<noteq> []" using False set(1) by (metis set_empty)
  ultimately have "ut_inv ?s head' ?ys" unfolding ut_inv_def by auto
  moreover have "ut_step s ?s" using \<open>ut_mem_ok ?s\<close> f fs by (simp add: ut_step_def view_simps)
  moreover have "HASH_SRT cmp head s = Inr (head', ?s)" using r(1) h(1) by (auto simp: HASH_SRT_def live_def)
  ultimately show ?thesis by blast
qed

end
