(* ===== verification/Uthash_Order.thy ===== *)
theory Uthash_Order
  imports Uthash_Index Uthash_Sort
begin

text \<open>
  Tables kept in the order of a comparison function: \<open>HASH_ADD_INORDER\<close> inserts before the first element that
  compares greater, \<open>HASH_REPLACE\<close> and \<open>HASH_REPLACE_INORDER\<close> first remove an element with the same key. On a
  table that \<open>HASH_SRT\<close> has sorted they keep it sorted.
\<close>

section \<open>The macros\<close>

text \<open>\<open>HASH_AKBI_INNER_LOOP\<close>: the first element from \<open>it\<close> on that compares greater than \<open>add\<close>, or null.\<close>

fun HASH_AKBI_INNER_LOOP :: "nat \<Rightarrow> ('a elem_scheme \<Rightarrow> 'a elem_scheme \<Rightarrow> int) \<Rightarrow> addr \<Rightarrow> addr \<Rightarrow>
    ('a elem_scheme, 'b) ut_mem_scheme \<Rightarrow> addr res" where
  "HASH_AKBI_INNER_LOOP 0 cmp it add s = Inl Diverge"
| "HASH_AKBI_INNER_LOOP (Suc n) cmp it add s =
     rbind (load (elems s) it) (\<lambda>x.
     rbind (load (elems s) add) (\<lambda>y.
     if cmp x y > 0 then Inr it
     else rbind (get_hh it s) (\<lambda>h.
       if nxt h \<noteq> NULL then HASH_AKBI_INNER_LOOP n cmp (nxt h) add s else Inr NULL)))"

text \<open>Linking \<open>add\<close> before \<open>it\<close>; the head may change.\<close>

definition inorder_link :: "addr \<Rightarrow> addr \<Rightarrow> addr \<Rightarrow> ('a elem_scheme, 'b) ut_mem_scheme \<Rightarrow>
    (addr \<times> ('a elem_scheme, 'b) ut_mem_scheme) res" where
  "inorder_link head it add s =
     rbind (upd_hh add (\<lambda>h. h\<lparr>nxt := it\<rparr>) s) (\<lambda>s.
     rbind (get_hh it s) (\<lambda>hi.
     rbind (upd_hh add (\<lambda>h. h\<lparr>prv := prv hi\<rparr>) s) (\<lambda>s.
     rbind (if prv hi \<noteq> NULL then rbind (upd_hh (prv hi) (\<lambda>h. h\<lparr>nxt := add\<rparr>) s) (\<lambda>s. Inr (head, s))
            else Inr (add, s)) (\<lambda>(head, s).
     rbind (upd_hh it (\<lambda>h. h\<lparr>prv := add\<rparr>) s) (\<lambda>s. Inr (head, s))))))"

definition HASH_ADD_INORDER :: "('a elem_scheme \<Rightarrow> 'a elem_scheme \<Rightarrow> int) \<Rightarrow> addr \<Rightarrow> addr \<Rightarrow> ('a elem_scheme, 'b) ut_mem_scheme \<Rightarrow>
    (addr \<times> ('a elem_scheme, 'b) ut_mem_scheme) res" where
  "HASH_ADD_INORDER cmp head add s =
     rbind (load (elems s) add) (\<lambda>e.
     let hv = HASH_JEN (id_bytes (sid e)) in
     rbind (upd_hh add (\<lambda>h. h\<lparr>hashv := hv, key := add, keylen := 4\<rparr>) s) (\<lambda>s.
     if head = NULL then
       rbind (upd_hh add (\<lambda>h. h\<lparr>nxt := NULL, prv := NULL\<rparr>) s) (\<lambda>s.
       rbind (HASH_MAKE_TABLE add s) (\<lambda>s.
       rbind (HASH_ADD_TO_TABLE add hv add s) (\<lambda>s. Inr (add, s))))
     else
       rbind (get_hh head s) (\<lambda>hd.
       rbind (upd_hh add (\<lambda>h. h\<lparr>tbl := tbl hd\<rparr>) s) (\<lambda>s.
       rbind (HASH_AKBI_INNER_LOOP (fuel s) cmp head add s) (\<lambda>it.
       rbind (if it \<noteq> NULL then inorder_link head it add s
              else rbind (HASH_APPEND_LIST head add s) (\<lambda>s. Inr (head, s))) (\<lambda>(head, s).
       rbind (HASH_ADD_TO_TABLE head hv add s) (\<lambda>s. Inr (head, s))))))))"

text \<open>
  The element replaced is the second result. The hash value, which the macros compute once and pass on,
  is the same for the lookup and the insertion: deletion leaves the key alone.
\<close>

definition HASH_REPLACE :: "addr \<Rightarrow> addr \<Rightarrow> ('a elem_scheme, 'b) ut_mem_scheme \<Rightarrow>
    (addr \<times> addr \<times> ('a elem_scheme, 'b) ut_mem_scheme) res" where
  "HASH_REPLACE head add s =
     rbind (load (elems s) add) (\<lambda>e.
     rbind (HASH_FIND head (sid e) s) (\<lambda>replaced.
     rbind (if replaced \<noteq> NULL then HASH_DELETE head replaced s else Inr (head, s)) (\<lambda>(head, s).
     rbind (HASH_ADD head add s) (\<lambda>(head, s). Inr (head, replaced, s)))))"

definition HASH_REPLACE_INORDER :: "('a elem_scheme \<Rightarrow> 'a elem_scheme \<Rightarrow> int) \<Rightarrow> addr \<Rightarrow> addr \<Rightarrow> ('a elem_scheme, 'b) ut_mem_scheme \<Rightarrow>
    (addr \<times> addr \<times> ('a elem_scheme, 'b) ut_mem_scheme) res" where
  "HASH_REPLACE_INORDER cmp head add s =
     rbind (load (elems s) add) (\<lambda>e.
     rbind (HASH_FIND head (sid e) s) (\<lambda>replaced.
     rbind (if replaced \<noteq> NULL then HASH_DELETE head replaced s else Inr (head, s)) (\<lambda>(head, s).
     rbind (HASH_ADD_INORDER cmp head add s) (\<lambda>(head, s). Inr (head, replaced, s)))))"

definition HASH_CNT :: "addr \<Rightarrow> ('a elem_scheme, 'b) ut_mem_scheme \<Rightarrow> u32 res" where
  "HASH_CNT head s =
     (if head \<noteq> NULL then rbind (get_hh head s) (\<lambda>h. rbind (get_tbl (tbl h) s) (\<lambda>T. Inr (num_items T))) else Inr 0)"

section \<open>Ordered insertion into a list\<close>

definition insert_ordered :: "('a \<Rightarrow> 'a \<Rightarrow> int) \<Rightarrow> 'a \<Rightarrow> 'a list \<Rightarrow> 'a list" where
  "insert_ordered c a xs = takeWhile (\<lambda>y. c y a \<le> 0) xs @ a # dropWhile (\<lambda>y. c y a \<le> 0) xs"

lemma insert_ordered_mset: "mset (insert_ordered c a xs) = add_mset a (mset xs)"
  by (simp add: insert_ordered_def) (metis mset_append takeWhile_dropWhile_id)

lemma insert_ordered_run:
  assumes po: "preorder_on_set c (insert a (set xs))" and r: "run c xs"
  shows "run c (insert_ordered c a xs)"
proof -
  let ?P = "\<lambda>y. c y a \<le> 0"
  have s: "run c (takeWhile ?P xs @ dropWhile ?P xs)" using r by simp
  have sub: "set (dropWhile ?P xs) \<subseteq> set xs" by (auto dest: set_dropWhileD)
  have "\<forall>z \<in> set (dropWhile ?P xs). c a z \<le> 0"
  proof (cases "dropWhile ?P xs")
    case (Cons w ws)
    then have w: "\<not> c w a \<le> 0" "w \<in> set xs" using hd_dropWhile [of ?P xs] sub by auto
    then have aw: "c a w \<le> 0" using preorder_total [OF po, of w a] by blast
    have "c w z \<le> 0" if "z \<in> set ws" for z using s that unfolding sorted_wrt_append Cons by simp
    then show ?thesis using aw preorder_trans [OF po, of a w] w(2) sub unfolding Cons by auto
  next
    case Nil
    show ?thesis unfolding Nil by simp
  qed
  then show ?thesis using s by (auto simp: insert_ordered_def sorted_wrt_append dest: set_takeWhileD simp del: takeWhile_dropWhile_id)
qed

section \<open>Linking before an element\<close>

lemma dll_insert:
  assumes d: "dll nx pv h (us @ z # vs) t" and a: "a \<noteq> NULL" "a \<notin> set (us @ z # vs)"
  shows "dll (if pv z = NULL then nx(a := z) else nx(a := z, pv z := a)) (pv(a := pv z, z := a))
      (if pv z = NULL then a else h) (us @ a # z # vs) t"
    and "pv z = (if us = [] then NULL else last us)"
proof -
  show p: "pv z = (if us = [] then NULL else last us)" by (rule dll_delete(2) [OF d])
  show "dll (if pv z = NULL then nx(a := z) else nx(a := z, pv z := a)) (pv(a := pv z, z := a))
      (if pv z = NULL then a else h) (us @ a # z # vs) t"
    using d a p dll_not_NULL [OF d] by (cases us rule: rev_cases) (auto simp: dll_def)
qed

lemma inorder_link_ok:
  assumes l: "live (elems s) add" "live (elems s) z" "PV s z = NULL \<or> live (elems s) (PV s z)" and n: "add \<noteq> z" "add \<noteq> PV s z" "PV s z \<noteq> z"
  shows "\<exists>s'. inorder_link head z add s = Inr (if PV s z = NULL then add else head, s') \<and> srt_frame s s' \<and>
    NX s' = (if PV s z = NULL then (NX s)(add := z) else (NX s)(add := z, PV s z := add)) \<and> PV s' = (PV s)(add := PV s z, z := add)"
proof -
  let ?s1 = "put_hh add ((HH s add)\<lparr>nxt := z\<rparr>) s"
  let ?s2 = "put_hh add ((HH ?s1 add)\<lparr>prv := PV s z\<rparr>) ?s1"
  let ?s3 = "if PV s z = NULL then ?s2 else put_hh (PV s z) ((HH ?s2 (PV s z))\<lparr>nxt := add\<rparr>) ?s2"
  let ?s4 = "put_hh z ((HH ?s3 z)\<lparr>prv := add\<rparr>) ?s3"
  have put: "live (elems (put_hh p h t)) = live (elems s)" if "live (elems t) = live (elems s)" "live (elems s) p"
    for p h and t :: "('a elem_scheme, 'b) ut_mem_scheme"
    using that by (simp add: view_simps)
  have l1: "live (elems ?s1) = live (elems s)" by (rule put [OF refl l(1)])
  have l2: "live (elems ?s2) = live (elems s)" by (rule put [OF l1 l(1)])
  have l3: "live (elems ?s3) = live (elems s)"
  proof (cases "PV s z = NULL")
    case True
    with l2 show ?thesis by (simp only: simp_thms if_True)
  next
    case False
    then show ?thesis using put [OF l2, of "PV s z"] l(3) by (simp only: simp_thms if_False)
  qed
  have f: "srt_frame s ?s1" "srt_frame ?s1 ?s2" "srt_frame ?s2 ?s3" "srt_frame ?s3 ?s4"
        using l l1 l2 l3 srt_frame_put [of s add] srt_frame_put [of ?s1 add] srt_frame_put [of ?s2 "PV s z"] srt_frame_put [of ?s3 z]
    by (simp_all only: if_split) auto
  have run: "inorder_link head z add s = Inr (if PV s z = NULL then add else head, ?s4)"
    using l l1 l3 n by (cases "PV s z = NULL") (simp_all add: inorder_link_def view_run view_simps)
  have "NX ?s4 = (if PV s z = NULL then (NX s)(add := z) else (NX s)(add := z, PV s z := add))" "PV ?s4 = (PV s)(add := PV s z, z := add)"
    using n by (auto simp: view_simps fun_eq_iff)
  with run srt_frame_trans [OF srt_frame_trans [OF srt_frame_trans [OF f(1,2)] f(3)] f(4)] show ?thesis by blast
qed

section \<open>Correctness of ordered insertion\<close>

lemma table_ok_put_other:
  assumes tab: "table_ok s head xs t L cs" and a: "live (elems s) a" "a \<notin> set xs"
  shows "table_ok (put_hh a h s) head xs t L cs"
proof -
  have "dll (NX (put_hh a h s)) (PV (put_hh a h s)) head xs u = dll (NX s) (PV s) head xs u" for u
    by (rule dll_cong) (use a in \<open>auto simp: view_simps\<close>)
  moreover have "bkts_ok (HN (put_hh a h s)) (HP (put_hh a h s)) (HV (put_hh a h s)) B n (set xs) cs = bkts_ok (HN s) (HP s) (HV s) B n (set xs) cs" for B n
    by (rule bkts_ok_cong) (use a in \<open>auto simp: view_simps\<close>)
  moreover have "\<forall>x \<in> set xs. member_ok (put_hh a h s) t x = member_ok s t x"
    using a by (auto simp: member_ok_def view_simps)
  ultimately show ?thesis using tab a unfolding table_ok_def by (simp add: SID_put TT_put BB_put live_put)
qed

lemma akbi_ok:
  assumes "path (NX s) it xs NULL" "xs \<noteq> []" "\<forall>x \<in> set xs. live (elems s) x" "live (elems s) add" "length xs < n"
  shows "HASH_AKBI_INNER_LOOP n cmp it add s =
    Inr (case dropWhile (\<lambda>y. CMP cmp s y add \<le> 0) xs of [] \<Rightarrow> NULL | z # _ \<Rightarrow> z)"
  using assms
proof (induction n arbitrary: it xs)
  case (Suc n)
  then obtain ys where xs: "xs = it # ys" "it \<noteq> NULL" "path (NX s) (NX s it) ys NULL" by (cases xs) auto
  have l: "live (elems s) it" using Suc.prems(3) xs(1) by simp
  have nx: "NX s it = NULL \<longleftrightarrow> ys = []" using xs(3) by (cases ys) auto
  show ?case
  proof (cases "ys = [] \<or> 0 < CMP cmp s it add")
    case True
    then show ?thesis using l Suc.prems(4) xs nx by (auto simp: load_live view_run view_simps CMP_def)
  next
    case False
    have "HASH_AKBI_INNER_LOOP n cmp (NX s it) add s = Inr (case dropWhile (\<lambda>y. CMP cmp s y add \<le> 0) ys of [] \<Rightarrow> NULL | z # _ \<Rightarrow> z)"
      by (rule Suc.IH) (use Suc.prems xs False in auto)
    then show ?thesis using False l Suc.prems(4) xs nx by (auto simp: load_live view_run view_simps CMP_def)
  qed
qed simp

lemma inorder_end:
  assumes "load (elems s) add = Inr e" "upd_hh add (\<lambda>h. h\<lparr>hashv := HASH_JEN (id_bytes (sid e)), key := add, keylen := 4\<rparr>) s = Inr s1"
    "get_hh head s1 = Inr hh0" "upd_hh add (\<lambda>h. h\<lparr>tbl := tbl hh0\<rparr>) s1 = Inr s2"
    "HASH_AKBI_INNER_LOOP (fuel s2) cmp head add s2 = Inr NULL"
  shows "HASH_ADD_INORDER cmp head add s = HASH_ADD head add s"
  unfolding HASH_ADD_INORDER_def HASH_ADD_def assms(1) rbind_Inr Let_def assms(2)
  using assms(3-5) by (simp add: rbind_assoc)

lemma HASH_ADD_INORDER_existing:
  assumes tab: "table_ok s head xs t L cs" and mem: "ut_mem_ok s" and xs: "xs \<noteq> []" and cmp: "cmp_ok cmp"
    and a: "live (elems s) add" "add \<notin> set xs" "SID s add \<notin> SID s ` set xs"
    and bnd: "length xs + 1 < 2 ^ 32" and L: "L < 31"
  shows "add_result s (HASH_ADD_INORDER cmp head add s)
           (\<lambda>(head', s'). ut_step s s' \<and> (\<exists>L' cs'. table_ok s' head' (insert_ordered (CMP cmp s) add xs) t L' cs' \<and> L' \<le> Suc L))"
proof -
  define hv where "hv = HASH_JEN (id_bytes (SID s add))"
  define s1 where "s1 = put_hh add ((HH s add)\<lparr>hashv := hv, key := add, keylen := 4\<rparr>) s"
  define s2 where "s2 = put_hh add ((HH s1 add)\<lparr>tbl := t\<rparr>) s1"
  let ?P = "\<lambda>y. CMP cmp s y add \<le> 0"
  have hd: "head \<in> set xs" using tab xs by (cases xs) (auto dest: table_ok_head)
  have lhd: "live (elems s) head" "TB s head = t" "head \<noteq> add" and lx: "\<forall>x \<in> set xs. live (elems s) x"
    using tab hd a by (auto simp: table_ok_def member_ok_def)
  have v1: "live (elems s1) = live (elems s)" and v2: "live (elems s2) = live (elems s)" "NX s2 = NX s" "PV s2 = PV s" "HN s2 = HN s" "HP s2 = HP s"
      "HV s2 = (HV s)(add := hv)" "TB s2 = (TB s)(add := t)" "KY s2 = (KY s)(add := add)" "KL s2 = (KL s)(add := 4)" "SID s2 = SID s"
      "fuel s2 = fuel s" "oom s2 = oom s" "ut_mem_ok s2" "ut_frame s s2"
    using a(1) mem by (auto simp: s2_def s1_def view_simps ut_mem_ok_put fun_eq_iff)
  have tab2: "table_ok s2 head xs t L cs"
    unfolding s2_def
    by (rule table_ok_put_other) (use table_ok_put_other [OF tab a(1,2)] v1 a in \<open>simp_all add: s1_def\<close>)
  have d2: "dll (NX s2) (PV s2) head xs (tail (TT s2 t))" using tab2 by (simp add: table_ok_def)
  have c2: "CMP cmp s2 y add = CMP cmp s y add" if "y \<in> set xs" for y
    by (rule CMP_frame [OF cmp v2(14)]) (use that lx a in auto)
  then have dw: "dropWhile (\<lambda>y. CMP cmp s2 y add \<le> 0) xs = dropWhile ?P xs" by (intro dropWhile_cong) auto
  have pre: "load (elems s) add = Inr (the (cells (elems s) add))"
      "upd_hh add (\<lambda>h. h\<lparr>hashv := HASH_JEN (id_bytes (sid (the (cells (elems s) add)))), key := add, keylen := 4\<rparr>) s = Inr s1"
      "get_hh head s1 = Inr (HH s head)" "upd_hh add (\<lambda>h. h\<lparr>tbl := tbl (HH s head)\<rparr>) s1 = Inr s2"
    using a lhd v1 by (simp_all add: load_live view_run view_simps s2_def) (simp_all add: s1_def hv_def SID_def view_simps)
  have "length xs < fuel s" using live_length_fuel [OF mem dll_distinct] tab lx by (auto simp: table_ok_def)
  then have it: "HASH_AKBI_INNER_LOOP (fuel s2) cmp head add s2 = Inr (case dropWhile ?P xs of [] \<Rightarrow> NULL | z # _ \<Rightarrow> z)"
    using akbi_ok [of s2 head xs add "fuel s2" cmp] d2 xs lx a(1) dw v2 by (simp add: dll_def)
  show ?thesis
  proof (cases "dropWhile ?P xs")
    case Nil
    have "takeWhile ?P xs = xs" using takeWhile_dropWhile_id [of ?P xs] unfolding Nil append_Nil2 .
    then have "insert_ordered (CMP cmp s) add xs = xs @ [add]" unfolding insert_ordered_def Nil by (simp only:)
    moreover have "HASH_ADD_INORDER cmp head add s = HASH_ADD head add s" by (rule inorder_end [OF pre]) (simp add: it Nil)
    ultimately show ?thesis using HASH_ADD_existing [OF tab mem xs a bnd L] by (auto simp: add_result_def split: sum.splits)
  next
    case (Cons z vs)
    define us where "us = takeWhile ?P xs"
    have xs': "xs = us @ z # vs" unfolding us_def Cons [symmetric] by simp
    have r: "insert_ordered (CMP cmp s) add xs = us @ add # (z # vs)" unfolding insert_ordered_def Cons us_def ..
    have z: "z \<in> set xs" "z \<noteq> NULL" using xs' lx by (auto simp: live_def)
    have p: "PV s2 z = (if us = [] then NULL else last us)" using dll_insert(2) [OF d2 [unfolded xs'] _ a(2) [unfolded xs']] a(1) by (auto simp: live_def)
    have pn: "PV s2 z = NULL \<or> PV s2 z \<in> set xs" "PV s2 z \<noteq> z" using p xs' dll_distinct [OF d2] z(2) by auto
    have a0: "add \<noteq> NULL" using a(1) by (auto simp: live_def)
    have lk: "live (elems s2) add" "live (elems s2) z" "PV s2 z = NULL \<or> live (elems s2) (PV s2 z)" "add \<noteq> z" "add \<noteq> PV s2 z" "PV s2 z \<noteq> z"
      using a(1,2) a0 lx z pn v2(1) by auto
    obtain s3 where s3: "inorder_link head z add s2 = Inr (if PV s2 z = NULL then add else head, s3)" "srt_frame s2 s3"
        "NX s3 = (if PV s2 z = NULL then (NX s2)(add := z) else (NX s2)(add := z, PV s2 z := add))" "PV s3 = (PV s2)(add := PV s2 z, z := add)"
      using inorder_link_ok [OF lk] by blast
    define h' where "h' = (if PV s2 z = NULL then add else head)"
    have run: "HASH_ADD_INORDER cmp head add s = rbind (HASH_ADD_TO_TABLE h' hv add s3) (\<lambda>s. Inr (h', s))"
      unfolding HASH_ADD_INORDER_def pre(1) rbind_Inr Let_def pre(2)
      using lhd pre(3,4) it Cons z(2) s3(1) [folded h'_def] by (simp add: live_def hv_def SID_def)
    have f: "tbls s3 = tbls s2" "bkts s3 = bkts s2" "HN s3 = HN s2" "HP s3 = HP s2" "HV s3 = HV s2" "TB s3 = TB s2" "KY s3 = KY s2" "KL s3 = KL s2"
        "oom s3 = oom s2" "ut_mem_ok s3" "ut_frame s2 s3" "SID s3 = SID s2" "live (elems s3) = live (elems s)"
      using s3(2) v2 by (auto simp: srt_frame_def fun_eq_iff ut_frame_live)
    then have v: "TT s3 = TT s2" "BB s3 = BB s2" by (simp_all add: TT_def BB_def fun_eq_iff)
    have "add_result s3 (HASH_ADD_TO_TABLE h' hv add s3)
           (\<lambda>s'. \<exists>L' cs'. table_ok s' h' (us @ add # (z # vs)) t L' cs' \<and> L' \<le> Suc L \<and> ut_step s3 s')"
    proof (rule HASH_ADD_TO_TABLE_at)
      show "dll (NX s3) (PV s3) h' (us @ add # (z # vs)) (tail (TT s3 t))"
        using dll_insert(1) [OF d2 [unfolded xs'] a0 a(2) [unfolded xs']] unfolding s3(3,4) v h'_def .
      show "bkts_ok (HN s3) (HP s3) (HV s3) (BB s3 (buckets (TT s3 t))) (2 ^ L) (set us \<union> set (z # vs)) cs"
        using tab2 xs' unfolding f v by (simp add: table_ok_def)
      show "\<forall>x \<in> set (us @ add # z # vs). member_ok s3 t x"
        using tab2 xs' a(1) by (auto simp: member_ok_def table_ok_def f v2 hv_def)
    qed (use tab2 xs' a bnd L f v v2 in \<open>auto simp: table_ok_def\<close>)
    moreover have "ut_step s s3" using f v2 ut_frame_trans [OF v2(14) f(11)] by (simp add: ut_step_def)
    moreover have "no_oom s3 = no_oom s" using f v2 by (simp add: no_oom_def)
    ultimately show ?thesis
      by (auto simp: run r add_result_def intro: ut_step_trans split: sum.splits)
  qed
qed

lemma insert_ordered_Nil [simp]: "insert_ordered c a [] = [a]"
  by (simp add: insert_ordered_def)

lemma insert_ordered_not_Nil [simp]: "insert_ordered c a xs \<noteq> []"
  by (simp add: insert_ordered_def)

lemma HASH_ADD_INORDER_ok:
  assumes inv: "ut_inv s head xs" and cmp: "cmp_ok cmp" and a: "live (elems s) add" "SID s add \<notin> SID s ` set xs"
    and room: "ut_room s head xs"
  shows "add_result s (HASH_ADD_INORDER cmp head add s)
           (\<lambda>(head', s'). ut_inv s' head' (insert_ordered (CMP cmp s) add xs) \<and> ut_step s s' \<and> ut_log2 s' head' \<le> Suc (ut_log2 s head))"
proof -
  have an: "add \<notin> set xs" using a(2) by auto
  have bnd: "length xs + 1 < 2 ^ 32" "ut_log2 s head < 31" using room by (simp_all add: ut_room_def)
  show ?thesis
  proof (cases "xs = []")
    case True
    then have "head = NULL" using inv by simp
    then have "HASH_ADD_INORDER cmp head add s = HASH_ADD head add s" by (simp add: HASH_ADD_INORDER_def HASH_ADD_def)
    with HASH_ADD_correct [OF inv a(1) an a(2) bnd] True show ?thesis by (simp add: split_def)
  next
    case False
    with inv obtain t L cs where tab: "table_ok s head xs t L cs" and mem: "ut_mem_ok s" by (auto simp: ut_inv_def)
    have L: "L < 31" using bnd(2) table_log2(2) [OF tab False] by simp
    from HASH_ADD_INORDER_existing [OF tab mem False cmp a(1) an a(2) bnd(1) L] table_log2(2) [OF tab False]
    show ?thesis by (auto simp: add_result_def ut_inv_def ut_step_def table_log2(2) split: sum.splits)
  qed
qed

section \<open>Replacement\<close>

text \<open>Deletion leaves room: the buckets never shrink while the table lives.\<close>

lemma HASH_DELETE_room:
  assumes inv: "ut_inv s head xs" and d: "d \<in> set xs" and room: "ut_room s head xs"
  shows "\<exists>head' s'. HASH_DELETE head d s = Inr (head', s') \<and> ut_inv s' head' (remove1 d xs) \<and> ut_step s s' \<and> ut_room s' head' (remove1 d xs)"
proof (cases "xs = [d]")
  case True
  from HASH_DELETE_last [of s head d] inv True show ?thesis by (auto simp: ut_room_def ut_log2_def)
next
  case False
  have ne: "remove1 d xs \<noteq> []" using False d by (cases xs) auto
  from d inv obtain t L cs where tab: "table_ok s head xs t L cs" and mem: "ut_mem_ok s"
    by (cases "xs = []") (auto simp: ut_inv_def)
  from table_ok_delete [OF tab mem d False] obtain head' s' cs' where r: "HASH_DELETE head d s = Inr (head', s')"
      "table_ok s' head' (remove1 d xs) t L cs'" "ut_step s s'" by blast
  have "ut_log2 s head = L" "ut_log2 s' head' = L" 
    using table_log2(2) [OF tab length_pos_if_in_set [OF d, unfolded length_greater_0_conv]] table_log2(2) [OF r(2) ne] by simp_all
  moreover have "length (remove1 d xs) \<le> length xs" using d by (simp add: length_remove1)
  ultimately show ?thesis using r room ne by (auto simp: ut_inv_def ut_step_def ut_room_def)
qed

text \<open>The elements that stay when one with the key of \<open>add\<close> is removed, and the one that is.\<close>

definition others :: "('a elem_scheme, 'b) ut_mem_scheme \<Rightarrow> addr \<Rightarrow> addr list \<Rightarrow> addr list" where
  "others s add xs = filter (\<lambda>x. SID s x \<noteq> SID s add) xs"

lemma filter_remove1: "distinct (map f xs) \<Longrightarrow> x \<in> set xs \<Longrightarrow> filter (\<lambda>y. f y \<noteq> f x) xs = remove1 x xs"
proof (induction xs)
  case (Cons z zs)
  show ?case
  proof (cases "z = x")
    case True
    then have "filter (\<lambda>y. f y \<noteq> f x) zs = zs" using Cons.prems(1) by (intro filter_True) (auto simp: image_iff)
    with True show ?thesis by simp
  next
    case False
    then have "x \<in> set zs" "f z \<noteq> f x" using Cons.prems by auto
    with False Cons show ?thesis by simp
  qed
qed simp

lemma replace_delete:
  assumes inv: "ut_inv s head xs" and a: "live (elems s) add" and room: "ut_room s head xs"
  shows "\<exists>head' s' old. HASH_FIND head (SID s add) s = Inr old \<and> old = ptr (index_map (SID s) xs (SID s add)) \<and>
    (if old \<noteq> NULL then HASH_DELETE head old s else Inr (head, s)) = Inr (head', s') \<and>
    ut_inv s' head' (others s add xs) \<and> ut_step s s' \<and> ut_room s' head' (others s add xs)"
proof (rule ut.look_cases [OF inv, of "SID s add"])
  assume f: "HASH_FIND head (SID s add) s = Inr NULL" "SID s add \<notin> SID s ` set xs"
  then have "others s add xs = xs" by (auto simp: others_def filter_id_conv image_iff)
  with f inv room ut.look_map [OF inv, of "SID s add"] show ?thesis by (auto simp: ut_step_def ut_inv_mem_ok)
next
  fix x assume f: "HASH_FIND head (SID s add) s = Inr x" "x \<in> set xs" "SID s x = SID s add" "x \<noteq> NULL"
  have "others s add xs = remove1 x xs"
    unfolding others_def f(3) [symmetric] by (rule filter_remove1 [OF ut.idents [OF inv] f(2)])
  with HASH_DELETE_room [OF inv f(2) room] f ut.look_map [OF inv, of "SID s add"] show ?thesis by auto
qed

lemma others_new: "SID s add \<notin> SID s ` set (others s add xs)"
  by (auto simp: others_def)

lemma HASH_REPLACE_ok:
  assumes inv: "ut_inv s head xs" and a: "live (elems s) add" and room: "ut_room s head xs"
  shows "add_result s (HASH_REPLACE head add s)
    (\<lambda>(head', old, s'). old = ptr (index_map (SID s) xs (SID s add)) \<and> ut_inv s' head' (others s add xs @ [add]) \<and> ut_step s s')"
proof -
  from replace_delete [OF inv a room] obtain h1 s1 old where r: "HASH_FIND head (SID s add) s = Inr old"
      "old = ptr (index_map (SID s) xs (SID s add))" "(if old \<noteq> NULL then HASH_DELETE head old s else Inr (head, s)) = Inr (h1, s1)"
      "ut_inv s1 h1 (others s add xs)" "ut_step s s1" "ut_room s1 h1 (others s add xs)" by blast
  have sid: "SID s1 = SID s" using r(5) by (simp add: ut_step_def)
  have l: "live (elems s1) add" using a ut.step_present [OF r(5)] by simp
  have run: "HASH_REPLACE head add s = rbind (HASH_ADD h1 add s1) (\<lambda>(h, s). Inr (h, old, s))"
    using r(1,3) a by (simp add: HASH_REPLACE_def load_live SID_def)
  from ut.put_new [OF r(4) l _ r(6)] others_new [of s add xs] r(2,5) ut_step_no_oom [OF r(5)] show ?thesis
    by (auto simp: run sid add_result_def intro: ut_step_trans split: sum.splits)
qed

lemma HASH_REPLACE_INORDER_ok:
  assumes inv: "ut_inv s head xs" and cmp: "cmp_ok cmp" and a: "live (elems s) add" and room: "ut_room s head xs"
  shows "add_result s (HASH_REPLACE_INORDER cmp head add s)
    (\<lambda>(head', old, s'). old = ptr (index_map (SID s) xs (SID s add)) \<and>
       ut_inv s' head' (insert_ordered (CMP cmp s) add (others s add xs)) \<and> ut_step s s')"
proof -
  from replace_delete [OF inv a room] obtain h1 s1 old where r: "HASH_FIND head (SID s add) s = Inr old"
      "old = ptr (index_map (SID s) xs (SID s add))" "(if old \<noteq> NULL then HASH_DELETE head old s else Inr (head, s)) = Inr (h1, s1)"
      "ut_inv s1 h1 (others s add xs)" "ut_step s s1" "ut_room s1 h1 (others s add xs)" by blast
  have sid: "SID s1 = SID s" and f: "ut_frame s s1" using r(5) by (simp_all add: ut_step_def)
  have l: "live (elems s1) add" using a ut.step_present [OF r(5)] by simp
  have run: "HASH_REPLACE_INORDER cmp head add s = rbind (HASH_ADD_INORDER cmp h1 add s1) (\<lambda>(h, s). Inr (h, old, s))"
    using r(1,3) a by (simp add: HASH_REPLACE_INORDER_def load_live SID_def)
  have "CMP cmp s1 y add = CMP cmp s y add" if "y \<in> set (others s add xs)" for y
    by (rule CMP_frame [OF cmp f]) (use that a ut_inv_live [OF inv] in \<open>auto simp: others_def\<close>)
  then have c: "insert_ordered (CMP cmp s1) add (others s add xs) = insert_ordered (CMP cmp s) add (others s add xs)"
    unfolding insert_ordered_def by (metis (mono_tags, lifting) dropWhile_cong takeWhile_cong)
  from HASH_ADD_INORDER_ok [OF r(4) cmp l _ r(6)] others_new [of s add xs] r(2,5) ut_step_no_oom [OF r(5)] show ?thesis
    by (auto simp: run sid c add_result_def intro: ut_step_trans split: sum.splits)
qed

lemma HASH_CNT_ok: "ut_inv s head xs \<Longrightarrow> length xs < 2 ^ 32 \<Longrightarrow> HASH_CNT head s = Inr (of_nat (length xs))"
proof (cases "xs = []")
  case False
  assume inv: "ut_inv s head xs"
  with False obtain t L cs where tab: "table_ok s head xs t L cs" by (auto simp: ut_inv_def)
  from tab False have "head \<in> set xs" by (cases xs) (auto dest: table_ok_head)
  with tab show ?thesis by (auto simp: HASH_CNT_def view_run view_simps table_ok_def member_ok_def live_def)
qed (simp add: HASH_CNT_def)

text \<open>The space a table takes, with the sizes of the structures on the platform and no Bloom filter.\<close>

definition HASH_OVERHEAD :: "addr \<Rightarrow> ('a elem_scheme, 'b) ut_mem_scheme \<Rightarrow> u64 res" where
  "HASH_OVERHEAD head s =
     (if head \<noteq> NULL then
        rbind (get_hh head s) (\<lambda>h.
        rbind (get_tbl (tbl h) s) (\<lambda>T.
        Inr (ucast (num_items T) * 56 + ucast (num_buckets T) * 16 + 64 + 0)))
      else Inr 0)"

lemma ucast_of_nat_u32: "n < 2 ^ 32 \<Longrightarrow> (ucast (of_nat n :: u32) :: u64) = of_nat n"
  by (simp add: unsigned_of_nat take_bit_nat_eq_self)

lemma HASH_OVERHEAD_ok:
  assumes inv: "ut_inv s head xs" and ne: "xs \<noteq> []"
  shows "HASH_OVERHEAD head s = Inr (of_nat (56 * length xs + 16 * 2 ^ ut_log2 s head + 64))"
proof -
  from inv ne obtain t L cs where tab: "table_ok s head xs t L cs" by (auto simp: ut_inv_def)
  then have L: "L < 32" "num_buckets (TT s t) = 2 ^ L" "num_items (TT s t) = of_nat (length xs)" "length xs < 2 ^ 32" "live (tbls s) t"
    by (simp_all add: table_ok_def)
  have "(2 :: nat) ^ L < 2 ^ 32" using L(1) by (intro power_strict_increasing) simp_all
  then have "ucast (2 ^ L :: u32) = (of_nat (2 ^ L) :: u64)" using ucast_of_nat_u32 [of "2 ^ L"] by simp
  moreover have "head \<in> set xs" using tab ne by (cases xs) (auto dest: table_ok_head)
  then have "live (elems s) head" "TB s head = t" "head \<noteq> NULL" using tab by (auto simp: table_ok_def member_ok_def live_def)
  ultimately show ?thesis
    using L ucast_of_nat_u32 [OF L(4)] table_log2(2) [OF tab ne]
    by (simp add: HASH_OVERHEAD_def view_run view_simps)
qed

end
