(* ===== verification/Uthash_Nonfatal.thy ===== *)
theory Uthash_Nonfatal
  imports Uthash_Order
begin

text \<open>
  Insertion with \<open>HASH_NONFATAL_OOM\<close>: a failed allocation is recorded, and what insertion has done so far is
  taken back. An element that could not be entered has no table afterwards (\<open>hh.tbl\<close> is null), and the
  table is as it was. The hook \<open>uthash_nonfatal_oom\<close> does nothing unless a program defines it.
\<close>

section \<open>The macros\<close>

text \<open>The flag is the macros' argument \<open>oomed\<close>. Where the one allocation of \<open>HASH_EXPAND_BUCKETS\<close> succeeds, it is as before.\<close>

definition HASH_EXPAND_BUCKETS_NF :: "addr \<Rightarrow> ('a elem_scheme, 'b) ut_mem_scheme \<Rightarrow>
    (bool \<times> ('a elem_scheme, 'b) ut_mem_scheme) res" where
  "HASH_EXPAND_BUCKETS_NF t s =
     rbind (get_tbl t s) (\<lambda>T.
     if alloc_ok (oom s) then rbind (HASH_EXPAND_BUCKETS t s) (\<lambda>s. Inr (False, s))
     else Inr (True, s\<lparr>oom := tl (oom s)\<rparr>))"

definition HASH_MAKE_TABLE_NF :: "addr \<Rightarrow> ('a elem_scheme, 'b) ut_mem_scheme \<Rightarrow>
    (bool \<times> ('a elem_scheme, 'b) ut_mem_scheme) res" where
  "HASH_MAKE_TABLE_NF head s =
     (let (t, sch, ts) = calloc zero_table (oom s) (tbls s); s = s\<lparr>oom := sch, tbls := ts\<rparr> in
      rbind (upd_hh head (\<lambda>h. h\<lparr>tbl := t\<rparr>) s) (\<lambda>s.
        if t = NULL then Inr (True, s)
        else
          rbind (upd_tbl t (\<lambda>T. T\<lparr>tail := head, num_buckets := HASH_INITIAL_NUM_BUCKETS,
                   log2_num_buckets := HASH_INITIAL_NUM_BUCKETS_LOG2\<rparr>) s) (\<lambda>s.
          let (b, sch, bs) = calloc (replicate (unat HASH_INITIAL_NUM_BUCKETS) zero_bucket) (oom s) (bkts s);
              s = s\<lparr>oom := sch, bkts := bs\<rparr> in
          rbind (upd_tbl t (\<lambda>T. T\<lparr>buckets := b, signature := HASH_SIGNATURE\<rparr>) s) (\<lambda>s.
            if b = NULL then rbind (dealloc (tbls s) t) (\<lambda>ts. Inr (True, s\<lparr>tbls := ts\<rparr>)) else Inr (False, s)))))"

definition HASH_ADD_TO_BKT_NF :: "addr \<Rightarrow> u32 \<Rightarrow> addr \<Rightarrow> ('a elem_scheme, 'b) ut_mem_scheme \<Rightarrow>
    (bool \<times> ('a elem_scheme, 'b) ut_mem_scheme) res" where
  "HASH_ADD_TO_BKT_NF b i addhh s =
     rbind (upd_bkt b i (\<lambda>B. B\<lparr>bcount := bcount B + 1\<rparr>) s) (\<lambda>s.
     rbind (get_bkt b i s) (\<lambda>B.
     rbind (upd_hh addhh (\<lambda>h. h\<lparr>hh_next := hh_head B, hh_prev := NULL\<rparr>) s) (\<lambda>s.
     rbind (if hh_head B \<noteq> NULL then upd_hh (hh_head B) (\<lambda>h. h\<lparr>hh_prev := addhh\<rparr>) s else Inr s) (\<lambda>s.
     rbind (upd_bkt b i (\<lambda>B. B\<lparr>hh_head := addhh\<rparr>) s) (\<lambda>s.
     rbind (get_hh addhh s) (\<lambda>h.
     if (expand_mult B + 1) * HASH_BKT_CAPACITY_THRESH \<le> bcount B then
       rbind (get_tbl (tbl h) s) (\<lambda>T.
         if noexpand T = 0 then
           rbind (HASH_EXPAND_BUCKETS_NF (tbl h) s) (\<lambda>(oomed, s).
             if oomed then rbind (HASH_DEL_IN_BKT b i addhh s) (\<lambda>s. Inr (True, s)) else Inr (False, s))
         else Inr (False, s))
     else Inr (False, s)))))))"

definition HASH_ROLLBACK_BKT :: "addr \<Rightarrow> addr \<Rightarrow> ('a elem_scheme, 'b) ut_mem_scheme \<Rightarrow>
    ('a elem_scheme, 'b) ut_mem_scheme res" where
  "HASH_ROLLBACK_BKT head itemhh s =
     rbind (get_hh itemhh s) (\<lambda>d.
     rbind (get_hh head s) (\<lambda>h.
     rbind (get_tbl (tbl h) s) (\<lambda>T.
     rbind (upd_bkt (buckets T) (HASH_TO_BKT (hashv d) (num_buckets T)) (\<lambda>B. B\<lparr>bcount := bcount B + 1\<rparr>) s) (\<lambda>s.
     upd_hh itemhh (\<lambda>h. h\<lparr>hh_next := NULL, hh_prev := NULL\<rparr>) s))))"

definition HASH_ADD_TO_TABLE_NF :: "addr \<Rightarrow> u32 \<Rightarrow> addr \<Rightarrow> bool \<Rightarrow> ('a elem_scheme, 'b) ut_mem_scheme \<Rightarrow>
    (addr \<times> ('a elem_scheme, 'b) ut_mem_scheme) res" where
  "HASH_ADD_TO_TABLE_NF head hashval add oomed s =
     (if \<not> oomed then
        rbind (get_hh head s) (\<lambda>h.
        rbind (upd_tbl (tbl h) (\<lambda>T. T\<lparr>num_items := num_items T + 1\<rparr>) s) (\<lambda>s.
        rbind (get_tbl (tbl h) s) (\<lambda>T.
        rbind (HASH_ADD_TO_BKT_NF (buckets T) (HASH_TO_BKT hashval (num_buckets T)) add s) (\<lambda>(oomed, s).
        if oomed then
          rbind (HASH_ROLLBACK_BKT head add s) (\<lambda>s.
          rbind (HASH_DELETE head add s) (\<lambda>(head, s).
          rbind (upd_hh add (\<lambda>h. h\<lparr>tbl := NULL\<rparr>) s) (\<lambda>s. Inr (head, s))))
        else Inr (head, s)))))
      else rbind (upd_hh add (\<lambda>h. h\<lparr>tbl := NULL\<rparr>) s) (\<lambda>s. Inr (head, s)))"

definition HASH_ADD_NF :: "addr \<Rightarrow> addr \<Rightarrow> ('a elem_scheme, 'b) ut_mem_scheme \<Rightarrow>
    (addr \<times> ('a elem_scheme, 'b) ut_mem_scheme) res" where
  "HASH_ADD_NF head add s =
     rbind (load (elems s) add) (\<lambda>e.
     let hv = HASH_JEN (id_bytes (sid e)) in
     rbind (upd_hh add (\<lambda>h. h\<lparr>hashv := hv, key := add, keylen := 4\<rparr>) s) (\<lambda>s.
     if head = NULL then
       rbind (upd_hh add (\<lambda>h. h\<lparr>nxt := NULL, prv := NULL\<rparr>) s) (\<lambda>s.
       rbind (HASH_MAKE_TABLE_NF add s) (\<lambda>(oomed, s).
       HASH_ADD_TO_TABLE_NF (if \<not> oomed then add else head) hv add oomed s))
     else
       rbind (get_hh head s) (\<lambda>hd.
       rbind (upd_hh add (\<lambda>h. h\<lparr>tbl := tbl hd\<rparr>) s) (\<lambda>s.
       rbind (HASH_APPEND_LIST head add s) (\<lambda>s.
       HASH_ADD_TO_TABLE_NF head hv add False s)))))"

section \<open>Taking an insertion back\<close>

lemma HASH_ADD_TO_BKT_NF_run:
  assumes "live (bkts s) b" "unat i < length (BB s b)" "live (elems s) add"
    "hh_head (BB s b ! unat i) = NULL \<or> live (elems s) (hh_head (BB s b ! unat i))"
    "live (tbls s) (TB s add)" "hh_head (BB s b ! unat i) \<noteq> add"
  shows "HASH_ADD_TO_BKT_NF b i add s =
      (if (expand_mult (BB s b ! unat i) + 1) * HASH_BKT_CAPACITY_THRESH \<le> bcount (BB s b ! unat i) + 1
          \<and> noexpand (TT s (TB s add)) = 0
       then rbind (HASH_EXPAND_BUCKETS_NF (TB s add) (push_bkt b (unat i) add s)) (\<lambda>(oomed, s).
             if oomed then rbind (HASH_DEL_IN_BKT b i add s) (\<lambda>s. Inr (True, s)) else Inr (False, s))
       else Inr (False, push_bkt b (unat i) add s))"
  using assms
  by (cases "hh_head (BB s b ! unat i) = NULL")
     (simp_all add: HASH_ADD_TO_BKT_NF_def push_bkt_def view_run view_simps Let_def)

text \<open>
  An element is unlinked from its bucket, and then deleted as if it were still in it. In between it is in the list and
  counted, but its own links into the bucket are null.
\<close>

definition loose :: "('a elem_scheme, 'b) ut_mem_scheme \<Rightarrow> addr \<Rightarrow> addr list \<Rightarrow> addr \<Rightarrow> addr list \<Rightarrow> addr \<Rightarrow> nat \<Rightarrow> (nat \<Rightarrow> addr list) \<Rightarrow> bool" where
  "loose s head us add vs t L cs \<longleftrightarrow> ut_mem_ok s \<and>
     live (tbls s) t \<and> live (bkts s) (buckets (TT s t)) \<and> dll (NX s) (PV s) head (us @ add # vs) (tail (TT s t)) \<and>
     (\<forall>x \<in> set (us @ add # vs). member_ok s t x) \<and> distinct (map (SID s) (us @ add # vs)) \<and>
     L < 32 \<and> num_buckets (TT s t) = 2 ^ L \<and> log2_num_buckets (TT s t) = of_nat L \<and>
     num_items (TT s t) = of_nat (length (us @ add # vs)) \<and> length (us @ add # vs) < 2 ^ 32 \<and> HN s add = NULL \<and> HP s add = NULL \<and>
     (let B = BB s (buckets (TT s t)); j = unat (HV s add) mod 2 ^ L in hh_head (B ! j) \<noteq> add \<and>
       bkts_ok (HN s) (HP s) (HV s) (B[j := (B ! j)\<lparr>bcount := bcount (B ! j) - 1\<rparr>]) (2 ^ L) (set (us @ vs)) cs)"

lemma roll_back_bkt:
  assumes tab: "table_ok s head (us @ add # vs) t L cs" and mem: "ut_mem_ok s"
    and b_def: "b = buckets (TT s t)" and i: "unat i = unat (HV s add) mod 2 ^ L"
  shows "\<exists>s1 s3 cs'. HASH_DEL_IN_BKT b i add s = Inr s1 \<and> HASH_ROLLBACK_BKT head add s1 = Inr s3 \<and>
    loose s3 head us add vs t L cs' \<and> ut_step s s3 \<and> oom s3 = oom s \<and> live (tbls s3) = live (tbls s) \<and> live (bkts s3) = live (bkts s)"
proof -
  define j where "j = unat (HV s add) mod 2 ^ L"
  define s1 where "s1 = pop_bkt b j add s"
  define s2 where "s2 = put_bkts b ((BB s1 b)[j := (BB s1 b ! j)\<lparr>bcount := bcount (BB s1 b ! j) + 1\<rparr>]) s1"
  define s3 where "s3 = put_hh add ((HH s2 add)\<lparr>hh_next := NULL, hh_prev := NULL\<rparr>) s2"
  let ?xs = "us @ add # vs" and ?cs = "cs(j := remove1 add (cs j))"
  from tab have lt: "live (tbls s) t" and lb: "live (bkts s) b" and dl: "dll (NX s) (PV s) head ?xs (tail (TT s t))"
    and mo: "\<And>x. x \<in> set ?xs \<Longrightarrow> member_ok s t x" and L: "L < 32" and nb: "num_buckets (TT s t) = 2 ^ L"
    and bk: "bkts_ok (HN s) (HP s) (HV s) (BB s b) (2 ^ L) (set ?xs) cs"
    unfolding table_ok_def b_def by blast+
  have lm: "live (elems s) x \<and> TB s x = t" if "x \<in> set ?xs" for x using mo [OF that] by (simp add: member_ok_def)
  have d: "add \<in> set ?xs" and dist: "distinct ?xs" using dll_distinct [OF dl] by simp_all
  have hd: "head \<in> set ?xs" using dll_head [OF dl] by (cases us) auto
  have j: "j < 2 ^ L" by (simp add: j_def)
  have dc: "add \<in> set (cs j)" and cx: "set (cs j) \<subseteq> set ?xs" and len: "length (BB s b) = 2 ^ L"
    using bk j d by (auto simp: bkts_ok_def j_def)
  from bk j obtain tl where dli: "dll (HN s) (HP s) (hh_head (BB s b ! j)) (cs j) tl" by (auto simp: bkts_ok_def)
  note N = dll_members [OF dli dc]
  have la: "live (elems s) add" and a0: "add \<noteq> NULL" using lm [OF d] by (auto simp: live_def)
  have hp: "HP s add = NULL \<or> live (elems s) (HP s add)" "HN s add = NULL \<or> live (elems s) (HN s add)"
    using N cx lm by blast+
  note v1 = pop_bkt_views [OF lb la N(7,6) hp, of j, folded s1_def]
  have run1: "HASH_DEL_IN_BKT b i add s = Inr s1"
    using HASH_DEL_IN_BKT_run [OF lb _ la hp, of i] len j by (simp add: i j_def [symmetric] s1_def)
  have s: "set ?xs - {add} = set (us @ vs)" using dist by auto
  have ok1: "bkts_ok (HN s1) (HP s1) (HV s) (BB s1 b) (2 ^ L) (set (us @ vs)) ?cs"
    unfolding v1 s [symmetric] by (rule bkts_ok_delete [OF bk d]) (simp_all add: j_def)
  then have len1: "length (BB s1 b) = 2 ^ L" by (simp add: bkts_ok_def)
  have v3: "NX s3 = NX s" "PV s3 = PV s" "HN s3 = (HN s1)(add := NULL)" "HP s3 = (HP s1)(add := NULL)" "HV s3 = HV s" "TB s3 = TB s"
    "KY s3 = KY s" "KL s3 = KL s" "SID s3 = SID s" "TT s3 = TT s" "live (elems s3) = live (elems s)" "live (tbls s3) = live (tbls s)"
    "live (bkts s3) = live (bkts s)" "oom s3 = oom s" "ut_frame s s3" "ut_mem_ok s3"
    "BB s3 b = (BB s1 b)[j := (BB s1 b ! j)\<lparr>bcount := bcount (BB s1 b ! j) + 1\<rparr>]"
    using la lb mem by (simp_all add: s3_def s2_def view_simps ut_mem_ok_put v1(1-14))
  have run3: "HASH_ROLLBACK_BKT head add s1 = Inr s3"
  proof -
    have "get_hh add s1 = Inr (HH s1 add)" "get_hh head s1 = Inr (HH s1 head)" "tbl (HH s1 head) = t" "get_tbl t s1 = Inr (TT s t)" "hashv (HH s1 add) = HV s add"
      using la lm [OF hd] lt v1(1-14) by (simp_all add: view_run view_simps)
    moreover have u: "unat (HASH_TO_BKT (HV s add) (2 ^ L)) = j" using L by (simp add: HASH_TO_BKT_mod j_def)
    have "upd_bkt b (HASH_TO_BKT (HV s add) (2 ^ L)) (\<lambda>B. B\<lparr>bcount := bcount B + 1\<rparr>) s1 = Inr s2"
      unfolding s2_def u [symmetric] by (rule upd_bkt_live) (use lb len1 j u v1(11) in simp_all)
    moreover have "live (elems s2) add" using la v1(9) by (simp only: s2_def live_put)
    then have "upd_hh add (\<lambda>h. h\<lparr>hh_next := NULL, hh_prev := NULL\<rparr>) s2 = Inr s3"
      unfolding s3_def by (rule upd_hh_live)
    ultimately show ?thesis unfolding HASH_ROLLBACK_BKT_def nb b_def [symmetric] by (simp only: rbind_Inr nb b_def [symmetric])
  qed
  have "hh_head (BB s1 b ! j) \<noteq> add"
  proof -
    from ok1 j obtain tl where q: "dll (HN s1) (HP s1) (hh_head (BB s1 b ! j)) (?cs j) tl" "set (?cs j) \<subseteq> set (us @ vs)"
      by (fastforce simp: bkts_ok_def)
    from dll_head [OF q(1)] q(2) a0 dist show ?thesis by (cases "?cs j") auto
  qed
  moreover have "bkts_ok (HN s3) (HP s3) (HV s3) (BB s1 b) (2 ^ L) (set (us @ vs)) ?cs"
    unfolding v3 using ok1 dist by (subst bkts_ok_cong [of _ _ "HN s1" _ "HP s1" _ "HV s"]) auto
  ultimately have "loose s3 head us add vs t L ?cs"
    using tab lb v3(3,4,16) j len1 unfolding loose_def v3(1,2,5,9-13) b_def [symmetric] v3(17) j_def [symmetric]
    by (simp add: table_ok_def member_ok_def v3)
  then show ?thesis using run1 run3 v3 by (auto simp: ut_step_def)
qed

lemma delete_loose:
  assumes lo: "loose s head us add vs t L cs" and ne: "us @ vs \<noteq> []"
  shows "\<exists>s'. HASH_DELETE head add s = Inr (if us = [] then hd vs else head, s') \<and>
    table_ok s' (if us = [] then hd vs else head) (us @ vs) t L cs \<and> ut_step s s' \<and> oom s' = oom s \<and>
    live (tbls s') = live (tbls s) \<and> live (bkts s') = live (bkts s)"
proof -
  define b j where "b = buckets (TT s t)" and "j = unat (HV s add) mod 2 ^ L"
  define s4 where "s4 = unlink t add s"
  define s5 where "s5 = pop_bkt b j add s4"
  define s6 where "s6 = put_tbl t ((TT s5 t)\<lparr>num_items := num_items (TT s5 t) - 1\<rparr>) s5"
  define head' where "head' = (if us = [] then hd vs else head)"
  let ?xs = "us @ add # vs" and ?B = "(BB s b)[j := (BB s b ! j)\<lparr>bcount := bcount (BB s b ! j) - 1\<rparr>]"
  from lo have mem: "ut_mem_ok s" and lt: "live (tbls s) t" and lb: "live (bkts s) b" and dl: "dll (NX s) (PV s) head ?xs (tail (TT s t))"
    and mo: "\<forall>x \<in> set ?xs. member_ok s t x" and L: "L < 32" and N: "HN s add = NULL" "HP s add = NULL" and nh: "hh_head (BB s b ! j) \<noteq> add"
    and bk: "bkts_ok (HN s) (HP s) (HV s) ?B (2 ^ L) (set (us @ vs)) cs"
    unfolding loose_def b_def j_def Let_def by blast+
  have lm: "live (elems s) x \<and> TB s x = t" if "x \<in> set ?xs" for x using mo that unfolding member_ok_def by blast
  have d: "add \<in> set ?xs" by simp
  note D = dll_delete [OF dl] and M = dll_members [OF dl d]
  have la: "live (elems s) add" and a0: "add \<noteq> NULL" using lm [OF d] by (auto simp: live_def)
  have len: "length (BB s b) = 2 ^ L" using bk by (simp add: bkts_ok_def)
  have "PV s add \<noteq> add" "NX s add \<noteq> add" "PV s add = NULL \<or> live (elems s) (PV s add)" "NX s add = NULL \<or> live (elems s) (NX s add)"
    using M lm by blast+
  note v4 = unlink_views [OF lt la this, folded s4_def]
  have NULLs: "HN s4 add = NULL" "HP s4 add = NULL" by (simp_all add: v4 N)
  have lus: "last us \<noteq> NULL" if "us \<noteq> []" using dll_not_NULL [OF dl] last_in_set [OF that] by (metis Un_iff set_append)
  have pre5: "live (bkts s4) b" "live (elems s4) add" "HP s4 add \<noteq> add" "HN s4 add \<noteq> add" 
    "HP s4 add = NULL \<or> live (elems s4) (HP s4 add)" "HN s4 add = NULL \<or> live (elems s4) (HN s4 add)"
    unfolding NULLs using lb la v4 a0 by simp_all
  note v5 = pop_bkt_views [OF pre5, of j, folded s5_def, unfolded NULLs simp_thms if_True]
  have "HASH_DELETE head add s = Inr (if PV s add \<noteq> NULL then head else NX s add, s6)"
    by (rule HASH_DELETE_run [OF lt dl d _ lm L _ b_def [symmetric] lb len j_def _ _ s4_def s5_def s6_def])
      (use lo ne N in \<open>auto simp: loose_def append_eq_Cons_conv\<close>)
  moreover have "(if PV s add \<noteq> NULL then head else NX s add) = head'"
    using D(2,3) ne lus by (cases "us = []") (auto simp: head'_def)
  ultimately have run6: "HASH_DELETE head add s = Inr (head', s6)" by simp
  have lt5: "live (tbls s5) t" using lt v5 v4 by simp
  have v6: "NX s6 = NX s4" "PV s6 = PV s4" "HN s6 = HN s" "HP s6 = HP s" "HV s6 = HV s" "TB s6 = TB s" "KY s6 = KY s"
    "KL s6 = KL s" "SID s6 = SID s" "BB s6 b = ?B" "live (elems s6) = live (elems s)" "live (tbls s6) = live (tbls s)"
    "live (bkts s6) = live (bkts s)" "oom s6 = oom s" "TT s6 t = (TT s4 t)\<lparr>num_items := num_items (TT s4 t) - 1\<rparr>"
    using lt5 nh by (simp_all add: s6_def view_simps v5 v4)
  have T6: "num_buckets (TT s6 t) = 2 ^ L" "buckets (TT s6 t) = b" "log2_num_buckets (TT s6 t) = of_nat L"
      "num_items (TT s6 t) = of_nat (length (us @ vs))" "tail (TT s6 t) = (if NX s add = NULL then PV s add else tail (TT s t))"
    using lo M(4) by (auto simp: v6(15) v4(17) loose_def b_def)
  have "table_ok s6 head' (us @ vs) t L cs"
  proof -
    have hh: "(if PV s add = NULL then NX s add else head) = head'"
      using D(2,3) ne lus by (cases "us = []") (auto simp: head'_def)
    have 1: "dll (NX s6) (PV s6) head' (us @ vs) (tail (TT s6 t))"
      using D(1) unfolding hh T6(5) v6(1,2) v4(15,16) .
    have 3: "\<forall>x \<in> set (us @ vs). member_ok s6 t x" using mo by (auto simp: member_ok_def v6)
    have 4: "distinct (map (SID s6) (us @ vs))" "length ?xs < 2 ^ 32" using lo by (auto simp: loose_def v6)
    show ?thesis using 1 bk 3 4 lt lb L T6 by (simp add: table_ok_def v6)
  qed
  moreover have "ut_step s s6"
  proof -
    have "ut_frame s s6" using v4(13) v5(13) by (auto simp: s6_def view_simps intro: ut_frame_trans)
    moreover have "ut_mem_ok s6" using mem v4(14) v5(14) lt5 by (simp add: s6_def ut_mem_ok_put)
    ultimately show ?thesis by (simp add: ut_step_def v6)
  qed
  ultimately show ?thesis unfolding head'_def [symmetric] using run6 v6 by blast
qed

lemma roll_back:
  assumes tab: "table_ok s head (us @ add # vs) t L cs" and mem: "ut_mem_ok s" and ne: "us @ vs \<noteq> []"
    and b_def: "b = buckets (TT s t)" and i: "unat i = unat (HV s add) mod 2 ^ L"
  shows "\<exists>s1 s3 s6 s7 cs'. HASH_DEL_IN_BKT b i add s = Inr s1 \<and> HASH_ROLLBACK_BKT head add s1 = Inr s3 \<and>
    HASH_DELETE head add s3 = Inr (if us = [] then hd vs else head, s6) \<and> upd_hh add (\<lambda>h. h\<lparr>tbl := NULL\<rparr>) s6 = Inr s7 \<and>
    table_ok s7 (if us = [] then hd vs else head) (us @ vs) t L cs' \<and> ut_step s s7 \<and> oom s7 = oom s \<and> TB s7 add = NULL \<and>
    live (tbls s7) = live (tbls s) \<and> live (bkts s7) = live (bkts s)"
proof -
  from roll_back_bkt [OF tab mem b_def i] obtain s1 s3 cs' where
    1: "HASH_DEL_IN_BKT b i add s = Inr s1" "HASH_ROLLBACK_BKT head add s1 = Inr s3" and lo: "loose s3 head us add vs t L cs'"
    and st: "ut_step s s3" "oom s3 = oom s" "live (tbls s3) = live (tbls s)" "live (bkts s3) = live (bkts s)" by blast
  from delete_loose [OF lo ne] obtain s6 where
    2: "HASH_DELETE head add s3 = Inr (if us = [] then hd vs else head, s6)" "table_ok s6 (if us = [] then hd vs else head) (us @ vs) t L cs'"
      "ut_step s3 s6" "oom s6 = oom s3" "live (tbls s6) = live (tbls s3)" "live (bkts s6) = live (bkts s3)" by blast
  have st6: "ut_step s s6" by (rule ut_step_trans [OF st(1) 2(3)])
  have a: "live (elems s) add" "add \<notin> set (us @ vs)"
    using tab by (auto simp: table_ok_def member_ok_def dest: dll_distinct)
  then have la: "live (elems s6) add" using ut_step_live [OF st6] by simp
  define s7 where "s7 = put_hh add ((HH s6 add)\<lparr>tbl := NULL\<rparr>) s6"
  have v7: "upd_hh add (\<lambda>h. h\<lparr>tbl := NULL\<rparr>) s6 = Inr s7" "oom s7 = oom s6" "TB s7 add = NULL"
    "live (tbls s7) = live (tbls s6)" "live (bkts s7) = live (bkts s6)"
    using la by (simp_all add: s7_def view_simps view_run)
  have "table_ok s7 (if us = [] then hd vs else head) (us @ vs) t L cs'"
    unfolding s7_def by (rule table_ok_put_other [OF 2(2) la a(2)])
  moreover have "ut_step s s7"
    using st6 la by (simp add: ut_step_def s7_def view_simps ut_mem_ok_put)
  ultimately show ?thesis
    using 1 2(1,4-6) v7 st(2-4) by (intro exI [of _ s1] exI [of _ s3] exI [of _ s6] exI [of _ s7] exI [of _ cs']) simp
qed

section \<open>Entering an element into its bucket\<close>

lemma oom_views [view_simps]:
  "HH (s\<lparr>oom := os\<rparr>) = HH s" "SID (s\<lparr>oom := os\<rparr>) = SID s" "TT (s\<lparr>oom := os\<rparr>) = TT s" "BB (s\<lparr>oom := os\<rparr>) = BB s"
  "NX (s\<lparr>oom := os\<rparr>) = NX s" "PV (s\<lparr>oom := os\<rparr>) = PV s" "HN (s\<lparr>oom := os\<rparr>) = HN s" "HP (s\<lparr>oom := os\<rparr>) = HP s"
  "HV (s\<lparr>oom := os\<rparr>) = HV s" "TB (s\<lparr>oom := os\<rparr>) = TB s" "KY (s\<lparr>oom := os\<rparr>) = KY s" "KL (s\<lparr>oom := os\<rparr>) = KL s"
  by (simp_all add: fun_eq_iff HH_def SID_def TT_def BB_def NX_def PV_def HN_def HP_def HV_def TB_def KY_def KL_def)

lemma table_ok_oom: "table_ok (s\<lparr>oom := os\<rparr>) head xs t L cs = table_ok s head xs t L cs"
  by (simp add: table_ok_def member_ok_def oom_views)

lemma ut_step_oom: "ut_mem_ok s \<Longrightarrow> set os \<subseteq> set (oom s) \<Longrightarrow> ut_step s (s\<lparr>oom := os\<rparr>)"
  by (simp add: ut_step_def ut_mem_ok_def ut_frame_def payload_def fun_eq_iff oom_views)

text \<open>
  What insertion that recovers promises: the element is linked and the table holds \<open>ys\<close>, or an allocation
  has failed, the element has no table, and the table holds \<open>xs\<close> in the memory it had before.
\<close>

definition nf_done :: "('a elem_scheme, 'b) ut_mem_scheme \<Rightarrow> addr \<Rightarrow> addr \<Rightarrow> (('a elem_scheme, 'b) ut_mem_scheme \<Rightarrow> addr \<Rightarrow> bool) \<Rightarrow>
    (('a elem_scheme, 'b) ut_mem_scheme \<Rightarrow> bool) \<Rightarrow> (addr \<times> ('a elem_scheme, 'b) ut_mem_scheme) res \<Rightarrow> bool" where
  "nf_done s add head Done Undone r \<longleftrightarrow> (\<exists>h' s'. r = Inr (h', s') \<and> ut_step s s' \<and>
     (if TB s' add \<noteq> NULL then Done s' h'
      else \<not> no_oom s \<and> h' = head \<and> Undone s' \<and> live (tbls s') = live (tbls s) \<and> live (bkts s') = live (bkts s)))"

lemma nf_done_linked:
  "r = Inr (h', s') \<Longrightarrow> ut_step s s' \<Longrightarrow> TB s' add \<noteq> NULL \<Longrightarrow> Done s' h' \<Longrightarrow> nf_done s add head Done Undone r"
  by (simp add: nf_done_def)

lemma nf_done_undone:
  "r = Inr (head, s') \<Longrightarrow> ut_step s s' \<Longrightarrow> TB s' add = NULL \<Longrightarrow> \<not> no_oom s \<Longrightarrow> Undone s' \<Longrightarrow>
   live (tbls s') = live (tbls s) \<Longrightarrow> live (bkts s') = live (bkts s) \<Longrightarrow> nf_done s add head Done Undone r"
  by (simp add: nf_done_def)

lemma nf_done_mono:
  assumes "nf_done s add head D U r" "\<And>s' h'. ut_step s s' \<Longrightarrow> D s' h' \<Longrightarrow> D' s' h'" "\<And>s'. ut_step s s' \<Longrightarrow> U s' \<Longrightarrow> U' s'"
  shows "nf_done s add head D' U' r"
  using assms(1) unfolding nf_done_def by (elim ex_forward) (use assms(2,3) in \<open>auto split: if_splits\<close>)

lemma nf_done_step:
  assumes "nf_done s1 add head Done Undone r" "ut_step s s1" "no_oom s1 = no_oom s"
    "live (tbls s1) = live (tbls s)" "live (bkts s1) = live (bkts s)"
  shows "nf_done s add head Done Undone r"
  using assms ut_step_trans [OF assms(2)] unfolding nf_done_def by metis

lemma table_TB: "table_ok s head xs t L cs \<Longrightarrow> x \<in> set xs \<Longrightarrow> TB s x \<noteq> NULL"
  by (auto simp: table_ok_def member_ok_def live_def)

lemma HASH_ADD_TO_TABLE_NF_at:
  assumes pend: "live (tbls s) t" "live (bkts s) (buckets (TT s t))"
      "dll (NX s) (PV s) head (us @ add # vs) (tail (TT s t))"
      "\<forall>x \<in> set (us @ add # vs). member_ok s t x" "distinct (map (SID s) (us @ add # vs))"
      "num_buckets (TT s t) = 2 ^ L" "log2_num_buckets (TT s t) = of_nat L"
      "num_items (TT s t) = of_nat (length us + length vs)" "length (us @ add # vs) < 2 ^ 32"
      "bkts_ok (HN s) (HP s) (HV s) (BB s (buckets (TT s t))) (2 ^ L) (set us \<union> set vs) cs"
    and mem: "ut_mem_ok s" and L: "L < 31" and hv: "hv = HV s add"
    and ne: "us @ vs \<noteq> [] \<or> BB s (buckets (TT s t)) ! (unat hv mod 2 ^ L) = zero_bucket"
  shows "nf_done s add (if us = [] then hd vs else head) (\<lambda>s' h'. h' = head \<and> (\<exists>L' cs'. table_ok s' head (us @ add # vs) t L' cs' \<and> L' \<le> Suc L))
    (\<lambda>s'. us @ vs \<noteq> [] \<and> (\<exists>cs'. table_ok s' (if us = [] then hd vs else head) (us @ vs) t L cs')) (HASH_ADD_TO_TABLE_NF head hv add False s)"
proof -
  define b where "b = buckets (TT s t)"
  define i where "i = unat hv mod 2 ^ L"
  define s1 where "s1 = put_tbl t ((TT s t)\<lparr>num_items := num_items (TT s t) + 1\<rparr>) s"
  define s2 where "s2 = push_bkt b i add s1"
  note P = push_pending [OF pend mem L hv b_def i_def s1_def s2_def]
  let ?full = "(expand_mult (BB s b ! i) + 1) * HASH_BKT_CAPACITY_THRESH \<le> bcount (BB s b ! i) + 1 \<and> noexpand (TT s t) = 0"
  let ?i = "HASH_TO_BKT hv (num_buckets (TT s1 t))"
  let ?K = "\<lambda>(oomed, s). if oomed then rbind (HASH_ROLLBACK_BKT head add s) (\<lambda>s. rbind (HASH_DELETE head add s) (\<lambda>(head, s).
          rbind (upd_hh add (\<lambda>h. h\<lparr>tbl := NULL\<rparr>) s) (\<lambda>s. Inr (head, s)))) else Inr (head, s)"
  have run: "HASH_ADD_TO_TABLE_NF head hv add False s = rbind (if ?full then rbind (HASH_EXPAND_BUCKETS_NF t s2) (\<lambda>(oomed, s).
             if oomed then rbind (HASH_DEL_IN_BKT b ?i add s) (\<lambda>s. Inr (True, s)) else Inr (False, s)) else Inr (False, s2)) ?K"
  proof -
    note R = HASH_ADD_TO_BKT_NF_run [of s1 b ?i add, unfolded P(8), OF P(10-15), folded s2_def]
    have nx: "noexpand (TT s1 t) = noexpand (TT s t)" by (simp add: P(17))
    show ?thesis unfolding HASH_ADD_TO_TABLE_NF_def P(4) rbind_Inr P(5-7) P(9) R unfolding P(16,18) nx by (simp only: simp_thms if_True)
  qed
  have lt2: "live (tbls s2) t" using P(1) by (simp add: table_ok_def)
  have linked: "add \<in> set (us @ add # vs)" by simp
  show ?thesis
  proof (cases ?full)
    case False
    have le: "L \<le> Suc L" by simp
    have "HASH_ADD_TO_TABLE_NF head hv add False s = Inr (head, s2)" unfolding run if_not_P [OF False] by simp
    then show ?thesis by (rule nf_done_linked [OF _ P(2) table_TB [OF P(1) linked]]) (use P(1) le in blast)
  next
    case full: True
    show ?thesis
    proof (cases "alloc_ok (oom s2)")
      case True
      have "ut_mem_ok s2" using P(2) by (simp add: ut_step_def)
      from HASH_EXPAND_ok [OF P(1) this L True] obtain s' cs' where e: "HASH_EXPAND_BUCKETS t s2 = Inr s'"
        "table_ok s' head (us @ add # vs) t (Suc L) cs'" "ut_mem_ok s'" "ut_frame s2 s'" "SID s' = SID s2" "oom s' = tl (oom s2)"
        by blast
      have "ut_step s2 s'" using e set_tl_subset [of "oom s2"] by (simp add: ut_step_def)
      with P(2) have "ut_step s s'" by (rule ut_step_trans)
      moreover have "HASH_ADD_TO_TABLE_NF head hv add False s = Inr (head, s')"
        unfolding run if_P [OF full] using lt2 True e(1) by (simp add: HASH_EXPAND_BUCKETS_NF_def get_tbl_live)
      ultimately show ?thesis by (intro nf_done_linked [OF _ _ table_TB [OF e(2) linked]]) (use e(2) in blast)+
    next
      case False
      have "us @ vs \<noteq> []"
      proof
        assume "us @ vs = []"
        with ne have "BB s b ! i = zero_bucket" by (simp add: b_def i_def)
        with full show False by (simp add: zero_bucket_def HASH_BKT_CAPACITY_THRESH_def word_le_nat_alt)
      qed
      define s3 where "s3 = s2\<lparr>oom := tl (oom s2)\<rparr>"
      have m2: "ut_mem_ok s2" using P(2) by (simp add: ut_step_def)
      have st: "ut_step s2 s3" unfolding s3_def by (rule ut_step_oom [OF m2 set_tl_subset])
      then have m3: "ut_mem_ok s3" by (simp add: ut_step_def)
      have tab3: "table_ok s3 head (us @ add # vs) t L (cs(i := add # cs i))" unfolding s3_def table_ok_oom by (rule P(1))
      have T: "buckets (TT s2 t) = b" "HV s3 add = hv" 
      proof -
        have "TT s2 = TT s1" using push_bkt_views(8) [OF P(10) P(12,13) P(15)] by (simp add: s2_def)
        then show "buckets (TT s2 t) = b" using P(9) by simp
        have "SID s3 = SID s" using ut_step_trans [OF P(2) st] by (simp add: ut_step_def)
        then show "HV s3 add = hv" using tab3 pend(4) hv by (simp add: table_ok_def member_ok_def)
      qed
      have ui: "unat ?i = unat (HV s3 add) mod 2 ^ L" unfolding P(8) T by (rule i_def)
      have b3: "b = buckets (TT s3 t)" using T by (simp add: s3_def oom_views)
      from roll_back [OF tab3 m3 \<open>us @ vs \<noteq> []\<close> b3 ui] obtain s4 s5 s6 s7 cs' where r:
        "HASH_DEL_IN_BKT b ?i add s3 = Inr s4" "HASH_ROLLBACK_BKT head add s4 = Inr s5"
        "HASH_DELETE head add s5 = Inr (if us = [] then hd vs else head, s6)" "upd_hh add (\<lambda>h. h\<lparr>tbl := NULL\<rparr>) s6 = Inr s7"
        "table_ok s7 (if us = [] then hd vs else head) (us @ vs) t L cs'" "ut_step s3 s7" "TB s7 add = NULL"
        "live (tbls s7) = live (tbls s3)" "live (bkts s7) = live (bkts s3)" by blast
      have "HASH_EXPAND_BUCKETS_NF t s2 = Inr (True, s3)"
        using lt2 False by (simp add: HASH_EXPAND_BUCKETS_NF_def get_tbl_live s3_def)
      then have "HASH_ADD_TO_TABLE_NF head hv add False s = Inr (if us = [] then hd vs else head, s7)"
        unfolding run if_P [OF full] by (simp only: rbind_Inr prod.case if_True r(1-4))
      moreover have "ut_step s s7" using P(2) st r(6) by (blast intro: ut_step_trans)
      moreover have "live (tbls s7) = live (tbls s)" "live (bkts s7) = live (bkts s)" using r(8,9) P(19,20) by (simp_all add: s3_def)
      moreover have "\<not> no_oom s" using False P(3) no_oom_alloc_ok [of s2] by (auto simp: no_oom_def)
      ultimately show ?thesis using r(5,7) \<open>us @ vs \<noteq> []\<close> by (intro nf_done_undone [where s' = s7]) blast+
    qed
  qed
qed

section \<open>Insertion\<close>

lemma tbl_cleared:
  assumes "live (elems s) add" "ut_mem_ok s"
  shows "\<exists>s'. upd_hh add (\<lambda>h. h\<lparr>tbl := NULL\<rparr>) s = Inr s' \<and> ut_step s s' \<and> TB s' add = NULL \<and>
    live (tbls s') = live (tbls s) \<and> live (bkts s') = live (bkts s)"
  using assms by (simp add: upd_hh_live ut_step_def view_simps ut_mem_ok_put)

lemma HASH_MAKE_TABLE_NF_ok:
  assumes a: "live (elems s) add" and mem: "ut_mem_ok s"
  shows "(\<exists>s'. HASH_MAKE_TABLE add s = Inr s' \<and> HASH_MAKE_TABLE_NF add s = Inr (False, s')) \<or>
    (\<not> no_oom s \<and> (\<exists>s'. HASH_MAKE_TABLE_NF add s = Inr (True, s') \<and> ut_step s s' \<and>
      live (tbls s') = live (tbls s) \<and> live (bkts s') = live (bkts s)))"
proof (cases "alloc_ok (oom s)")
  case False
  define s0 where "s0 = s\<lparr>oom := tl (oom s)\<rparr>"
  have st0: "ut_step s s0" unfolding s0_def by (rule ut_step_oom [OF mem set_tl_subset])
  have "calloc zero_table (oom s) (tbls s) = (NULL, tl (oom s), tbls s)" "s\<lparr>oom := tl (oom s), tbls := tbls s\<rparr> = s0"
    using False by (simp_all add: calloc_def s0_def)
  moreover have l0: "live (elems s0) add" "ut_mem_ok s0" using a st0 by (simp_all add: s0_def ut_step_def)
  moreover from tbl_cleared [OF l0] obtain s' where "upd_hh add (\<lambda>h. h\<lparr>tbl := NULL\<rparr>) s0 = Inr s'" "ut_step s0 s'"
    "live (tbls s') = live (tbls s0)" "live (bkts s') = live (bkts s0)" by blast
  moreover have "\<not> no_oom s" using False no_oom_alloc_ok by blast
  ultimately show ?thesis
    using ut_step_trans [OF st0] by (intro disjI2) (simp add: HASH_MAKE_TABLE_NF_def s0_def)
next
  case a1: True
  define t s3 where "t = brk (tbls s)" and "s3 = half_table add s"
  note v = half_table_views [OF a mem, folded s3_def t_def]
  have t0: "t \<noteq> NULL" using brk_nonnull [OF mem] by (simp add: t_def)
  have mem3: "ut_mem_ok s3" using v(2) by (simp add: ut_step_def)
  note half = half_table_run [OF a mem a1, folded t_def s3_def]
  show ?thesis
  proof (cases "alloc_ok (oom s3)")
    case True
    have b0: "brk (bkts s3) \<noteq> NULL" using brk_nonnull [OF mem3] by simp
    show ?thesis
      unfolding HASH_MAKE_TABLE_NF_def HASH_MAKE_TABLE_def half unfolding calloc_bkts_ok [OF True] Let_def prod.case new_fold
      using b0 v(3) by (simp add: upd_tbl_live view_simps)
  next
    case False
    define s4 where "s4 = s3\<lparr>oom := tl (oom s3)\<rparr>"
    define s5 where "s5 = put_tbl t ((TT s4 t)\<lparr>buckets := NULL, signature := HASH_SIGNATURE\<rparr>) s4"
    define s6 where "s6 = del_tbl t s5"
    have 4: "calloc (replicate (unat HASH_INITIAL_NUM_BUCKETS) zero_bucket) (oom s3) (bkts s3) = (NULL, tl (oom s3), bkts s3)"
      "s3\<lparr>oom := tl (oom s3), bkts := bkts s3\<rparr> = s4" using False by (simp_all add: calloc_def s4_def)
    have st4: "ut_step s3 s4" unfolding s4_def by (rule ut_step_oom [OF mem3 set_tl_subset])
    have l4: "live (tbls s4) t" using v(3) by (simp add: s4_def)
    have v5: "upd_tbl t (\<lambda>T. T\<lparr>buckets := NULL, signature := HASH_SIGNATURE\<rparr>) s4 = Inr s5" "live (tbls s5) t"
      "live (tbls s5) = live (tbls s3)" "live (bkts s5) = live (bkts s)" "ut_step s4 s5"
      using l4 st4 by (simp_all add: view_run s5_def view_simps ut_step_def ut_mem_ok_put) (simp_all add: s4_def v(5))
    have 6: "dealloc (tbls s5) t = Inr (tbls s6)" "s5\<lparr>tbls := tbls s6\<rparr> = s6"
      using dealloc_tbls_live [OF v5(2)] by (simp_all add: s6_def) (simp add: del_tbl_def)
    have "ut_step s s5" using v(2) st4 v5(5) by (blast intro: ut_step_trans)
    then have "ut_step s s6" by (simp add: ut_step_def s6_def view_simps ut_mem_ok_alloc)
    moreover have "live (tbls s6) = live (tbls s)"
    proof
      fix u
      show "live (tbls s6) u = live (tbls s) u"
        using v(7) [of u] fresh_not_live [OF mem] by (cases "u = t") (simp_all add: s6_def live_alloc v5 t_def)
    qed
    moreover have "live (bkts s6) = live (bkts s)" by (simp add: s6_def view_simps v5)
    moreover have "HASH_MAKE_TABLE_NF add s = Inr (True, s6)"
      unfolding HASH_MAKE_TABLE_NF_def half unfolding Let_def prod.case 4 v5(1) rbind_Inr using t0 by (simp add: 6)
    moreover have "\<not> no_oom s" using False v(4) no_oom_alloc_ok [of s3] set_tl_subset [of "oom s"] by (auto simp: no_oom_def)
    ultimately show ?thesis by blast
  qed
qed

lemma HASH_ADD_NF_first:
  assumes a: "live (elems s) add" and mem: "ut_mem_ok s"
  shows "nf_done s add NULL (\<lambda>s' h'. h' = add \<and> (\<exists>t L' cs'. table_ok s' add [add] t L' cs' \<and> L' \<le> 6)) ut_mem_ok (HASH_ADD_NF NULL add s)"
proof -
  define hv where "hv = HASH_JEN (id_bytes (SID s add))"
  define s2 where "s2 = first_elem add s"
  note f = first_elem_ok [OF a mem, folded s2_def hv_def]
  have run: "HASH_ADD_NF NULL add s = rbind (HASH_MAKE_TABLE_NF add s2)
      (\<lambda>(oomed, s). HASH_ADD_TO_TABLE_NF (if \<not> oomed then add else NULL) hv add oomed s)"
    unfolding HASH_ADD_NF_def f(7) rbind_Inr Let_def SID_def [symmetric] hv_def [symmetric] simp_thms if_True f(8) ..
  from HASH_MAKE_TABLE_NF_ok [OF f(1,2)] consider
      s3 where "HASH_MAKE_TABLE add s2 = Inr s3" "HASH_MAKE_TABLE_NF add s2 = Inr (False, s3)"
    | s3 where "\<not> no_oom s2" "HASH_MAKE_TABLE_NF add s2 = Inr (True, s3)" "ut_step s2 s3" "live (tbls s3) = live (tbls s2)" "live (bkts s3) = live (bkts s2)"
    by blast
  then show ?thesis
  proof cases
    case 1
    show ?thesis
    proof (rule first_pending [OF a mem 1(1) [unfolded s2_def]])
      fix t assume p: "live (tbls s3) t" "live (bkts s3) (buckets (TT s3 t))"
        "dll (NX s3) (PV s3) add [add] (tail (TT s3 t))"
        "\<forall>x \<in> set [add]. member_ok s3 t x" "distinct (map (SID s3) [add])"
        "num_buckets (TT s3 t) = 2 ^ 5" "log2_num_buckets (TT s3 t) = of_nat 5" "num_items (TT s3 t) = 0"
        "bkts_ok (HN s3) (HP s3) (HV s3) (BB s3 (buckets (TT s3 t))) (2 ^ 5) {} (\<lambda>_. [])"
        "BB s3 (buckets (TT s3 t)) = replicate 32 zero_bucket"
        "HASH_JEN (id_bytes (SID s add)) = HV s3 add" "ut_step s s3"
      have "unat hv mod 2 ^ 5 < 32" by simp
      then have z: "BB s3 (buckets (TT s3 t)) ! (unat hv mod 2 ^ 5) = zero_bucket" unfolding p(10) by simp
      have "ut_mem_ok s3" "hv = HV s3 add" using p by (simp_all add: ut_step_def hv_def)
      with HASH_ADD_TO_TABLE_NF_at [of s3 t add "[]" add "[]" 5 "\<lambda>_. []" hv] p(1-9) z
      have "nf_done s3 add (hd []) (\<lambda>s' h'. h' = add \<and> (\<exists>L' cs'. table_ok s' add [add] t L' cs' \<and> L' \<le> 6)) (\<lambda>s'. False)
          (HASH_ADD_TO_TABLE_NF add hv add False s3)" by simp
      then obtain s' where r: "HASH_ADD_TO_TABLE_NF add hv add False s3 = Inr (add, s')" "ut_step s3 s'" "TB s' add \<noteq> NULL"
        "\<exists>L' cs'. table_ok s' add [add] t L' cs' \<and> L' \<le> 6" by (auto simp: nf_done_def split: if_splits)
      have "HASH_ADD_NF NULL add s = Inr (add, s')" unfolding run 1(2) using r(1) by simp
      with r(2-4) p(12) show ?thesis by (intro nf_done_linked) (auto intro: ut_step_trans)
    qed
  next
    case 2
    have "live (elems s3) add" "ut_mem_ok s3" using f(1) 2(3) ut_frame_live by (auto simp: ut_step_def)
    from tbl_cleared [OF this] obtain s' where r: "upd_hh add (\<lambda>h. h\<lparr>tbl := NULL\<rparr>) s3 = Inr s'" "ut_step s3 s'" "TB s' add = NULL"
      "live (tbls s') = live (tbls s3)" "live (bkts s') = live (bkts s3)" by blast
    have "HASH_ADD_NF NULL add s = Inr (NULL, s')" unfolding run 2(2) by (simp add: HASH_ADD_TO_TABLE_NF_def r(1))
    moreover have "ut_step s s'" using f(3) 2(3) r(2) by (blast intro: ut_step_trans)
    ultimately show ?thesis using 2(1,4,5) r(3-5) f(4-6) by (intro nf_done_undone [where s' = s']) (simp_all add: ut_step_def)
  qed
qed

lemma HASH_ADD_NF_existing:
  assumes inv: "table_ok s head xs t L cs" and mem: "ut_mem_ok s" and xs: "xs \<noteq> []"
    and a: "live (elems s) add" "add \<notin> set xs" "SID s add \<notin> SID s ` set xs"
    and bnd: "length xs + 1 < 2 ^ 32" and L: "L < 31"
  shows "nf_done s add head (\<lambda>s' h'. h' = head \<and> (\<exists>L' cs'. table_ok s' head (xs @ [add]) t L' cs' \<and> L' \<le> Suc L))
    (\<lambda>s'. \<exists>cs'. table_ok s' head xs t L cs') (HASH_ADD_NF head add s)"
proof (rule append_pending [OF inv mem xs a])
  fix s1 s2 s3 assume p: "load (elems s) add = Inr (the (cells (elems s) add))" "head \<noteq> NULL"
    "upd_hh add (\<lambda>h. h\<lparr>hashv := HASH_JEN (id_bytes (SID s add)), key := add, keylen := 4\<rparr>) s = Inr s1"
    "get_hh head s1 = Inr (HH s head)" "tbl (HH s head) = t" "upd_hh add (\<lambda>h. h\<lparr>tbl := t\<rparr>) s1 = Inr s2"
    "HASH_APPEND_LIST head add s2 = Inr s3"
    and q: "live (tbls s3) t" "live (bkts s3) (buckets (TT s3 t))"
    "dll (NX s3) (PV s3) head (xs @ [add]) (tail (TT s3 t))"
    "\<forall>x \<in> set (xs @ [add]). member_ok s3 t x" "distinct (map (SID s3) (xs @ [add]))"
    "num_buckets (TT s3 t) = 2 ^ L" "log2_num_buckets (TT s3 t) = of_nat L" "num_items (TT s3 t) = of_nat (length xs)"
    "bkts_ok (HN s3) (HP s3) (HV s3) (BB s3 (buckets (TT s3 t))) (2 ^ L) (set xs) cs"
    "HASH_JEN (id_bytes (SID s add)) = HV s3 add"
    and r: "ut_step s s3" "no_oom s3 = no_oom s" "live (tbls s3) = live (tbls s)" "live (bkts s3) = live (bkts s)"
  let ?hv = "HASH_JEN (id_bytes (SID s add))"
  have run: "HASH_ADD_NF head add s = HASH_ADD_TO_TABLE_NF head ?hv add False s3"
    using p by (simp add: HASH_ADD_NF_def Let_def SID_def)
  have hd: "(if xs = [] then hd [] else head) = head" using xs by simp
  have "nf_done s3 add head (\<lambda>s' h'. h' = head \<and> (\<exists>L' cs'. table_ok s' head (xs @ [add]) t L' cs' \<and> L' \<le> Suc L))
    (\<lambda>s'. xs @ [] \<noteq> [] \<and> (\<exists>cs'. table_ok s' head (xs @ []) t L cs')) (HASH_ADD_TO_TABLE_NF head ?hv add False s3)"
    by (rule HASH_ADD_TO_TABLE_NF_at [of s3 t head xs add "[]" L cs ?hv, unfolded hd])
      (use q r xs bnd L in \<open>simp_all add: ut_step_def\<close>)
  from nf_done_step [OF this r] show ?thesis unfolding run append_Nil2 by (rule nf_done_mono) auto
qed

text \<open>
  Insertion always returns. Without memory it leaves the table as it was, all that it had allocated is freed,
  and the element that was to be inserted has no table.
\<close>

lemma HASH_ADD_NF_correct:
  assumes inv: "ut_inv s head xs" and a: "live (elems s) add" "SID s add \<notin> SID s ` set xs" and room: "ut_room s head xs"
  shows "nf_done s add head (\<lambda>s' h'. ut_inv s' h' (xs @ [add]) \<and> ut_log2 s' h' \<le> Suc (ut_log2 s head)) (\<lambda>s'. ut_inv s' head xs) (HASH_ADD_NF head add s)"
proof (cases "xs = []")
  case True
  with inv have h: "head = NULL" "ut_mem_ok s" by simp_all
  show ?thesis unfolding h(1)
    by (rule nf_done_mono [OF HASH_ADD_NF_first [OF a(1) h(2)]]) 
      (use True in \<open>auto simp: ut_inv_def ut_step_def table_log2(2) ut_log2_def [of s]\<close>)
next
  case False
  with inv obtain t L cs where tab: "table_ok s head xs t L cs" and mem: "ut_mem_ok s" by (auto simp: ut_inv_def)
  have "add \<notin> set xs" using a(2) by auto
  moreover have "length xs + 1 < 2 ^ 32" "L < 31" using room table_log2(2) [OF tab False] by (simp_all add: ut_room_def)
  ultimately show ?thesis
    by (intro nf_done_mono [OF HASH_ADD_NF_existing [OF tab mem False a(1) _ a(2)]])
      (use False table_log2(2) [OF tab False] in \<open>auto simp: ut_inv_def ut_step_def table_log2(2)\<close>)
qed

interpretation nf: fallible_index ut_inv SID "\<lambda>s. live (elems s)" ut_step HASH_FIND no_oom ut_room "\<lambda>s x. TB s x \<noteq> NULL" HASH_ADD_NF
proof unfold_locales
  fix s :: "('a elem_scheme, 'b) ut_mem_scheme" and h x :: addr and xs
  assume "ut_inv s h xs" "live (elems s) x" "SID s x \<notin> SID s ` set xs" "ut_room s h xs"
  from HASH_ADD_NF_correct [OF this] show "\<exists>h' s'. HASH_ADD_NF h x s = Inr (h', s') \<and> ut_step s s' \<and>
      (if TB s' x \<noteq> NULL then ut_inv s' h' (xs @ [x]) else \<not> no_oom s \<and> h' = h \<and> ut_inv s' h xs)"
    unfolding nf_done_def by (elim ex_forward) (auto split: if_splits)
qed

end
