(* ===== verification/Hash_Functions.thy ===== *)
theory Hash_Functions
  imports Common
begin

text \<open>
  The hash functions of the repository compared: djb2 of \<open>aggregator-common.h\<close> and those that \<open>uthash.h\<close>
  offers for \<open>HASH_FUNCTION\<close>. They run over the bytes with a step; where the step is a bijection of
  the state, texts that differ in one place have different hashes. A state that starts at 0 ignores
  leading zero bytes.
\<close>

section \<open>The functions\<close>

fun ber_loop :: "byte list \<Rightarrow> u32 \<Rightarrow> u32" where
  "ber_loop [] h = h"
| "ber_loop (b # bs) h = ber_loop bs ((push_bit 5 h + h) + ucast b)"

definition HASH_BER :: "byte list \<Rightarrow> u32" where
  "HASH_BER key = ber_loop key 0"

fun sax_loop :: "byte list \<Rightarrow> u32 \<Rightarrow> u32" where
  "sax_loop [] h = h"
| "sax_loop (b # bs) h = sax_loop bs (h XOR (push_bit 5 h + drop_bit 2 h + ucast b))"

definition HASH_SAX :: "byte list \<Rightarrow> u32" where
  "HASH_SAX key = sax_loop key 0"

fun fnv_loop :: "byte list \<Rightarrow> u32 \<Rightarrow> u32" where
  "fnv_loop [] h = h"
| "fnv_loop (b # bs) h = (let h = h XOR ucast b; h = h * 16777619 in fnv_loop bs h)"

definition HASH_FNV :: "byte list \<Rightarrow> u32" where
  "HASH_FNV key = fnv_loop key 2166136261"

fun oat_loop :: "byte list \<Rightarrow> u32 \<Rightarrow> u32" where
  "oat_loop [] h = h"
| "oat_loop (b # bs) h = (let h = h + ucast b; h = h + push_bit 10 h; h = h XOR drop_bit 6 h in oat_loop bs h)"

definition HASH_OAT :: "byte list \<Rightarrow> u32" where
  "HASH_OAT key = (let h = oat_loop key 0; h = h + push_bit 3 h; h = h XOR drop_bit 11 h; h = h + push_bit 15 h in h)"

section \<open>Bijective steps\<close>

lemma foldl_inj:
  assumes "\<And>b h k. f h b = f k b \<Longrightarrow> h = k"
  shows "foldl f h bs = foldl f k bs \<longleftrightarrow> h = k"
  by (induction bs arbitrary: h k) (use assms in auto)

lemma foldl_differs:
  assumes "\<And>b h k. f h b = f k b \<Longrightarrow> h = k" "\<And>h b c. f h b = f h c \<Longrightarrow> b = c" "b \<noteq> c"
  shows "foldl f h (u @ b # v) \<noteq> foldl f h (u @ c # v)"
proof
  assume "foldl f h (u @ b # v) = foldl f h (u @ c # v)"
  then have "f (foldl f h u) b = f (foldl f h u) c" using foldl_inj [of f, OF assms(1)] by simp
  with assms(2,3) show False by blast
qed

lemma mult_inj:
  fixes h k m i :: u32
  assumes "i * m = 1" "m * h = m * k"
  shows "h = k"
proof -
  have "i * (m * h) = i * (m * k)" using assms(2) by simp
  then show ?thesis using assms(1) by (simp add: mult.assoc [symmetric])
qed

lemma byte_back: "ucast (ucast b :: u32) = b" "scast (scast b :: u32) = b" for b :: byte
  by (simp_all add: ucast_up_ucast_id scast_down_scast_id is_up is_down)

lemma ucast_byte_inj: "(ucast b :: u32) = ucast c \<longleftrightarrow> b = c" for b c :: byte
  by (metis byte_back(1))

lemma scast_byte_inj: "(scast b :: u32) = scast c \<longleftrightarrow> b = c" for b c :: byte
  by (metis byte_back(2))

lemma xor_shift_inj:
  fixes h g :: u32
  assumes "h XOR drop_bit n h = g XOR drop_bit n g" "0 < n"
  shows "h = g"
proof -
  have "h XOR g = drop_bit n h XOR drop_bit n g"
    using assms(1) unfolding bit_eq_iff bit_xor_iff by blast
  then have "h XOR g = drop_bit n (h XOR g)" unfolding drop_bit_xor .
  then have "unat (h XOR g) = unat (drop_bit n (h XOR g))" by (rule arg_cong)
  also have "\<dots> = drop_bit n (unat (h XOR g))" by (rule unat_drop_bit_eq)
  finally have e: "unat (h XOR g) = unat (h XOR g) div 2 ^ n" unfolding drop_bit_eq_div .
  have "unat (h XOR g) = 0"
  proof (rule ccontr)
    assume "unat (h XOR g) \<noteq> 0"
    moreover have "1 < (2 :: nat) ^ n" using assms(2) by (intro one_less_power) simp_all
    ultimately have "unat (h XOR g) div 2 ^ n < unat (h XOR g)" by (intro div_less_dividend) simp_all
    with e show False by linarith
  qed
  then have "h XOR g = 0" by (simp only: unat_eq_0)
  then show ?thesis unfolding bit_eq_iff bit_xor_iff by simp
qed

text \<open>One step of each function.\<close>

definition ber_step :: "u32 \<Rightarrow> byte \<Rightarrow> u32" where
  "ber_step h b = 33 * h + ucast b"

definition fnv_step :: "u32 \<Rightarrow> byte \<Rightarrow> u32" where
  "fnv_step h b = 16777619 * (h XOR ucast b)"

definition oat_step :: "u32 \<Rightarrow> byte \<Rightarrow> u32" where
  "oat_step h b = (let k = 1025 * (h + ucast b) in k XOR drop_bit 6 k)"

definition oat_mix :: "u32 \<Rightarrow> u32" where
  "oat_mix h = (let k = 9 * h; l = k XOR drop_bit 11 k in 32769 * l)"

lemma HASH_BER_foldl: "HASH_BER key = foldl ber_step 0 key"
proof -
  have "ber_loop key h = foldl ber_step h key" for h
    by (induction key arbitrary: h) (simp_all add: ber_step_def push_bit_eq_mult algebra_simps)
  then show ?thesis by (simp add: HASH_BER_def)
qed

lemma HASH_FNV_foldl: "HASH_FNV key = foldl fnv_step 2166136261 key"
proof -
  have "fnv_loop key h = foldl fnv_step h key" for h
    by (induction key arbitrary: h) (simp_all add: fnv_step_def Let_def mult.commute)
  then show ?thesis by (simp add: HASH_FNV_def)
qed

lemma HASH_OAT_foldl: "HASH_OAT key = oat_mix (foldl oat_step 0 key)"
proof -
  have "oat_loop key h = foldl oat_step h key" for h
    by (induction key arbitrary: h) (simp_all add: oat_step_def Let_def push_bit_eq_mult algebra_simps)
  then show ?thesis by (simp add: HASH_OAT_def oat_mix_def Let_def push_bit_eq_mult algebra_simps)
qed

lemma djb2_step_inj: "djb2_step h b = djb2_step k b \<Longrightarrow> h = k" "djb2_step h b = djb2_step h c \<Longrightarrow> b = c"
  unfolding djb2_step_def by (rule mult_inj [of 1041204193 33], simp_all add: scast_byte_inj)+

lemma ber_step_inj: "ber_step h b = ber_step k b \<Longrightarrow> h = k" "ber_step h b = ber_step h c \<Longrightarrow> b = c"
  unfolding ber_step_def by (rule mult_inj [of 1041204193 33], simp_all add: ucast_byte_inj)+

lemma xor_cancel: "h XOR b = k XOR b \<longleftrightarrow> h = k" "b XOR h = b XOR k \<longleftrightarrow> h = k" for h k b :: u32
  unfolding bit_eq_iff bit_xor_iff by blast+

lemma fnv_step_inj: "fnv_step h b = fnv_step k b \<Longrightarrow> h = k" "fnv_step h b = fnv_step h c \<Longrightarrow> b = c"
  unfolding fnv_step_def
  by (drule mult_inj [of 899433627 16777619, rotated]; simp add: xor_cancel ucast_byte_inj)+

lemma oat_step_inj: "oat_step h b = oat_step k b \<Longrightarrow> h = k" "oat_step h b = oat_step h c \<Longrightarrow> b = c"
  unfolding oat_step_def Let_def
  by (drule xor_shift_inj, simp, drule mult_inj [of 3222273025 1025, rotated], simp, simp add: ucast_byte_inj)+

lemma oat_mix_inj: "oat_mix h = oat_mix k \<Longrightarrow> h = k"
  unfolding oat_mix_def Let_def
  by (drule mult_inj [of 1073709057 32769, rotated], simp, drule xor_shift_inj, simp, drule mult_inj [of 954437177 9, rotated]) simp_all

section \<open>Texts that differ in one place\<close>

lemma djb2_differs: "b \<noteq> c \<Longrightarrow> djb2 (u @ b # v) \<noteq> djb2 (u @ c # v)"
  unfolding djb2_def by (rule foldl_differs [OF djb2_step_inj])

lemma HASH_BER_differs: "b \<noteq> c \<Longrightarrow> HASH_BER (u @ b # v) \<noteq> HASH_BER (u @ c # v)"
  unfolding HASH_BER_foldl by (rule foldl_differs [OF ber_step_inj])

lemma HASH_FNV_differs: "b \<noteq> c \<Longrightarrow> HASH_FNV (u @ b # v) \<noteq> HASH_FNV (u @ c # v)"
  unfolding HASH_FNV_foldl by (rule foldl_differs [OF fnv_step_inj])

lemma HASH_OAT_differs: "b \<noteq> c \<Longrightarrow> HASH_OAT (u @ b # v) \<noteq> HASH_OAT (u @ c # v)"
  unfolding HASH_OAT_foldl using foldl_differs [of oat_step, OF oat_step_inj] oat_mix_inj by fast

text \<open>Two texts that differ in one place.\<close>

definition one_byte_off :: "byte list \<Rightarrow> byte list \<Rightarrow> bool" where
  "one_byte_off t t' \<longleftrightarrow> (\<exists>u b c v. cstring t = u @ b # v \<and> cstring t' = u @ c # v \<and> b \<noteq> c)"

lemma djb2_one_byte: "one_byte_off t t' \<Longrightarrow> djb2 (cstring t) \<noteq> djb2 (cstring t')"
  using djb2_differs by (auto simp: one_byte_off_def)

text \<open>Functions that start at 0 do not see leading zero bytes, so that keys of different length collide.\<close>

lemma leading_zeros: "HASH_BER (0 # key) = HASH_BER key" "HASH_SAX (0 # key) = HASH_SAX key" "HASH_OAT (0 # key) = HASH_OAT key"
  by (simp_all add: HASH_BER_def HASH_SAX_def HASH_OAT_def)

end
