(* ===== verification/Hash_SFH.thy ===== *)
theory Hash_SFH
  imports Hash_Functions
begin

section \<open>The Paul Hsieh hash\<close>

text \<open>
  \<open>HASH_SFH\<close> reads the key by pointer and length, two bytes at a time, so that its reads are checked
  here against the bytes there are.
\<close>

definition key_byte :: "byte list \<Rightarrow> nat \<Rightarrow> u32 res" where
  "key_byte k i = (if i < length k then Inr (ucast (k ! i)) else Inl OutOfBounds)"

definition get16bits :: "byte list \<Rightarrow> nat \<Rightarrow> u32 res" where
  "get16bits k i = rbind (key_byte k (i + 1)) (\<lambda>b. rbind (key_byte k i) (\<lambda>a. Inr (push_bit 8 b + a)))"

fun sfh_loop :: "nat \<Rightarrow> byte list \<Rightarrow> nat \<Rightarrow> u32 \<Rightarrow> (nat \<times> u32) res" where
  "sfh_loop 0 k i h = Inr (i, h)"
| "sfh_loop (Suc n) k i h =
     rbind (get16bits k i) (\<lambda>a.
     let h = h + a in
     rbind (get16bits k (i + 2)) (\<lambda>b.
     let tmp = push_bit 11 b XOR h;
         h = push_bit 16 h XOR tmp;
         h = h + drop_bit 11 h
     in sfh_loop n k (i + 4) h))"

definition sfh_tail :: "nat \<Rightarrow> byte list \<Rightarrow> nat \<Rightarrow> u32 \<Rightarrow> u32 res" where
  "sfh_tail r k i h =
     (if r = 3 then
        rbind (get16bits k i) (\<lambda>a.
        let h = h + a; h = h XOR push_bit 16 h in
        rbind (key_byte k (i + 2)) (\<lambda>b.
        let h = h XOR push_bit 18 b in Inr (h + drop_bit 11 h)))
      else if r = 2 then
        rbind (get16bits k i) (\<lambda>a. let h = h + a; h = h XOR push_bit 11 h in Inr (h + drop_bit 17 h))
      else if r = 1 then
        rbind (key_byte k i) (\<lambda>a. let h = h + a; h = h XOR push_bit 10 h in Inr (h + drop_bit 1 h))
      else Inr h)"

definition sfh_final :: "u32 \<Rightarrow> u32" where
  "sfh_final h =
     (let h = h XOR push_bit 3 h; h = h + drop_bit 5 h;
          h = h XOR push_bit 4 h; h = h + drop_bit 17 h;
          h = h XOR push_bit 25 h in h + drop_bit 6 h)"

definition HASH_SFH :: "byte list \<Rightarrow> u32 \<Rightarrow> u32 res" where
  "HASH_SFH k keylen =
     rbind (sfh_loop (unat (drop_bit 2 keylen)) k 0 0xcafebabe) (\<lambda>(i, h).
     rbind (sfh_tail (unat (keylen AND 3)) k i h) (\<lambda>h. Inr (sfh_final h)))"

text \<open>The function of the bytes that it computes, by recursion on them.\<close>

definition le16 :: "byte \<Rightarrow> byte \<Rightarrow> u32" where
  "le16 a b = push_bit 8 (ucast b) + ucast a"

fun sfh_fold :: "byte list \<Rightarrow> u32 \<Rightarrow> u32" where
  "sfh_fold (a # b # c # d # bs) h =
     (let h = h + le16 a b; h = push_bit 16 h XOR (push_bit 11 (le16 c d) XOR h) in sfh_fold bs (h + drop_bit 11 h))"
| "sfh_fold [a, b, c] h =
     (let h = h + le16 a b; h = h XOR push_bit 16 h; h = h XOR push_bit 18 (ucast c) in h + drop_bit 11 h)"
| "sfh_fold [a, b] h = (let h = h + le16 a b; h = h XOR push_bit 11 h in h + drop_bit 17 h)"
| "sfh_fold [a] h = (let h = h + ucast a; h = h XOR push_bit 10 h in h + drop_bit 1 h)"
| "sfh_fold [] h = h"

definition sfh :: "byte list \<Rightarrow> u32" where
  "sfh bs = sfh_final (sfh_fold bs 0xcafebabe)"

lemma key_byte_from: "key_byte k (i + n) = key_byte (drop i k) n"
  by (auto simp: key_byte_def less_diff_conv add.commute)

lemma get16bits_from: "get16bits k (i + n) = get16bits (drop i k) n"
  unfolding get16bits_def add.assoc key_byte_from ..

lemma get16bits_at: "get16bits (a # b # bs) 0 = Inr (le16 a b)" "get16bits (a # b # c # d # bs) 2 = Inr (le16 c d)"
  by (simp_all add: get16bits_def key_byte_def le16_def)

lemma sfh_tail_from: "sfh_tail r k i h = sfh_tail r (drop i k) 0 h"
proof -
  have "key_byte k i = key_byte (drop i k) 0" "key_byte k (i + 2) = key_byte (drop i k) (0 + 2)"
    "get16bits k i = get16bits (drop i k) 0"
    using key_byte_from [of k i 0] get16bits_from [of k i 0] key_byte_from [of k i 2] unfolding add_0_left add_0_right
    by fast+
  then show ?thesis unfolding sfh_tail_def by (simp only:)
qed

lemma sfh_tail_run:
  assumes "r < 4"
  shows "sfh_tail r bs 0 h = (if r \<le> length bs then Inr (sfh_fold (take r bs) h) else Inl OutOfBounds)"
proof -
  from assms consider "r = 0" | "r = 1" | "r = 2" | "r = 3" by linarith
  then show ?thesis
  proof cases
    case 1
    then show ?thesis by (simp add: sfh_tail_def)
  next
    case 2
    then show ?thesis by (cases bs) (simp_all add: sfh_tail_def key_byte_def Let_def)
  next
    case 3
    then show ?thesis
      by (cases bs rule: remdups_adj.cases) (simp_all add: sfh_tail_def get16bits_def key_byte_def le16_def take_Cons' Let_def)
  next
    case 4
    consider "bs = []" | a where "bs = [a]" | a b where "bs = [a, b]" | a b c cs where "bs = a # b # c # cs"
      by (metis list.exhaust)
    then show ?thesis
      using 4 by cases (simp_all add: sfh_tail_def get16bits_def key_byte_def le16_def Let_def numeral_3_eq_3)
  qed
qed

text \<open>It reads the bytes of the key and no others; a length beyond them makes it read past the end.\<close>

lemma sfh_from:
  assumes "r < 4"
  shows "rbind (sfh_loop n k i h) (\<lambda>(i, h). sfh_tail r k i h) =
    (if 4 * n + r \<le> length (drop i k) then Inr (sfh_fold (take (4 * n + r) (drop i k)) h) else Inl OutOfBounds)"
proof (induction n arbitrary: i h)
  case 0
  show ?case unfolding sfh_tail_from [of r k i] sfh_loop.simps rbind_Inr prod.case sfh_tail_run [OF assms] by simp
next
  case (Suc n)
  have g: "get16bits k i = get16bits (drop i k) 0" "get16bits k (i + 2) = get16bits (drop i k) 2"
    using get16bits_from [of k i 0] get16bits_from [of k i 2] by simp_all
  consider a b c d bs where "drop i k = a # b # c # d # bs" | "length (drop i k) < 4"
  proof (cases "4 \<le> length (drop i k)")
    case True
    then have "\<exists>a b c d bs. drop i k = a # b # c # d # bs"
      by (metis (no_types, opaque_lifting) Suc_le_length_iff eval_nat_numeral(2,3) numeral_2_eq_2 numeral_3_eq_3 One_nat_def semiring_norm(26,27))
    then show ?thesis using that(1) by blast
  qed (use that(2) in simp)
  then show ?case
  proof cases
    case 1
    have "drop (i + 4) k = drop 4 (drop i k)" by (simp add: add.commute)
    then have "drop (i + 4) k = bs" unfolding 1 by simp
    moreover have "4 * Suc n + r = Suc (Suc (Suc (Suc (4 * n + r))))" by simp
    ultimately show ?thesis unfolding sfh_loop.simps g 1 get16bits_at rbind_Inr Let_def Suc by (simp only: take_Suc_Cons length_Cons Suc_le_mono sfh_fold.simps Let_def)
  next
    case 2
    then have "get16bits (drop i k) 2 = Inl OutOfBounds" unfolding get16bits_def key_byte_def by simp
    moreover have "get16bits (drop i k) 0 = Inl OutOfBounds \<or> (\<exists>a. get16bits (drop i k) 0 = Inr a)"
      unfolding get16bits_def key_byte_def by simp
    ultimately show ?thesis unfolding sfh_loop.simps g using 2 by auto
  qed
qed

lemma HASH_SFH_reads: "HASH_SFH k n = (if unat n \<le> length k then Inr (sfh (take (unat n) k)) else Inl OutOfBounds)"
proof -
  have "n AND 3 = take_bit 2 n" unfolding take_bit_eq_mask by (simp add: mask_eq_exp_minus_1)
  then have "unat (n AND 3) = take_bit 2 (unat n)" by (simp only: unsigned_take_bit_eq)
  then have r: "unat (n AND 3) = unat n mod 4" by (simp add: take_bit_eq_mod)
  have q: "unat (drop_bit 2 n) = unat n div 4" unfolding unat_drop_bit_eq by (simp add: drop_bit_eq_div)
  have r4: "unat n mod 4 < 4" by simp
  have s: "4 * (unat n div 4) + unat n mod 4 = unat n" by simp
  have "HASH_SFH k n = rbind (rbind (sfh_loop (unat n div 4) k 0 0xcafebabe) (\<lambda>(i, h). sfh_tail (unat n mod 4) k i h))
      (\<lambda>h. Inr (sfh_final h))"
    unfolding HASH_SFH_def r q rbind_assoc by (rule rbind_cong) auto
  also have "\<dots> = (if unat n \<le> length k then Inr (sfh (take (unat n) k)) else Inl OutOfBounds)"
    unfolding sfh_from [OF r4] s by (simp add: sfh_def)
  finally show ?thesis .
qed

text \<open>Its steps are not bijections: texts that differ in one character can have the same hash.\<close>

lemma sfh_collides: "sfh [103, 53, 99, 121, 110, 106, 116, 99, 115] = sfh [103, 107, 99, 121, 110, 106, 116, 99, 115]"
  by (simp add: sfh_def sfh_final_def le16_def Let_def)

end
