(* ===== verification/Hash_Theorems.thy ===== *)
theory Hash_Theorems
  imports Scenario Uthash_Check Uthash_Nonfatal Uthash_Select Hash_SFH
begin

text \<open>
  What holds of stream identifiers (\<open>aggregator-common.h\<close>) and of the hash table (\<open>uthash.h\<close>), each
  with a witness on the run of \<open>Scenario\<close>.
\<close>

section \<open>Identifiers\<close>

text \<open>
  C34: the identifier does not depend on the order of the tags. It is the exclusive or of the hashes
  of the namespace, the name and each tag.
\<close>

theorem id_tag_order:
  assumes "terminated ns" "terminated name" "tags_ok tags n" "tags_ok tags' n"
    and "mset (take (nat n) tags) = mset (take (nat n) tags')"
  shows "aggregator_id_from_string_identifiers ns name tags n = aggregator_id_from_string_identifiers ns name tags' n \<and>
    aggregator_id_from_string_identifiers ns name tags n =
      Inr (djb2 (cstring ns) XOR djb2 (cstring name) XOR xor_all (map (\<lambda>t. djb2 (cstring t)) (take (nat n) tags)))"
proof -
  have "stream_id_spec ns name (take (nat n) tags) = stream_id_spec ns name (take (nat n) tags')"
    by (rule stream_id_spec_mset) (simp add: assms(5))
  with id_from_strings_eq [OF assms(1,2,3)] id_from_strings_eq [OF assms(1,2,4)] show ?thesis
    by (simp add: stream_id_spec_def)
qed

theorem id_tag_order_witness:
  "aggregator_id_from_string_identifiers demo_ns demo_name [demo_tag, demo_desc] 2 =
   aggregator_id_from_string_identifiers demo_ns demo_name [demo_desc, demo_tag] 2"
  using id_tag_order [of demo_ns demo_name "[demo_tag, demo_desc]" 2 "[demo_desc, demo_tag]"] demo_texts
  by (simp add: tags_ok_def)

text \<open>
  The hash of a text is a polynomial in 33 modulo \<open>2 ^ 32\<close>, over its bytes as signed numbers; a
  text without terminator is read past its end.
\<close>

theorem hash_polynomial:
  "aggregator_hash s =
     (if terminated s
      then Inr (33 ^ length (cstring s) * 5381 +
             (\<Sum>i<length (cstring s). 33 ^ (length (cstring s) - Suc i) * scast (cstring s ! i)))
      else Inl Unterminated)"
  by (simp add: aggregator_hash_eq djb2_def foldl_djb2_step_poly)

text \<open>
  C35: changing one character of a name or a namespace changes the identifier, whatever the rest.
\<close>

theorem one_character_counts:
  assumes "terminated other" "terminated t" "terminated t'" "tags_ok tags n" "one_byte_off t t'"
  shows "aggregator_id_from_string_identifiers other t tags n \<noteq> aggregator_id_from_string_identifiers other t' tags n \<and>
    aggregator_id_from_string_identifiers t other tags n \<noteq> aggregator_id_from_string_identifiers t' other tags n"
  using assms djb2_one_byte [OF assms(5)] by (simp add: id_from_strings_eq stream_id_spec_def xor_cancel)

theorem one_character_counts_witness:
  "aggregator_id_from_string_identifiers demo_ns [110, 97, 109, 101, 0] [demo_tag] 1 \<noteq>
     aggregator_id_from_string_identifiers demo_ns [110, 98, 109, 101, 0] [demo_tag] 1"
proof -
  have "one_byte_off [110, 97, 109, 101, 0] [110, 98, 109, 101, 0]"
    unfolding one_byte_off_def
    by (intro exI [of _ "[110]"] exI [of _ 97] exI [of _ 98] exI [of _ "[109, 101]"]) simp
  with one_character_counts [of demo_ns "[110, 97, 109, 101, 0]" "[110, 98, 109, 101, 0]" "[demo_tag]" 1] demo_texts
  show ?thesis by (simp add: tags_ok_def terminated_def)
qed

text \<open>
  C36: identifiers collide, for any tags. Namespace and name are interchangeable, and a tag that is given
  twice has no effect, wherever it stands among the others.
\<close>

theorem id_collisions:
  assumes "terminated ns" "terminated name" "tags_ok tags n" "tags_ok tags' n'"
    and twice: "mset (take (nat n') tags') = mset (take (nat n) tags) + {#t, t'#}" "cstring t = cstring t'"
  shows "aggregator_id_from_string_identifiers name ns tags n = aggregator_id_from_string_identifiers ns name tags n \<and>
    aggregator_id_from_string_identifiers ns name tags' n' = aggregator_id_from_string_identifiers ns name tags n"
proof -
  have "stream_id_spec ns name (take (nat n') tags') = stream_id_spec ns name (t # t' # take (nat n) tags)"
    by (rule stream_id_spec_mset) (simp add: twice(1))
  also have "\<dots> = stream_id_spec ns name (take (nat n) tags)"
    by (simp add: stream_id_spec_def twice(2) xor.left_commute)
  finally have "stream_id_spec ns name (take (nat n') tags') = stream_id_spec ns name (take (nat n) tags)" .
  moreover have "stream_id_spec name ns (take (nat n) tags) = stream_id_spec ns name (take (nat n) tags)"
    by (rule stream_id_spec_mset) simp
  ultimately show ?thesis using assms(1-4) by (simp add: id_from_strings_eq)
qed

theorem id_collisions_witness:
  "aggregator_id_from_string_identifiers demo_ns demo_name [demo_tag, demo_desc, demo_tag] 3 =
     aggregator_id_from_string_identifiers demo_ns demo_name [demo_desc] 1 \<and>
   aggregator_id_from_string_identifiers demo_name demo_ns [demo_desc] 1 =
     aggregator_id_from_string_identifiers demo_ns demo_name [demo_desc] 1"
  using id_collisions [OF demo_texts(1,2), of "[demo_desc]" 1 "[demo_tag, demo_desc, demo_tag]" 3 demo_tag demo_tag] demo_texts
  by (simp add: tags_ok_def)

section \<open>The hash table\<close>

text \<open>
  C10: lookup finds the element with the key, or the null pointer when there is none. The walk over
  the bucket ends.
\<close>

theorem find_correct:
  assumes "ut_inv s head xs"
  shows "HASH_FIND head i s = Inr (case find (\<lambda>x. SID s x = i) xs of None \<Rightarrow> NULL | Some x \<Rightarrow> x)"
  using ut.look_find [OF assms, of i] by (simp add: ptr_def)

theorem find_correct_witness:
  "ut_inv (snd um2) (fst um2) [1, 2] \<and> HASH_FIND (fst um2) 20 (snd um2) = Inr 2 \<and> HASH_FIND (fst um2) 30 (snd um2) = Inr NULL"
  using um2_ok(1) find_correct [OF um2_ok(1), of 20] find_correct [OF um2_ok(1), of 30] um2_ok(4) um0_ok(6,7) by simp

text \<open>
  C9: inserting an element whose key is new implements the update of a map. The element goes to the
  end of the insertion order, lookups of its key find it, all others are as before, and the elements
  keep everything but their handles.
\<close>

theorem add_refines:
  assumes inv: "ut_inv s head xs" and x: "live (elems s) x" "SID s x \<notin> SID s ` set xs"
    and room: "length xs + 1 < 2 ^ 32" "ut_log2 s head < 31" and ok: "no_oom s"
  shows "\<exists>head' s'. HASH_ADD head x s = Inr (head', s') \<and> ut_inv s' head' (xs @ [x]) \<and>
    index_map (SID s') (xs @ [x]) = (index_map (SID s) xs)(SID s x \<mapsto> x) \<and>
    (\<forall>i. HASH_FIND head' i s' = Inr (if i = SID s x then x else ptr (index_map (SID s) xs i))) \<and>
    live (elems s') = live (elems s) \<and> (\<forall>p. payload s' p = payload s p)"
proof -
  have "ut_room s head xs" using room by (simp add: ut_room_def)
  from ut.put_extends [OF inv x this ok] obtain head' s' where
    s': "HASH_ADD head x s = Inr (head', s')" "ut_inv s' head' (xs @ [x])" "ut_step s s'"
      "index_map (SID s') (xs @ [x]) = (index_map (SID s) xs)(SID s x \<mapsto> x)" by blast
  then have "HASH_FIND head' i s' = Inr (if i = SID s x then x else ptr (index_map (SID s) xs i))" for i
    by (simp add: ut.look_map)
  moreover have "live (elems s') = live (elems s)" using s'(3) by (rule ut.step_present)
  moreover have "\<forall>p. payload s' p = payload s p" using s'(3) by (simp add: ut_step_def ut_frame_def)
  ultimately show ?thesis using s' by blast
qed

theorem add_refines_witness:
  "\<exists>head' s'. HASH_ADD (fst um2) 3 (snd um2) = Inr (head', s') \<and> ut_inv s' head' [1, 2, 3] \<and>
    HASH_FIND head' 30 s' = Inr 3 \<and> HASH_FIND head' 10 s' = Inr 1 \<and> HASH_FIND head' 40 s' = Inr NULL"
proof -
  have "live (elems (snd um2)) 3" "SID (snd um2) 3 \<notin> SID (snd um2) ` set [1, 2]"
    "length [1, 2 :: addr] + 1 < 2 ^ 32" "ut_log2 (snd um2) (fst um2) < 31" "no_oom (snd um2)"
    using um2_ok um0_ok by simp_all
  from add_refines [OF um2_ok(1) this] obtain head' s' where
    "HASH_ADD (fst um2) 3 (snd um2) = Inr (head', s')" "ut_inv s' head' ([1, 2] @ [3])"
    "\<And>i. HASH_FIND head' i s' = Inr (if i = SID (snd um2) 3 then 3 else ptr (index_map (SID (snd um2)) [1, 2] i))" by blast
  then show ?thesis using um2_ok(4) um0_ok(6-8) by (simp add: index_map_def)
qed

text \<open>
  C11: deleting an element implements the removal of its key from the map; the order of the others is
  kept.
\<close>

theorem delete_refines:
  assumes inv: "ut_inv s head xs" and x: "x \<in> set xs"
  shows "\<exists>head' s'. HASH_DELETE head x s = Inr (head', s') \<and> ut_inv s' head' (remove1 x xs) \<and>
    index_map (SID s') (remove1 x xs) = (index_map (SID s) xs)(SID s x := None) \<and>
    (\<forall>i. HASH_FIND head' i s' = Inr (if i = SID s x then NULL else ptr (index_map (SID s) xs i))) \<and>
    live (elems s') = live (elems s) \<and> (\<forall>p. payload s' p = payload s p)"
proof -
  from ut.del_restricts [OF inv x] obtain head' s' where
    s': "HASH_DELETE head x s = Inr (head', s')" "ut_inv s' head' (remove1 x xs)" "ut_step s s'"
      "index_map (SID s') (remove1 x xs) = (index_map (SID s) xs)(SID s x := None)" by blast
  then have "HASH_FIND head' i s' = Inr (if i = SID s x then NULL else ptr (index_map (SID s) xs i))" for i
    by (simp add: ut.look_map)
  moreover have "live (elems s') = live (elems s)" using s'(3) by (rule ut.step_present)
  moreover have "\<forall>p. payload s' p = payload s p" using s'(3) by (simp add: ut_step_def ut_frame_def)
  ultimately show ?thesis using s' by blast
qed

theorem delete_refines_witness:
  "\<exists>head' s'. HASH_DELETE (fst um2) 1 (snd um2) = Inr (head', s') \<and> ut_inv s' head' [2] \<and>
    HASH_FIND head' 10 s' = Inr NULL \<and> HASH_FIND head' 20 s' = Inr 2"
proof -
  have "1 \<in> set [1, 2 :: addr]" by simp
  from delete_refines [OF um2_ok(1) this] obtain head' s' where
    "HASH_DELETE (fst um2) 1 (snd um2) = Inr (head', s')" "ut_inv s' head' (remove1 1 [1, 2])"
    "\<And>i. HASH_FIND head' i s' = Inr (if i = SID (snd um2) 1 then NULL else ptr (index_map (SID (snd um2)) [1, 2] i))" by blast
  then show ?thesis using um2_ok(4) um0_ok(6-8) by (simp add: index_map_def)
qed

text \<open>
  Expansion doubles the number of buckets and redistributes every element: the table is well
  formed again, with the same elements in the same order and the same lookups.
\<close>

theorem expand_keeps:
  assumes inv: "ut_inv s head xs" "xs \<noteq> []" and L: "ut_log2 s head < 31" and ok: "no_oom s"
  shows "\<exists>s'. HASH_EXPAND_BUCKETS (tbl (HH s head)) s = Inr s' \<and> ut_inv s' head xs \<and>
    ut_log2 s' head = Suc (ut_log2 s head) \<and> (\<forall>i. HASH_FIND head i s' = HASH_FIND head i s)"
proof -
  from inv obtain t L cs where tab: "table_ok s head xs t L cs" and mem: "ut_mem_ok s" by (auto simp: ut_inv_def)
  note l = table_log2 [OF tab inv(2)]
  from HASH_EXPAND_ok [OF tab mem _ no_oom_alloc_ok [OF ok]] L l obtain s' cs' where
    s': "HASH_EXPAND_BUCKETS t s = Inr s'" "table_ok s' head xs t (Suc L) cs'" "ut_mem_ok s'" "SID s' = SID s" by auto
  have inv': "ut_inv s' head xs" using s' inv(2) by (auto simp: ut_inv_def)
  have "HASH_FIND head i s' = HASH_FIND head i s" for i
    using ut.look_map [OF inv'] ut.look_map [OF inv(1)] s'(4) by simp
  with s' inv' l table_log2(2) [OF s'(2) inv(2)] show ?thesis by auto
qed

theorem expand_keeps_witness:
  "\<exists>s'. HASH_EXPAND_BUCKETS (tbl (HH (snd um2) (fst um2))) (snd um2) = Inr s' \<and> ut_inv s' (fst um2) [1, 2] \<and>
    ut_log2 s' (fst um2) = Suc (ut_log2 (snd um2) (fst um2))"
  using expand_keeps [OF um2_ok(1)] um2_ok(2,5) by auto

text \<open>
  When memory runs out, insertion ends the program with \<open>exit(-1)\<close>; it fails in no other way,
  and only then.
\<close>

theorem add_oom:
  assumes inv: "ut_inv s head xs" and x: "live (elems s) x" "SID s x \<notin> SID s ` set xs"
    and room: "length xs + 1 < 2 ^ 32" "ut_log2 s head < 31" and run: "HASH_ADD head x s = Inl e"
  shows "e = Exit (- 1) \<and> False \<in> set (oom s)"
  using ut.put_new [OF inv x] room run by (simp add: ut_room_def no_oom_def)

theorem add_oom_witness:
  "HASH_ADD NULL 1 (um0\<lparr>oom := [False]\<rparr>) = Inl (Exit (- 1)) \<and> False \<in> set (oom (um0\<lparr>oom := [False]\<rparr>))"
proof -
  let ?s = "um0\<lparr>oom := [False]\<rparr>"
  have inv: "ut_inv ?s NULL []" using um0_ok(1) by (simp add: ut_inv_def ut_mem_ok_def)
  have l: "live (elems ?s) 1" using um0_ok(3) by simp
  have run: "HASH_ADD NULL 1 ?s = Inl (Exit (- 1))"
    by (simp add: HASH_ADD_def um0_def load_def store_def upd_hh_def HASH_MAKE_TABLE_def calloc_def Let_def)
  from add_oom [OF inv l _ _ _ run] run show ?thesis by (simp add: ut_log2_def)
qed

text \<open>
  C12: recovery from lack of memory (\<open>HASH_NONFATAL_OOM\<close>). Insertion of an element whose key is new always
  returns. Either the element is linked, at the end of the order and found under its key; or memory has run
  out, the element has no table, the table and every lookup are as they were, and all that was allocated on
  the way has been freed.
\<close>

theorem add_recovers:
  assumes inv: "ut_inv s head xs" and x: "live (elems s) x" "SID s x \<notin> SID s ` set xs"
    and room: "length xs + 1 < 2 ^ 32" "ut_log2 s head < 31"
  shows "\<exists>head' s'. HASH_ADD_NF head x s = Inr (head', s') \<and> (\<forall>p. payload s' p = payload s p) \<and>
    (if TB s' x \<noteq> NULL then ut_inv s' head' (xs @ [x]) \<and>
       (\<forall>i. HASH_FIND head' i s' = (if i = SID s x then Inr x else HASH_FIND head i s))
     else False \<in> set (oom s) \<and> head' = head \<and> ut_inv s' head xs \<and> (\<forall>i. HASH_FIND head i s' = HASH_FIND head i s) \<and>
       live (tbls s') = live (tbls s) \<and> live (bkts s') = live (bkts s))"
proof -
  have r: "ut_room s head xs" using room by (simp add: ut_room_def)
  from HASH_ADD_NF_correct [OF inv x r] obtain head' s' where
    s': "HASH_ADD_NF head x s = Inr (head', s')" "ut_step s s'"
      "if TB s' x \<noteq> NULL then ut_inv s' head' (xs @ [x]) else \<not> no_oom s \<and> head' = head \<and> ut_inv s' head xs \<and>
         live (tbls s') = live (tbls s) \<and> live (bkts s') = live (bkts s)"
    unfolding nf_done_def by (auto split: if_splits)
  from nf.enter_looks [OF inv x r] s'(1) have "\<forall>i. HASH_FIND head' i s' = (if TB s' x \<noteq> NULL \<and> i = SID s x then Inr x else HASH_FIND head i s)"
    by auto
  with s' show ?thesis by (auto simp: ut_step_def ut_frame_def no_oom_def)
qed

theorem add_recovers_witness:
  "\<exists>s'. HASH_ADD_NF NULL 1 (um0\<lparr>oom := [True, False]\<rparr>) = Inr (NULL, s') \<and> TB s' 1 = NULL \<and> live (tbls s') = live (tbls um0)"
proof -
  let ?s = "um0\<lparr>oom := [True, False]\<rparr>"
  have inv: "ut_inv ?s NULL []" using um0_ok(1) by (simp add: ut_inv_def ut_mem_ok_def)
  have l: "live (elems ?s) 1" using um0_ok(3) by simp
  have f: "\<exists>s'. HASH_ADD_NF NULL 1 ?s = Inr (NULL, s') \<and> TB s' 1 = NULL"
    by (simp add: HASH_ADD_NF_def HASH_MAKE_TABLE_NF_def HASH_ADD_TO_TABLE_NF_def um0_def um_elem_def load_def store_def upd_hh_def
        upd_tbl_def calloc_def dealloc_def heap_empty_def Let_def TB_def HH_def)
  have "SID ?s 1 \<notin> SID ?s ` set []" "length ([] :: addr list) + 1 < 2 ^ 32" "ut_log2 ?s NULL < 31" by (simp_all add: ut_log2_def)
  from add_recovers [OF inv l this] f show ?thesis by auto
qed

section \<open>Selection\<close>

text \<open>
  C15: selecting the elements of a table that satisfy a condition (one that does not look at the handle being
  written) into a new table, through a second handle. It ends the program only when an allocation fails; otherwise
  the source is the table it was, and the new table's lookups find exactly the selected elements. It is a table of
  them, but for its \<open>tail\<close>, which stays at the first one. Of the selected elements no ten may agree in the low 31
  bits of their hash, unless there are at most 26 of them or one of the first 28 allocations fails: otherwise the
  buckets could be doubled past \<open>2 ^ 31\<close>, where their number no longer fits its 32 bits.
\<close>

theorem select_correct:
  assumes inv: "ut_inv (src_view s) src xs" and b: "hh_blind cond" and room: "sel_room s (set (filter (picked s cond) xs))"
  shows "case HASH_SELECT cond NULL src s of Inl e \<Rightarrow> e = Exit (- 1) \<and> False \<in> set (oom s)
    | Inr (dst, s') \<Rightarrow> ut_inv (src_view s') src xs \<and> (\<forall>p. payload s' p = payload s p) \<and>
        (\<exists>ys. distinct ys \<and> set ys = {x \<in> set xs. picked s cond x} \<and> select_dst s' dst ys) \<and>
        (\<forall>i. HASH_FIND dst i s' = Inr (ptr (find (\<lambda>x. SID s x = i) (filter (picked s cond) xs))))"
proof (cases "HASH_SELECT cond NULL src s")
  case (Inl e)
  with HASH_SELECT_correct [OF assms] show ?thesis by (simp add: no_oom_def)
next
  case (Inr r)
  obtain dst s' where r: "r = (dst, s')" by (cases r)
  from HASH_SELECT_correct [OF assms] obtain ys where I: "ut_frame s s'" "SID s' = SID s" "ut_inv (src_view s') src xs"
    "distinct ys" "set ys = {x \<in> set xs. picked s cond x}" "select_dst s' dst ys" by (auto simp: Inr r)
  have d: "distinct (map (SID s) xs)"
    using ut.idents [OF inv] ut.present_in [OF inv] by (simp add: src_view_simps distinct_map inj_on_def)
  have "find (\<lambda>x. SID s x = i) ys = find (\<lambda>x. SID s x = i) (filter (picked s cond) xs)" for i
    by (rule find_bucket_eq [of _ _ "\<lambda>_. True"]) (use I(5) d in \<open>auto simp: distinct_map inj_on_def\<close>)
  then have "HASH_FIND dst i s' = Inr (ptr (find (\<lambda>x. SID s x = i) (filter (picked s cond) xs)))" for i
    using select_dst_find [OF I(6)] I(2) by simp
  with I show ?thesis by (auto simp: Inr r ut_frame_def)
qed

theorem select_correct_witness:
  "\<exists>dst s'. HASH_SELECT (\<lambda>e. 15 < sid e) NULL (fst um2) (with_src (snd um2)) = Inr (dst, s') \<and>
    ut_inv (src_view s') (fst um2) [1, 2] \<and> HASH_FIND dst 20 s' = Inr 2 \<and> HASH_FIND dst 10 s' = Inr NULL"
proof -
  let ?s = "with_src (snd um2)" and ?c = "\<lambda>e. 15 < sid e"
  have b: "hh_blind ?c" by (simp add: hh_blind_def)
  have sid: "SID ?s 1 = 10" "SID ?s 2 = 20" using um2_ok(3,4) um0_ok by (simp_all add: with_src_simps)
  have "filter (picked ?s ?c) [1, 2] = [2]" using sid by (simp add: picked_def SID_def)
  moreover have "sel_room ?s {2}" by (simp add: sel_room_def)
  moreover have "False \<notin> set (oom ?s)" using um2_ok(2) by (simp add: with_src_def no_oom_def)
  ultimately show ?thesis using select_correct [OF with_src_ok [OF um2_ok(1)] b] sid by (auto split: sum.splits)
qed

section \<open>Tables in order\<close>

text \<open>
  C13: sorting a table puts its elements in the order of the comparison function, those that compare equal
  as they stood, in a number of steps bounded by the fuel; every lookup gives what it gave before.
\<close>

theorem sort_table:
  assumes inv: "ut_inv s head xs" and cmp: "cmp_ok cmp" and po: "preorder_on_set (CMP cmp s) (set xs)"
  shows "\<exists>head' s' ys. HASH_SRT cmp head s = Inr (head', s') \<and> ut_inv s' head' ys \<and> mset ys = mset xs \<and>
    sorted_wrt (\<lambda>x y. CMP cmp s x y \<le> 0) ys \<and>
    (\<forall>k \<in> set xs. filter (same (CMP cmp s) k) ys = filter (same (CMP cmp s) k) xs) \<and>
    (\<forall>i. HASH_FIND head' i s' = HASH_FIND head i s)"
proof -
  let ?ys = "merge_sort (CMP cmp s) 1 xs"
  from HASH_SRT_ok [OF inv cmp] obtain head' s' where
    r: "HASH_SRT cmp head s = Inr (head', s')" "ut_inv s' head' ?ys" "ut_step s s'" by blast
  have m: "mset ?ys = mset xs" by (rule mset_merge_sort) simp
  have so: "sorted_wrt (\<lambda>x y. CMP cmp s x y \<le> 0) ?ys"
    by (rule merge_sort_sorted [OF po]) (simp_all add: runs_1)
  have st: "\<forall>k \<in> set xs. filter (same (CMP cmp s) k) ?ys = filter (same (CMP cmp s) k) xs"
    using merge_sort_stable [OF po _ subset_refl, of _ 1] by (simp add: runs_1)
  have "HASH_FIND head' i s' = HASH_FIND head i s" for i
    using ut.look_same [OF inv r(2) r(3) m] by blast
  with r m so st show ?thesis by blast
qed

text \<open>Elements by their key modulo \<open>m\<close>: 20 comes before 10 modulo 15, and 30, 10, 20 are in order modulo 7.\<close>

definition by_mod :: "int \<Rightarrow> elem \<Rightarrow> elem \<Rightarrow> int" where
  "by_mod m x y = uint (sid x) mod m - uint (sid y) mod m"

lemma by_mod_ok: "cmp_ok (by_mod m)" "CMP (by_mod m) s x y = uint (SID s x) mod m - uint (SID s y) mod m"
  "preorder_on_set (CMP (by_mod m) s) A"
  by (auto simp: cmp_ok_def by_mod_def CMP_def SID_def preorder_on_set_def)

theorem sort_table_witness:
  "\<exists>head' s'. HASH_SRT (by_mod 15) (fst um2) (snd um2) = Inr (head', s') \<and> ut_inv s' head' [2, 1]"
proof -
  from sort_table [OF um2_ok(1) by_mod_ok(1) [of 15] by_mod_ok(3)] obtain head' s' ys where
    r: "HASH_SRT (by_mod 15) (fst um2) (snd um2) = Inr (head', s')" "ut_inv s' head' ys" "mset ys = mset [1, 2]"
      "sorted_wrt (\<lambda>x y. CMP (by_mod 15) (snd um2) x y \<le> 0) ys" by blast
  have "length ys = 2" "set ys = {1, 2}" using r(3) mset_eq_length [OF r(3)] mset_eq_setD [OF r(3)] by simp_all
  then have "ys = [1, 2] \<or> ys = [2, 1]"
    by (cases ys; cases "tl ys") (auto simp: doubleton_eq_iff)
  then have "ys = [2, 1]" using r(4) um0_ok(6,7) by (auto simp: by_mod_ok(2) um2_ok(4))
  with r(1,2) show ?thesis by blast
qed

text \<open>
  C14: on a table in order, replacing an element inserts it in its place: the table stays in order, holds the
  new element for its key and the other elements as before, and the element that had the key is handed back.
\<close>

theorem replace_in_order:
  assumes inv: "ut_inv s head xs" and cmp: "cmp_ok cmp" and a: "live (elems s) add"
    and po: "preorder_on_set (CMP cmp s) (insert add (set xs))" and so: "sorted_wrt (\<lambda>x y. CMP cmp s x y \<le> 0) xs"
    and room: "length xs + 1 < 2 ^ 32" "ut_log2 s head < 31" and ok: "no_oom s"
  shows "\<exists>head' old s' ys. HASH_REPLACE_INORDER cmp head add s = Inr (head', old, s') \<and> ut_inv s' head' ys \<and>
    mset ys = add_mset add (mset (filter (\<lambda>x. SID s x \<noteq> SID s add) xs)) \<and> sorted_wrt (\<lambda>x y. CMP cmp s x y \<le> 0) ys \<and>
    old = ptr (index_map (SID s) xs (SID s add)) \<and>
    (\<forall>i. HASH_FIND head' i s' = Inr (if i = SID s add then add else ptr (index_map (SID s) xs i)))"
proof -
  let ?ys = "insert_ordered (CMP cmp s) add (others s add xs)"
  have "ut_room s head xs" using room by (simp add: ut_room_def)
  from HASH_REPLACE_INORDER_ok [OF inv cmp a this] ok obtain head' s' where
    r: "HASH_REPLACE_INORDER cmp head add s = Inr (head', ptr (index_map (SID s) xs (SID s add)), s')"
      "ut_inv s' head' ?ys" "ut_step s s'"
    by (auto simp: add_result_def split: sum.splits)
  have m: "mset ?ys = add_mset add (mset (filter (\<lambda>x. SID s x \<noteq> SID s add) xs))"
    unfolding insert_ordered_mset others_def ..
  have "preorder_on_set (CMP cmp s) (insert add (set (others s add xs)))"
    by (rule preorder_on_set_mono [OF po]) (auto simp: others_def)
  then have "sorted_wrt (\<lambda>x y. CMP cmp s x y \<le> 0) ?ys"
    by (rule insert_ordered_run) (use so in \<open>simp add: others_def sorted_wrt_filter\<close>)
  moreover have "HASH_FIND head' i s' = Inr (if i = SID s add then add else ptr (index_map (SID s) xs i))" for i
    using ut.look_replaced [OF inv r(2,3) m] .
  ultimately show ?thesis using r m by blast
qed

theorem replace_in_order_witness:
  "\<exists>head' s'. HASH_REPLACE_INORDER (by_mod 7) (fst um2) 3 (snd um2) = Inr (head', NULL, s') \<and> ut_inv s' head' [3, 1, 2] \<and>
    HASH_FIND head' 30 s' = Inr 3 \<and> HASH_FIND head' 20 s' = Inr 2"
proof -
  note u = um2_ok(3,4) um0_ok
  have "live (elems (snd um2)) 3" "sorted_wrt (\<lambda>x y. CMP (by_mod 7) (snd um2) x y \<le> 0) [1, 2]"
    "length [1, 2 :: addr] + 1 < 2 ^ 32" "ut_log2 (snd um2) (fst um2) < 31"
    using u um2_ok(5) by (simp_all add: by_mod_ok(2))
  from replace_in_order [OF um2_ok(1) by_mod_ok(1) this(1) by_mod_ok(3) this(2-4) um2_ok(2)] obtain head' s' ys where
    r: "HASH_REPLACE_INORDER (by_mod 7) (fst um2) 3 (snd um2) = Inr (head', NULL, s')" "ut_inv s' head' ys" "mset ys = {#3, 1, 2#}"
      "sorted_wrt (\<lambda>x y. CMP (by_mod 7) (snd um2) x y \<le> 0) ys" "HASH_FIND head' 30 s' = Inr 3" "HASH_FIND head' 20 s' = Inr 2"
    using u by (auto simp: index_map_def)
  have m: "mset ys = mset [3, 1, 2]" using r(3) by simp
  have "length ys = 3" "distinct ys" "set ys = {3, 1, 2}"
    using mset_eq_length [OF m] mset_eq_imp_distinct_iff [OF m] mset_eq_setD [OF m] by simp_all
  moreover from this(1) obtain a b c where abc: "ys = [a, b, c]" by (auto simp: numeral_3_eq_3 length_Suc_conv)
  ultimately have "a \<in> {3, 1, 2}" "b \<in> {3, 1, 2}" "c \<in> {3, 1, 2}" "a \<noteq> b" "b \<noteq> c" "a \<noteq> c" by auto
  then have "ys = [3, 1, 2]" using r(4) u unfolding abc by (auto simp: by_mod_ok(2))
  with r show ?thesis by auto
qed

end
