(* ===== verification/Uthash_Bloom.thy ===== *)
theory Uthash_Bloom
  imports Uthash_Index
begin

unbundle bit_operations_syntax

text \<open>
  What \<open>HASH_BLOOM\<close> adds to a table: a bit vector of \<open>2 ^ n\<close> bits, in which insertion sets the bit of a hash
  value and which lookup tests first. A lookup that the filter lets pass goes on to the bucket; deletion
  leaves the bits. The filter never refuses a key that is in the table (\<open>bloom_find\<close>).
\<close>

section \<open>The macros\<close>

text \<open>The fields that \<open>HASH_BLOOM\<close> adds to \<open>UT_hash_table\<close>, and the memory of the bit vectors.\<close>

record bloom =
  bloom_sig :: u32
  bloom_bv :: addr
  bloom_nbits :: byte

record bloom_mem =
  boom :: "bool list"
  bvs :: "byte list heap"

definition HASH_BLOOM_SIGNATURE :: u32 where
  "HASH_BLOOM_SIGNATURE = 0xb12220f2"

definition HASH_BLOOM_BITLEN :: "nat \<Rightarrow> u64" where
  "HASH_BLOOM_BITLEN n = push_bit n 1"

definition HASH_BLOOM_BYTELEN :: "nat \<Rightarrow> u64" where
  "HASH_BLOOM_BYTELEN n = HASH_BLOOM_BITLEN n div 8 + (if HASH_BLOOM_BITLEN n mod 8 \<noteq> 0 then 1 else 0)"

text \<open>The vector made, zeroed; without memory the program ends.\<close>

definition HASH_BLOOM_MAKE :: "nat \<Rightarrow> bloom \<Rightarrow> bloom_mem \<Rightarrow> (bloom \<times> bloom_mem) res" where
  "HASH_BLOOM_MAKE n T m =
     (let T = T\<lparr>bloom_nbits := of_nat n\<rparr>;
          (b, sch, h) = calloc (replicate (unat (HASH_BLOOM_BYTELEN n)) 0) (boom m) (bvs m);
          T = T\<lparr>bloom_bv := b\<rparr> in
      if b = NULL then Inl (Exit (- 1))
      else Inr (T\<lparr>bloom_sig := HASH_BLOOM_SIGNATURE\<rparr>, m\<lparr>boom := sch, bvs := h\<rparr>))"

definition HASH_BLOOM_FREE :: "bloom \<Rightarrow> bloom_mem \<Rightarrow> bloom_mem res" where
  "HASH_BLOOM_FREE T m = rbind (dealloc (bvs m) (bloom_bv T)) (\<lambda>h. Inr (m\<lparr>bvs := h\<rparr>))"

definition HASH_BLOOM_BITSET :: "addr \<Rightarrow> u32 \<Rightarrow> bloom_mem \<Rightarrow> bloom_mem res" where
  "HASH_BLOOM_BITSET p idx m =
     (let k = unat (idx div 8) in
      rbind (load (bvs m) p) (\<lambda>bv.
      if k < length bv then
        rbind (store (bvs m) p (bv[k := bv ! k OR push_bit (unat (idx mod 8)) 1])) (\<lambda>h. Inr (m\<lparr>bvs := h\<rparr>))
      else Inl OutOfBounds))"

definition HASH_BLOOM_BITTEST :: "addr \<Rightarrow> u32 \<Rightarrow> bloom_mem \<Rightarrow> u32 res" where
  "HASH_BLOOM_BITTEST p idx m =
     (let k = unat (idx div 8) in
      rbind (load (bvs m) p) (\<lambda>bv.
      if k < length bv then Inr (ucast (bv ! k) AND push_bit (unat (idx mod 8)) 1) else Inl OutOfBounds))"

definition bloom_mask :: "nat \<Rightarrow> u32" where
  "bloom_mask n = ucast (push_bit n 1 - 1 :: u64)"

definition HASH_BLOOM_ADD :: "bloom \<Rightarrow> u32 \<Rightarrow> bloom_mem \<Rightarrow> bloom_mem res" where
  "HASH_BLOOM_ADD T v m = HASH_BLOOM_BITSET (bloom_bv T) (v AND bloom_mask (unat (bloom_nbits T))) m"

definition HASH_BLOOM_TEST :: "bloom \<Rightarrow> u32 \<Rightarrow> bloom_mem \<Rightarrow> u32 res" where
  "HASH_BLOOM_TEST T v m = HASH_BLOOM_BITTEST (bloom_bv T) (v AND bloom_mask (unat (bloom_nbits T))) m"

text \<open>\<open>HASH_FIND_BYHASHVALUE\<close> with the filter in front of the bucket.\<close>

definition HASH_FIND_BLOOM :: "bloom \<Rightarrow> bloom_mem \<Rightarrow> addr \<Rightarrow> u32 \<Rightarrow> ('a elem_scheme, 'b) ut_mem_scheme \<Rightarrow> addr res" where
  "HASH_FIND_BLOOM T m head idv s =
     (if head = NULL then Inr NULL
      else rbind (HASH_BLOOM_TEST T (HASH_JEN (id_bytes idv)) m) (\<lambda>r. if r \<noteq> 0 then HASH_FIND head idv s else Inr NULL))"

section \<open>The set of hash values in the filter\<close>

text \<open>The bits set are those of the hash values \<open>H\<close>, of which the filter keeps the low \<open>n\<close> bits.\<close>

definition bloom_ok :: "nat \<Rightarrow> byte list \<Rightarrow> u32 set \<Rightarrow> bool" where
  "bloom_ok n bv H \<longleftrightarrow> length bv = 2 ^ (n - 3) \<and>
     (\<forall>i < 2 ^ n. bit (bv ! (i div 8)) (i mod 8) \<longleftrightarrow> (\<exists>h \<in> H. unat h mod 2 ^ n = i))"

text \<open>The vector of a table's filter in memory.\<close>

definition bloom_at :: "nat \<Rightarrow> bloom \<Rightarrow> bloom_mem \<Rightarrow> u32 set \<Rightarrow> bool" where
  "bloom_at n T m H \<longleftrightarrow> bloom_nbits T = of_nat n \<and> n < 64 \<and> bloom_bv T \<noteq> NULL \<and>
     (\<exists>bv. cells (bvs m) (bloom_bv T) = Some bv \<and> bloom_ok n bv H)"

lemma nbits: "n < 64 \<Longrightarrow> unat (of_nat n :: byte) = n"
  by (simp add: unat_of_nat)

lemma bitlen: "n < 64 \<Longrightarrow> unat (HASH_BLOOM_BITLEN n) = 2 ^ n"
proof -
  assume n: "n < 64"
  have b: "HASH_BLOOM_BITLEN n = of_nat (2 ^ n)" by (simp add: HASH_BLOOM_BITLEN_def push_bit_eq_mult)
  have "(2 :: nat) ^ n < 2 ^ 64" using n by (intro power_strict_increasing) simp_all
  then have "(2 :: nat) ^ n mod 2 ^ LENGTH(64) = 2 ^ n" by (intro mod_less) simp
  then show ?thesis unfolding b unat_of_nat .
qed

lemma pow_div8: "(2 :: nat) ^ n div 8 + (if 2 ^ n mod 8 \<noteq> (0 :: nat) then 1 else 0) = 2 ^ (n - 3)"
proof (cases "n < 3")
  case True
  then have "n \<in> {0, 1, 2}" by auto
  then show ?thesis by auto
next
  case False
  then have "(2 :: nat) ^ n = 8 * 2 ^ (n - 3)" using power_add [of "2 :: nat" 3 "n - 3"] by simp
  then show ?thesis by simp
qed

lemma bytelen: "n < 64 \<Longrightarrow> unat (HASH_BLOOM_BYTELEN n) = 2 ^ (n - 3)"
proof -
  assume n: "n < 64"
  have m: "HASH_BLOOM_BITLEN n mod 8 = 0 \<longleftrightarrow> 2 ^ n mod 8 = (0 :: nat)"
    using bitlen [OF n] by (simp add: unat_mod flip: unat_eq_0)
  have d: "unat (HASH_BLOOM_BITLEN n div 8) = 2 ^ n div 8" using bitlen [OF n] by (simp add: unat_div)
  have "(2 :: nat) ^ n < 2 ^ 64" using n by (intro power_strict_increasing) simp_all
  then have b: "(2 :: nat) ^ n div 8 + 1 < 2 ^ 64" by simp
  have "unat (HASH_BLOOM_BYTELEN n) = 2 ^ n div 8 + (if 2 ^ n mod 8 \<noteq> (0 :: nat) then 1 else 0)"
    using b m d unat_add_lem [of "HASH_BLOOM_BITLEN n div 8" "1 :: u64"] unfolding HASH_BLOOM_BYTELEN_def by auto
  then show ?thesis by (simp only: pow_div8)
qed

lemma low_bits: "n < 64 \<Longrightarrow> unat (h AND bloom_mask n) = unat h mod 2 ^ n"
proof -
  assume n: "n < 64"
  have "push_bit n 1 - 1 = (mask n :: u64)" by (simp add: mask_eq_exp_minus_1 push_bit_eq_mult)
  then have "bit (bloom_mask n) i \<longleftrightarrow> i < n" if "i < 32" for i
    using that by (simp add: bloom_mask_def bit_ucast_iff bit_mask_iff)
  then have "h AND bloom_mask n = take_bit n h"
    by (intro bit_word_eqI) (auto simp: bit_and_iff bit_take_bit_iff)
  then show ?thesis unfolding take_bit_eq_mod [of n "unat h", symmetric] unsigned_take_bit_eq [symmetric] by (rule arg_cong)
qed

lemma byte_index: "i < 2 ^ n \<Longrightarrow> i div 8 < (2 :: nat) ^ (n - 3)"
proof (cases "n < 3")
  case True
  moreover assume "i < 2 ^ n"
  moreover have "(2 :: nat) ^ n < 2 ^ 3" using True by (intro power_strict_increasing) simp_all
  ultimately show ?thesis by simp
next
  case False
  assume "i < 2 ^ n"
  moreover have "(2 :: nat) ^ n = 8 * 2 ^ (n - 3)" using False power_add [of "2 :: nat" 3 "n - 3"] by simp
  ultimately show ?thesis by (simp add: less_mult_imp_div_less mult.commute)
qed

lemma bloom_make:
  assumes "n < 64" "alloc_ok (boom m)" "heap_ok (bvs m)"
  shows "\<exists>T' m'. HASH_BLOOM_MAKE n T m = Inr (T', m') \<and> bloom_at n T' m' {} \<and> bloom_sig T' = HASH_BLOOM_SIGNATURE \<and>
    heap_ok (bvs m') \<and> bloom_bv T' = brk (bvs m) \<and> (\<forall>q. q \<noteq> brk (bvs m) \<longrightarrow> cells (bvs m') q = cells (bvs m) q)"
  using assms heap_ok_calloc [of "bvs m" "replicate (unat (HASH_BLOOM_BYTELEN n)) 0" "boom m"]
  by (auto simp: HASH_BLOOM_MAKE_def calloc_def bloom_at_def bloom_ok_def bytelen byte_index heap_ok_def)

lemma bloom_make_oom: "\<not> alloc_ok (boom m) \<Longrightarrow> HASH_BLOOM_MAKE n T m = Inl (Exit (- 1))"
  by (simp add: HASH_BLOOM_MAKE_def calloc_def)

text \<open>A bit is tested in the byte that holds it.\<close>

lemma bit_pos: "i div 8 = j div 8 \<and> i mod 8 = j mod 8 \<longleftrightarrow> i = j" for i j :: nat
  by (metis div_mult_mod_eq)

lemma unat_div_mod_8: "unat (w div 8) = unat w div 8" "unat (w mod 8) = unat w mod 8" for w :: u32
  by (simp_all add: unat_div unat_mod)

lemma bloom_add:
  assumes b: "bloom_at n T m H"
  shows "\<exists>m'. HASH_BLOOM_ADD T h m = Inr m' \<and> bloom_at n T m' (insert h H) \<and> boom m' = boom m \<and>
    brk (bvs m') = brk (bvs m) \<and> (\<forall>q. q \<noteq> bloom_bv T \<longrightarrow> cells (bvs m') q = cells (bvs m) q)"
proof -
  from b obtain bv where n: "n < 64" and bv: "bloom_nbits T = of_nat n" "bloom_bv T \<noteq> NULL"
      "cells (bvs m) (bloom_bv T) = Some bv" "bloom_ok n bv H"
    by (auto simp: bloom_at_def)
  let ?j = "unat h mod 2 ^ n"
  have j: "?j div 8 < length bv" using bv(4) byte_index [of ?j n] by (simp add: bloom_ok_def)
  let ?bv = "bv[?j div 8 := bv ! (?j div 8) OR push_bit (?j mod 8) 1]"
  have "HASH_BLOOM_ADD T h m = Inr (m\<lparr>bvs := (bvs m)\<lparr>cells := (cells (bvs m))(bloom_bv T := Some ?bv)\<rparr>\<rparr>)"
    using j bv by (simp add: HASH_BLOOM_ADD_def HASH_BLOOM_BITSET_def Let_def unat_div_mod_8 nbits n low_bits [OF n]
        load_def store_def)
  moreover have "bit (?bv ! (i div 8)) (i mod 8) \<longleftrightarrow> bit (bv ! (i div 8)) (i mod 8) \<or> i = ?j" for i
  proof (cases "i div 8 = ?j div 8")
    case True
    then show ?thesis using j bit_pos [of i ?j] by (auto simp: bit_or_iff bit_exp_iff)
  next
    case False
    then show ?thesis by auto
  qed
  then have "bloom_ok n ?bv (insert h H)" using bv(4) by (auto simp: bloom_ok_def)
  ultimately show ?thesis using bv(1,2) n by (auto simp: bloom_at_def)
qed

lemma bloom_test:
  assumes b: "bloom_at n T m H"
  shows "\<exists>r. HASH_BLOOM_TEST T h m = Inr r \<and> (r \<noteq> 0 \<longleftrightarrow> (\<exists>k \<in> H. unat k mod 2 ^ n = unat h mod 2 ^ n))"
proof -
  from b obtain bv where n: "n < 64" and bv: "bloom_nbits T = of_nat n" "bloom_bv T \<noteq> NULL"
      "cells (bvs m) (bloom_bv T) = Some bv" "bloom_ok n bv H"
    by (auto simp: bloom_at_def)
  let ?j = "unat h mod 2 ^ n"
  have j: "?j div 8 < length bv" using bv(4) byte_index [of ?j n] by (simp add: bloom_ok_def)
  let ?r = "ucast (bv ! (?j div 8)) AND push_bit (?j mod 8) 1 :: u32"
  have "HASH_BLOOM_TEST T h m = Inr ?r"
    using j bv by (simp add: HASH_BLOOM_TEST_def HASH_BLOOM_BITTEST_def Let_def unat_div_mod_8 nbits n low_bits [OF n] load_def)
  moreover have "?r \<noteq> 0 \<longleftrightarrow> bit (bv ! (?j div 8)) (?j mod 8)"
  proof -
    have "?j mod 8 < 8" by simp
    then have "bit ?r i \<longleftrightarrow> i = ?j mod 8 \<and> bit (bv ! (?j div 8)) (?j mod 8)" if "i < 32" for i
      using that by (auto simp: bit_and_iff bit_ucast_iff bit_exp_iff)
    then show ?thesis using \<open>?j mod 8 < 8\<close> by (subst bit_eq_iff) auto
  qed
  moreover have "bit (bv ! (?j div 8)) (?j mod 8) \<longleftrightarrow> (\<exists>k \<in> H. unat k mod 2 ^ n = ?j)"
    using bv(4) by (simp add: bloom_ok_def)
  ultimately show ?thesis by blast
qed

lemma bloom_free: "bloom_at n T m H \<Longrightarrow>
  HASH_BLOOM_FREE T m = Inr (m\<lparr>bvs := (bvs m)\<lparr>cells := (cells (bvs m))(bloom_bv T := None)\<rparr>\<rparr>)"
  by (auto simp: bloom_at_def HASH_BLOOM_FREE_def dealloc_def)

section \<open>The life of a filter\<close>

fun bloom_adds :: "bloom \<Rightarrow> u32 list \<Rightarrow> bloom_mem \<Rightarrow> bloom_mem res" where
  "bloom_adds T [] m = Inr m"
| "bloom_adds T (v # vs) m = rbind (HASH_BLOOM_ADD T v m) (bloom_adds T vs)"

lemma bloom_adds_ok:
  "bloom_at n T m H \<Longrightarrow> \<exists>m'. bloom_adds T vs m = Inr m' \<and> bloom_at n T m' (H \<union> set vs) \<and>
    (\<forall>q. q \<noteq> bloom_bv T \<longrightarrow> cells (bvs m') q = cells (bvs m) q)"
proof (induction vs arbitrary: m H)
  case (Cons v vs)
  from bloom_add [OF Cons.prems, of v] obtain m1 where m1: "HASH_BLOOM_ADD T v m = Inr m1" "bloom_at n T m1 (insert v H)"
    "\<forall>q. q \<noteq> bloom_bv T \<longrightarrow> cells (bvs m1) q = cells (bvs m) q" by blast
  from Cons.IH [OF m1(2)] m1 show ?case by auto
qed simp

text \<open>A filter that is made, filled and freed passes what was put into it and leaves the memory as it was.\<close>

lemma bloom_life:
  assumes "n < 64" "alloc_ok (boom m)" "heap_ok (bvs m)"
  shows "\<exists>T' m1 m2 m3. HASH_BLOOM_MAKE n T m = Inr (T', m1) \<and> bloom_adds T' vs m1 = Inr m2 \<and>
    (\<forall>v. \<exists>r. HASH_BLOOM_TEST T' v m2 = Inr r \<and> (r \<noteq> 0 \<longleftrightarrow> (\<exists>k \<in> set vs. unat k mod 2 ^ n = unat v mod 2 ^ n))) \<and>
    HASH_BLOOM_FREE T' m2 = Inr m3 \<and> cells (bvs m3) = cells (bvs m)"
proof -
  from bloom_make [OF assms] obtain T' m1 where m1: "HASH_BLOOM_MAKE n T m = Inr (T', m1)" "bloom_at n T' m1 {}"
    "bloom_bv T' = brk (bvs m)" "\<And>q. q \<noteq> brk (bvs m) \<Longrightarrow> cells (bvs m1) q = cells (bvs m) q" by metis
  from bloom_adds_ok [OF m1(2), of vs] obtain m2 where m2: "bloom_adds T' vs m1 = Inr m2" "bloom_at n T' m2 (set vs)"
    "\<And>q. q \<noteq> brk (bvs m) \<Longrightarrow> cells (bvs m2) q = cells (bvs m) q" using m1(3,4) by (metis sup_bot_left)
  have "(cells (bvs m2))(brk (bvs m) := None) = cells (bvs m)"
    using m2(3) heap_ok_fresh [OF assms(3)] by (auto simp: fun_eq_iff)
  with m1 m2 bloom_test [OF m2(2)] bloom_free [OF m2(2)] show ?thesis by auto
qed

text \<open>With at least the hash values of the table's elements in the filter, lookup is as without it.\<close>

lemma bloom_find:
  assumes inv: "ut_inv s head xs" and b: "bloom_at n T m H" and H: "\<forall>x \<in> set xs. HASH_JEN (id_bytes (SID s x)) \<in> H"
  shows "HASH_FIND_BLOOM T m head i s = HASH_FIND head i s"
proof (rule ut.look_cases [OF inv, of i])
  obtain r where r: "HASH_BLOOM_TEST T (HASH_JEN (id_bytes i)) m = Inr r"
      "r \<noteq> 0 \<longleftrightarrow> (\<exists>k \<in> H. unat k mod 2 ^ n = unat (HASH_JEN (id_bytes i)) mod 2 ^ n)"
    using bloom_test [OF b] by blast
  {
    assume "HASH_FIND head i s = Inr NULL"
    with r(1) show ?thesis by (simp add: HASH_FIND_BLOOM_def)
  next
    fix x assume x: "HASH_FIND head i s = Inr x" "x \<in> set xs" "SID s x = i"
    then have "r \<noteq> 0" using r(2) H by auto
    moreover have "head \<noteq> NULL" using x(2) ut.NULL_iff [OF inv] by auto
    ultimately show ?thesis using r(1) by (simp add: HASH_FIND_BLOOM_def)
  }
qed

end
