(* ===== verification/Create_Threads.thy ===== *)
theory Create_Threads
  imports Provider
begin

text \<open>
  Threads that register streams with one provider at once. The provider's table has no lock:
  \<open>add_stream\<close> looks the identifier up, \<open>HASH_ADD\<close> tests whether the table exists, links the element and
  sets the head, and the counter is raised, and other threads may run between these steps (\<open>astep\<close>). A
  thread that runs alone does what \<open>add_stream\<close> does (\<open>add_alone\<close>). Two threads that register the first
  streams can both find that there is no table, and each makes one: the second replaces the first.
\<close>

datatype apc =
    Find_id addr
  | Test_head addr
  | Link addr bool
  | Count addr
  | Added aggregator_return_t

type_synonym 'x aconf = "'x server \<times> (nat \<Rightarrow> apc)"

text \<open>
  \<open>Link x b\<close>: the thread has tested \<open>!(head)\<close> with result \<open>b\<close>. What it does next to the handle of \<open>x\<close>
  and, when \<open>b\<close> holds, to a new table concerns no other thread until the head is set.
\<close>

inductive astep :: "addr \<Rightarrow> 'x aconf \<Rightarrow> 'x aconf \<Rightarrow> bool" for p :: addr where
  found: "tp t = Find_id x \<Longrightarrow> find_stream p (Id_of x) s = Inr y \<Longrightarrow> y \<noteq> NULL \<Longrightarrow>
    astep p (s, tp) (s, tp(t := Added AGGREGATOR_ERR_INVALID_STREAM))"
| fresh: "tp t = Find_id x \<Longrightarrow> find_stream p (Id_of x) s = Inr NULL \<Longrightarrow>
    astep p (s, tp) (s, tp(t := Test_head x))"
| test: "tp t = Test_head x \<Longrightarrow> load (provs s) p = Inr P \<Longrightarrow>
    astep p (s, tp) (s, tp(t := Link x (streams P = NULL)))"
| first: "tp t = Link x True \<Longrightarrow> HASH_ADD NULL x s = Inr (h, s1) \<Longrightarrow> upd_prov p (\<lambda>P. P\<lparr>streams := h\<rparr>) s1 = Inr s2 \<Longrightarrow>
    astep p (s, tp) (s2, tp(t := Count x))"
| more: "tp t = Link x False \<Longrightarrow> load (provs s) p = Inr P \<Longrightarrow> streams P \<noteq> NULL \<Longrightarrow> HASH_ADD (streams P) x s = Inr (h, s1) \<Longrightarrow>
    upd_prov p (\<lambda>P. P\<lparr>streams := h\<rparr>) s1 = Inr s2 \<Longrightarrow> astep p (s, tp) (s2, tp(t := Count x))"
| count: "tp t = Count x \<Longrightarrow> upd_prov p (\<lambda>P. P\<lparr>num_streams := num_streams P + 1\<rparr>) s = Inr s1 \<Longrightarrow>
    astep p (s, tp) (s1, tp(t := Added AGGREGATOR_SUCCESS))"

inductive areach :: "addr \<Rightarrow> 'x aconf \<Rightarrow> 'x aconf \<Rightarrow> bool" for p :: addr and c :: "'x aconf" where
  here: "areach p c c"
| next_step: "areach p c c' \<Longrightarrow> astep p c' c'' \<Longrightarrow> areach p c c''"

section \<open>One thread at a time\<close>

lemma rbind_InrE: "rbind m f = Inr y \<Longrightarrow> (\<And>x. m = Inr x \<Longrightarrow> f x = Inr y \<Longrightarrow> R) \<Longrightarrow> R"
  by (cases m) auto

lemma add_alone:
  assumes t: "tp t = Find_id x" and run: "add_stream p x s = Inr (r, s')"
  shows "areach p (s, tp) (s', tp(t := Added r))"
proof -
  from run obtain y where y: "find_stream p (Id_of x) s = Inr y"
    unfolding add_stream_def by (rule rbind_InrE)
  show ?thesis
  proof (cases "y = NULL")
    case False
    with run y have "r = AGGREGATOR_ERR_INVALID_STREAM" "s' = s" by (simp_all add: add_stream_def)
    with areach.next_step [OF areach.here astep.found [of tp t x p s y]] t y False show ?thesis by simp
  next
    case True
    with run y obtain P h s1 s2 where
      P: "load (provs s) p = Inr P" and h: "HASH_ADD (streams P) x s = Inr (h, s1)"
      and s2: "upd_prov p (\<lambda>P. P\<lparr>streams := h\<rparr>) s1 = Inr s2" and s': "upd_prov p (\<lambda>P. P\<lparr>num_streams := num_streams P + 1\<rparr>) s2 = Inr s'"
      and r: "r = AGGREGATOR_SUCCESS"
      by (auto simp: add_stream_def elim!: rbind_InrE)
    let ?t1 = "tp(t := Test_head x)" and ?t2 = "tp(t := Link x (streams P = NULL))" and ?t3 = "tp(t := Count x)"
    have 1: "areach p (s, tp) (s, ?t1)" using areach.next_step [OF areach.here astep.fresh [of tp t x p s]] t y True by simp
    have 2: "astep p (s, ?t1) (s, ?t2)" using astep.test [of ?t1 t x s p P] P by simp
    have 3: "astep p (s, ?t2) (s2, ?t3)"
    proof (cases "streams P = NULL")
      case True
      with astep.first [of ?t2 t x s h s1 p s2] h s2 show ?thesis by simp
    next
      case False
      with astep.more [of ?t2 t x s p P h s1 s2] P h s2 show ?thesis by simp
    qed
    have 4: "astep p (s2, ?t3) (s', tp(t := Added r))" using astep.count [of ?t3 t x p s2 s'] s' r by simp
    show ?thesis by (rule areach.next_step [OF areach.next_step [OF areach.next_step [OF 1 2] 3] 4])
  qed
qed

section \<open>A lost stream\<close>

lemma first_link:
  assumes x: "live (elems s) x" and mem: "ut_mem_ok s" and p: "live (provs s) p" and ok: "no_oom s"
  shows "\<exists>s1 s2. HASH_ADD NULL x s = Inr (x, s1) \<and> upd_prov p (\<lambda>P. P\<lparr>streams := x\<rparr>) s1 = Inr s2 \<and> ut_inv s2 x [x] \<and>
    PR s2 p = (PR s p)\<lparr>streams := x\<rparr> \<and> no_oom s2 \<and> live (elems s2) = live (elems s) \<and> SID s2 = SID s \<and> live (provs s2) p"
proof -
  from HASH_ADD_first [OF x mem] ok obtain s1 t L cs where
    h: "HASH_ADD NULL x s = Inr (x, s1)" "ut_step s s1" "table_ok s1 x [x] t L cs"
    by (auto simp: add_result_def split: sum.splits)
  note fr = ut_step_server [OF h(2)]
  let ?s2 = "put_prov p ((PR s p)\<lparr>streams := x\<rparr>) s1"
  have l: "live (provs s1) p" using p fr(2) by simp
  have u: "upd_prov p (\<lambda>P. P\<lparr>streams := x\<rparr>) s1 = Inr ?s2" using l fr(8) by (simp add: view_run)
  have "ut_inv s1 x [x]" using h by (auto simp: ut_inv_def ut_step_def)
  then have "ut_inv ?s2 x [x]" using l by (simp add: srv_simps)
  moreover have "no_oom ?s2" using ut_step_no_oom [OF h(2) ok] by (simp add: no_oom_def srv_simps)
  moreover have "SID ?s2 = SID s" using h(2) by (simp add: ut_step_def SID_ST fun_eq_iff srv_simps)
  moreover have "live (elems ?s2) = live (elems s)" using ut.step_present [OF h(2)] by (simp add: srv_simps)
  ultimately show ?thesis using h(1) u l by (auto simp: srv_simps)
qed

lemma count_step:
  assumes "live (provs s) p"
  shows "\<exists>s'. upd_prov p (\<lambda>P. P\<lparr>num_streams := num_streams P + 1\<rparr>) s = Inr s' \<and> PR s' p = (PR s p)\<lparr>num_streams := num_streams (PR s p) + 1\<rparr> \<and>
    live (provs s') p \<and> (\<forall>h xs. ut_inv s' h xs = ut_inv s h xs) \<and> SID s' = SID s \<and> live (elems s') = live (elems s)"
proof -
  have "SID (put_prov p P s) = SID s" for P by (simp add: SID_ST fun_eq_iff srv_simps)
  with assms show ?thesis by (simp add: view_run srv_simps)
qed

lemma lost_stream:
  assumes inv: "prov_inv s p []" and x: "live (elems s) x" "live (elems s) y" "SID s x \<noteq> SID s y" and ok: "no_oom s"
    and t: "tp t = Find_id x" "tp u = Find_id y" "t \<noteq> u"
  shows "\<exists>s' tp'. areach p (s, tp) (s', tp') \<and> tp' t = Added AGGREGATOR_SUCCESS \<and> tp' u = Added AGGREGATOR_SUCCESS \<and>
    live (elems s') x \<and> find_stream p (Id_of x) s' = Inr NULL \<and> ut_inv s' (streams (PR s' p)) [y] \<and> num_streams (PR s' p) = 2"
proof -
  have P: "live (provs s) p" "load (provs s) p = Inr (PR s p)" "streams (PR s p) = NULL" "num_streams (PR s p) = 0" "ut_mem_ok s"
    using inv by (auto simp: prov_inv_def load_live PR_def)
  have f: "find_stream p (Id_of z) s = Inr NULL" for z using P by (simp add: find_stream_def)
  let ?c1 = "tp(t := Test_head x)" let ?c2 = "?c1(u := Test_head y)" let ?c3 = "?c2(t := Link x True)" let ?c4 = "?c3(u := Link y True)"
  have 1: "astep p (s, tp) (s, ?c1)" using astep.fresh [of tp t x p s] t f by simp
  have 2: "astep p (s, ?c1) (s, ?c2)" using astep.fresh [of ?c1 u y p s] t f by simp
  have 3: "astep p (s, ?c2) (s, ?c3)" using astep.test [of ?c2 t x s p "PR s p"] t P by simp
  have 4: "astep p (s, ?c3) (s, ?c4)" using astep.test [of ?c3 u y s p "PR s p"] t P by simp
  obtain s1 s2 where l: "HASH_ADD NULL x s = Inr (x, s1)" "upd_prov p (\<lambda>P. P\<lparr>streams := x\<rparr>) s1 = Inr s2" "ut_inv s2 x [x]"
      "PR s2 p = (PR s p)\<lparr>streams := x\<rparr>" "no_oom s2" "live (elems s2) = live (elems s)" "SID s2 = SID s" "live (provs s2) p"
    using first_link [OF x(1) P(5) P(1) ok] by blast
  let ?c5 = "?c4(t := Count x)"
  have 5: "astep p (s, ?c4) (s2, ?c5)" using astep.first [of ?c4 t x s x s1 p s2] l t by simp
  have y2: "live (elems s2) y" "ut_mem_ok s2" using x(2) l(3,6) by (simp_all add: ut_inv_mem_ok)
  obtain s3 s4 where k: "HASH_ADD NULL y s2 = Inr (y, s3)" "upd_prov p (\<lambda>P. P\<lparr>streams := y\<rparr>) s3 = Inr s4" "ut_inv s4 y [y]"
      "PR s4 p = (PR s2 p)\<lparr>streams := y\<rparr>" "live (elems s4) = live (elems s2)" "SID s4 = SID s2" "live (provs s4) p"
    using first_link [OF y2 l(8,5)] by blast
  let ?c6 = "?c5(u := Count y)"
  have 6: "astep p (s2, ?c5) (s4, ?c6)" using astep.first [of ?c5 u y s2 y s3 p s4] k t by simp
  obtain s5 where a: "upd_prov p (\<lambda>P. P\<lparr>num_streams := num_streams P + 1\<rparr>) s4 = Inr s5" "PR s5 p = (PR s4 p)\<lparr>num_streams := num_streams (PR s4 p) + 1\<rparr>"
      "live (provs s5) p" "\<And>h xs. ut_inv s5 h xs = ut_inv s4 h xs" "SID s5 = SID s4" "live (elems s5) = live (elems s4)"
    using count_step [OF k(7)] by blast
  let ?c7 = "?c6(t := Added AGGREGATOR_SUCCESS)"
  have 7: "astep p (s4, ?c6) (s5, ?c7)" using astep.count [of ?c6 t x p s4 s5] a t by simp
  obtain s6 where b: "upd_prov p (\<lambda>P. P\<lparr>num_streams := num_streams P + 1\<rparr>) s5 = Inr s6" "PR s6 p = (PR s5 p)\<lparr>num_streams := num_streams (PR s5 p) + 1\<rparr>"
      "live (provs s6) p" "\<And>h xs. ut_inv s6 h xs = ut_inv s5 h xs" "SID s6 = SID s5" "live (elems s6) = live (elems s5)"
    using count_step [OF a(3)] by blast
  let ?c8 = "?c7(u := Added AGGREGATOR_SUCCESS)"
  have 8: "astep p (s5, ?c7) (s6, ?c8)" using astep.count [of ?c7 u y p s5 s6] b t by simp
  note r = areach.next_step [OF areach.next_step [OF areach.next_step [OF areach.next_step [OF areach.next_step [OF areach.next_step
    [OF areach.next_step [OF areach.next_step [OF areach.here 1] 2] 3] 4] 5] 6] 7] 8]
  have st: "streams (PR s6 p) = y" "num_streams (PR s6 p) = 2" using a b k l P by simp_all
  have i6: "ut_inv s6 y [y]" using a(4) b(4) k(3) by simp
  have sid: "SID s6 = SID s" "live (elems s6) = live (elems s)" using a b k l by simp_all
  have y0: "y \<noteq> NULL" using x(2) by (auto simp: live_def)
  have "find_stream p (Id_of x) s6 = Inr NULL"
    using ut.look_miss [OF i6, of "SID s x"] x sid b(3) st y0 SID_ST [of s6 x]
    by (simp add: find_stream_def view_run)
  with r t sid st i6 x(1) show ?thesis by (intro exI [of _ s6] exI [of _ ?c8]) simp
qed

end
