(* ===== verification/Provider_Theorems.thy ===== *)
theory Provider_Theorems
  imports Scenario Create_Threads
begin

text \<open>
  What holds of the provider (\<open>provider.c\<close>): the life of streams and providers, and the two RPC
  handlers, on their good paths and on the others. The witnesses run on the process of \<open>Scenario\<close>.
\<close>

section \<open>Creating streams\<close>

text \<open>
  C7: creating a stream under a new identifier registers it: it is a fresh object with the given
  type, texts and tags, no samples, and the provider's map of streams grows by it.
\<close>

theorem create_registers:
  assumes pre: "create_pre ns name dsc tgl s i" and mem: "mem_ok s" and inv: "prov_inv s p xs"
    and room: "ut_room s (streams (PR s p)) xs" and new: "registry s xs i = None"
  shows "\<exists>st s'. aggregator_provider_stream_create A ns name t dsc tgl p s = Inr (AGGREGATOR_SUCCESS, Some st, s') \<and>
    \<not> live (elems s) st \<and> prov_inv s' p (xs @ [st]) \<and> registry s' (xs @ [st]) = (registry s xs)(i \<mapsto> st) \<and>
    stream_init i ns name t dsc tgl (ST s' st) \<and> stream_wf s' st \<and> samples s' st = [] \<and>
    unat (num_streams (PR s' p)) = length xs + 1"
proof -
  from stream_create_cases [OF pre inv room, of A t] new obtain st s' where
    s': "aggregator_provider_stream_create A ns name t dsc tgl p s = Inr (AGGREGATOR_SUCCESS, Some st, s')"
      "st = brk (elems s)" "live (elems s') st" "stream_init i ns name t dsc tgl (ST s' st)"
      "buffer (ST s' st) = brk (bufs s)"
      "cells (bufs s') = (cells (bufs s))(brk (bufs s) := Some (azero STREAM_BUFFER_SIZE zero_sample))"
      "prov_inv s' p (xs @ [st])" "registry s' (xs @ [st]) = (registry s xs)(i \<mapsto> st)"
    by auto
  have "heap_ok (elems s)" using inv by (simp add: prov_inv_def ut_inv_def ut_mem_ok_def)
  from heap_ok_fresh [OF this] have fresh: "\<not> live (elems s) st" using s'(2) by (simp add: live_def)
  have sb: "alen (sbuf s' st) = STREAM_BUFFER_SIZE" using s'(5,6) by (simp add: sbuf_def azero_def)
  have i0: "buffer_index (ST s' st) = 0" using s'(4) by (simp add: stream_init_def)
  have "brk (bufs s) \<noteq> NULL" using mem by (simp add: mem_ok_def heap_ok_def)
  then have "live (bufs s') (buffer (ST s' st))" unfolding s'(5) using s'(6) by (simp add: live_def)
  then have "stream_wf s' st" using s'(3,4) sb i0 by (simp add: stream_wf_def stream_init_def)
  moreover have "samples s' st = []" using i0 by (simp add: samples_def)
  moreover have "unat (num_streams (PR s' p)) = length xs + 1" using num_streams_length [OF s'(7)] by simp
  ultimately show ?thesis using s'(1,4,7,8) fresh by blast
qed

theorem create_registers_witness:
  "\<exists>st s'. aggregator_provider_stream_create sim_abt (Some demo_ns) (Some demo_name) AGGREGATOR_TYPE_TIMER (Some demo_desc) 1 1 sv2 =
      Inr (AGGREGATOR_SUCCESS, Some st, s') \<and> prov_inv s' 1 [st] \<and> registry s' [st] demo_id = Some st"
proof -
  have "registry sv2 [] demo_id = None" by (simp add: registry_def index_map_def)
  moreover have "mem_ok sv2" "prov_inv sv2 1 []" using sv2_ok by (simp_all add: process_inv_def)
  ultimately show ?thesis using create_registers [OF demo_pre _ _ sv2_room, of sim_abt AGGREGATOR_TYPE_TIMER] by fastforce
qed

text \<open>
  C28: creating a stream under an identifier that is in use reports success and hands out a stream
  which the provider does not know: its map is unchanged, and the identifier still leads to the
  first stream. The result of \<open>add_stream\<close> is dropped.
\<close>

theorem create_duplicate:
  assumes pre: "create_pre ns name dsc tgl s i" and inv: "prov_inv s p xs"
    and room: "ut_room s (streams (PR s p)) xs" and old: "registry s xs i = Some x"
  shows "\<exists>st s'. aggregator_provider_stream_create A ns name t dsc tgl p s = Inr (AGGREGATOR_SUCCESS, Some st, s') \<and>
    st \<notin> set xs \<and> prov_inv s' p xs \<and> registry s' xs = registry s xs \<and> find_stream p (Id_of st) s' = Inr x"
proof -
  from stream_create_cases [OF pre inv room, of A t] old obtain st s' where
    s': "aggregator_provider_stream_create A ns name t dsc tgl p s = Inr (AGGREGATOR_SUCCESS, Some st, s')"
      "st = brk (elems s)" "live (elems s') st" "stream_init i ns name t dsc tgl (ST s' st)"
      "prov_inv s' p xs" "registry s' xs = registry s xs"
    by auto
  have "heap_ok (elems s)" using inv by (simp add: prov_inv_def ut_inv_def ut_mem_ok_def)
  then have "st \<notin> set xs" using prov_inv_live [OF inv] heap_ok_live_lt s'(2) by fastforce
  moreover have "read_id (Id_of st) s' = Inr i" using s'(3,4) by (simp add: view_run stream_init_def)
  then have "find_stream p (Id_of st) s' = Inr x" using find_stream_ok [OF s'(5)] s'(6) old by simp
  ultimately show ?thesis using s' by blast
qed

theorem create_duplicate_witness:
  "\<exists>st s'. aggregator_provider_stream_create sim_abt (Some demo_ns) (Some demo_name) AGGREGATOR_TYPE_TIMER (Some demo_desc) 1 1
      (sv3 AGGREGATOR_TYPE_COUNTER) = Inr (AGGREGATOR_SUCCESS, Some st, s') \<and> st \<noteq> 1 \<and> prov_inv s' 1 [1] \<and>
    find_stream 1 (Id_of st) s' = Inr 1"
proof -
  have "registry (sv3 AGGREGATOR_TYPE_COUNTER) [1] demo_id = Some 1" by (simp only: sv3_registry fun_upd_same)
  from create_duplicate [OF sv3_pre sv3_facts(1) sv3_ut_room this, of sim_abt AGGREGATOR_TYPE_TIMER] show ?thesis by auto
qed

text \<open>
  C29: a name of 36 bytes or more is copied past the end of the stream's array; nothing checks its
  length.
\<close>

theorem create_overflow:
  assumes name: "terminated t" "36 \<le> length (cstring t)"
    and T: "load (tagls s) tgl = Inr T" "tag_strings s (taglist T) (nat (num_tags T)) = Inr tags"
      "aggregator_id_from_string_identifiers ns t tags (num_tags T) = Inr i"
    and mem: "heap_ok (elems s)" "alloc_ok (oom s)"
  shows "aggregator_provider_stream_create A (Some ns) (Some t) ty dsc tgl p s = Inl OutOfBounds"
proof -
  define st m s1 where "st = brk (elems s)" and "m = fst (ABT_mutex_create A (abt s))" and "s1 = new_stream A s"
  have l1: "live (elems s1) st" using mem(1) by (auto simp: s1_def st_def live_new_stream live_def heap_ok_def)
  have e1: "ST s1 st = zero_stream" by (simp add: s1_def st_def srv_simps)
  define s2 where "s2 = put_stream st (zero_stream\<lparr>stream_mutex := m, sid := i\<rparr>) s1"
  have c: "calloc zero_stream (oom s) (elems s) = (st, tl (oom s), elems s1)"
    using mem(2) by (simp add: calloc_def s1_def st_def new_stream_def)
  have ab: "ABT_mutex_create A (abt s) = (m, abt s1)" by (simp add: m_def s1_def srv_simps)
  have f1: "s\<lparr>oom := tl (oom s), elems := elems s1, abt := abt s1\<rparr> = s1" by (simp add: s1_def new_stream_def)
  have u: "upd_stream st (\<lambda>e. e\<lparr>stream_mutex := m\<rparr>) s1 = Inr (put_stream st (zero_stream\<lparr>stream_mutex := m\<rparr>) s1)"
    "upd_stream st (\<lambda>e. e\<lparr>sid := i\<rparr>) (put_stream st (zero_stream\<lparr>stream_mutex := m\<rparr>) s1) = Inr s2"
    using l1 e1 by (simp_all add: view_run srv_simps put_stream_twice s2_def)
  have "live (elems s2) st" "length (sname (ST s2 st)) = 36" using l1 by (simp_all add: s2_def srv_simps zero_stream_def)
  then have o: "strcpy_field sname (\<lambda>r e. e\<lparr>sname := r\<rparr>) st (Some t) s2 = Inl OutOfBounds"
    using name by (intro strcpy_field_overflow) simp_all
  have nn: "\<not> (Some ns = None \<or> Some t = None)" by simp
  have sel: "the (Some ns) = ns" "the (Some t) = t" by simp_all
  show ?thesis
    unfolding aggregator_provider_stream_create_def if_not_P [OF nn] sel T rbind_Inr c Let_def prod.case
    using f1 by (simp add: ab u o)
qed

theorem create_overflow_witness:
  "aggregator_provider_stream_create sim_abt (Some demo_ns) (Some (replicate 36 97 @ [0])) AGGREGATOR_TYPE_TIMER (Some demo_desc) 1 1 sv2 =
    Inl OutOfBounds"
proof -
  let ?t = "replicate 36 97 @ [0] :: byte list"
  have t: "terminated ?t" "cstring ?t = replicate 36 97"
    by (simp_all add: terminated_def cstring_append_NUL)
  from tag_strings_at [OF sv2_tags order_refl] obtain T where
    T: "load (tagls sv2) 1 = Inr T" "num_tags T = 1" "tag_strings sv2 (taglist T) 1 = Inr [tag_text demo_tag]" by auto
  have "aggregator_id_from_string_identifiers demo_ns ?t [tag_text demo_tag] (num_tags T) =
      Inr (stream_id_spec demo_ns ?t [tag_text demo_tag])"
    using id_from_strings_eq [of demo_ns ?t "[tag_text demo_tag]" 1] t demo_texts(1) by (simp add: tags_ok_def T)
  moreover have "heap_ok (elems sv2)" "alloc_ok (oom sv2)"
    using sv2_ok by (simp_all add: process_inv_def prov_inv_def ut_inv_def ut_mem_ok_def mem_ok_def no_oom_alloc_ok)
  ultimately show ?thesis
    using create_overflow [OF t(1) _ T(1), of "[tag_text demo_tag]" demo_ns] t(2) T by simp
qed

section \<open>Destroying streams\<close>

text \<open>
  C27: destroying a stream. One the provider does not know is refused and nothing changes. One it
  knows is removed and freed by \<open>remove_stream\<close>, and then read again: the call never ends well.
\<close>

theorem destroy_stream:
  assumes "prov_inv s p xs" "live (elems s) m"
  shows "aggregator_provider_stream_destroy A m p s =
    (if registry s xs (SID s m) = None then Inr (AGGREGATOR_ERR_INVALID_STREAM, s) else Inl Dangling)"
  using stream_destroy_unknown [OF assms] stream_destroy_faults [OF assms]
  by (cases "registry s xs (SID s m)") simp_all

theorem destroy_stream_witness:
  "live (elems (sv3 AGGREGATOR_TYPE_GAUGE)) 1 \<and>
   aggregator_provider_stream_destroy sim_abt 1 1 (sv3 AGGREGATOR_TYPE_GAUGE) = Inl Dangling"
proof -
  have "registry (sv3 AGGREGATOR_TYPE_GAUGE) [1] (SID (sv3 AGGREGATOR_TYPE_GAUGE) 1) = Some 1"
    by (simp only: sv3_registry sv3_facts(9) fun_upd_same)
  with destroy_stream [OF sv3_facts(1,10)] sv3_facts(10) show ?thesis by simp
qed

text \<open>
  C26: destroying all streams ends, frees exactly the registered ones and leaves an empty map. Their
  sample buffers and mutexes are not given back.
\<close>

theorem destroy_all_frees:
  assumes "prov_inv s p xs"
  shows "\<exists>s'. aggregator_provider_destroy_all_streams p s = Inr (AGGREGATOR_SUCCESS, s') \<and> prov_inv s' p [] \<and>
    num_streams (PR s' p) = 0 \<and> (\<forall>q. live (elems s') q \<longleftrightarrow> live (elems s) q \<and> q \<notin> set xs) \<and>
    (\<forall>i. find_stream p (Id_var i) s' = Inr NULL) \<and> bufs s' = bufs s \<and> abt s' = abt s"
proof -
  from remove_all_streams_ok [OF assms] obtain s' where s': "remove_all_streams p s = Inr s'" "prov_inv s' p []"
    "prov_frame p s s'" "\<forall>q. live (elems s') q \<longleftrightarrow> live (elems s) q \<and> q \<notin> set xs" by blast
  have "find_stream p (Id_var i) s' = Inr NULL" for i
    using find_stream_ok [OF s'(2), of "Id_var i" i] by (simp add: registry_def index_map_def)
  with s' show ?thesis
    by (simp add: aggregator_provider_destroy_all_streams_def prov_frame_def prov_inv_def)
qed

theorem destroy_all_frees_witness:
  "\<exists>s'. aggregator_provider_destroy_all_streams 1 (sv3 AGGREGATOR_TYPE_GAUGE) = Inr (AGGREGATOR_SUCCESS, s') \<and>
    \<not> live (elems s') 1 \<and> find_stream 1 (Id_var demo_id) s' = Inr NULL"
  using destroy_all_frees [OF sv3_facts(1) [of AGGREGATOR_TYPE_GAUGE]] by auto

section \<open>Providers\<close>

text \<open>
  Registering a provider, on each of its branches. It needs a listening Margo instance and an
  identifier not in use; then the provider is made, with no streams, both RPCs are registered on its
  pool and lead to it, and the finalize callback is pushed where the arguments ask for it (as the
  default ones do).
\<close>

theorem register_provider:
  assumes mem: "ut_mem_ok s" "heap_ok (provs s)" "alloc_ok (oom s)"
  shows "if \<not> re_listening env
    then aggregator_provider_register env mid pid args s = Inr (AGGREGATOR_ERR_INVALID_ARGS, NULL, s)
    else if re_registered env
    then aggregator_provider_register env mid pid args s = Inr (AGGREGATOR_ERR_INVALID_PROVIDER, NULL, s)
    else \<exists>p s' a. aggregator_provider_register env mid pid args s = Inr (AGGREGATOR_SUCCESS, p, s') \<and>
      a = (case args of None \<Rightarrow> AGGREGATOR_PROVIDER_ARGS_INIT | Some a \<Rightarrow> a) \<and> \<not> live (provs s) p \<and> prov_inv s' p [] \<and>
      PR s' p = \<lparr>pmid = mid, provider_id = pid, pool = a_pool a, abtio = a_abtio a, num_streams = 0,
        streams = NULL, list_streams_id = re_list_id env, stream_fetch_id = re_fetch_id env\<rparr> \<and>
      calls s' = calls s @ [MARGO_REGISTER_PROVIDER (re_fetch_id env) pid (a_pool a), margo_register_data (re_fetch_id env) p,
        MARGO_REGISTER_PROVIDER (re_list_id env) pid (a_pool a), margo_register_data (re_list_id env) p] @
        (if a_push_finalize_callback a \<noteq> 0 then [margo_provider_push_finalize_callback p] else [])"
proof -
  have fresh: "\<not> live (provs s) (brk (provs s))" using heap_ok_fresh [OF mem(2)] by (simp add: live_def)
  show ?thesis
  proof (cases "re_listening env \<and> \<not> re_registered env")
    case True
    then have n: "\<not> \<not> re_listening env" "\<not> re_registered env" by simp_all
    from register_ok [OF _ n(2) mem(3,1,2), of mid pid args] n(1) obtain p s' where
      "aggregator_provider_register env mid pid args s = Inr (AGGREGATOR_SUCCESS, p, s')" "prov_inv s' p []" "p = brk (provs s)"
      "calls s' = calls s @ register_calls env p pid (case args of None \<Rightarrow> AGGREGATOR_PROVIDER_ARGS_INIT | Some a \<Rightarrow> a)"
      "PR s' p = \<lparr>pmid = mid, provider_id = pid, pool = a_pool (case args of None \<Rightarrow> AGGREGATOR_PROVIDER_ARGS_INIT | Some a \<Rightarrow> a),
        abtio = a_abtio (case args of None \<Rightarrow> AGGREGATOR_PROVIDER_ARGS_INIT | Some a \<Rightarrow> a), num_streams = 0,
        streams = NULL, list_streams_id = re_list_id env, stream_fetch_id = re_fetch_id env\<rparr>"
      by auto
    then show ?thesis unfolding if_not_P [OF n(1)] if_not_P [OF n(2)]
      using fresh by (intro exI conjI) (assumption | simp add: register_calls_def)+
  next
    case False
    then show ?thesis using register_not_listening [of env mid pid args s] register_twice [of env mid pid args s] by simp
  qed
qed

theorem register_provider_witness:
  "\<exists>p s'. aggregator_provider_register demo_env 5 3 None sv0 = Inr (AGGREGATOR_SUCCESS, p, s') \<and> prov_inv s' p [] \<and>
    margo_provider_push_finalize_callback p \<in> set (calls s')"
proof -
  have "alloc_ok (oom sv0)" by (simp add: sv0_def)
  from register_provider [OF sv0_ok(1,2) this, of demo_env 5 3 None] show ?thesis
    by (auto simp: demo_env_def AGGREGATOR_PROVIDER_ARGS_INIT_def)
qed

text \<open>
  Finalizing a provider deregisters both RPCs and frees the registered streams and the provider,
  in this order. Its last statement then logs through the provider it has freed, so neither the
  callback nor \<open>aggregator_provider_destroy\<close> ends well.
\<close>

theorem finalize_provider:
  assumes inv: "prov_inv s p xs"
  shows "(\<exists>s'. finalize_body p s = Inr s' \<and> \<not> live (provs s') p \<and>
      calls s' = calls s @ [margo_deregister (stream_fetch_id (PR s p)), margo_deregister (list_streams_id (PR s p))] \<and>
      (\<forall>q. live (elems s') q \<longleftrightarrow> live (elems s) q \<and> q \<notin> set xs)) \<and>
    aggregator_finalize_provider p s = Inl Dangling \<and> aggregator_provider_destroy p s = Inl Dangling"
  using finalize_body_ok [OF inv] finalize_faults [OF inv] destroy_faults [OF inv] by blast

theorem finalize_provider_witness:
  "prov_inv (sv3 AGGREGATOR_TYPE_TIMER) 1 [1] \<and> aggregator_provider_destroy 1 (sv3 AGGREGATOR_TYPE_TIMER) = Inl Dangling"
  using finalize_provider [OF sv3_facts(1)] sv3_facts(1) by blast

section \<open>The handlers\<close>

text \<open>
  C25: fetching samples. A request for a registered stream gets the last samples, as many as asked
  for or as there are, padded with zeros to the count, and the stream's name and namespace; the
  provider is as before. When the transfer fails, the response says so and nothing is pushed.
\<close>

theorem fetch_last_samples:
  assumes inv: "prov_inv s p xs" and reg: "registry s xs (fi_stream_id i) = Some st" and wf: "stream_wf s st"
    and env: "fe_input env = Some i" "fe_bulk_create env = HG_SUCCESS"
    and cnt: "24 * unat (fi_count i) < 2 ^ 63" and mem: "mem_ok s"
  shows "\<exists>s' out. aggregator_stream_fetch_ult env p s =
      Inr (if fe_bulk_transfer env = HG_SUCCESS
           then (out, Some (last_n (unat (fi_count i)) (samples s st) @
                   replicate (unat (fi_count i) - length (samples s st)) zero_sample), s')
           else (out\<lparr>fo_ret := ret_code AGGREGATOR_ERR_FROM_MERCURY\<rparr>, None, s')) \<and>
    out = \<lparr>fo_actual_count = of_nat (min (unat (fi_count i)) (length (samples s st))),
       fo_name = cstring (sname (ST s st)), fo_ns = cstring (sns (ST s st)), fo_ret = ret_code AGGREGATOR_SUCCESS\<rparr> \<and>
    fetch_frame s s' \<and> prov_inv s' p xs"
  using fetch_ok [OF inv reg wf env cnt] mem by (auto simp: mem_ok_def fetch_data_def)

definition demo_fetch :: "int \<Rightarrow> u64 \<Rightarrow> fetch_env" where
  "demo_fetch tr n = \<lparr>fe_input = Some \<lparr>fi_stream_id = demo_id, fi_count = n, fi_bulk = 6\<rparr>,
     fe_bulk_create = HG_SUCCESS, fe_bulk_transfer = tr\<rparr>"

theorem fetch_last_samples_witness:
  "\<exists>a b s' out. aggregator_stream_fetch_ult (demo_fetch HG_SUCCESS 3) 1 sv4 = Inr (out, Some [a, b, zero_sample], s') \<and>
    val a = 0x3FF0000000000000 \<and> val b = 0x4000000000000000 \<and> fo_name out = [110, 97, 109, 101] \<and> fo_actual_count out = 2"
proof -
  let ?i = "\<lparr>fi_stream_id = demo_id, fi_count = 3, fi_bulk = 6\<rparr>"
  have r: "registry sv4 [1] (fi_stream_id ?i) = Some 1" using sv4_registry by simp
  obtain a b where ab: "samples sv4 1 = [a, b]" "val a = 0x3FF0000000000000" "val b = 0x4000000000000000"
    using sv4_svals by (auto simp: svals_def map_eq_Cons_conv)
  have e: "last_n (unat (fi_count ?i)) (samples sv4 1) @ replicate (unat (fi_count ?i) - length (samples sv4 1)) zero_sample =
      [a, b, zero_sample]"
    unfolding ab(1) by (simp add: last_n_def)
  have f: "fe_input (demo_fetch HG_SUCCESS 3) = Some ?i" "fe_bulk_create (demo_fetch HG_SUCCESS 3) = HG_SUCCESS"
    "fe_bulk_transfer (demo_fetch HG_SUCCESS 3) = HG_SUCCESS" "24 * unat (fi_count ?i) < 2 ^ 63"
    by (simp_all add: demo_fetch_def)
  from fetch_last_samples [OF sv4_facts(1) r sv4_facts(3) f(1,2,4) sv4_facts(2)] obtain s' out where
    "aggregator_stream_fetch_ult (demo_fetch HG_SUCCESS 3) 1 sv4 = Inr (out, Some [a, b, zero_sample], s')"
    "out = \<lparr>fo_actual_count = of_nat (min (unat (fi_count ?i)) (length (samples sv4 1))),
       fo_name = cstring (sname (ST sv4 1)), fo_ns = cstring (sns (ST sv4 1)), fo_ret = ret_code AGGREGATOR_SUCCESS\<rparr>"
    unfolding e if_P [OF f(3)] by blast
  then show ?thesis using ab(2,3) sv4_stream(1) sv4_facts(4)
    by (intro exI [of _ a] exI [of _ b] exI [of _ s'] exI [of _ out]) simp
qed

text \<open>
  C30: a fetch whose input cannot be decoded, whose bulk handle cannot be created, or which names no
  registered stream, ends in the read of an uninitialised variable: the label \<open>finish\<close> frees, sends
  or releases what these paths never set.
\<close>

theorem fetch_uninitialised:
  assumes inv: "prov_inv s p xs" and hp: "heap_ok (bufs s)"
    and bad: "case fe_input env of None \<Rightarrow> True
      | Some i \<Rightarrow> \<not> (fe_bulk_create env = HG_SUCCESS \<and> registry s xs (fi_stream_id i) \<noteq> None)"
  shows "aggregator_stream_fetch_ult env p s = Inl Uninit"
proof (cases "fe_input env")
  case None
  have "live (provs s) p" using inv by (simp add: prov_inv_def)
  from fetch_bad_input [OF None this] show ?thesis .
next
  case (Some i)
  show ?thesis
  proof (cases "fe_bulk_create env = HG_SUCCESS")
    case True
    with bad Some have "registry s xs (fi_stream_id i) = None" by simp
    from fetch_unknown [OF inv this hp Some True] show ?thesis .
  next
    case False
    have "live (provs s) p" using inv by (simp add: prov_inv_def)
    from fetch_no_bulk [OF Some False this hp] show ?thesis .
  qed
qed

theorem fetch_uninitialised_witness:
  "aggregator_stream_fetch_ult (demo_fetch HG_SUCCESS 2) 1 sv1 = Inl Uninit"
proof -
  have "prov_inv sv1 1 []" "heap_ok (bufs sv1)" using sv1_ok by (simp_all add: process_inv_def mem_ok_def)
  from fetch_uninitialised [OF this] show ?thesis by (simp add: demo_fetch_def registry_def index_map_def)
qed

text \<open>
  A fetch with a negative count. The buffer's size overflows, the allocation fails, and the
  samples are copied to the null pointer.
\<close>

theorem fetch_negative_count:
  assumes inv: "prov_inv s p xs" and reg: "registry s xs (fi_stream_id i) = Some st" and wf: "stream_wf s st"
    and env: "fe_input env = Some i" "fe_bulk_create env = HG_SUCCESS"
    and cnt: "sint (fi_count i) < 0" "24 * fi_count i \<noteq> 0" and mem: "mem_ok s"
  shows "aggregator_stream_fetch_ult env p s = Inl NullDeref"
  using fetch_negative [OF inv reg wf env cnt] mem by (simp add: mem_ok_def)

theorem fetch_negative_count_witness:
  "aggregator_stream_fetch_ult (demo_fetch HG_SUCCESS (- 1)) 1 (sv3 AGGREGATOR_TYPE_COUNTER) = Inl NullDeref"
proof -
  let ?i = "\<lparr>fi_stream_id = demo_id, fi_count = - 1, fi_bulk = 6\<rparr>"
  have r: "registry (sv3 AGGREGATOR_TYPE_COUNTER) [1] (fi_stream_id ?i) = Some 1"
    using sv3_registry [of AGGREGATOR_TYPE_COUNTER] by simp
  have "sint (fi_count ?i) < 0" "24 * fi_count ?i \<noteq> 0" by simp_all
  from fetch_negative_count [OF sv3_facts(1) r sv3_facts(3) _ _ this sv3_facts(2)] show ?thesis by (simp add: demo_fetch_def)
qed

text \<open>
  Listing streams. The response carries the identifiers of the registered streams in the order
  of their creation, cut off at the number asked for, and the count of those it carries. The
  handler's array is given back.
\<close>

theorem list_ids:
  assumes inv: "prov_inv s p xs" and mem: "mem_ok s"
  shows "\<exists>s' r. aggregator_list_streams_ult (Some mx) p s = Inr (r, s') \<and> lr_ret r = ret_code AGGREGATOR_SUCCESS \<and>
    unat (lr_count r) = min (length xs) (unat mx) \<and> lr_ids r = Some (take (unat mx) (map (SID s) xs)) \<and>
    prov_inv s' p xs \<and> cells (idarrs s') = cells (idarrs s)"
proof -
  let ?c = "of_nat (min (length xs) (unat mx)) :: u64"
  let ?s = "s\<lparr>oom := tl (oom s), idarrs := (idarrs s)\<lparr>brk := Suc (brk (idarrs s))\<rparr>\<rparr>"
  have "length xs < 2 ^ 32" using prov_inv_length [OF inv] .
  then have c: "unat ?c = min (length xs) (unat mx)" by (intro unat_of_nat_u64) simp
  have "prov_inv ?s p xs" by (rule prov_inv_same(1) [OF _ _ _ _ inv]) simp_all
  with list_ok [OF inv, of mx] mem c show ?thesis by (auto simp: mem_ok_def)
qed

theorem list_ids_witness:
  "\<exists>s' r. aggregator_list_streams_ult (Some 10) 1 (sv3 AGGREGATOR_TYPE_COUNTER) = Inr (r, s') \<and>
    unat (lr_count r) = 1 \<and> lr_ids r = Some [demo_id]"
  using list_ids [OF sv3_facts(1,2), of 10 AGGREGATOR_TYPE_COUNTER] sv3_facts(9) by fastforce

section \<open>Registering at once\<close>

text \<open>
  C24: the table of a provider has no lock. When two threads register the first two streams, an
  interleaving exists in which both are told that they succeeded and the counter says two, but the
  table holds one stream and no lookup finds the other.
\<close>

theorem create_race:
  assumes "prov_inv s p []" "no_oom s" "live (elems s) x" "live (elems s) y" "SID s x \<noteq> SID s y"
    and "tp t = Find_id x" "tp u = Find_id y" "t \<noteq> u"
  shows "\<exists>s' tp'. areach p (s, tp) (s', tp') \<and> tp' t = Added AGGREGATOR_SUCCESS \<and> tp' u = Added AGGREGATOR_SUCCESS \<and>
    live (elems s') x \<and> find_stream p (Id_of x) s' = Inr NULL \<and> ut_inv s' (streams (PR s' p)) [y] \<and> num_streams (PR s' p) = 2"
  using lost_stream [OF assms(1,3,4,5,2,6,7,8)] .

text \<open>A provider with no streams, and two streams made for it.\<close>

definition two_made :: "sim server" where
  "two_made = sv1\<lparr>elems := \<lparr>cells = [1 \<mapsto> zero_stream\<lparr>sid := 10\<rparr>, 2 \<mapsto> zero_stream\<lparr>sid := 20\<rparr>], brk = 3\<rparr>\<rparr>"

theorem create_race_witness:
  "\<exists>s' tp'. areach 1 (two_made, \<lambda>t. if t = 0 then Find_id 1 else Find_id 2) (s', tp') \<and> tp' 0 = Added AGGREGATOR_SUCCESS \<and>
    tp' 1 = Added AGGREGATOR_SUCCESS \<and> find_stream 1 (Id_of 1) s' = Inr NULL \<and> num_streams (PR s' 1) = 2"
proof -
  have sv1: "prov_inv sv1 1 []" "mem_ok sv1" using sv1_ok by (simp_all add: process_inv_def)
  then have "live (provs sv1) 1" "heap_ok (provs sv1)" "heap_ok (tbls sv1)" "heap_ok (bkts sv1)" "streams (PR sv1 1) = NULL" "num_streams (PR sv1 1) = 0"
    by (simp_all add: prov_inv_def ut_mem_ok_def)
  then have "prov_inv two_made 1 []"
    by (simp add: prov_inv_def ut_mem_ok_def two_made_def heap_ok_def PR_def)
  moreover have "no_oom two_made" using sv1(2) by (simp add: mem_ok_def no_oom_def two_made_def)
  moreover have "live (elems two_made) 1" "live (elems two_made) 2" "SID two_made 1 \<noteq> SID two_made 2"
    by (simp_all add: two_made_def live_def SID_def)
  ultimately have "\<exists>s' tp'. areach 1 (two_made, \<lambda>t. if t = 0 then Find_id 1 else Find_id 2) (s', tp') \<and> tp' 0 = Added AGGREGATOR_SUCCESS \<and>
      tp' 1 = Added AGGREGATOR_SUCCESS \<and> live (elems s') 1 \<and> find_stream 1 (Id_of 1) s' = Inr NULL \<and>
      ut_inv s' (streams (PR s' 1)) [2] \<and> num_streams (PR s' 1) = 2"
    by (rule create_race) simp_all
  then show ?thesis by blast
qed

end
