(* ===== verification/Stream_Theorems.thy ===== *)
theory Stream_Theorems
  imports Scenario
begin

text \<open>
  What holds of a stream's updates (\<open>aggregator_stream_update\<close> and its like in \<open>client.c\<close>), made by
  one thread or by several at once, and of the dump of a histogram.
\<close>

section \<open>One thread\<close>

text \<open>
  C16: a sequence of updates that fits the buffer ends, and what the stream holds then is what the
  reference \<open>accepted\<close> keeps of the values; there is one return code for each.
\<close>

theorem updates_accepted:
  assumes A: "argobots_ok A mv" and wf: "stream_wf s m" and free: "mutex_is mv False s m"
    and room: "length (svals s m) + length vs \<le> STREAM_BUFFER_SIZE"
  shows "\<exists>rs s'. run_updates A m vs s = Inr (rs, s') \<and> svals s' m = accepted (stype (ST s m)) (svals s m) vs \<and>
    stream_wf s' m \<and> mutex_is mv False s' m \<and> length rs = length vs"
  by (rule run_updates_ok [OF A wf free room])

theorem updates_accepted_witness:
  "\<exists>rs s'. run_updates sim_abt 1 demo_vals (sv3 AGGREGATOR_TYPE_COUNTER) = Inr (rs, s') \<and>
    svals s' 1 = [0x3FF0000000000000, 0x4000000000000000] \<and> length rs = 3"
proof -
  have "length (svals (sv3 AGGREGATOR_TYPE_COUNTER) 1) + length demo_vals \<le> STREAM_BUFFER_SIZE"
    using sv3_facts(7) [of AGGREGATOR_TYPE_COUNTER] by (simp add: demo_vals_def STREAM_BUFFER_SIZE_def)
  from updates_accepted [OF sim_abt_ok sv3_facts(3,4) this] obtain rs s' where
    "run_updates sim_abt 1 demo_vals (sv3 AGGREGATOR_TYPE_COUNTER) = Inr (rs, s')"
    "svals s' 1 = [0x3FF0000000000000, 0x4000000000000000]" "length rs = length demo_vals"
    unfolding sv3_facts accepted_demo by blast
  then show ?thesis by (simp add: demo_vals_def)
qed

text \<open>
  C17: what a type promises is kept by any updates that fit the buffer. In a counter's
  samples every stretch without a NaN never falls, if it was so before; a timer's values are NaN or not negative.
  A counter takes a NaN, and after it any value: of 5, NaN and 3 all are recorded, and the numbers fall.
\<close>

theorem type_promises:
  assumes A: "argobots_ok A mv" and wf: "stream_wf s m" and free: "mutex_is mv False s m"
    and room: "length (svals s m) + length vs \<le> STREAM_BUFFER_SIZE"
    and ty: "type_ok (stype (ST s m)) (svals s m)"
  shows "\<exists>rs s'. run_updates A m vs s = Inr (rs, s') \<and>
    (stype (ST s m) = AGGREGATOR_TYPE_COUNTER \<longrightarrow>
      (\<forall>i k. (\<forall>v \<in> set (take k (drop i (svals s' m))). \<not> is_nan v) \<longrightarrow> sorted (map dval (take k (drop i (svals s' m)))))) \<and>
    (stype (ST s m) = AGGREGATOR_TYPE_TIMER \<longrightarrow> (\<forall>v \<in> set (svals s' m). is_nan v \<or> 0 \<le> dval v)) \<and>
    (stype (ST s m) = AGGREGATOR_TYPE_COUNTER \<longrightarrow> (\<forall>a n b. vs = [a, n, b] \<and> is_nan n \<and> svals s m = [] \<longrightarrow> svals s' m = [a, n, b]))"
proof -
  from run_updates_ok [OF A wf free room] obtain rs s' where
    s': "run_updates A m vs s = Inr (rs, s')" "svals s' m = accepted (stype (ST s m)) (svals s m) vs" by blast
  have t: "type_ok (stype (ST s m)) (svals s' m)" using accepted_type_ok [OF ty] s'(2) by simp
  have "accepted AGGREGATOR_TYPE_COUNTER [] [a, n, b] = [a, n, b]" if "is_nan n" for a n b
    using that by (simp add: refuses_def dgt_def dlt_def)
  with t s' show ?thesis by (fastforce intro: counter_stretch_sorted timer_nonneg)
qed

theorem type_promises_witness:
  "\<exists>rs s'. run_updates sim_abt 1 [0x4014000000000000, dnan, 0x4008000000000000] (sv3 AGGREGATOR_TYPE_COUNTER) = Inr (rs, s') \<and>
    svals s' 1 = [0x4014000000000000, dnan, 0x4008000000000000] \<and>
    sorted (map dval (take 1 (drop 2 (svals s' 1)))) \<and> dlt 0x4008000000000000 0x4014000000000000"
proof -
  let ?s = "sv3 AGGREGATOR_TYPE_COUNTER" and ?vs = "[0x4014000000000000, dnan, 0x4008000000000000] :: double list"
  have "length (svals ?s 1) + length ?vs \<le> STREAM_BUFFER_SIZE"
    using sv3_facts(7) [of AGGREGATOR_TYPE_COUNTER] by (simp add: STREAM_BUFFER_SIZE_def)
  moreover have "type_ok (stype (ST ?s 1)) (svals ?s 1)" unfolding sv3_facts by (simp add: type_ok_def)
  ultimately obtain rs s' where s': "run_updates sim_abt 1 ?vs ?s = Inr (rs, s')" "svals s' 1 = ?vs"
    "\<forall>i k. (\<forall>v \<in> set (take k (drop i (svals s' 1))). \<not> is_nan v) \<longrightarrow> sorted (map dval (take k (drop i (svals s' 1))))"
    using type_promises [OF sim_abt_ok sv3_facts(3,4) [of AGGREGATOR_TYPE_COUNTER], of ?vs]
    unfolding sv3_facts(5,7) by auto
  have "\<forall>v \<in> set (take 1 (drop 2 (svals s' 1))). \<not> is_nan v" unfolding s'(2) by (simp add: is_nan_def dmag_def inf_mag_def)
  with s'(3) have "sorted (map dval (take 1 (drop 2 (svals s' 1))))" by blast
  moreover have "dlt 0x4008000000000000 0x4014000000000000"
    by (simp add: dlt_def is_nan_def dkey_def dsign_def dmag_def inf_mag_def)
  ultimately show ?thesis using s'(1,2) by blast
qed

text \<open>
  C18: fixed-amount updates of a gauge make running sums: from the last value, or, on an empty gauge,
  from 1, whatever the first amount is.
\<close>

theorem gauge_running_sum:
  assumes A: "argobots_ok A mv" and wf: "stream_wf s m" and free: "mutex_is mv False s m"
    and room: "length (svals s m) + length ds \<le> STREAM_BUFFER_SIZE" and g: "stype (ST s m) = AGGREGATOR_TYPE_GAUGE"
  shows "\<exists>s'. run_gauge A m ds s = Inr s' \<and> stream_wf s' m \<and> svals s' m =
    (if svals s m = [] then map (\<lambda>k. foldl dadd done1 (take k (tl ds))) [0..<length ds]
     else svals s m @ map (\<lambda>k. foldl dadd (last (svals s m)) (take (Suc k) ds)) [0..<length ds])"
proof -
  from run_gauge_ok [OF A wf free room g] obtain s' where
    "run_gauge A m ds s = Inr s'" "svals s' m = gauge_sums (svals s m) ds" "stream_wf s' m" by blast
  then show ?thesis by (auto simp: gauge_sums_scan gauge_sums_empty)
qed

theorem gauge_running_sum_witness:
  "\<exists>s'. run_gauge sim_abt 1 [0x4000000000000000] (sv3 AGGREGATOR_TYPE_GAUGE) = Inr s' \<and> svals s' 1 = [done1]"
proof -
  let ?s = "sv3 AGGREGATOR_TYPE_GAUGE"
  have "length (svals ?s 1) + length [0x4000000000000000 :: double] \<le> STREAM_BUFFER_SIZE"
    using sv3_facts(7) [of AGGREGATOR_TYPE_GAUGE] by (simp add: STREAM_BUFFER_SIZE_def)
  from gauge_running_sum [OF sim_abt_ok sv3_facts(3,4) this sv3_facts(5)] obtain s' where
    "run_gauge sim_abt 1 [0x4000000000000000] ?s = Inr s'"
    "svals s' 1 = map (\<lambda>k. foldl dadd done1 (take k (tl [0x4000000000000000]))) [0..<length [0x4000000000000000 :: double]]"
    unfolding sv3_facts by auto
  then show ?thesis by simp
qed

text \<open>
  C31: a full buffer. Neither update checks the capacity: a value that the type allows, and any amount
  added to a gauge, is stored past the end of the array.
\<close>

theorem update_full_buffer:
  assumes A: "argobots_ok A mv" and wf: "stream_wf s m" and free: "mutex_is mv False s m"
    and full: "unat (buffer_index (ST s m)) = STREAM_BUFFER_SIZE"
  shows "(\<not> refuses (stype (ST s m)) (svals s m) v \<longrightarrow> aggregator_stream_update A m v s = Inl OutOfBounds) \<and>
    (stype (ST s m) = AGGREGATOR_TYPE_GAUGE \<longrightarrow> aggregator_stream_update_gauge_by_fixed_amount A m d s = Inl OutOfBounds)"
  using update_full [OF A wf free full] gauge_update_full [OF A wf free full] by blast

theorem update_full_buffer_witness:
  "\<exists>s. stream_wf s 1 \<and> aggregator_stream_update sim_abt 1 dzero s = Inl OutOfBounds \<and>
    aggregator_stream_update_gauge_by_fixed_amount sim_abt 1 done1 s = Inl OutOfBounds"
proof -
  let ?s = "sv3 AGGREGATOR_TYPE_GAUGE"
  let ?e = "(ST ?s 1)\<lparr>buffer_index := 160000000\<rparr>"
  define s where "s = put_stream 1 ?e ?s"
  have sb: "sbuf s 1 = sbuf ?s 1" unfolding s_def by (subst sbuf_put_stream) simp_all
  have st: "ST s 1 = ?e" using sv3_facts(10) [of AGGREGATOR_TYPE_GAUGE] by (simp add: s_def srv_simps)
  have wf: "stream_wf s 1"
    using sv3_facts(3) [of AGGREGATOR_TYPE_GAUGE] unfolding stream_wf_def sb st
    by (simp add: s_def srv_simps STREAM_BUFFER_SIZE_def)
  have free: "mutex_is sim_mv False s 1"
    using sv3_facts(4) [of AGGREGATOR_TYPE_GAUGE] unfolding mutex_is_def st by (simp add: s_def srv_simps)
  have full: "unat (buffer_index (ST s 1)) = STREAM_BUFFER_SIZE" unfolding st by (simp add: STREAM_BUFFER_SIZE_def)
  have ty: "stype (ST s 1) = AGGREGATOR_TYPE_GAUGE" unfolding st using sv3_facts(5) [of AGGREGATOR_TYPE_GAUGE] by simp
  then have "\<not> refuses (stype (ST s 1)) (svals s 1) dzero" by (simp add: refuses_def)
  with update_full_buffer [OF sim_abt_ok wf free full, of dzero done1] wf ty show ?thesis by blast
qed

section \<open>Several threads\<close>

text \<open>
  C19: several threads update one stream, in any interleaving. No sample is lost, doubled or torn: the
  stream holds the values of the threads that have counted their sample, each once, in the order in
  which they counted it, and every thread that returned success is among them.
\<close>

theorem no_sample_lost:
  assumes A: "argobots_ok A mv" "argobots_blocks A mv" and i: "threads_init mv m tp s"
    and r: "ureach A self m (s, tp, []) (s', tp', l)"
  shows "svals s' m = svals s m @ map snd l \<and> distinct (map fst l) \<and>
    (\<forall>t. tp' t = Done AGGREGATOR_SUCCESS \<longrightarrow> t \<in> fst ` set l) \<and> stream_wf s' m"
  by (rule threads_no_loss [OF A i r])

text \<open>Two threads, with the values 2 and 1.\<close>

definition demo_threads :: "nat \<Rightarrow> pc" where
  "demo_threads t = (if t = 0 then Check 0x4000000000000000 else if t = 1 then Check 0x3FF0000000000000
     else Done AGGREGATOR_ERR_OTHER)"

lemma demo_threads_init: "threads_init sim_mv 1 demo_threads (sv3 t)"
  using sv3_facts(3,4) [of t] by (simp add: threads_init_def demo_threads_def)

lemma demo_race:
  "\<exists>s' tp' l. ureach sim_abt (\<lambda>_. 1) 1 (sv3 AGGREGATOR_TYPE_COUNTER, demo_threads, []) (s', tp', l) \<and>
    tp' 0 = Done AGGREGATOR_SUCCESS \<and> tp' 1 = Done AGGREGATOR_SUCCESS"
proof -
  let ?s = "sv3 AGGREGATOR_TYPE_COUNTER"
  have 1: "length (svals ?s 1) + 2 \<le> STREAM_BUFFER_SIZE" unfolding sv3_facts by (simp add: STREAM_BUFFER_SIZE_def)
  have 2: "dgt 0x4000000000000000 0x3FF0000000000000"
    by (simp add: dgt_def dlt_def is_nan_def dkey_def dsign_def dmag_def inf_mag_def)
  have 3: "\<not> refuses AGGREGATOR_TYPE_COUNTER (svals ?s 1) v" for v unfolding sv3_facts by (simp add: refuses_def)
  have 4: "(0 :: nat) \<noteq> 1" "demo_threads 0 = Check 0x4000000000000000" "demo_threads 1 = Check 0x3FF0000000000000"
    by (simp_all add: demo_threads_def)
  from race [OF sim_abt_ok demo_threads_init sv3_facts(5) 4 3 3 2 1, of "\<lambda>_. 1"] show ?thesis by blast
qed

theorem no_sample_lost_witness:
  "\<exists>s' tp' l. ureach sim_abt (\<lambda>_. 1) 1 (sv3 AGGREGATOR_TYPE_COUNTER, demo_threads, []) (s', tp', l) \<and>
    {0, 1} \<subseteq> fst ` set l \<and> svals s' 1 = map snd l \<and> distinct (map fst l)"
proof -
  from demo_race obtain s' tp' l where r: "ureach sim_abt (\<lambda>_. 1) 1 (sv3 AGGREGATOR_TYPE_COUNTER, demo_threads, []) (s', tp', l)"
    "tp' 0 = Done AGGREGATOR_SUCCESS" "tp' 1 = Done AGGREGATOR_SUCCESS" by blast
  from no_sample_lost [OF sim_abt_ok sim_abt_blocks demo_threads_init r(1)] r show ?thesis
    unfolding sv3_facts by (intro exI [of _ s'] exI [of _ tp'] exI [of _ l]) auto
qed

text \<open>
  C20: the threads finish. Every step takes its thread nearer to its return, so there are at most
  seven steps per thread, and while one has not returned and the buffer has room some thread can
  make a step.
\<close>

theorem threads_finish:
  assumes A: "argobots_ok A mv" "argobots_blocks A mv" and i: "threads_init mv m tp s"
    and S: "finite S" "\<forall>t. t \<notin> S \<longrightarrow> rank (tp t) = 0"
    and r: "ureach A self m (s, tp, []) (s', tp', l)"
  shows "(\<forall>s2 tp2 l2. ustep A self m (s', tp', l) (s2, tp2, l2) \<longrightarrow>
      (\<Sum>t\<in>S. rank (tp2 t)) < (\<Sum>t\<in>S. rank (tp' t))) \<and>
    ((\<exists>t\<in>S. rank (tp' t) \<noteq> 0) \<and> unat (buffer_index (ST s' m)) < STREAM_BUFFER_SIZE \<longrightarrow>
      (\<exists>c. ustep A self m (s', tp', l) c))"
proof -
  have "\<forall>t. t \<notin> S \<longrightarrow> rank (snd' t) = 0" if "ureach A self m (s, tp, []) c" "snd' = fst (snd c)" for c snd'
    using that
  proof (induction arbitrary: snd')
    case init
    with S(2) show ?case by simp
  next
    case (more c' c'')
    obtain s1 tp1 l1 s2 tp2 l2 where c: "c' = (s1, tp1, l1)" "c'' = (s2, tp2, l2)" by (metis prod.exhaust)
    with more.IH have "\<forall>t. t \<notin> S \<longrightarrow> rank (tp1 t) = 0" by simp
    from sum_rank_less(2) [OF more.hyps(2) [unfolded c] S(1) this] more.prems c show ?case by simp
  qed
  from this [OF r] have out: "\<forall>t. t \<notin> S \<longrightarrow> rank (tp' t) = 0" by simp
  have ok: "threads_ok mv m (svals s m) (s', tp', l)" by (rule ureach_ok [OF A r threads_init_ok [OF i]])
  show ?thesis
    using sum_rank_less(1) [OF _ S(1) out] threads_progress [OF A(1) ok] by blast
qed

theorem threads_finish_witness:
  "\<exists>c. ustep sim_abt (\<lambda>_. 1) 1 (sv3 AGGREGATOR_TYPE_COUNTER, demo_threads, []) c"
proof -
  let ?s = "sv3 AGGREGATOR_TYPE_COUNTER"
  have "\<forall>t. t \<notin> {0, 1} \<longrightarrow> rank (demo_threads t) = 0" "\<exists>t\<in>{0, 1}. rank (demo_threads t) \<noteq> 0"
    by (simp_all add: demo_threads_def)
  moreover have "unat (buffer_index (ST ?s 1)) < STREAM_BUFFER_SIZE" unfolding sv3_facts by (simp add: STREAM_BUFFER_SIZE_def)
  ultimately show ?thesis
    using threads_finish [OF sim_abt_ok sim_abt_blocks demo_threads_init, of "{0, 1}" "\<lambda>_. 1" AGGREGATOR_TYPE_COUNTER
        ?s demo_threads "[]"] ureach.init by blast
qed

text \<open>
  C23: a counter can fall all the same. Its last value is read before the mutex is taken: two threads
  can both pass the check and record the larger value first.
\<close>

theorem counter_race:
  assumes A: "argobots_ok A mv" and i: "threads_init mv m tp s"
    and ct: "stype (ST s m) = AGGREGATOR_TYPE_COUNTER"
    and tu: "t \<noteq> u" "tp t = Check a" "tp u = Check b"
    and acc: "\<not> refuses AGGREGATOR_TYPE_COUNTER (svals s m) a" "\<not> refuses AGGREGATOR_TYPE_COUNTER (svals s m) b"
    and gt: "dgt a b" and room: "length (svals s m) + 2 \<le> STREAM_BUFFER_SIZE"
  shows "\<exists>s' tp' l. ureach A self m (s, tp, []) (s', tp', l) \<and>
    tp' t = Done AGGREGATOR_SUCCESS \<and> tp' u = Done AGGREGATOR_SUCCESS \<and>
    svals s' m = svals s m @ [a, b] \<and> \<not> type_ok (stype (ST s' m)) (svals s' m)"
  by (rule race [OF A i ct tu acc gt room])

theorem counter_race_witness:
  "\<exists>s' tp' l. ureach sim_abt (\<lambda>_. 1) 1 (sv3 AGGREGATOR_TYPE_COUNTER, demo_threads, []) (s', tp', l) \<and>
    svals s' 1 = [0x4000000000000000, 0x3FF0000000000000]"
proof -
  let ?s = "sv3 AGGREGATOR_TYPE_COUNTER"
  have 1: "length (svals ?s 1) + 2 \<le> STREAM_BUFFER_SIZE" unfolding sv3_facts by (simp add: STREAM_BUFFER_SIZE_def)
  have 2: "dgt 0x4000000000000000 0x3FF0000000000000"
    by (simp add: dgt_def dlt_def is_nan_def dkey_def dsign_def dmag_def inf_mag_def)
  have 3: "\<not> refuses AGGREGATOR_TYPE_COUNTER (svals ?s 1) v" for v unfolding sv3_facts by (simp add: refuses_def)
  have 4: "(0 :: nat) \<noteq> 1" "demo_threads 0 = Check 0x4000000000000000" "demo_threads 1 = Check 0x3FF0000000000000"
    by (simp_all add: demo_threads_def)
  from counter_race [OF sim_abt_ok demo_threads_init sv3_facts(5) 4 3 3 2 1, of "\<lambda>_. 1"] obtain s' tp' l where
    "ureach sim_abt (\<lambda>_. 1) 1 (?s, demo_threads, []) (s', tp', l)" "svals s' 1 = svals ?s 1 @ [0x4000000000000000, 0x3FF0000000000000]"
    by blast
  then show ?thesis unfolding sv3_facts by auto
qed

section \<open>Dumps\<close>

text \<open>
  C32: the dump of a histogram with fewer than \<open>2 ^ 31\<close> buckets, with the file open and memory for the counts. It ends well exactly
  when every value has a bucket below the number of buckets; then the counts are the numbers of
  values by bucket.
\<close>

theorem histogram_by_bucket:
  assumes wf: "stream_wf s m" and nb: "unat nb < 2 ^ 31" and ok: "alloc_ok (oom s)"
    and r: "hist_range (svals s m) = (mx, mn)"
  shows "if \<forall>v \<in> set (svals s m). \<exists>k < unat nb. in_bucket nb (mx, mn) k v
    then aggregator_stream_dump_histogram True m nb s =
      Inr ((nb, mn, mx, map (\<lambda>k. of_nat (length (filter (in_bucket nb (mx, mn) k) (svals s m)))) [0..<unat nb]), s\<lparr>oom := tl (oom s)\<rparr>)
    else \<exists>e. aggregator_stream_dump_histogram True m nb s = Inl e"
proof (cases "aggregator_stream_dump_histogram True m nb s")
  case (Inl e)
  with histogram_returns [OF wf nb ok] r show ?thesis by auto
next
  case (Inr x)
  obtain nb' mn' mx' cs s' where x: "x = ((nb', mn', mx', cs), s')" by (metis prod.exhaust)
  from histogram_counts [OF wf Inr [unfolded x]] r have
    H: "nb' = nb" "s' = s\<lparr>oom := tl (oom s)\<rparr>" "mx' = mx" "mn' = mn" "length cs = unat nb"
      "\<forall>k < unat nb. cs ! k = of_nat (length (filter (in_bucket nb (mx, mn) k) (svals s m)))"
      "\<forall>v \<in> set (svals s m). \<exists>k < unat nb. in_bucket nb (mx, mn) k v"
    by auto
  have "cs = map (\<lambda>k. of_nat (length (filter (in_bucket nb (mx, mn) k) (svals s m)))) [0..<unat nb]"
    using H(5,6) by (intro nth_equalityI) auto
  then show ?thesis using H Inr x by simp
qed

text \<open>A gauge with the value -1: the range is from -1 to 0.\<close>

lemma demo_neg: "is_fin 0xBFF0000000000000" "dneg 0xBFF0000000000000 = done1" "dval 0xBFF0000000000000 = - (2 ^ 1074)"
  using dunits_done1
  by (simp_all add: is_fin_def dmag_def inf_mag_def dneg_def done1_def dpack_def dval_def dsign_def)

lemma dval_done1: "dval done1 = 2 ^ 1074"
  using dunits_done1 by (simp add: dval_def dsign_def done1_def dpack_def)

lemma demo_sub: "dsub 0xBFF0000000000000 0xBFF0000000000000 = dzero"
  using demo_neg dval_done1 fin_not_nan [OF demo_neg(1)]
  by (simp add: dsub_def dadd_def is_fin_def is_inf_def) (simp add: dpack_def dzero_def inf_mag_def)

lemma demo_width: "dsub dzero 0xBFF0000000000000 = done1"
proof -
  have "dround (dunits (dmag done1) * 1) 1 = dmag done1" by (rule dround_exact) (simp_all add: inf_mag_def)
  then have "dround (2 ^ 1074) 1 = dmag done1" by (simp only: dunits_done1 mult_1_right)
  moreover have "\<not> is_nan dzero" "\<not> is_inf dzero" using dzero_fin by (simp_all add: is_fin_def is_nan_def is_inf_def)
  moreover have "dpack False (dmag done1) = done1" by (simp add: done1_def)
  ultimately show ?thesis
  by (simp add: dsub_def dadd_def demo_neg dval_done1 dzero_fin nat_power_eq)
qed

lemma demo_bucket: "hist_bucket 2 dzero 0xBFF0000000000000 0xBFF0000000000000 = Inr 0"
proof -
  have z: "\<not> is_nan dzero" "\<not> is_inf dzero" "\<not> dsign dzero" using dzero_fin by (simp_all add: is_fin_def is_nan_def is_inf_def dsign_def dzero_def)
  have "ddiv dzero done1 = dpack (dsign dzero \<noteq> dsign done1) 0"
    by (simp add: ddiv_def z dzero_fin dround_0)
  also have "\<dots> = dzero" by (simp add: dpack_def z dsign_def done1_def dzero_def)
  finally have d: "ddiv dzero done1 = dzero" .
  have f: "is_fin (dof_nat 2)" "\<not> dsign (dof_nat 2)" by (simp_all add: dof_nat_exact)
  have "dmul dzero (dof_nat 2) = dzero"
    using f by (simp add: dmul_def z dzero_fin dround_0 fin_not_nan is_fin_def is_inf_def) (simp add: dpack_def dzero_def)
  moreover have "d_to_int dzero = Inr 0"
    using z by (simp add: d_to_int_def dzero_fin)
  ultimately show ?thesis by (simp add: hist_bucket_def demo_sub demo_width d)
qed

lemma demo_range: "hist_range [0xBFF0000000000000] = (dzero, 0xBFF0000000000000)"
  by (simp add: hist_range_def range_step_def dgt_def dlt_fin demo_neg(1) dzero_fin(1) hist_min0_fin(1))
     (simp add: demo_neg dzero_fin hist_min0_fin)

theorem histogram_by_bucket_witness:
  "\<exists>(s :: sim server) s'. svals s 1 = [0xBFF0000000000000] \<and>
    aggregator_stream_dump_histogram True 1 2 s = Inr ((2, 0xBFF0000000000000, dzero, [1, 0]), s')"
proof -
  let ?s = "sv3 AGGREGATOR_TYPE_GAUGE" and ?v = "0xBFF0000000000000 :: double"
  have "length (svals ?s 1) + length [?v] \<le> STREAM_BUFFER_SIZE" unfolding sv3_facts by (simp add: STREAM_BUFFER_SIZE_def)
  from process_updates [OF sim_abt_ok sv3_ok _ this] obtain rs s where
    s: "process_inv sim_mv s 1 [1]" "svals s 1 = accepted (stype (ST ?s 1)) (svals ?s 1) [?v]" by auto
  have sv: "svals s 1 = [?v]" using s(2) unfolding sv3_facts by (simp add: refuses_def)
  have wf: "stream_wf s 1" and ok: "alloc_ok (oom s)"
    using s(1) by (simp_all add: process_inv_def stream_ok_def mem_ok_def no_oom_alloc_ok)
  have b: "in_bucket 2 (dzero, ?v) k ?v \<longleftrightarrow> k = 0" for k using demo_bucket by (simp add: in_bucket_def)
  have "hist_range (svals s 1) = (dzero, ?v)" unfolding sv by (rule demo_range)
  from histogram_by_bucket [OF wf _ ok this, of 2]
  have "aggregator_stream_dump_histogram True 1 2 s = Inr ((2, ?v, dzero,
      map (\<lambda>k. of_nat (length (filter (in_bucket 2 (dzero, ?v) k) [?v]))) [0..<2]), s\<lparr>oom := tl (oom s)\<rparr>)"
    unfolding sv by (simp add: b)
  moreover have "map (\<lambda>k. of_nat (length (filter (in_bucket 2 (dzero, ?v) k) [?v]))) [0..<2] = [1 :: u64, 0]"
    by (simp add: b numeral_2_eq_2)
  ultimately have "aggregator_stream_dump_histogram True 1 2 s = Inr ((2, ?v, dzero, [1, 0]), s\<lparr>oom := tl (oom s)\<rparr>)"
    by (simp only:)
  with sv show ?thesis by blast
qed

text \<open>
  C33: the dump of a stream of finite values, one of which is not negative, never ends well: the
  maximum has no bucket, or the range is empty and the quotient is not a number.
\<close>

theorem histogram_never_ends:
  assumes wf: "stream_wf s m" and fin: "\<forall>v \<in> set (svals s m). is_fin v"
    and pos: "\<exists>v \<in> set (svals s m). 0 \<le> dval v"
  shows "\<exists>e. aggregator_stream_dump_histogram opened m nb s = Inl e"
  by (rule histogram_faults [OF wf fin pos])

theorem histogram_never_ends_witness:
  "\<exists>e. aggregator_stream_dump_histogram True 1 10 sv4 = Inl e"
proof -
  have "\<forall>v \<in> set (svals sv4 1). is_fin v" "\<exists>v \<in> set (svals sv4 1). 0 \<le> dval v"
    unfolding sv4_svals by (simp_all add: is_fin_def dmag_def inf_mag_def dval_def dsign_def)
  from histogram_never_ends [OF sv4_facts(3) this] show ?thesis .
qed

end
