(* ===== verification/Client_Theorems.thy ===== *)
theory Client_Theorems
  imports Scenario
begin

text \<open>
  What holds on the client's side (\<open>client.c\<close> and the messages of \<open>types.h\<close>): the references of
  stream handles, tag lists, and the encoding of requests and responses.
\<close>

section \<open>Handles\<close>

text \<open>
  C37: counting references. Against the abstraction \<open>refs\<close>, the number of references by handle,
  incrementing adds one, and releasing takes one away; the last release frees the handle and, once,
  its address. Neither touches another handle, and both keep the invariant of the client.
\<close>

theorem handle_refs:
  assumes inv: "client_inv s" and p: "refs s p = Some n"
  shows "(if n + 1 < 2 ^ 64
      then \<exists>s'. aggregator_remote_stream_handle_ref_incr p s = Inr (AGGREGATOR_SUCCESS, s') \<and> client_inv s' \<and>
        refs s' = (refs s)(p \<mapsto> n + 1) \<and> ccalls s' = ccalls s
      else n + 1 = 2 ^ 64) \<and>
    (\<exists>s'. aggregator_remote_stream_handle_release p s = Inr (AGGREGATOR_SUCCESS, s') \<and> client_inv s' \<and>
      refs s' = (refs s)(p := if n = 1 then None else Some (n - 1)) \<and>
      ccalls s' = ccalls s @ (if n = 1 then [margo_addr_free (h_addr (HD s p))] else []))"
proof -
  have l: "live (handles s) p" and n: "n = unat (refcount (HD s p))" using p by (auto simp: refs_def split: if_splits)
  have "refcount (HD s p) \<noteq> 0" using inv l by (auto simp: client_inv_def)
  then have n0: "n \<noteq> 0" and lt: "n < 2 ^ 64" using n unsigned_less [of "refcount (HD s p)"] by (simp_all add: unat_eq_0)
  have "if n + 1 < 2 ^ 64
      then \<exists>s'. aggregator_remote_stream_handle_ref_incr p s = Inr (AGGREGATOR_SUCCESS, s') \<and> client_inv s' \<and>
        refs s' = (refs s)(p \<mapsto> n + 1) \<and> ccalls s' = ccalls s
      else n + 1 = 2 ^ 64"
    using ref_incr_ok [OF inv p] lt by auto
  moreover have "\<exists>s'. aggregator_remote_stream_handle_release p s = Inr (AGGREGATOR_SUCCESS, s') \<and> client_inv s' \<and>
      refs s' = (refs s)(p := if n = 1 then None else Some (n - 1)) \<and>
      ccalls s' = ccalls s @ (if n = 1 then [margo_addr_free (h_addr (HD s p))] else [])"
  proof (cases "n = 1")
    case True
    with release_last [OF inv] p show ?thesis by fastforce
  next
    case False
    with n0 have "1 < n" by simp
    with release_shared [OF inv p] False show ?thesis by fastforce
  qed
  ultimately show ?thesis by blast
qed

theorem handle_refs_witness:
  "\<exists>s'. aggregator_remote_stream_handle_release 1 cl2 = Inr (AGGREGATOR_SUCCESS, s') \<and> refs s' = Map.empty"
proof -
  have r: "refs cl2 1 = Some 1" unfolding cl2_refs by simp
  from handle_refs [OF cl2_inv r] obtain s' where s': "aggregator_remote_stream_handle_release 1 cl2 = Inr (AGGREGATOR_SUCCESS, s')"
    "refs s' = (refs cl2)(1 := if (1 :: nat) = 1 then None else Some (1 - 1))" by blast
  have "refs s' = Map.empty" using s'(2) unfolding cl2_refs by (simp add: fun_eq_iff)
  with s'(1) show ?thesis by blast
qed

text \<open>
  C38: whatever sequence of creations, shares and releases a client makes, its counter is the number
  of its handles, every handle belongs to a client that is there, and no handle is without a
  reference.
\<close>

theorem client_reach_invariant:
  assumes "client_reach s s'" "client_inv s"
  shows "client_inv s' \<and> (\<forall>c. live (clients s') c \<longrightarrow> num_stream_handles (CL s' c) = of_nat (card (handles_of s' c))) \<and>
    (\<forall>p n. refs s' p = Some n \<longrightarrow> 0 < n \<and> live (clients s') (h_client (HD s' p)))"
  using client_reach_inv [OF assms]
  by (auto simp: client_inv_def refs_def unat_gt_0 split: if_splits)

theorem client_reach_invariant_witness:
  "\<exists>s'. client_reach cl1 s' \<and> num_stream_handles (CL s' 1) = 1"
proof -
  have r: "client_reach cl1 cl2" by (rule client_reach.created [OF client_reach.start cl1_live create_cl1])
  have "handles_of cl2 1 = {1}"
  proof -
    have l: "live (handles cl2) q \<longleftrightarrow> q = 1" for q
      using fun_cong [OF cl2_refs, of q] by (simp add: refs_def split: if_splits)
    have h: "h_client (HD cl2 1) = 1" using cl2_handle by simp
    have "live (handles cl2) q \<and> h_client (HD cl2 q) = 1 \<longleftrightarrow> q = 1" for q unfolding l using h by blast
    then show ?thesis unfolding handles_of_def by simp
  qed
  with client_reach_invariant [OF r cl1_inv] cl2_live have "num_stream_handles (CL cl2 1) = 1" by simp
  with r show ?thesis by blast
qed

text \<open>
  A client that is finalized while it has handles warns, reports success and is freed; the last
  release of such a handle reads the freed client.
\<close>

lemma handle_outlives_client:
  assumes inv: "client_inv s" and p: "refs s p = Some 1"
  shows "\<exists>s'. aggregator_client_finalize (h_client (HD s p)) s = Inr (AGGREGATOR_SUCCESS, s') \<and>
    live (handles s') p \<and> aggregator_remote_stream_handle_release p s' = Inl Dangling"
proof -
  have l: "live (handles s) p" using p by (auto simp: refs_def split: if_splits)
  then have "live (clients s) (h_client (HD s p))" using inv by (auto simp: client_inv_def)
  note f = finalize_ok [OF this]
  from release_after_finalize [OF inv p f] l f show ?thesis by auto
qed

section \<open>Tag lists\<close>

text \<open>
  C39: where every allocation succeeds, a tag list of texts shorter than 288 bytes holds the texts it was made from, in
  order, and destroying it gives back every cell that making it took: the three heaps are as before. A text of 288
  bytes or more is copied past the end of its array; nothing checks its length.
\<close>

theorem taglist_roundtrip:
  assumes mem: "mem_ok s" and va: "\<forall>t \<in> set va. terminated t"
  shows "((\<forall>t \<in> set va. length (cstring t) < 36 * 8) \<longrightarrow> (\<exists>tgl s' s''.
      aggregator_taglist_create (int (length va)) va s = Inr (AGGREGATOR_SUCCESS, tgl, s') \<and> \<not> live (tagls s) tgl \<and>
      (\<exists>T. load (tagls s') tgl = Inr T \<and> num_tags T = int (length va) \<and>
        (\<exists>ts. tag_strings s' (taglist T) (length va) = Inr ts \<and> map cstring ts = map cstring va)) \<and>
      aggregator_taglist_destroy tgl s' = Inr (AGGREGATOR_SUCCESS, s'') \<and>
      cells (tagls s'') = cells (tagls s) \<and> cells (ptrs s'') = cells (ptrs s) \<and> cells (strs s'') = cells (strs s) \<and> mem_ok s'')) \<and>
    ((\<exists>t \<in> set va. 36 * 8 \<le> length (cstring t)) \<longrightarrow> aggregator_taglist_create (int (length va)) va s = Inl OutOfBounds)"
proof (intro conjI impI)
  have ok: "no_oom s" "heap_ok (tagls s)" "heap_ok (ptrs s)" "heap_ok (strs s)" using mem by (simp_all add: mem_ok_def)
  show "aggregator_taglist_create (int (length va)) va s = Inl OutOfBounds" if "\<exists>t \<in> set va. 36 * 8 \<le> length (cstring t)"
    by (rule taglist_create_long [OF ok va that])
  assume "\<forall>t \<in> set va. length (cstring t) < 36 * 8"
  with va have va': "\<forall>t \<in> set va. terminated t \<and> length (cstring t) < 36 * 8" by blast
  define tgl a b where "tgl = brk (tagls s)" and "a = brk (ptrs s)" and "b = brk (strs s)"
  from taglist_create_ok [OF ok va'] obtain s' where
    s': "aggregator_taglist_create (int (length va)) va s = Inr (AGGREGATOR_SUCCESS, tgl, s')" "tags_at s' tgl b va"
      "\<forall>p. p \<noteq> tgl \<longrightarrow> cells (tagls s') p = cells (tagls s) p"
      "cells (tagls s') tgl = Some \<lparr>taglist = a, num_tags = int (length va)\<rparr>"
      "\<forall>p. p \<noteq> a \<longrightarrow> cells (ptrs s') p = cells (ptrs s) p"
      "\<forall>q. q < b \<or> b + length va \<le> q \<longrightarrow> cells (strs s') q = cells (strs s) q" "mem_ok s'"
    using mem unfolding tgl_def a_def b_def by blast
  from taglist_destroy_ok [OF s'(2,4)] obtain s'' where
    s'': "aggregator_taglist_destroy tgl s' = Inr (AGGREGATOR_SUCCESS, s'')" "cells (tagls s'') = (cells (tagls s'))(tgl := None)"
      "cells (ptrs s'') = (cells (ptrs s'))(a := None)"
      "cells (strs s'') = (\<lambda>q. if b \<le> q \<and> q < b + length va then None else cells (strs s') q)" "mem_ok s''"
    using s'(7) by auto
  have free: "cells (tagls s) tgl = None" "cells (ptrs s) a = None" "\<And>q. b \<le> q \<Longrightarrow> cells (strs s) q = None"
    using ok(2-4) unfolding tgl_def a_def b_def heap_ok_def by (metis less_irrefl not_le)+
  have "cells (tagls s'') = cells (tagls s)" "cells (ptrs s'') = cells (ptrs s)" "cells (strs s'') = cells (strs s)"
    using s''(2-4) s'(3,5,6) free by (auto simp: fun_eq_iff)
  moreover have "\<not> live (tagls s) tgl" using free(1) by (simp add: live_def)
  moreover from tag_strings_at [OF s'(2) order_refl] obtain T where
    "load (tagls s') tgl = Inr T" "num_tags T = int (length va)" "tag_strings s' (taglist T) (length va) = Inr (map tag_text va)"
    by auto
  moreover have "map cstring (map tag_text va) = map cstring va" by simp
  ultimately show "\<exists>tgl s' s''. aggregator_taglist_create (int (length va)) va s = Inr (AGGREGATOR_SUCCESS, tgl, s') \<and> \<not> live (tagls s) tgl \<and>
      (\<exists>T. load (tagls s') tgl = Inr T \<and> num_tags T = int (length va) \<and>
        (\<exists>ts. tag_strings s' (taglist T) (length va) = Inr ts \<and> map cstring ts = map cstring va)) \<and>
      aggregator_taglist_destroy tgl s' = Inr (AGGREGATOR_SUCCESS, s'') \<and>
      cells (tagls s'') = cells (tagls s) \<and> cells (ptrs s'') = cells (ptrs s) \<and> cells (strs s'') = cells (strs s) \<and> mem_ok s''"
    using s'(1) s''(1,5) by blast
qed

theorem taglist_roundtrip_witness:
  "(\<exists>tgl s' s''. aggregator_taglist_create 2 [demo_tag, demo_desc] sv1 = Inr (AGGREGATOR_SUCCESS, tgl, s') \<and>
    aggregator_taglist_destroy tgl s' = Inr (AGGREGATOR_SUCCESS, s'') \<and> cells (strs s'') = cells (strs sv1)) \<and>
   aggregator_taglist_create 2 [demo_tag, replicate 288 97 @ [0]] sv1 = Inl OutOfBounds"
proof -
  have m: "mem_ok sv1" using sv1_ok by (simp add: process_inv_def)
  have "\<forall>t \<in> set [demo_tag, demo_desc]. terminated t" by (simp add: demo_texts)
  note good = conjunct1 [OF taglist_roundtrip [OF m this]]
  have c: "terminated (replicate 288 97 @ [0] :: byte list)" "cstring (replicate 288 97 @ [0] :: byte list) = replicate 288 97"
    by (simp_all add: terminated_def cstring_append_NUL)
  then have "\<forall>t \<in> set [demo_tag, replicate 288 97 @ [0]]. terminated t" by (simp add: demo_texts)
  note long = conjunct2 [OF taglist_roundtrip [OF m this]]
  have "aggregator_taglist_create 2 [demo_tag, replicate 288 97 @ [0]] sv1 = Inl OutOfBounds" using long c by simp
  moreover have "\<forall>t \<in> set [demo_tag, demo_desc]. length (cstring t) < 36 * 8" by (simp add: demo_texts)
  note good [rule_format, OF bspec [OF this]]
  ultimately show ?thesis by auto
qed

section \<open>Messages\<close>

text \<open>
  C40: requests and responses survive the wire. What the encoder of a fetch request or response
  appends, the decoder reads back, and leaves the rest of the message. So it is with a listing's response, if
  its array of identifiers is not null and has as many as are counted (fewer than \<open>2 ^ 62\<close>) and the decoder's allocation succeeds:
  the identifiers arrive in a new array. A response with a count but a null array is encoded without an error, and no
  decoder reads the message.
\<close>

theorem messages_roundtrip:
  assumes P: "prims_ok P e32 e64 esz estr eblk"
  shows "(\<exists>m. hg_proc_stream_fetch_in_t P HG_ENCODE i b = (HG_SUCCESS, i, b @ m) \<and>
      hg_proc_stream_fetch_in_t P HG_DECODE i' (m @ r) = (HG_SUCCESS, i, r)) \<and>
    (\<exists>m. hg_proc_stream_fetch_out_t P HG_ENCODE out b = (HG_SUCCESS, out, b @ m) \<and>
      hg_proc_stream_fetch_out_t P HG_DECODE out' (m @ r) = (HG_SUCCESS, out, r)) \<and>
    (cells h (lo_ids l) = Some a \<and> lo_ids l \<noteq> NULL \<and> unat (lo_count l) \<le> alen a \<and> unat (lo_count l) < 2 ^ 62 \<and>
      alloc_ok sch' \<and> heap_ok h' \<longrightarrow>
      (\<exists>m a' l2. hg_proc_list_streams_out_t P HG_ENCODE l b sch h = Inr (HG_SUCCESS, l, b @ m, sch, h) \<and>
        hg_proc_list_streams_out_t P HG_DECODE l' (m @ r) sch' h' =
          Inr (HG_SUCCESS, l2, r, tl sch', \<lparr>cells = (cells h')(brk h' := Some a'), brk = Suc (brk h')\<rparr>) \<and>
        l2 = \<lparr>lo_ret = lo_ret l, lo_count = lo_count l, lo_ids = brk h'\<rparr> \<and>
        ids_of a' (lo_count l) = ids_of a (lo_count l))) \<and>
    (lo_ids l = NULL \<and> 0 < unat (lo_count l) \<and> unat (lo_count l) < 2 ^ 62 \<and> alloc_ok sch' \<and> heap_ok h' \<longrightarrow>
      (\<exists>m. hg_proc_list_streams_out_t P HG_ENCODE l [] sch h = Inr (HG_SUCCESS, l, m, sch, h) \<and>
        (\<exists>e x. e \<noteq> HG_SUCCESS \<and> hg_proc_list_streams_out_t P HG_DECODE l' m sch' h' = Inr (e, x))))"
proof (intro conjI impI, goal_cases)
  case 1
  from fetch_in_proc_ok [OF P] show ?case unfolding proc_ok_def by blast
next
  case 2
  from fetch_out_proc_ok [OF P] show ?case unfolding proc_ok_def by blast
next
  case 3
  then have a: "cells h (lo_ids l) = Some a" "lo_ids l \<noteq> NULL" and n: "unat (lo_count l) \<le> alen a" "unat (lo_count l) < 2 ^ 62"
    and ok: "alloc_ok sch'" "heap_ok h'" by simp_all
  have k: "unat (lo_count l) = length (ids_of a (lo_count l))" "length (ids_of a (lo_count l)) < 2 ^ 62"
    using n by (simp_all add: ids_of_def)
  from list_out_encode [OF P a n, of b sch] list_out_decode [OF P k ok, of l' "lo_ret l" r] show ?case by blast
next
  case 4
  then show ?case by (intro list_out_null [OF P]) simp_all
qed

theorem messages_roundtrip_witness:
  "(\<exists>m. hg_proc_stream_fetch_in_t sim_prims HG_ENCODE \<lparr>fi_stream_id = demo_id, fi_count = 3, fi_bulk = 6\<rparr> [] =
      (HG_SUCCESS, \<lparr>fi_stream_id = demo_id, fi_count = 3, fi_bulk = 6\<rparr>, m) \<and>
    hg_proc_stream_fetch_in_t sim_prims HG_DECODE zero_fetch_in m = (HG_SUCCESS, \<lparr>fi_stream_id = demo_id, fi_count = 3, fi_bulk = 6\<rparr>, [])) \<and>
   (\<exists>m a'. hg_proc_list_streams_out_t sim_prims HG_ENCODE \<lparr>lo_ret = 0, lo_count = 2, lo_ids = 1\<rparr> [] []
      \<lparr>cells = [1 \<mapsto> \<lparr>alen = 2, adat = \<lambda>_. demo_id\<rparr>], brk = 2\<rparr> =
        Inr (HG_SUCCESS, \<lparr>lo_ret = 0, lo_count = 2, lo_ids = 1\<rparr>, m, [], \<lparr>cells = [1 \<mapsto> \<lparr>alen = 2, adat = \<lambda>_. demo_id\<rparr>], brk = 2\<rparr>) \<and>
    hg_proc_list_streams_out_t sim_prims HG_DECODE zero_list_out m [] heap_empty =
      Inr (HG_SUCCESS, \<lparr>lo_ret = 0, lo_count = 2, lo_ids = 1\<rparr>, [], [], \<lparr>cells = [1 \<mapsto> a'], brk = Suc 1\<rparr>) \<and> ids_of a' 2 = [demo_id, demo_id])"
proof -
  let ?i = "\<lparr>fi_stream_id = demo_id, fi_count = 3, fi_bulk = 6\<rparr>" and ?l = "\<lparr>lo_ret = 0, lo_count = 2, lo_ids = 1\<rparr>"
  let ?a = "\<lparr>alen = 2, adat = \<lambda>_. demo_id\<rparr>"
  have "\<exists>m. hg_proc_stream_fetch_in_t sim_prims HG_ENCODE ?i [] = (HG_SUCCESS, ?i, [] @ m) \<and>
      hg_proc_stream_fetch_in_t sim_prims HG_DECODE zero_fetch_in (m @ []) = (HG_SUCCESS, ?i, [])"
    by (rule conjunct1 [OF messages_roundtrip [OF sim_prims_ok]])
  moreover have h: "heap_ok (heap_empty :: u32 carr heap)" "brk (heap_empty :: u32 carr heap) = 1"
    "cells (heap_empty :: u32 carr heap) = Map.empty" by (simp_all add: heap_ok_def heap_empty_def)
  have "ids_of ?a 2 = [demo_id, demo_id]" by (simp add: ids_of_def aslice_def upt_rec)
  moreover note messages_roundtrip [OF sim_prims_ok, of ?i "[]" zero_fetch_in "[]" zero_fetch_out zero_fetch_out
    "\<lparr>cells = [1 \<mapsto> ?a], brk = 2\<rparr>" ?l ?a "[]" "heap_empty" "[]" zero_list_out, THEN conjunct2, THEN conjunct2, THEN conjunct1]
  ultimately show ?thesis using h by simp
qed

end
