(* ===== verification/Fetch_Threads.thy ===== *)
theory Fetch_Threads
  imports Stream_Threads Provider_Rpc "HOL-Library.Sublist"
begin

text \<open>
  A fetch while threads update the stream. The handler takes no lock: between its reads of the
  index and between the samples that \<open>memcpy\<close> copies, the threads of \<open>Stream_Threads\<close> may take any of
  their steps. The source reads \<open>buffer_index\<close> for the comparison with the count and once more in the
  branch it takes; both are steps here, as C has them (a compiler may merge them).

  A copy that ends holds the last samples of one moment, each complete. It does not end when the
  index passes the count between the two reads of the first branch: \<open>memcpy\<close> then writes past the end
  of the handler's buffer.
\<close>

section \<open>The reader\<close>

text \<open>
  Lines 210 to 216 of \<open>src/provider.c\<close>: the comparison, the second read, the copy of each sample. In
  \<open>Copy src off n k b\<close>, \<open>k\<close> of the \<open>n\<close> samples from \<open>src + off\<close> are in the buffer \<open>b\<close>.
\<close>

datatype reader_pc =
    Compare
  | Read_count
  | Read_offset
  | Copy addr int u64 nat "aggregator_stream_sample carr"
  | Copied u64 "aggregator_stream_sample carr"
  | Fault fault

definition fetch_buffer :: "u64 \<Rightarrow> aggregator_stream_sample carr" where
  "fetch_buffer cnt = azero (unat cnt) zero_sample"

definition copy_sample :: "addr \<Rightarrow> int \<Rightarrow> nat \<Rightarrow> aggregator_stream_sample carr \<Rightarrow> 'x server \<Rightarrow> aggregator_stream_sample carr res" where
  "copy_sample src off k b s =
     rbind (load (bufs s) src) (\<lambda>S.
     if 0 \<le> off then rbind (aget S (nat off + k)) (aset b k) else Inl OutOfBounds)"

fun reader :: "addr \<Rightarrow> u64 \<Rightarrow> 'x server \<Rightarrow> reader_pc \<Rightarrow> reader_pc" where
  "reader m cnt s Compare =
     (case load (elems s) m of
        Inl e \<Rightarrow> Fault e
      | Inr st \<Rightarrow> if uint (buffer_index st) < sint cnt then Read_count else Read_offset)"
| "reader m cnt s Read_count =
     (case load (elems s) m of
        Inl e \<Rightarrow> Fault e
      | Inr st \<Rightarrow> Copy (buffer st) 0 (ucast (buffer_index st)) 0 (fetch_buffer cnt))"
| "reader m cnt s Read_offset =
     (case load (elems s) m of
        Inl e \<Rightarrow> Fault e
      | Inr st \<Rightarrow> Copy (buffer st) (uint (buffer_index st) - sint cnt) cnt 0 (fetch_buffer cnt))"
| "reader m cnt s (Copy src off n k b) =
     (if k < unat n
      then case copy_sample src off k b s of Inl e \<Rightarrow> Fault e | Inr b' \<Rightarrow> Copy src off n (Suc k) b'
      else Copied n b)"
| "reader m cnt s (Copied n b) = Copied n b"
| "reader m cnt s (Fault e) = Fault e"

text \<open>
  Threads and reader together. The last part records the samples of the moment at which the reader
  last read the index; no step reads it.
\<close>

type_synonym 'x fconfig = "'x config \<times> reader_pc \<times> aggregator_stream_sample list"

fun snapshot :: "reader_pc \<Rightarrow> aggregator_stream_sample list \<Rightarrow> aggregator_stream_sample list \<Rightarrow> aggregator_stream_sample list" where
  "snapshot Read_count xs g = xs"
| "snapshot Read_offset xs g = xs"
| "snapshot r xs g = g"

inductive fstep :: "'x argobots \<Rightarrow> (nat \<Rightarrow> u64) \<Rightarrow> addr \<Rightarrow> u64 \<Rightarrow> 'x fconfig \<Rightarrow> 'x fconfig \<Rightarrow> bool"
  for A :: "'x argobots" and self :: "nat \<Rightarrow> u64" and m :: addr and cnt :: u64 where
  updates: "ustep A self m c c' \<Longrightarrow> fstep A self m cnt (c, r, g) (c', r, g)"
| reads: "fstep A self m cnt ((s, tp, l), r, g) ((s, tp, l), reader m cnt s r, snapshot r (samples s m) g)"

inductive_cases fstepE: "fstep A self m cnt ((s, tp, l), r, g) c'"

inductive freach :: "'x argobots \<Rightarrow> (nat \<Rightarrow> u64) \<Rightarrow> addr \<Rightarrow> u64 \<Rightarrow> 'x fconfig \<Rightarrow> 'x fconfig \<Rightarrow> bool"
  for A :: "'x argobots" and self :: "nat \<Rightarrow> u64" and m :: addr and cnt :: u64 and c :: "'x fconfig" where
  init: "freach A self m cnt c c"
| more: "freach A self m cnt c c' \<Longrightarrow> fstep A self m cnt c' c'' \<Longrightarrow> freach A self m cnt c c''"

section \<open>What an update leaves alone\<close>

lemma buffer_put_sample [simp]: "buffer (ST (put_sample m x s) m) = buffer (ST s m)"
  by (simp add: put_sample_def)

lemma mutex_lock_abt: "mutex_lock A m s = Inr s' \<Longrightarrow> \<exists>x. s' = s\<lparr>abt := x\<rparr>"
  by (auto simp: mutex_lock_def rbind_eq_Inr)

lemma mutex_unlock_abt: "mutex_unlock A m s = Inr s' \<Longrightarrow> \<exists>x. s' = s\<lparr>abt := x\<rparr>"
  by (auto simp: mutex_unlock_def rbind_eq_Inr)

lemma ustep_samples:
  assumes ok: "threads_ok mv m vs0 (s, tp, l)" and step: "ustep A self m (s, tp, l) (s', tp', l')"
  shows "prefix (samples s m) (samples s' m) \<and> buffer (ST s' m) = buffer (ST s m)"
proof -
  have wf: "stream_wf s m" using ok by (simp add: threads_ok_def)
  have pend: "unat (buffer_index (ST s m)) < STREAM_BUFFER_SIZE" if "tp t = Incr v" for t v
  proof -
    have "pending (tp t) = Some v" using that by simp
    then show ?thesis using ok unfolding threads_ok_def by auto
  qed
  from step show ?thesis
  proof (rule ustepE, goal_cases)
    case (3 t v s1)
    then show ?thesis using mutex_lock_abt [of A m s s1] by auto
  next
    case (4 t v s1)
    then show ?thesis using store_sample_Inr(2) [OF wf 4(3)] by (simp add: samples_put_sample [OF wf])
  next
    case (5 t v s1)
    obtain a x where ax: "ABT_get_wtime A (abt s) = (a, x)" by (cases "ABT_get_wtime A (abt s)")
    have w: "stream_wf (s\<lparr>abt := x\<rparr>) m" using wf by simp
    have "s1 = put_sample m ((cur_sample s m)\<lparr>time := a\<rparr>) (s\<lparr>abt := x\<rparr>)"
      using store_sample_Inr(2) [OF w] 5(3) by (simp add: store_time_def ax)
    then show ?thesis using 5 by (simp add: samples_put_sample [OF w])
  next
    case (6 t v s1)
    then show ?thesis using store_sample_Inr(2) [OF wf 6(3)] by (simp add: samples_put_sample [OF wf])
  next
    case (7 t v s1)
    have lt: "unat (buffer_index (ST s m)) < STREAM_BUFFER_SIZE" using pend 7(2) .
    then have i1: "unat (buffer_index (ST s m) + 1) = Suc (unat (buffer_index (ST s m)))"
      by (simp add: STREAM_BUFFER_SIZE_def unat_word_ariths)
    have "live (elems s) m" using wf by (simp add: stream_wf_def)
    then have s1: "s1 = put_stream m ((ST s m)\<lparr>buffer_index := buffer_index (ST s m) + 1\<rparr>) s"
      using 7(3) by (simp add: incr_index_def upd_stream_live)
    have "samples s1 m = samples s m @ [cur_sample s m]"
      by (simp add: samples_def s1 sbuf_put_stream) (simp add: srv_simps i1 aslice_Suc cur_sample_def)
    then show ?thesis using 7(1) s1 by (simp add: srv_simps)
  next
    case (8 t v s1)
    then show ?thesis using mutex_unlock_abt [of A m s s1] by auto
  qed simp_all
qed

section \<open>The invariant of the reader\<close>

fun reader_ok :: "addr \<Rightarrow> u64 \<Rightarrow> aggregator_stream_sample list \<Rightarrow> 'x server \<Rightarrow> reader_pc \<Rightarrow> aggregator_stream_sample list \<Rightarrow> bool" where
  "reader_ok m cnt xs s Compare g = True"
| "reader_ok m cnt xs s Read_count g = (length xs < unat cnt)"
| "reader_ok m cnt xs s Read_offset g = (unat cnt \<le> length (samples s m))"
| "reader_ok m cnt xs s (Copy src off n k b) g =
     (src = buffer (ST s m) \<and> prefix xs g \<and> prefix g (samples s m) \<and> alen b = unat cnt \<and>
      0 \<le> off \<and> nat off + unat n = length g \<and> k \<le> unat n \<and> k \<le> unat cnt \<and>
      aslice b 0 k = take k (drop (nat off) g) \<and> (\<forall>j \<ge> k. adat b j = zero_sample) \<and>
      (unat n = min (unat cnt) (length g) \<or> off = 0 \<and> length xs < unat cnt \<and> unat cnt < unat n))"
| "reader_ok m cnt xs s (Copied n b) g =
     (prefix xs g \<and> prefix g (samples s m) \<and> unat n = min (unat cnt) (length g) \<and>
      aslice b 0 (unat cnt) = fetch_data cnt g)"
| "reader_ok m cnt xs s (Fault e) g =
     (e = OutOfBounds \<and> prefix g (samples s m) \<and> length xs < unat cnt \<and> unat cnt < length g)"

lemma reader_ok_update:
  assumes "reader_ok m cnt xs s r g" "prefix (samples s m) (samples s' m)" "buffer (ST s' m) = buffer (ST s m)"
  shows "reader_ok m cnt xs s' r g"
proof -
  have "length (samples s m) \<le> length (samples s' m)" using assms(2) by (rule prefix_length_le)
  moreover have "prefix g (samples s m) \<Longrightarrow> prefix g (samples s' m)" using assms(2) by (blast intro: prefix_order.trans)
  ultimately show ?thesis using assms by (cases r) auto
qed

lemma copy_sample_in:
  assumes wf: "stream_wf s m" and g: "prefix g (samples s m)" and off: "0 \<le> off" "nat off + k < length g"
  shows "copy_sample (buffer (ST s m)) off k b s =
    (if k < alen b then Inr (b\<lparr>adat := (adat b)(k := g ! (nat off + k))\<rparr>) else Inl OutOfBounds)"
proof -
  have ub: "unat (buffer_index (ST s m)) \<le> STREAM_BUFFER_SIZE" "alen (sbuf s m) = STREAM_BUFFER_SIZE"
    using wf by (simp_all add: stream_wf_def)
  have lg: "length g \<le> unat (buffer_index (ST s m))" using prefix_length_le [OF g] by simp
  obtain zs where "samples s m = g @ zs" using g by (auto simp: prefix_def)
  then have "g ! (nat off + k) = samples s m ! (nat off + k)" using off(2) by (simp add: nth_append)
  also have "\<dots> = adat (sbuf s m) (nat off + k)" using off(2) lg by (simp add: samples_def nth_aslice)
  finally show ?thesis
    using off ub lg by (simp add: copy_sample_def stream_wf_load [OF wf] aget_def aset_def)
qed

lemma aslice_snoc: "aslice (b\<lparr>adat := (adat b)(k := x)\<rparr>) 0 (Suc k) = aslice b 0 k @ [x]"
  by (simp add: aslice_Suc aslice_upd_outside)

lemma aslice_pad:
  assumes "k \<le> n" "\<forall>j \<ge> k. adat b j = z"
  shows "aslice b 0 n = aslice b 0 k @ replicate (n - k) z"
proof -
  have "[0..<n] = [0..<k] @ [k..<n]" using upt_add_eq_append [of 0 k "n - k"] assms(1) by simp
  moreover have "map (adat b) [k..<n] = replicate (n - k) z"
    using assms(2) by (intro nth_equalityI) auto
  ultimately show ?thesis by (simp add: aslice_def)
qed

lemma reader_ok_read:
  assumes wf: "stream_wf s m" and cnt: "24 * unat cnt < 2 ^ 63" and xs: "prefix xs (samples s m)"
    and ok: "reader_ok m cnt xs s r g"
  shows "reader_ok m cnt xs s (reader m cnt s r) (snapshot r (samples s m) g)"
proof -
  let ?x = "unat (buffer_index (ST s m))"
  have cs: "sint cnt = int (unat cnt)" using cnt by (intro sint_small) simp
  have lx: "length xs \<le> ?x" using prefix_length_le [OF xs] by simp
  have ux: "uint (buffer_index (ST s m)) = int ?x" by simp
  have lt: "uint (buffer_index (ST s m)) < sint cnt \<longleftrightarrow> ?x < unat cnt" by (simp only: cs ux of_nat_less_iff)
  have off: "nat (uint (buffer_index (ST s m)) - sint cnt) = ?x - unat cnt" "unat cnt \<le> ?x \<Longrightarrow> 0 \<le> uint (buffer_index (ST s m)) - sint cnt"
    unfolding cs ux by linarith+
  have uc: "unat (ucast (buffer_index (ST s m)) :: u64) = ?x" by (rule unat_ucast_u64)
  show ?thesis
  proof (cases r)
    case Compare
    show ?thesis
      unfolding Compare reader.simps stream_wf_load(1) [OF wf] sum.case lt snapshot.simps using lx by simp
  next
    case Read_count
    then show ?thesis
      unfolding Read_count reader.simps stream_wf_load(1) [OF wf] sum.case snapshot.simps reader_ok.simps uc
      using ok [unfolded Read_count] xs by (auto simp: fetch_buffer_def azero_def)
  next
    case Read_offset
    have c: "unat cnt \<le> ?x" using ok Read_offset by simp
    show ?thesis
      unfolding Read_offset reader.simps stream_wf_load(1) [OF wf] sum.case snapshot.simps reader_ok.simps off(1)
      using c off(2) xs by (simp add: fetch_buffer_def azero_def del: uint_nat)
  next
    case (Copy src off n k b)
    note o = ok [unfolded Copy reader_ok.simps]
    show ?thesis
    proof (cases "k < unat n")
      case True
      have c: "copy_sample src off k b s =
          (if k < alen b then Inr (b\<lparr>adat := (adat b)(k := g ! (nat off + k))\<rparr>) else Inl OutOfBounds)"
        using o True copy_sample_in [OF wf, of g off k b] by simp
      show ?thesis
      proof (cases "k < unat cnt")
        case in_b: True
        have "nat off + k < length g" using o True by linarith
        then have "take (Suc k) (drop (nat off) g) = take k (drop (nat off) g) @ [g ! (nat off + k)]"
          by (simp add: take_Suc_conv_app_nth)
        with c o True in_b show ?thesis by (simp add: Copy aslice_snoc)
      next
        case False
        with c o True show ?thesis by (auto simp: Copy)
      qed
    next
      case False
      then have "k = unat n" using o by simp
      with o have n: "unat n = min (unat cnt) (length g)" "unat n \<le> unat cnt" by auto
      have "nat off = length g - unat cnt" using o n by auto
      then have l: "aslice b 0 (unat n) = last_n (unat cnt) g" using o \<open>k = unat n\<close> n by (simp add: last_n_def)
      have z: "\<forall>j \<ge> unat n. adat b j = zero_sample" using o \<open>k = unat n\<close> by simp
      have "aslice b 0 (unat cnt) = fetch_data cnt g"
        unfolding fetch_data_def aslice_pad [OF n(2) z] l by (simp add: n(1) min_def)
      moreover have "reader m cnt s r = Copied n b" using False by (simp add: Copy)
      ultimately show ?thesis using o n by (simp add: Copy)
    qed
  next
    case (Copied n b)
    then show ?thesis using ok by simp
  next
    case (Fault e)
    then show ?thesis using ok by simp
  qed
qed

text \<open>Threads and reader keep their invariants.\<close>

definition fetch_ok :: "('x \<Rightarrow> addr \<rightharpoonup> bool) \<Rightarrow> addr \<Rightarrow> u64 \<Rightarrow> double list \<Rightarrow> aggregator_stream_sample list \<Rightarrow> 'x fconfig \<Rightarrow> bool" where
  "fetch_ok mv m cnt vs0 xs c \<longleftrightarrow> (case c of (d, r, g) \<Rightarrow>
     threads_ok mv m vs0 d \<and> prefix xs (samples (fst d) m) \<and> reader_ok m cnt xs (fst d) r g)"

lemma fetch_ok_step:
  assumes A: "argobots_ok A mv" "argobots_blocks A mv" and cnt: "24 * unat cnt < 2 ^ 63"
    and ok: "fetch_ok mv m cnt vs0 xs c" and step: "fstep A self m cnt c c'"
  shows "fetch_ok mv m cnt vs0 xs c'"
proof -
  obtain s tp l r g where c: "c = ((s, tp, l), r, g)" by (metis prod.exhaust)
  have t: "threads_ok mv m vs0 (s, tp, l)" "prefix xs (samples s m)" "reader_ok m cnt xs s r g"
    using ok by (simp_all add: fetch_ok_def c)
  from step [unfolded c] show ?thesis
  proof (rule fstepE, goal_cases)
    case (1 d)
    obtain s' tp' l' where d: "d = (s', tp', l')" by (cases d) auto
    note u = ustep_samples [OF t(1) 1(2) [unfolded d]]
    have "prefix xs (samples s' m)" using t(2) u by (blast intro: prefix_order.trans)
    with threads_ok_step [OF A t(1) 1(2)] reader_ok_update [OF t(3), of s'] u show ?thesis
      by (simp add: fetch_ok_def 1(1) d)
  next
    case 2
    have "stream_wf s m" using t(1) by (simp add: threads_ok_def)
    from reader_ok_read [OF this cnt t(2,3)] t show ?thesis by (simp add: fetch_ok_def 2)
  qed
qed

lemma freach_ok:
  assumes "argobots_ok A mv" "argobots_blocks A mv" "24 * unat cnt < 2 ^ 63"
    and "freach A self m cnt c c'" "fetch_ok mv m cnt vs0 xs c"
  shows "fetch_ok mv m cnt vs0 xs c'"
  using assms(4,5) by (induction) (auto intro: fetch_ok_step [OF assms(1-3)])

lemma fetch_threads_result:
  assumes A: "argobots_ok A mv" "argobots_blocks A mv" and i: "threads_init mv m tp s" and cnt: "24 * unat cnt < 2 ^ 63"
    and r: "freach A self m cnt ((s, tp, []), Compare, []) ((s', tp', l), r, g)"
  shows "reader_ok m cnt (samples s m) s' r g" "svals s' m = svals s m @ map snd l" "prefix (samples s m) (samples s' m)"
proof -
  have "fetch_ok mv m cnt (svals s m) (samples s m) ((s, tp, []), Compare, [])"
    using threads_init_ok [OF i] by (simp add: fetch_ok_def)
  from freach_ok [OF A cnt r this] show "reader_ok m cnt (samples s m) s' r g" "svals s' m = svals s m @ map snd l"
    "prefix (samples s m) (samples s' m)"
    by (simp_all add: fetch_ok_def threads_ok_def)
qed


section \<open>The reader finishes\<close>

fun reader_rank :: "reader_pc \<Rightarrow> nat" where
  "reader_rank Compare = 2 ^ 64 + 2"
| "reader_rank Read_count = 2 ^ 64 + 1"
| "reader_rank Read_offset = 2 ^ 64 + 1"
| "reader_rank (Copy src off n k b) = Suc (unat n - k)"
| "reader_rank (Copied n b) = 0"
| "reader_rank (Fault e) = 0"

lemma reader_rank_less:
  assumes "reader_rank r \<noteq> 0"
  shows "reader_rank (reader m cnt s r) < reader_rank r"
proof -
  have "Suc (unat n) < 2 ^ 64 + 1" for n :: u64 using unsigned_less [of n] by simp
  with assms show ?thesis by (cases r) (auto split: sum.splits)
qed

lemma freach_trans: "freach A self m cnt c c' \<Longrightarrow> freach A self m cnt c' c'' \<Longrightarrow> freach A self m cnt c c''"
proof -
  assume a: "freach A self m cnt c c'" and r: "freach A self m cnt c' c''"
  from r show ?thesis by (induction) (use a in \<open>auto intro: freach.intros\<close>)
qed

lemma freach_read:
  "freach A self m cnt ((s, tp, l), reader m cnt s r, snapshot r (samples s m) g) c \<Longrightarrow> freach A self m cnt ((s, tp, l), r, g) c"
  by (rule freach_trans [OF freach.more [OF freach.init fstep.reads]])

lemma freach_updates: "ureach A self m c c' \<Longrightarrow> freach A self m cnt (c, r, g) (c', r, g)"
  by (induction rule: ureach.induct) (auto intro: freach.intros fstep.updates)

text \<open>Left alone, the reader copies what the handler of \<open>Provider_Rpc\<close> does.\<close>

lemma reader_alone:
  assumes wf: "stream_wf s m" and cnt: "24 * unat cnt < 2 ^ 63"
    and ok: "reader_ok m cnt (samples s m) s r g" and g: "r \<notin> {Compare, Read_count, Read_offset} \<longrightarrow> g = samples s m"
  shows "\<exists>n b. freach A self m cnt ((s, tp, l), r, g) ((s, tp, l), Copied n b, samples s m) \<and>
    aslice b 0 (unat cnt) = fetch_data cnt (samples s m)"
  using ok g
proof (induction "reader_rank r" arbitrary: r g rule: less_induct)
  case less
  show ?case
  proof (cases "reader_rank r = 0")
    case False
    let ?r = "reader m cnt s r" and ?g = "snapshot r (samples s m) g"
    have o: "reader_ok m cnt (samples s m) s ?r ?g"
      by (rule reader_ok_read [OF wf cnt _ less.prems(1)]) simp
    have "?r \<notin> {Compare, Read_count, Read_offset} \<longrightarrow> ?g = samples s m"
      using less.prems(2) by (cases r) (auto simp: stream_wf_load [OF wf])
    from less.hyps [OF reader_rank_less [OF False] o this] show ?thesis by (blast intro: freach_read)
  next
    case True
    then consider n b where "r = Copied n b" | e where "r = Fault e" by (cases r) auto
    then show ?thesis
    proof cases
      case (1 n b)
      with less.prems show ?thesis by (auto intro: freach.init)
    next
      case (2 e)
      with less.prems have "length (samples s m) < unat cnt" "unat cnt < length (samples s m)" by auto
      then show ?thesis by linarith
    qed
  qed
qed

section \<open>The race of the second read\<close>

lemma copy_overflows:
  assumes wf: "stream_wf s m" and cnt: "24 * unat cnt < 2 ^ 63" and xs: "prefix xs (samples s m)"
    and ok: "reader_ok m cnt xs s (Copy src off n k b) g" and n: "unat cnt < unat n"
  shows "freach A self m cnt ((s, tp, l), Copy src off n k b, g) ((s, tp, l), Fault OutOfBounds, g)"
  using ok
proof (induction "unat cnt - k" arbitrary: k b)
  case 0
  have o: "k \<le> unat cnt" "0 \<le> off" "prefix g (samples s m)" "nat off + unat n = length g" "src = buffer (ST s m)" "alen b = unat cnt"
    using 0(2) by simp_all
  have k: "k = unat cnt" using 0(1) o(1) by (metis diff_is_0_eq le_antisym)
  have "nat off + k < length g" using o n k by linarith
  then have "copy_sample src off k b s = Inl OutOfBounds"
    using o k copy_sample_in [OF wf, of g off k b] by simp
  then have "reader m cnt s (Copy src off n k b) = Fault OutOfBounds" using n k by simp
  then show ?case using freach_read [of A self m cnt s tp l "Copy src off n k b" g] by (simp add: freach.init del: reader.simps)
next
  case (Suc j)
  let ?b = "b\<lparr>adat := (adat b)(k := g ! (nat off + k))\<rparr>"
  note o = Suc.prems [unfolded reader_ok.simps]
  have k: "k < unat cnt" using Suc.hyps(2) by linarith
  then have "nat off + k < length g" using o n by linarith
  then have "copy_sample src off k b s = Inr ?b"
    using o k copy_sample_in [OF wf, of g off k b] by simp
  then have r: "reader m cnt s (Copy src off n k b) = Copy src off n (Suc k) ?b" using n k by simp
  have "reader_ok m cnt xs s (Copy src off n (Suc k) ?b) g"
    using reader_ok_read [OF wf cnt xs Suc.prems] unfolding r by simp
  moreover have "j = unat cnt - Suc k" using Suc.hyps(2) by linarith
  ultimately have "freach A self m cnt ((s, tp, l), Copy src off n (Suc k) ?b, g) ((s, tp, l), Fault OutOfBounds, g)"
    using Suc.hyps(1) by blast
  then show ?case using freach_read [of A self m cnt s tp l "Copy src off n k b" g] r by (simp del: reader.simps)
qed

lemma fetch_overflow:
  assumes A: "argobots_ok A mv" and i: "threads_init mv m tp s"
    and tu: "t \<noteq> u" "tp t = Check a" "tp u = Check b"
    and acc: "\<not> refuses (stype (ST s m)) (svals s m) a" "\<not> refuses (stype (ST s m)) (svals s m) b"
    and cnt: "unat cnt = Suc (length (samples s m))" "length (samples s m) + 2 \<le> STREAM_BUFFER_SIZE"
  shows "\<exists>s' tp' l g. freach A self m cnt ((s, tp, []), Compare, []) ((s', tp', l), Fault OutOfBounds, g)"
proof -
  have wf: "stream_wf s m" using i by (simp add: threads_init_def)
  have c63: "24 * unat cnt < 2 ^ 63" using cnt by (simp add: STREAM_BUFFER_SIZE_def)
  have "length (svals s m) + 2 \<le> STREAM_BUFFER_SIZE" using cnt(2) by (simp add: svals_def)
  from both_record [OF A i tu acc this, of self] obtain s' tp' l where
    r: "ureach A self m (s, tp, []) (s', tp', l)" and sv: "svals s' m = svals s m @ [a, b]" and wf': "stream_wf s' m"
    by blast
  have len: "length (samples s' m) = Suc (unat cnt)"
    using arg_cong [OF sv, of length] cnt(1) by (simp add: svals_def)
  have rc: "reader m cnt s Compare = Read_count"
    using cnt(1) sint_small [of cnt] c63 by (simp add: stream_wf_load [OF wf])
  let ?c = "Copy (buffer (ST s' m)) 0 (ucast (buffer_index (ST s' m))) 0 (fetch_buffer cnt)"
  have rr: "reader m cnt s' Read_count = ?c" by (simp add: stream_wf_load [OF wf'])
  have "reader_ok m cnt [] s' ?c (samples s' m)"
    using reader_ok_read [OF wf' c63, of "[]" Read_count "[]"] cnt(1) unfolding rr by (simp add: unat_ucast_u64)
  from copy_overflows [OF wf' c63 _ this] len
  have "freach A self m cnt ((s', tp', l), ?c, samples s' m) ((s', tp', l), Fault OutOfBounds, samples s' m)"
    by (simp add: unat_ucast_u64)
  with rr have "freach A self m cnt ((s', tp', l), Read_count, []) ((s', tp', l), Fault OutOfBounds, samples s' m)"
    using freach_read [of A self m cnt s' tp' l Read_count "[]"] by (simp del: reader.simps)
  with freach_updates [OF r] have "freach A self m cnt ((s, tp, []), Read_count, []) ((s', tp', l), Fault OutOfBounds, samples s' m)"
    by (rule freach_trans)
  with rc have "freach A self m cnt ((s, tp, []), Compare, []) ((s', tp', l), Fault OutOfBounds, samples s' m)"
    using freach_read [of A self m cnt s tp "[]" Compare "[]"] by (simp del: reader.simps)
  then show ?thesis by blast
qed

end
