(* ===== verification/Client_Program.thy ===== *)
theory Client_Program
  imports Client_Rpc Taglist Process
begin

text \<open>
  The command-line client (\<open>main\<close> of \<open>bin/client.c\<close>): it lists a provider's streams, computes the
  identifier of one by its names, and fetches its last samples. Its memory is that of a client and,
  for the tag list, a \<open>server\<close> memory without a provider. What it prints is a list of \<open>printed\<close> items.

  \<open>exit(-1)\<close> and the macro \<open>FATAL\<close> are \<open>Inl (Exit (-1))\<close>, a failed assertion \<open>Inl (Exit 134)\<close>, the status of
  \<open>SIGABRT\<close>.
\<close>

section \<open>The program\<close>

datatype printed =
    Stream_id u32
  | List_failed u32
  | Total u64
  | Listed_id u32
  | Fetched_from u64 "byte list" "byte list"
  | Sample double double

text \<open>The arguments (\<open>mn_pid\<close> is \<open>atoi(argv[2])\<close>) and what Margo answers.\<close>

record main_env =
  mn_argc :: int
  mn_pid :: int
  mn_mid :: addr
  mn_lookup :: "int \<times> addr"
  mn_init :: init_env
  mn_list :: margo_env
  mn_dup :: "int \<times> addr"
  mn_fetch :: margo_env
  mn_addr_free :: int

text \<open>The literals \<open>"srini"\<close>, \<open>"teststream2"\<close>, \<open>"tag1"\<close>, \<open>"tag2"\<close> and \<open>"tag3"\<close>.\<close>

definition main_ns :: "byte list" where
  "main_ns = [115, 114, 105, 110, 105, 0]"

definition main_name :: "byte list" where
  "main_name = [116, 101, 115, 116, 115, 116, 114, 101, 97, 109, 50, 0]"

definition main_tags :: "byte list list" where
  "main_tags = [[116, 97, 103, 49, 0], [116, 97, 103, 50, 0], [116, 97, 103, 51, 0]]"

definition rd_cstring :: "addr \<Rightarrow> client_mem \<Rightarrow> byte list res" where
  "rd_cstring q s = rbind (load (cstrs s) q) (\<lambda>t. rbind (strlen t) (\<lambda>n. Inr (take n t)))"

text \<open>The loops that print \<open>ids[j]\<close> and \<open>b[i]\<close>: the iterations left, and the next index.\<close>

fun print_ids :: "nat \<Rightarrow> nat \<Rightarrow> addr \<Rightarrow> client_mem \<Rightarrow> printed list res" where
  "print_ids 0 j ids s = Inr []"
| "print_ids (Suc n) j ids s =
     rbind (load (cids s) ids) (\<lambda>A.
     rbind (aget A j) (\<lambda>i.
     rbind (print_ids n (Suc j) ids s) (\<lambda>o'. Inr (Listed_id i # o'))))"

fun print_samples :: "nat \<Rightarrow> nat \<Rightarrow> addr \<Rightarrow> client_mem \<Rightarrow> printed list res" where
  "print_samples 0 i b s = Inr []"
| "print_samples (Suc n) i b s =
     rbind (load (cbufs s) b) (\<lambda>B.
     rbind (aget B i) (\<lambda>x.
     rbind (print_samples n (Suc i) b s) (\<lambda>o'. Inr (Sample (val x) (time x) # o'))))"

text \<open>From the fetch to the end; \<open>o1\<close> is what has been printed.\<close>

definition main_fetch :: "hg_prims \<Rightarrow> main_env \<Rightarrow> addr \<Rightarrow> addr \<Rightarrow> printed list \<Rightarrow> client_mem \<Rightarrow> 'x server \<Rightarrow>
    (int \<times> printed list \<times> client_mem \<times> 'x server) res" where
  "main_fetch P env clt rh o1 s t =
     rbind (aggregator_remote_stream_fetch P (mn_fetch env) rh 5 s) (\<lambda>(_, n, res, s).
     rbind (rd_local res) (\<lambda>(b, nm, q).
     rbind (rd_cstring nm s) (\<lambda>name.
     rbind (rd_cstring q s) (\<lambda>ns.
     rbind (print_samples (nat (sint n)) 0 b s) (\<lambda>o2.
     rbind (aggregator_remote_stream_handle_release rh s) (\<lambda>(ret, s).
     if ret \<noteq> AGGREGATOR_SUCCESS then Inl (Exit (-1))
     else
       rbind (aggregator_client_finalize clt s) (\<lambda>(ret, s).
       if ret \<noteq> AGGREGATOR_SUCCESS \<or> mn_addr_free env \<noteq> HG_SUCCESS then Inl (Exit (-1))
       else Inr (0, o1 @ Fetched_from n name ns # o2, s, t))))))))"

definition client_main :: "hg_prims \<Rightarrow> main_env \<Rightarrow> client_mem \<Rightarrow> 'x server \<Rightarrow> (int \<times> printed list \<times> client_mem \<times> 'x server) res" where
  "client_main P env s t =
     (if mn_argc env \<noteq> 3 then Inl (Exit (-1))
      else if mn_mid env = NULL then Inl (Exit 134)
      else let (hret, ad) = mn_lookup env in
      if hret \<noteq> HG_SUCCESS then Inl (Exit (-1))
      else
        rbind (aggregator_client_init (mn_init env) (mn_mid env) s) (\<lambda>(ret, clt, s).
        if ret \<noteq> AGGREGATOR_SUCCESS then Inl (Exit (-1))
        else
          let (ids, sch, h) = calloc (azero 5 0) (coom s) (cids s); s = s\<lparr>coom := sch, cids := h\<rparr> in
          rbind (aggregator_remote_list_streams P (mn_list env) clt (of_int (mn_pid env)) ids 5 s) (\<lambda>(lret, count, s).
          rbind (aggregator_taglist_create 3 main_tags t) (\<lambda>(_, tgl, t).
          rbind (aggregator_remote_stream_get_id (Some main_ns) (Some main_name) tgl t) (\<lambda>(_, id).
          rbind (rd_local id) (\<lambda>id.
          rbind (if lret \<noteq> ret_code AGGREGATOR_SUCCESS then Inr [List_failed lret]
                 else rbind (print_ids (unat count) 0 ids s) (\<lambda>o'. Inr (Total count # o'))) (\<lambda>o1.
          rbind (aggregator_remote_stream_handle_create (mn_dup env) clt ad (of_int (mn_pid env)) id s) (\<lambda>(ret, rh, s).
          if ret \<noteq> AGGREGATOR_SUCCESS then Inl (Exit (-1))
          else
            main_fetch P env clt rh (Stream_id id # o1) s t))))))))"

section \<open>Memory that a call leaves alone\<close>

definition client_rest :: "client_mem \<Rightarrow> client_mem \<Rightarrow> bool" where
  "client_rest s s' \<longleftrightarrow> cbufs s' = cbufs s \<and> cstrs s' = cstrs s \<and> cids s' = cids s \<and>
     (False \<notin> set (coom s) \<longrightarrow> False \<notin> set (coom s'))"

lemma client_rest_simps [simp]:
  "client_rest s s" "client_rest s (put_client c C s) = True" "client_rest s (put_handle p H s) = True" "client_rest s (ccall x s) = True"
  "client_rest s (s\<lparr>clients := h1\<rparr>)" "client_rest s (s\<lparr>handles := h2\<rparr>)"
  by (simp_all add: client_rest_def put_client_def put_handle_def ccall_def)

lemma client_rest_trans: "client_rest s s' \<Longrightarrow> client_rest s' s'' \<Longrightarrow> client_rest s s''"
  by (auto simp: client_rest_def)

lemma upd_client_rest: "upd_client c f s = Inr s' \<Longrightarrow> client_rest s s'"
  by (auto simp: upd_client_def rbind_eq_Inr)

lemma upd_handle_rest: "upd_handle p f s = Inr s' \<Longrightarrow> client_rest s s'"
  by (auto simp: upd_handle_def rbind_eq_Inr)

lemma no_coom_tl: "False \<notin> set sch \<Longrightarrow> False \<notin> set (tl sch)"
  by (cases sch) auto

lemma init_rest:
  assumes "aggregator_client_init env mid s = Inr (r, c, s')"
  shows "client_rest s s'"
proof -
  define s0 where "s0 = s\<lparr>coom := tl (coom s), clients := snd (snd (calloc zero_client (coom s) (clients s)))\<rparr>"
  have "client_rest s s0" by (auto simp: client_rest_def s0_def no_coom_tl)
  moreover have "client_rest s0 s'"
    using assms by (auto simp: aggregator_client_init_def calloc_def s0_def rbind_eq_Inr Let_def split: if_splits
      dest!: upd_client_rest) (auto simp: client_rest_def ccall_def)
  ultimately show ?thesis by (rule client_rest_trans)
qed

lemma handle_create_rest:
  assumes "aggregator_remote_stream_handle_create dup c ad pid i s = Inr (r, rh, s')"
  shows "client_rest s s'"
proof -
  define s0 where "s0 = s\<lparr>coom := tl (coom s), handles := snd (snd (calloc zero_stream_handle (coom s) (handles s)))\<rparr>"
  have "client_rest s s0" by (auto simp: client_rest_def s0_def no_coom_tl)
  moreover have "client_rest s0 s' \<or> s' = s"
    using assms by (auto simp: aggregator_remote_stream_handle_create_def calloc_def s0_def rbind_eq_Inr Let_def split: if_splits prod.splits
      dest!: upd_client_rest upd_handle_rest) (auto simp: client_rest_def ccall_def)
  ultimately show ?thesis by (auto intro: client_rest_trans)
qed

lemma client_cong:
  assumes "clients s' = clients s" "handles s' = handles s"
  shows "client_inv s' = client_inv s" "refs s' = refs s" "HD s' = HD s" "CL s' = CL s"
proof -
  show v: "HD s' = HD s" "CL s' = CL s" using assms by (simp_all add: HD_def CL_def fun_eq_iff)
  then show "client_inv s' = client_inv s" "refs s' = refs s"
    using assms by (simp_all add: client_inv_def refs_def handles_of_def fun_eq_iff)
qed

section \<open>Runs\<close>

lemma print_ids_ok:
  assumes "cells (cids s) ids = Some A" "ids \<noteq> NULL" "j + n \<le> alen A"
  shows "print_ids n j ids s = Inr (map Listed_id (aslice A j n))"
  using assms(3)
proof (induction n arbitrary: j)
  case (Suc n)
  have "aslice A j (Suc n) = adat A j # aslice A (Suc j) n" by (simp add: aslice_def upt_conv_Cons del: upt_Suc)
  with Suc assms(1,2) show ?case by (simp add: load_def aget_def)
qed simp

lemma print_samples_ok:
  assumes "cells (cbufs s) b = Some B" "b \<noteq> NULL" "j + n \<le> alen B"
  shows "print_samples n j b s = Inr (map (\<lambda>x. Sample (val x) (time x)) (aslice B j n))"
  using assms(3)
proof (induction n arbitrary: j)
  case (Suc n)
  have "aslice B j (Suc n) = adat B j # aslice B (Suc j) n" by (simp add: aslice_def upt_conv_Cons del: upt_Suc)
  with Suc assms(1,2) show ?case by (simp add: load_def aget_def)
qed simp

text \<open>The terms on which the program runs: its arguments, Margo and its memory.\<close>

definition main_ready :: "main_env \<Rightarrow> client_mem \<Rightarrow> 'x server \<Rightarrow> bool" where
  "main_ready env s t \<longleftrightarrow> mn_argc env = 3 \<and> mn_mid env \<noteq> NULL \<and> fst (mn_lookup env) = HG_SUCCESS \<and>
     fst (mn_dup env) = HG_SUCCESS \<and> mn_addr_free env = HG_SUCCESS \<and>
     client_inv s \<and> False \<notin> set (coom s) \<and> heap_ok (cids s) \<and> heap_ok (cbufs s) \<and> heap_ok (cstrs s) \<and> mem_ok t"

lemma main_texts:
  "terminated main_ns" "terminated main_name" "length main_tags = 3"
  "\<forall>t \<in> set main_tags. terminated t \<and> length (cstring t) < 36 * 8"
  by (simp_all add: main_ns_def main_name_def main_tags_def terminated_def)

lemma client_main_until_fetch:
  assumes P: "prims_ok P e32 e64 esz estr eblk" and sv: "process_inv mv sv p xs" and rd: "main_ready env s t"
    and ls: "me_create (mn_list env) = HG_SUCCESS" "me_forward (mn_list env) = serve_list P lost p sv"
  defines "i \<equiv> stream_id_spec main_ns main_name main_tags"
  shows "\<exists>clt rh s' t'. client_main P env s t =
      main_fetch P env clt rh (Stream_id i # Total (of_nat (min (length xs) 5)) # map Listed_id (take 5 (map (SID sv) xs))) s' t' \<and>
    client_inv s' \<and> refs s rh = None \<and> refs s' = (refs s)(rh \<mapsto> 1) \<and> h_client (HD s' rh) = clt \<and> h_stream_id (HD s' rh) = i \<and>
    (\<forall>c. live (clients s') c \<longleftrightarrow> c = clt \<or> live (clients s) c) \<and> \<not> live (clients s) clt \<and>
    False \<notin> set (coom s') \<and> heap_ok (cbufs s') \<and> heap_ok (cstrs s')"
proof -
  have r: "mn_argc env = 3" "mn_mid env \<noteq> NULL" "client_inv s" "False \<notin> set (coom s)" "heap_ok (cids s)" "heap_ok (cbufs s)"
    "heap_ok (cstrs s)" "mem_ok t" "mn_addr_free env = HG_SUCCESS" using rd by (simp_all add: main_ready_def)
  obtain ad where lk: "mn_lookup env = (HG_SUCCESS, ad)" using rd by (cases "mn_lookup env") (simp add: main_ready_def)
  obtain ad' where dup: "mn_dup env = (HG_SUCCESS, ad')" using rd by (cases "mn_dup env") (simp add: main_ready_def)
  from client_init_ok [OF r(3) alloc_ok_set [OF r(4)], of "mn_init env" "mn_mid env"] obtain clt s1 where
    s1: "aggregator_client_init (mn_init env) (mn_mid env) s = Inr (AGGREGATOR_SUCCESS, clt, s1)" "client_inv s1"
      "live (clients s1) clt" "\<not> live (clients s) clt" "refs s1 = refs s" "\<forall>c. live (clients s1) c \<longleftrightarrow> c = clt \<or> live (clients s) c"
    by blast
  have f1: "client_rest s s1" by (rule init_rest [OF s1(1)])
  define ids where "ids = brk (cids s1)"
  define s2 where "s2 = s1\<lparr>coom := tl (coom s1), cids := \<lparr>cells = (cells (cids s1))(ids := Some (azero 5 0)), brk = Suc ids\<rparr>\<rparr>"
  have m1: "False \<notin> set (coom s1)" "heap_ok (cids s1)" using f1 r by (simp_all add: client_rest_def)
  have c2: "calloc (azero 5 0) (coom s1) (cids s1) = (ids, tl (coom s1), cids s2)" "s1\<lparr>coom := tl (coom s1), cids := cids s2\<rparr> = s2"
    using alloc_ok_set [OF m1(1)] by (simp_all add: calloc_def s2_def ids_def)
  have v2: "clients s2 = clients s1" "handles s2 = handles s1" "cbufs s2 = cbufs s" "cstrs s2 = cstrs s"
    using f1 by (simp_all add: s2_def client_rest_def)
  have i0: "ids \<noteq> NULL" using m1(2) by (simp add: heap_ok_def ids_def)
  have d2: "cells (cids s2) ids = Some (azero 5 0)" "unat (5 :: u64) \<le> alen (azero 5 (0 :: u32))" by (simp_all add: s2_def azero_def)
  have m2: "False \<notin> set (coom s2)" "heap_ok (cids s2)"
    using m1 by (auto simp: s2_def no_coom_tl heap_ok_def ids_def split: if_splits)
  have l2: "live (clients s2) clt" using s1(3) v2 by simp
  have pi: "prov_inv sv p xs" "no_oom sv" "heap_ok (idarrs sv)" using sv by (simp_all add: process_inv_def mem_ok_def)
  from remote_list_ok [OF P pi l2 d2(1) i0 d2(2) m2 ls, of "of_int (mn_pid env)"] obtain k s3 D where
    s3: "aggregator_remote_list_streams P (mn_list env) clt (of_int (mn_pid env)) ids 5 s2 = Inr (ret_code AGGREGATOR_SUCCESS, k, s3)"
      "unat k = min (length xs) 5" "cells (cids s3) ids = Some D" "alen D = 5" "aslice D 0 (unat k) = take 5 (map (SID sv) xs)"
      "clients s3 = clients s2" "handles s3 = handles s2" "cbufs s3 = cbufs s2" "cstrs s3 = cstrs s2" "coom s3 = tl (coom s2)"
    by (auto simp: azero_def)
  have kk: "k = of_nat (min (length xs) 5)" by (simp flip: s3(2))
  have pr: "print_ids (unat k) 0 ids s3 = Inr (map Listed_id (take 5 (map (SID sv) xs)))"
    using print_ids_ok [OF s3(3) i0, of 0 "unat k"] s3(2,4,5) by simp
  have mt: "no_oom t" "heap_ok (tagls t)" "heap_ok (ptrs t)" "heap_ok (strs t)" using r(8) by (simp_all add: mem_ok_def)
  from taglist_create_ok [OF mt main_texts(4)] obtain t' b where
    t': "aggregator_taglist_create 3 main_tags t = Inr (AGGREGATOR_SUCCESS, brk (tagls t), t')" "tags_at t' (brk (tagls t)) b main_tags"
    by (auto simp: main_texts(3))
  note gid = get_id_tags [OF t'(2) main_texts(1,2)]
  note cg = client_cong [OF s3(6,7) [unfolded v2]]
  have m3: "False \<notin> set (coom s3)" "client_inv s3" "live (clients s3) clt"
    using m2 s1 s3 v2 cg by (simp_all add: no_coom_tl)
  from handle_create_ok [OF m3(2,3) alloc_ok_set [OF m3(1)], of ad' ad "of_int (mn_pid env)" i] obtain rh s4 where
    s4: "aggregator_remote_stream_handle_create (HG_SUCCESS, ad') clt ad (of_int (mn_pid env)) i s3 = Inr (AGGREGATOR_SUCCESS, rh, s4)"
      "client_inv s4" "refs s3 rh = None" "refs s4 = (refs s3)(rh \<mapsto> 1)" "h_client (HD s4 rh) = clt" "h_stream_id (HD s4 rh) = i"
      "live (clients s4) = live (clients s3)"
    by auto
  note f4 = handle_create_rest [OF s4(1)]
  have run: "client_main P env s t = main_fetch P env clt rh (Stream_id i # Total k # map Listed_id (take 5 (map (SID sv) xs))) s4 t'"
    unfolding client_main_def lk dup prod.case s1(1) rbind_Inr Let_def c2 s3(1) t'(1) gid i_def [symmetric] rd_local_def option.case pr s4(1)
    using r by simp
  have "client_inv s4 \<and> refs s rh = None \<and> refs s4 = (refs s)(rh \<mapsto> 1) \<and> h_client (HD s4 rh) = clt \<and> h_stream_id (HD s4 rh) = i \<and>
    (\<forall>c. live (clients s4) c \<longleftrightarrow> c = clt \<or> live (clients s) c) \<and> \<not> live (clients s) clt \<and>
    False \<notin> set (coom s4) \<and> heap_ok (cbufs s4) \<and> heap_ok (cstrs s4)"
    using s4 s1 cg f4 m3 s3 v2 r by (simp add: client_rest_def)
  with run kk show ?thesis by blast
qed

lemma rd_cstring_at: "cstr_at s q t \<Longrightarrow> rd_cstring q s = Inr t"
  by (auto simp: cstr_at_def rd_cstring_def load_def strlen_terminated take_cstring)

text \<open>The stream is there: the program prints what the provider holds, and gives its client and handle back.\<close>

lemma main_fetch_ok:
  assumes P: "prims_ok P e32 e64 esz estr eblk" and sv: "process_inv mv sv p xs"
    and reg: "registry sv xs (h_stream_id (HD s rh)) = Some st"
    and cl: "client_inv s" "refs s rh = Some 1" "h_client (HD s rh) = clt"
    and mem: "False \<notin> set (coom s)" "heap_ok (cbufs s)" "heap_ok (cstrs s)"
    and env: "mn_fetch env = \<lparr>me_bulk_create = Some blk, me_create = HG_SUCCESS, me_forward = serve_fetch P lost p sv\<rparr>"
      "mn_addr_free env = HG_SUCCESS"
  shows "\<exists>s'. main_fetch P env clt rh o1 s t = Inr (0, o1 @ Fetched_from (of_nat (min 5 (length (samples sv st))))
        (cstring (sname (ST sv st))) (cstring (sns (ST sv st))) # map (\<lambda>x. Sample (val x) (time x)) (last_n 5 (samples sv st)), s', t) \<and>
    refs s' = (refs s)(rh := None) \<and> (\<forall>c. live (clients s') c \<longleftrightarrow> c \<noteq> clt \<and> live (clients s) c)"
proof -
  have pi: "prov_inv sv p xs" and h: "no_oom sv" "heap_ok (bufs sv)" "heap_ok (strs sv)"
    using sv by (simp_all add: process_inv_def mem_ok_def)
  have "st \<in> set xs" using reg pi by (auto simp: registry_def prov_inv_def index_map_Some_iff [OF ut.idents])
  then have wf: "stream_wf sv st" using sv by (simp add: process_inv_def stream_ok_def)
  have l: "live (handles s) rh" "live (clients s) (h_client (HD s rh))" using cl by (auto simp: refs_def client_inv_def split: if_splits)
  have k: "unat (clamp_count 5) = 5" by (simp add: unat_clamp_count STREAM_BUFFER_SIZE_def)
  from remote_fetch_ok [OF P pi reg wf h l mem env(1), of 5, unfolded k] obtain c b nm q s1 a where
    f: "aggregator_remote_stream_fetch P (mn_fetch env) rh 5 s = Inr (ret_code AGGREGATOR_SUCCESS, c, Some (b, nm, q), s1)"
      "unat c = min 5 (length (samples sv st))" "b \<noteq> NULL" "cells (cbufs s1) b = Some a" "alen a = 5"
      "take (unat c) (aslice a 0 (alen a)) = last_n 5 (samples sv st)" "cstr_at s1 nm (cstring (sname (ST sv st)))"
      "cstr_at s1 q (cstring (sns (ST sv st)))" "handles s1 = handles s" "clients s1 = clients s"
    unfolding env(1) by blast
  note cg = client_cong [OF f(10,9)]
  have cc: "c = of_nat (min 5 (length (samples sv st)))" by (simp del: length_samples flip: f(2))
  have "sint c = int (unat c)" using f(2) by (intro sint_small) simp
  then have n: "nat (sint c) = unat c" by simp
  have "aslice a 0 (unat c) = take (unat c) (aslice a 0 (alen a))" using f(2,5) by (simp add: aslice_def take_map)
  then have ps: "print_samples (nat (sint c)) 0 b s1 = Inr (map (\<lambda>x. Sample (val x) (time x)) (last_n 5 (samples sv st)))"
    using print_samples_ok [OF f(4,3), of 0 "unat c"] f(2,5,6) n by simp
  have "client_inv s1" "refs s1 rh = Some 1" using cg cl by simp_all
  from release_last [OF this] obtain s2 where
    s2: "aggregator_remote_stream_handle_release rh s1 = Inr (AGGREGATOR_SUCCESS, s2)" "refs s2 = (refs s1)(rh := None)"
      "live (clients s2) = live (clients s1)" by blast
  have lc: "live (clients s2) clt" using l(2) cl(3) s2(3) f(10) by simp
  define s3 where "s3 = s2\<lparr>clients := (clients s2)\<lparr>cells := (cells (clients s2))(clt := None)\<rparr>\<rparr>"
  have run: "main_fetch P env clt rh o1 s t = Inr (0, o1 @ Fetched_from c
      (cstring (sname (ST sv st))) (cstring (sns (ST sv st))) # map (\<lambda>x. Sample (val x) (time x)) (last_n 5 (samples sv st)), s3, t)"
    by (simp add: main_fetch_def f(1) rd_local_def rd_cstring_at [OF f(7)] rd_cstring_at [OF f(8)] ps s2(1) finalize_ok [OF lc] env(2) s3_def)
  have "refs s3 = refs s2" by (simp add: s3_def refs_def HD_def fun_eq_iff)
  moreover have "live (clients s3) c \<longleftrightarrow> c \<noteq> clt \<and> live (clients s2) c" for c by (auto simp: s3_def live_def)
  ultimately show ?thesis using run s2 cg f(10) unfolding cc by (intro exI [of _ s3]) simp
qed

text \<open>
  The fetch fails: its request cannot be made, or the forward or the decoding of its response reports
  an error. The program prints names that were never set.
\<close>

lemma main_fetch_failed:
  assumes cl: "client_inv s" "refs s rh = Some 1" and mem: "False \<notin> set (coom s)"
    and fails: "me_create (mn_fetch env) \<noteq> HG_SUCCESS \<or> (\<forall>m. fst (me_forward (mn_fetch env) m) \<noteq> HG_SUCCESS \<or>
      fst (hg_proc_stream_fetch_out_t P HG_DECODE zero_fetch_out (snd (snd (me_forward (mn_fetch env) m)))) \<noteq> HG_SUCCESS)"
  shows "main_fetch P env clt rh o1 s t = Inl Uninit"
proof -
  have l: "live (handles s) rh" "live (clients s) (h_client (HD s rh))" using cl by (auto simp: refs_def client_inv_def split: if_splits)
  show ?thesis
  proof (cases "me_bulk_create (mn_fetch env)")
    case None
    then show ?thesis using alloc_ok_set [OF mem] l load_client_live
      by (simp add: main_fetch_def aggregator_remote_stream_fetch_def load_handle_live calloc_def rd_local_def Let_def cl_simps)
  next
    case (Some blk)
    define i where "i = \<lparr>fi_stream_id = h_stream_id (HD s rh), fi_count = clamp_count 5, fi_bulk = blk\<rparr>"
    obtain r pushed reply where fw: "forward (mn_fetch env) (hg_proc_stream_fetch_in_t P HG_ENCODE i []) = (r, pushed, reply)"
      by (metis prod_cases3)
    obtain r2 out x where de: "hg_proc_stream_fetch_out_t P HG_DECODE zero_fetch_out reply = (r2, out, x)" by (metis prod_cases3)
    have "me_create (mn_fetch env) \<noteq> HG_SUCCESS \<or> r \<noteq> HG_SUCCESS \<or> r2 \<noteq> HG_SUCCESS"
    proof (rule ccontr)
      assume n: "\<not> ?thesis"
      then obtain m where "me_forward (mn_fetch env) m = (r, pushed, reply)"
        using fw by (cases "hg_proc_stream_fetch_in_t P HG_ENCODE i []") (auto simp: forward_def split: if_splits)
      with fails n de show False by (metis fst_conv snd_conv)
    qed
    then have "\<exists>n s'. aggregator_remote_stream_fetch P (mn_fetch env) rh 5 s = Inr (ret_code AGGREGATOR_ERR_FROM_MERCURY, n, None, s')"
      using alloc_ok_set [OF mem] l load_client_live fw de
      by (simp add: aggregator_remote_stream_fetch_def load_handle_live calloc_def Some rd_local_def Let_def bulk_write_def cl_simps
          flip: i_def)
    then show ?thesis by (auto simp: main_fetch_def rd_local_def)
  qed
qed

end
