(* ===== verification/Programs.thy ===== *)
theory Programs
  imports Modules Process
begin

text \<open>
  The programs \<open>bin/admin.c\<close> and \<open>bin/server.c\<close>. As in \<open>Client_Program\<close>, \<open>exit(r)\<close> is \<open>Inl (Exit r)\<close> and a
  failed assertion \<open>Inl (Exit 134)\<close>. Bytes that were never written are \<open>None\<close>.
\<close>

section \<open>The administrator's program\<close>

record admin_env =
  am_argc :: int
  am_mid :: addr
  am_lookup :: "int \<times> addr"
  am_addr_free :: int

definition admin_main :: "admin_env \<Rightarrow> admin_st \<Rightarrow> (int \<times> admin_st) res" where
  "admin_main env s =
     (if am_argc env \<noteq> 3 then Inl (Exit 0)
      else if am_mid env = NULL then Inl (Exit 134)
      else if fst (am_lookup env) \<noteq> HG_SUCCESS then Inl (Exit (-1))
      else
        rbind (aggregator_admin_init (am_mid env) s) (\<lambda>(ret, admin, s).
        if ret \<noteq> AGGREGATOR_SUCCESS then Inl (Exit (-1))
        else
          rbind (aggregator_admin_finalize admin s) (\<lambda>(ret, s).
          if ret \<noteq> AGGREGATOR_SUCCESS then Inl (Exit (-1))
          else if am_addr_free env \<noteq> HG_SUCCESS then Inl (Exit (-1))
          else Inr (0, s))))"

text \<open>It ends with 0 exactly when everything it needs is there, and then its memory is as before.\<close>

lemma admin_main_cases:
  assumes "heap_ok (admins s)"
  shows "if am_argc env = 3 \<and> am_mid env \<noteq> NULL \<and> fst (am_lookup env) = HG_SUCCESS \<and> alloc_ok (aoom s) \<and>
      am_addr_free env = HG_SUCCESS
    then \<exists>s'. admin_main env s = Inr (0, s') \<and> cells (admins s') = cells (admins s)
    else \<exists>r. admin_main env s = Inl (Exit r)"
proof -
  have f: "(cells (admins s))(brk (admins s) := None) = cells (admins s)"
    using heap_ok_fresh [OF assms] by (simp add: fun_upd_idem)
  have "brk (admins s) \<noteq> NULL" using assms by (simp add: heap_ok_def)
  then show ?thesis
    by (cases "alloc_ok (aoom s)") (auto simp: admin_main_def aggregator_admin_init_def aggregator_admin_finalize_def calloc_def
      load_def store_def dealloc_def f)
qed

section \<open>The server's program\<close>

text \<open>
  \<open>sm_addr\<close> is the array that \<open>margo_addr_to_string\<close> has filled, \<open>sm_addrs\<close> what each rank sends, which is
  \<open>addr_str_size - 1\<close> bytes: its address without the terminator, which the reported size counts.
\<close>

record server_env =
  sm_mid :: addr
  sm_addr :: "byte list"
  sm_rank :: nat
  sm_addrs :: "byte list list"
  sm_fopen :: bool
  sm_register :: register_env

text \<open>\<open>while(addr[j] != '\0' && addr[j] != ':' && addr[j] != ';') j++\<close>\<close>

fun scan_proto :: "byte list \<Rightarrow> nat res" where
  "scan_proto [] = Inl OutOfBounds"
| "scan_proto (c # cs) = (if c = 0 \<or> c = 58 \<or> c = 59 then Inr 0 else rbind (scan_proto cs) (\<lambda>j. Inr (Suc j)))"

text \<open>\<open>MPI_Gather\<close> at rank 0: each address at the start of its 1024 bytes of \<open>malloc\<close>ed memory.\<close>

definition gathered :: "byte list list \<Rightarrow> byte option list" where
  "gathered xs = concat (map (\<lambda>a. map Some a @ replicate (1024 - length a) None) xs)"

text \<open>What \<open>%s\<close> prints.\<close>

fun print_string :: "byte option list \<Rightarrow> byte list res" where
  "print_string [] = Inl OutOfBounds"
| "print_string (None # bs) = Inl Uninit"
| "print_string (Some b # bs) = (if b = 0 then Inr [] else rbind (print_string bs) (\<lambda>t. Inr (b # t)))"

definition server_main :: "server_env \<Rightarrow> 'x server \<Rightarrow> (int \<times> byte list option \<times> addr \<times> 'x server) res" where
  "server_main env s =
     (if sm_mid env = NULL then Inl (Exit 134)
      else
        rbind (scan_proto (sm_addr env)) (\<lambda>_.
        rbind (if sm_rank env = 0
               then if sm_fopen env then rbind (print_string (drop 18 (gathered (sm_addrs env)))) (\<lambda>t. Inr (Some t)) else Inl NullDeref
               else Inr None) (\<lambda>out.
        if \<not> sm_fopen env then Inl NullDeref
        else
          rbind (aggregator_provider_register (sm_register env) (sm_mid env) 42 (Some AGGREGATOR_PROVIDER_ARGS_INIT) s) (\<lambda>(_, p, s).
          Inr (0, out, p, s)))))"

lemma scan_proto_terminated: "0 \<in> set cs \<Longrightarrow> \<exists>j. scan_proto cs = Inr j \<and> j < length cs"
  by (induction cs) auto

lemma print_string_uninit: "0 \<notin> set a \<Longrightarrow> print_string (map Some a @ None # r) = Inl Uninit"
  by (induction a) auto

text \<open>
  A rank other than 0 registers its provider. Rank 0 prints the first address from its nineteenth byte on;
  as no rank sends the terminator of its address, it reads memory that was never written.
\<close>

lemma server_main_other_rank:
  assumes "sm_mid env \<noteq> NULL" "0 \<in> set (sm_addr env)" "sm_rank env \<noteq> 0" "sm_fopen env"
    and "re_listening (sm_register env)" "\<not> re_registered (sm_register env)"
    and "ut_mem_ok s" "heap_ok (provs s)" "mem_ok s"
  shows "\<exists>p s'. server_main env s = Inr (0, None, p, s') \<and> process_inv mv s' p []"
  using scan_proto_terminated [OF assms(2)] process_start [OF assms(5-9), where mid = "sm_mid env" and pid = 42 and mv = mv and
      args = "Some AGGREGATOR_PROVIDER_ARGS_INIT"] assms(1,3,4)
  by (auto simp: server_main_def)

lemma server_main_rank0:
  assumes "sm_mid env \<noteq> NULL" "0 \<in> set (sm_addr env)" "sm_rank env = 0" "sm_fopen env"
    and "sm_addrs env = a # as" "0 \<notin> set a" "18 \<le> length a" "length a < 1024"
  shows "server_main env s = Inl Uninit"
proof -
  have "gathered (sm_addrs env) = map Some a @ None # (replicate (1023 - length a) None @ gathered as)"
    using assms(5,8) by (simp add: gathered_def Suc_diff_Suc [symmetric] flip: replicate_Suc)
  then have "drop 18 (gathered (sm_addrs env)) = map Some (drop 18 a) @ None # (replicate (1023 - length a) None @ gathered as)"
    using assms(7) by (simp add: drop_map)
  moreover have "0 \<notin> set (drop 18 a)" using assms(6) by (meson in_set_dropD)
  ultimately have "print_string (drop 18 (gathered (sm_addrs env))) = Inl Uninit" by (simp add: print_string_uninit)
  with scan_proto_terminated [OF assms(2)] assms(1,3,4) show ?thesis by (auto simp: server_main_def)
qed

end
