(* ===== verification/Spec2Isabelle.thy ===== *)
theory Spec2Isabelle
  imports Hash_Theorems Uthash_Bloom Provider_Theorems Stream_Theorems Client_Theorems Fetch_Threads Client_Program Programs
begin

text \<open>
  A verification development for the performance-data aggregator: a library with which a
  microservice keeps streams of timestamped samples, and from which monitoring clients fetch them
  over RPC. File names below are relative to the directory \<open>src\<close> of the repository.

  \<^bold>\<open>The program.\<close> A \<open>provider\<close> (\<open>src/provider.c\<close>) is registered with Margo. It owns the streams of its
  process in a hash table (\<open>src/uthash.h\<close>) under 32-bit identifiers, which are computed from a
  namespace, a name and a list of tags (\<open>include/aggregator/aggregator-common.h\<close>), and it serves two
  RPCs: fetching the last samples of a stream, and listing the identifiers. The microservice's own
  threads create, update and destroy the streams of their process by direct calls
  (\<open>src/client.c\<close>); a \<open>client\<close> in another process computes an identifier, makes a reference-counted
  handle and calls the RPCs (also \<open>src/client.c\<close>). The messages are in \<open>src/types.h\<close>.

  \<^bold>\<open>Conventions.\<close> An operation takes the memory and returns \<open>'a res\<close>, that is a \<open>fault\<close> or a result: a
  read or write through a null or dangling pointer, past the end of an array, of an uninitialised
  variable, a loop that never ends, an undefined conversion, \<open>exit(-1)\<close>, or a lock that is never
  given are values \<open>Inl e\<close>. Return codes of the program are the datatype \<open>aggregator_return_t\<close>.
  Memory is one heap (\<open>Prelude.heap\<close>) per type of object; addresses are never reused, so that a use
  after free is seen; each memory holds a schedule of allocation failures (\<open>oom\<close>). Machine integers
  have their width; \<open>double\<close> is IEEE 754 binary64 on the bit patterns (\<open>Doubles\<close>). The platform is
  x86-64 Linux: \<open>char\<close> is signed, \<open>size_t\<close> has 64 bits, words are little endian.

  \<^bold>\<open>Theories\<close>, in the order of the code's layers:
  \<^item> \<open>Prelude\<close>, \<open>Doubles\<close>: results, heaps, arrays, doubly linked lists; the operations on doubles.
  \<^item> \<open>Common\<close>: \<open>aggregator-common.h\<close>. \<open>aggregator_id_from_string_identifiers\<close> is the exclusive or of the
    djb2 hashes of its texts (\<open>stream_id_spec\<close>).
  \<^item> \<open>Uthash\<close> models the macros \<open>HASH_FIND\<close>, \<open>HASH_ADD\<close>, \<open>HASH_DELETE\<close> and \<open>HASH_ITER\<close> with those they expand to,
    for the structure and key of the program. \<open>Uthash_View\<close>, \<open>Uthash_Find\<close> (the invariant \<open>ut_inv s head
    xs\<close>: the table at \<open>head\<close> holds the elements \<open>xs\<close> in this order), \<open>Uthash_Expand\<close>, \<open>Uthash_Add\<close> and
    \<open>Uthash_Del\<close> prove each macro correct. \<open>Uthash_Index\<close> states the contract of an index, whose abstraction is a
    partial map from identifiers to addresses: the locale \<open>index_base\<close> has lookup, \<open>hash_index\<close> adds insertion and
    deletion, \<open>fallible_index\<close> an insertion that may be refused. \<open>hash_index\<close> is interpreted on the macros
    (\<open>ut\<close>); the provider uses the table through \<open>ut\<close> only.
  \<^item> The macros of \<open>uthash.h\<close> that the program does not expand: \<open>Uthash_Check\<close> (\<open>HASH_FSCK\<close> passes exactly on
    tables whose chains and counters agree; \<open>HASH_CLEAR\<close>), \<open>Uthash_Sort\<close> (\<open>HASH_SRT\<close> on pointers refines
    \<open>merge_sort\<close> of \<open>Merge_Sort\<close> on lists), \<open>Uthash_Order\<close> (\<open>HASH_ADD_INORDER\<close>, \<open>HASH_REPLACE\<close> and
    \<open>HASH_REPLACE_INORDER\<close>, \<open>HASH_CNT\<close>, \<open>HASH_OVERHEAD\<close>), \<open>Uthash_Bloom\<close> (the filter of \<open>HASH_BLOOM\<close>, from the making of its
    bit vector to its release, never changes the result of a lookup), \<open>Uthash_Nonfatal\<close> (insertion that recovers from lack of memory,
    \<open>HASH_NONFATAL_OOM\<close>, which interprets \<open>fallible_index\<close>), \<open>Uthash_Select\<close> (\<open>HASH_SELECT\<close>, on elements with a second handle: \<open>src_view\<close> is
    the memory as seen through it), \<open>Hash_Functions\<close> (\<open>HASH_BER\<close>, \<open>HASH_SAX\<close>, \<open>HASH_FNV\<close>, \<open>HASH_OAT\<close> and djb2: which
    tell texts apart that differ in one byte), \<open>Hash_SFH\<close> (\<open>HASH_SFH\<close> reads exactly the bytes of its key, and collides on texts
    that differ in one byte).
  \<^item> \<open>Server\<close>: the memory of a process with a provider (\<open>server\<close>), streams, providers, Argobots
    (\<open>argobots\<close>, a parameter, with its documented behaviour \<open>argobots_ok\<close>).
  \<^item> \<open>Provider\<close>: \<open>find_stream\<close>, \<open>add_stream\<close>, \<open>remove_stream\<close>, \<open>remove_all_streams\<close>, creation and destruction of
    streams; the invariant \<open>prov_inv\<close> and the abstraction \<open>registry\<close>. \<open>Provider_Rpc\<close>: registration,
    finalization and the handlers \<open>aggregator_stream_fetch_ult\<close> and \<open>aggregator_list_streams_ult\<close>; the answers
    of Margo are the records \<open>fetch_env\<close> and \<open>register_env\<close>.
  \<^item> \<open>Rpc_Types\<close>: \<open>types.h\<close>. The primitive routines of Mercury are a parameter (\<open>hg_prims\<close>, \<open>prims_ok\<close>).
  \<^item> \<open>Stream_Update\<close>, \<open>Stream_Dump\<close>, \<open>Taglist\<close>, \<open>Client\<close>, \<open>Client_Rpc\<close>: the parts of \<open>client.c\<close>. \<open>serve_fetch\<close> and
    \<open>serve_list\<close> connect a client's call to a provider's handler through encoded messages; what the call returns
    when the handler's behaviour is undefined is their parameter \<open>lost\<close>, on which no theorem depends.
  \<^item> \<open>Stream_Threads\<close>: threads that update one stream, with a step per shared access (\<open>ustep\<close>).
    \<open>Fetch_Threads\<close>: the unlocked reads and the copy of the fetch handler among their steps (\<open>fstep\<close>).
    \<open>Create_Threads\<close>: threads that register streams with one provider (\<open>astep\<close>).
  \<^item> \<open>Process_Spec\<close>: what a process promises, without memory: ordered lists of streams, those that the provider
    knows and those that only their handle leads to, and the answer and effect of each call on them (\<open>aexec\<close>,
    \<open>arun\<close>). \<open>Process\<close>: the invariant \<open>process_inv\<close> of a provider and its streams, \<open>process_all\<close> with the
    streams it does not know, the calls with their answers or faults (\<open>pcall\<close>) and sequences of them (\<open>preach\<close>),
    and that they keep the invariant and refine the specification.
  \<^item> \<open>Modules\<close>: \<open>src/admin.c\<close>, \<open>src/bedrock-module.c\<close>, \<open>src/dummy/dummy-backend.c\<close>. The table of functions of a backend is the
    record \<open>aggregator_backend_impl\<close>, its contract the locale \<open>stream_backend\<close>, interpreted on the dummy backend.
  \<^item> \<open>Client_Program\<close>: \<open>bin/client.c\<close>, composed of the client's operations. \<open>Programs\<close>: \<open>bin/admin.c\<close>, \<open>bin/server.c\<close>.
  \<^item> \<open>Scenario\<close>: instances of the parameters and a concrete run, on which the theorems' hypotheses hold.
  \<^item> \<open>Hash_Theorems\<close>, \<open>Provider_Theorems\<close>, \<open>Stream_Theorems\<close>, \<open>Client_Theorems\<close> hold the properties of one
    component each, this theory those that span components.

  \<^bold>\<open>What is shown.\<close> While allocations succeed and texts fit their fields, the answers of a process to any sequence
  of calls are those of an ordered list of named streams, its faults those calls to which the list has no answer, and
  it keeps its invariant (C1, C2); the command-line client prints what the provider
  holds, or, after a fetch that failed, what was never set (C3); a client's fetch and listing deliver the streams
  through encoding and decoding (C5, C6); a
  fetch among concurrent updates delivers the complete samples of one moment or runs past its buffer,
  which can happen (C4, C21); creation registers a stream where a client's identifier finds it, or leaves the stream
  there that had the identifier (C7, C8, C28);
  the hash table implements a map (C9 to C11), also when memory runs out and insertion recovers (C12); its sorting and
  ordered replacement keep the map and the order (C13, C14), and selection makes a second table (C15); updates record what the type allows (a counter also a NaN), also when threads interleave, up to the
  race of the counter's check (C16 to C20, C23); a handler can outlive its stream, and threads that
  register the first streams can lose one (C22, C24); the remaining operations do what they should on
  each branch, or are shown to fault (C25 to C33); identifiers and their collisions, handles, tag lists and
  messages (C34 to C40).

  \<^bold>\<open>Bounds and fuel.\<close> A \<open>while\<close> loop over a linked list gets \<open>fuel s\<close>, one more than the addresses ever
  allocated for elements, and \<open>Inl Diverge\<close> is the value of a loop that uses it up: under the
  invariant a list has no element twice, so it is never used up, which is part of each theorem. All
  other loops are structural. Insertion assumes fewer than \<open>2 ^ 32\<close> streams and a table of fewer than \<open>2
  ^ 31\<close> buckets (\<open>ut_room\<close>), beyond which uthash's own counters wrap. A selection (C15) of more than 26 elements assumes that
  no ten of them agree in the low 31 bits of their hash, unless one of its first 28 allocations fails
  (\<open>sel_room\<close>), so that its table does not pass \<open>2 ^ 31\<close> buckets. A fetch assumes that the bytes of
  its buffer are fewer than \<open>2 ^ 63\<close>, the largest object that the allocator gives; a histogram (C32) has fewer than
  \<open>2 ^ 31\<close> buckets.
  \<open>mem_ok\<close> says that every allocation succeeds; the program does not check those of streams, sample buffers and tags. It is assumed of the process (C1,
  C2, C3, C5, C6, C8) and of tag lists (C39): a stream whose buffer could not be allocated is registered with a null
  one, and the table ends the program when it cannot grow. Texts are assumed to fit their fields where they are copied
  (\<open>str_fits\<close>, \<open>create_pre\<close>); C29 and C39 show what happens when they do not. The number of tags is an integer
  that a caller gives as the length of its list.

  \<^bold>\<open>Not modelled.\<close> Margo, Mercury, Argobots, MPI and Bedrock are not part of the repository: they are
  parameters. Logging is left out, except that the reads it makes are kept where they fault. Of \<open>uthash.h\<close>,
  the emission of keys to a file descriptor, the forms for keys of other types, and ordered insertion and
  selection under \<open>HASH_NONFATAL_OOM\<close> are not modelled; no function of
  the program expands them. Nor are the tests with the vendored \<open>munit\<close>. Concurrency is modelled where
  streams and the table are shared: \<open>ustep\<close> interleaves updates of one stream, \<open>fstep\<close> a fetch with them,
  \<open>astep\<close> registrations, with the parts of \<open>HASH_ADD\<close> before and after the test of the head as steps, \<open>pcall\<close>
  whole calls. Finer interleavings inside the macros have more faults, not fewer.
\<close>

lemma sid_of_registry: "registry s [x] = [i \<mapsto> x] \<Longrightarrow> SID s x = i"
  by (auto simp: registry_def index_map_def fun_eq_iff split: if_splits)

section \<open>The process\<close>

text \<open>
  A trace from the registration on: a list of tags, a stream, then a stream under the same names, whose
  handle \<open>h\<close> the provider does not know, and an update through it.
\<close>

definition demo_stream :: "addr \<Rightarrow> double list \<Rightarrow> astream" where
  "demo_stream h vs = \<lparr>as_handle = h, as_type = AGGREGATOR_TYPE_GAUGE, as_ns = cstring demo_ns, as_name = cstring demo_name,
     as_desc = cstring demo_desc, as_vals = vs\<rparr>"

definition demo_create :: "addr \<Rightarrow> call \<times> answer" where
  "demo_create h = (Create h demo_id AGGREGATOR_TYPE_GAUGE (cstring demo_ns) (cstring demo_name) (cstring demo_desc),
     Created AGGREGATOR_SUCCESS (Some h))"

definition demo_calls :: "(call \<times> answer) list" where
  "demo_calls = [(Make_tags, Code AGGREGATOR_SUCCESS), demo_create 1]"

lemma demo_env_ok: "re_listening demo_env" "\<not> re_registered demo_env"
  by (simp_all add: demo_env_def)

text \<open>Creation with these names, as a call.\<close>

lemma demo_pcall:
  assumes "create_pre (Some demo_ns) (Some demo_name) (Some demo_desc) 1 s demo_id" "prov_inv s 1 xs" "length xs \<le> 1"
    "ut_log2 s (streams (PR s 1)) \<le> 6" "brk (elems s) = h"
    "aggregator_stream_create sim_abt (Some demo_ns) (Some demo_name) AGGREGATOR_TYPE_GAUGE (Some demo_desc) 1 1 s =
      Inr (AGGREGATOR_SUCCESS, Some h, s')"
  shows "pcall sim_abt 1 s (fst (demo_create h)) (Some (snd (demo_create h), s'))"
proof -
  have "unat (num_streams (PR s 1)) + 1 < 2 ^ 32" "ut_log2 s (streams (PR s 1)) < 31"
    using num_streams_length [OF assms(2)] assms(3,4) by simp_all
  from pcall.create [OF assms(1) this, of sim_abt AGGREGATOR_TYPE_GAUGE] assms(5,6) show ?thesis by (simp add: demo_create_def)
qed

lemma demo_trace: "preach sim_abt 1 sv1 demo_calls (sv3 AGGREGATOR_TYPE_GAUGE)"
proof -
  have "pcall sim_abt 1 sv1 Make_tags (Some (Code AGGREGATOR_SUCCESS, sv2))"
    using pcall.tags [of "[demo_tag]" sim_abt 1 sv1] create_tags_sv1 demo_texts by simp
  from preach.next_step [OF preach.here _ this] have 1: "preach sim_abt 1 sv1 [(Make_tags, Code AGGREGATOR_SUCCESS)] sv2" by simp
  have "pcall sim_abt 1 sv2 (fst (demo_create 1)) (Some (snd (demo_create 1), sv3 AGGREGATOR_TYPE_GAUGE))"
    by (rule demo_pcall [OF demo_pre process_inv_prov [OF sv2_ok] _ _ _ create_sv2]) (use sv2_views in \<open>simp_all add: ut_log2_def\<close>)
  from preach.next_step [OF 1 _ this] show ?thesis by (simp add: demo_calls_def demo_create_def)
qed

lemma demo_duplicate:
  "\<exists>h s'. preach sim_abt 1 sv1 (demo_calls @ [demo_create h, (Update h 0x3FF0000000000000, Code AGGREGATOR_SUCCESS)]) s' \<and> h \<noteq> 1"
proof -
  let ?s = "sv3 AGGREGATOR_TYPE_GAUGE" and ?v = "0x3FF0000000000000 :: double"
  define h where "h = brk (elems ?s)"
  have pi: "prov_inv ?s 1 [1]" by (rule sv3_facts)
  have all: "process_all sim_mv ?s 1 [1] []" using sv3_ok by simp
  have "registry ?s [1] demo_id = Some 1" by (simp only: sv3_registry fun_upd_same)
  with process_all_create [OF sim_abt_ok all sv3_pre sv3_ut_room, of AGGREGATOR_TYPE_GAUGE, folded h_def] obtain s1 where
    s1: "aggregator_stream_create sim_abt (Some demo_ns) (Some demo_name) AGGREGATOR_TYPE_GAUGE (Some demo_desc) 1 1 ?s =
      Inr (AGGREGATOR_SUCCESS, Some h, s1)" "process_all sim_mv s1 1 [1] [h]"
      "aexec (fst (demo_create h)) (astate_of ?s [1] []) = Some (Created AGGREGATOR_SUCCESS (Some h), astate_of s1 [1] [h])"
    by (auto simp: demo_create_def)
  have "pcall sim_abt 1 ?s (fst (demo_create h)) (Some (snd (demo_create h), s1))"
    by (rule demo_pcall [OF sv3_pre pi _ sv3_room h_def [symmetric] s1(1)]) simp
  from preach.next_step [OF demo_trace _ this]
  have r1: "preach sim_abt 1 sv1 (demo_calls @ [demo_create h]) s1" by (simp add: demo_create_def)
  have "strm s1 h = demo_stream h []" using s1(3) sv3_facts(9) [of AGGREGATOR_TYPE_GAUGE]
    by (simp add: demo_create_def demo_stream_def astate_of_def astreams_def Let_def)
  then have "aexec (Update h ?v) (astate_of s1 [1] [h]) = Some (Code AGGREGATOR_SUCCESS, arecord h ?v (astate_of s1 [1] [h]))"
    by (simp add: by_handle_astate demo_stream_def refuses_def STREAM_BUFFER_SIZE_def del: strm_simps)
  moreover have "agrees sim_mv 1 s1 (set [1] \<union> set [h]) (outcome (\<lambda>(r, s'). (Code r, s')) (aggregator_stream_update sim_abt h ?v s1))
      (aexec (Update h ?v) (astate_of s1 [1] [h]))"
    by (rule pcall_refines [OF sim_abt_ok s1(2) pcall.update]) simp
  ultimately obtain s2 where "outcome (\<lambda>(r, s'). (Code r, s')) (aggregator_stream_update sim_abt h ?v s1) = Some (Code AGGREGATOR_SUCCESS, s2)"
    by (auto simp: agrees_def)
  with pcall.update [of sim_abt 1 s1 h ?v] have "pcall sim_abt 1 s1 (Update h ?v) (Some (Code AGGREGATOR_SUCCESS, s2))" by simp
  moreover have "handle_used (Update h ?v) \<subseteq> given_handles (demo_calls @ [demo_create h])"
    by (simp add: given_handles_def demo_create_def)
  ultimately have "preach sim_abt 1 sv1 ((demo_calls @ [demo_create h]) @ [(Update h ?v, Code AGGREGATOR_SUCCESS)]) s2"
    by (intro preach.next_step [OF r1])
  then have "preach sim_abt 1 sv1 (demo_calls @ [demo_create h, (Update h ?v, Code AGGREGATOR_SUCCESS)]) s2"
    by simp
  moreover have "h \<noteq> 1" using s1(2) by (auto simp: process_all_def)
  ultimately show ?thesis by blast
qed



text \<open>
  C2: from the registration of a provider on, after any sequence of calls as in C1, on the same terms
  (every allocation succeeds, texts fit, no counter wraps): the streams that the provider knows are distinct, each is found under its own identifier
  and no two have the same, and their number is the provider's counter. Every stream, those included that
  were created under an identifier in use, has a buffer of full length and a mutex of its own, the mutex is
  free, and its values keep what its type promises. Every handle that was given out is one of these
  streams, or its memory was given back.
\<close>

theorem preach_invariant:
  assumes A: "argobots_ok A mv" and env: "re_listening env" "\<not> re_registered env"
    and mem: "ut_mem_ok s0" "heap_ok (provs s0)" "mem_ok s0"
    and reg: "aggregator_provider_register env mid pid args s0 = Inr (r, p, s)" and reach: "preach A p s l s'"
  shows "\<exists>xs zs. process_all mv s' p xs zs \<and> distinct xs \<and> unat (num_streams (PR s' p)) = length xs \<and>
    (\<forall>x \<in> set xs. find_stream p (Id_of x) s' = Inr x) \<and>
    (\<forall>x \<in> set xs. \<forall>y \<in> set xs. x \<noteq> y \<longrightarrow> SID s' x \<noteq> SID s' y) \<and>
    (\<forall>x \<in> set xs \<union> set zs. stream_wf s' x \<and> mutex_is mv False s' x \<and> type_ok (stype (ST s' x)) (svals s' x)) \<and>
    (\<forall>x \<in> set xs \<union> set zs. \<forall>y \<in> set xs \<union> set zs. x \<noteq> y \<longrightarrow>
      buffer (ST s' x) \<noteq> buffer (ST s' y) \<and> stream_mutex (ST s' x) \<noteq> stream_mutex (ST s' y)) \<and>
    (\<forall>h \<in> given_handles l. live (elems s') h \<longrightarrow> h \<in> set xs \<union> set zs)"
proof -
  from process_start [OF env mem, of mid pid args] reg have "process_inv mv s p []" by auto
  from preach_refines [OF A reach this] obtain xs zs where all: "process_all mv s' p xs zs"
    and h: "\<forall>h \<in> given_handles l. live (elems s') h \<longrightarrow> h \<in> set xs \<union> set zs" by blast
  have pi: "prov_inv s' p xs" by (rule process_inv_prov [OF process_all_inv [OF all]])
  have ids: "distinct (map (SID s') xs)" using pi ut.idents [of s' "streams (PR s' p)" xs] by (simp add: prov_inv_def)
  have ok: "\<forall>x \<in> set xs \<union> set zs. stream_wf s' x \<and> mutex_is mv False s' x \<and> type_ok (stype (ST s' x)) (svals s' x)"
    using process_all_stream [OF all] by (simp add: stream_ok_def)
  have own: "\<forall>x \<in> set xs \<union> set zs. \<forall>y \<in> set xs \<union> set zs. x \<noteq> y \<longrightarrow>
      buffer (ST s' x) \<noteq> buffer (ST s' y) \<and> stream_mutex (ST s' x) \<noteq> stream_mutex (ST s' y)"
    using all unfolding process_all_def inj_on_def by blast
  have "\<forall>x \<in> set xs. find_stream p (Id_of x) s' = Inr x" using find_stream_in [OF pi] by blast
  moreover have "\<forall>x \<in> set xs. \<forall>y \<in> set xs. x \<noteq> y \<longrightarrow> SID s' x \<noteq> SID s' y" "distinct xs"
    using ids by (auto simp: distinct_map dest: inj_onD)
  ultimately show ?thesis using all h ok own num_streams_length [OF pi] by blast
qed

theorem preach_invariant_witness:
  "\<exists>h s' xs zs. preach sim_abt 1 sv1 (demo_calls @ [demo_create h, (Update h 0x3FF0000000000000, Code AGGREGATOR_SUCCESS)]) s' \<and>
    process_all sim_mv s' 1 xs zs \<and> unat (num_streams (PR s' 1)) = length xs \<and> (live (elems s') h \<longrightarrow> h \<in> set xs \<union> set zs)"
proof -
  from demo_duplicate obtain h s' where
    r: "preach sim_abt 1 sv1 (demo_calls @ [demo_create h, (Update h 0x3FF0000000000000, Code AGGREGATOR_SUCCESS)]) s'" by blast
  have "h \<in> given_handles (demo_calls @ [demo_create h, (Update h 0x3FF0000000000000, Code AGGREGATOR_SUCCESS)])"
    by (simp add: given_handles_def demo_create_def)
  with preach_invariant [OF sim_abt_ok demo_env_ok sv0_ok register_sv0 r] r show ?thesis by blast
qed

section \<open>A fetch among updates\<close>

text \<open>
  C4: a fetch that runs while threads update the stream, without the stream's mutex. If the copy ends,
  the buffer holds what an undisturbed fetch would have copied at one moment, after the fetch began and
  before now: complete samples, in order, none of them half written. If it faults, the index has passed the
  requested count since the comparison, and the copy ran past the end of the buffer. Otherwise the
  next step of the handler brings it closer to its end, whatever the threads do.
\<close>

theorem fetch_among_updates:
  assumes A: "argobots_ok A mv" "argobots_blocks A mv" and i: "threads_init mv m tp s" and cnt: "24 * unat cnt < 2 ^ 63"
    and r: "freach A self m cnt ((s, tp, []), Compare, []) ((s', tp', l), r, g)"
  shows "case r of
      Copied n b \<Rightarrow> aslice b 0 (unat cnt) = fetch_data cnt g \<and> unat n = min (unat cnt) (length g) \<and>
        prefix (samples s m) g \<and> prefix g (samples s' m)
    | Fault e \<Rightarrow> e = OutOfBounds \<and> length (samples s m) < unat cnt \<and> unat cnt < length g \<and> prefix g (samples s' m)
    | _ \<Rightarrow> reader_rank (reader m cnt s' r) < reader_rank r"
proof (cases "reader_rank r = 0")
  case True
  with fetch_threads_result(1) [OF A i cnt r] show ?thesis by (cases r) auto
next
  case False
  from reader_rank_less [OF this, of m cnt s'] False show ?thesis by (cases r) (auto simp del: reader.simps)
qed

lemma demo_both: "\<exists>s' tp' l. ureach sim_abt (\<lambda>_. 1) 1 (sv3 AGGREGATOR_TYPE_GAUGE, demo_threads, []) (s', tp', l) \<and>
    svals s' 1 = [0x4000000000000000, 0x3FF0000000000000] \<and> stream_wf s' 1"
proof -
  let ?s = "sv3 AGGREGATOR_TYPE_GAUGE"
  have 1: "length (svals ?s 1) + 2 \<le> STREAM_BUFFER_SIZE" unfolding sv3_facts by (simp add: STREAM_BUFFER_SIZE_def)
  have 2: "\<not> refuses (stype (ST ?s 1)) (svals ?s 1) v" for v unfolding sv3_facts by (simp add: refuses_def)
  have 3: "(0 :: nat) \<noteq> 1" "demo_threads 0 = Check 0x4000000000000000" "demo_threads 1 = Check 0x3FF0000000000000"
    by (simp_all add: demo_threads_def)
  from both_record [OF sim_abt_ok demo_threads_init 3 2 2 1, of "\<lambda>_. 1"] show ?thesis
    unfolding sv3_facts by auto
qed

theorem fetch_among_updates_witness:
  "\<exists>s' tp' l n b g. freach sim_abt (\<lambda>_. 1) 1 2 ((sv3 AGGREGATOR_TYPE_GAUGE, demo_threads, []), Compare, [])
      ((s', tp', l), Copied n b, g) \<and>
    unat n = 2 \<and> map val (aslice b 0 2) = [0x4000000000000000, 0x3FF0000000000000]"
proof -
  let ?s = "sv3 AGGREGATOR_TYPE_GAUGE"
  have c: "24 * unat (2 :: u64) < 2 ^ 63" by simp
  from demo_both obtain s' tp' l where
    u: "ureach sim_abt (\<lambda>_. 1) 1 (?s, demo_threads, []) (s', tp', l)" "svals s' 1 = [0x4000000000000000, 0x3FF0000000000000]"
      "stream_wf s' 1" by blast
  from reader_alone [OF u(3) c, of Compare "[]" sim_abt "\<lambda>_. 1" tp' l] obtain n b where
    f: "freach sim_abt (\<lambda>_. 1) 1 2 ((s', tp', l), Compare, []) ((s', tp', l), Copied n b, samples s' 1)" by auto
  have r: "freach sim_abt (\<lambda>_. 1) 1 2 ((?s, demo_threads, []), Compare, []) ((s', tp', l), Copied n b, samples s' 1)"
    by (rule freach_trans [OF freach_updates [OF u(1)] f])
  have len: "length (samples s' 1) = 2" using arg_cong [OF u(2), of length] by (simp add: svals_def)
  have two: "unat (2 :: u64) = 2" by simp
  have d: "fetch_data 2 (samples s' 1) = samples s' 1" using len by (simp add: fetch_data_def last_n_def)
  from fetch_among_updates [OF sim_abt_ok sim_abt_blocks demo_threads_init c r] len d two u(2) r
  show ?thesis by (intro exI conjI) (auto simp: svals_def)
qed

text \<open>
  C21: that fault can happen. The fetch asks for one sample more than there are, and between its two
  reads of the index two threads record their values: the copy then takes one sample more than the
  handler's buffer holds.
\<close>

theorem fetch_overruns_buffer:
  assumes A: "argobots_ok A mv" and i: "threads_init mv m tp s"
    and tu: "t \<noteq> u" "tp t = Check a" "tp u = Check b"
    and acc: "\<not> refuses (stype (ST s m)) (svals s m) a" "\<not> refuses (stype (ST s m)) (svals s m) b"
    and cnt: "unat cnt = Suc (length (samples s m))" "length (samples s m) + 2 \<le> STREAM_BUFFER_SIZE"
  shows "\<exists>s' tp' l g. freach A self m cnt ((s, tp, []), Compare, []) ((s', tp', l), Fault OutOfBounds, g)"
  by (rule fetch_overflow [OF A i tu acc cnt])

theorem fetch_overruns_buffer_witness:
  "\<exists>s' tp' l g. freach sim_abt (\<lambda>_. 1) 1 1 ((sv3 AGGREGATOR_TYPE_GAUGE, demo_threads, []), Compare, [])
    ((s', tp', l), Fault OutOfBounds, g)"
proof -
  let ?s = "sv3 AGGREGATOR_TYPE_GAUGE"
  have 1: "unat (1 :: u64) = Suc (length (samples ?s 1))" "length (samples ?s 1) + 2 \<le> STREAM_BUFFER_SIZE"
    unfolding sv3_facts by (simp_all add: STREAM_BUFFER_SIZE_def)
  have 2: "\<not> refuses (stype (ST ?s 1)) (svals ?s 1) v" for v unfolding sv3_facts by (simp add: refuses_def)
  have 3: "(0 :: nat) \<noteq> 1" "demo_threads 0 = Check 0x4000000000000000" "demo_threads 1 = Check 0x3FF0000000000000"
    by (simp_all add: demo_threads_def)
  show ?thesis by (rule fetch_overruns_buffer [OF sim_abt_ok demo_threads_init 3 2 2 1])
qed

text \<open>
  C22: the handler holds no lock on the provider either. If all streams are destroyed after it has found
  its stream, the next field it reads is in freed memory; a copy that has begun goes on undisturbed,
  because destroying a stream leaves its buffer allocated.
\<close>

theorem fetch_races_destroy:
  assumes inv: "prov_inv s p xs" and x: "x \<in> set xs"
  shows "\<exists>s'. aggregator_provider_destroy_all_streams p s = Inr (AGGREGATOR_SUCCESS, s') \<and>
    reader x cnt s' Compare = Fault Dangling \<and> reader x cnt s' Read_count = Fault Dangling \<and> reader x cnt s' Read_offset = Fault Dangling \<and>
    (\<forall>src off n k b. reader x cnt s' (Copy src off n k b) = reader x cnt s (Copy src off n k b))"
proof -
  from remove_all_streams_ok [OF inv] obtain s' where s': "remove_all_streams p s = Inr s'" "prov_inv s' p []"
    "prov_frame p s s'" "\<forall>q. live (elems s') q \<longleftrightarrow> live (elems s) q \<and> q \<notin> set xs" by blast
  have "x \<noteq> NULL" using prov_inv_live [OF inv x] by (auto simp: live_def)
  then have "load (elems s') x = Inl Dangling"
    using spec [OF s'(4), of x] x by (simp add: load_def live_def split: option.splits)
  moreover have "bufs s' = bufs s" using s'(3) by (simp add: prov_frame_def)
  ultimately show ?thesis
    using s' by (simp add: aggregator_provider_destroy_all_streams_def prov_inv_def copy_sample_def)
qed

theorem fetch_races_destroy_witness:
  "\<exists>s'. aggregator_provider_destroy_all_streams 1 (sv3 AGGREGATOR_TYPE_GAUGE) = Inr (AGGREGATOR_SUCCESS, s') \<and>
    reader 1 5 s' Compare = Fault Dangling"
  using fetch_races_destroy [OF sv3_facts(1) [of AGGREGATOR_TYPE_GAUGE], of 1 5] by auto

section \<open>From client to provider and back\<close>

text \<open>
  C5: a remote fetch, through the client's call, the encoding, the provider's handler, the bulk
  transfer and the decoding. The client gets the last samples of the stream its handle names, as many
  as it asked for (cut off at the size of a stream's buffer) or as there are, with the stream's name
  and namespace.
\<close>

theorem remote_fetch_end_to_end:
  assumes P: "prims_ok P e32 e64 esz estr eblk" and sv: "process_inv mv sv p xs"
    and reg: "registry sv xs (h_stream_id (HD s hnd)) = Some st"
    and cl: "client_inv s" "live (handles s) hnd" and mem: "False \<notin> set (coom s)" "heap_ok (cbufs s)" "heap_ok (cstrs s)"
    and env: "env = \<lparr>me_bulk_create = Some blk, me_create = HG_SUCCESS, me_forward = serve_fetch P lost p sv\<rparr>"
  shows "\<exists>c b nm q s' a. aggregator_remote_stream_fetch P env hnd n s =
      Inr (ret_code AGGREGATOR_SUCCESS, c, Some (b, nm, q), s') \<and>
    unat c = min (unat (clamp_count n)) (length (samples sv st)) \<and> cells (cbufs s') b = Some a \<and>
    take (unat c) (aslice a 0 (alen a)) = last_n (unat (clamp_count n)) (samples sv st) \<and>
    map_option cstring (cells (cstrs s') nm) = Some (cstring (sname (ST sv st))) \<and>
    map_option cstring (cells (cstrs s') q) = Some (cstring (sns (ST sv st)))"
proof -
  have pi: "prov_inv sv p xs" and h: "no_oom sv" "heap_ok (bufs sv)" "heap_ok (strs sv)"
    using sv by (simp_all add: process_inv_def mem_ok_def)
  have "st \<in> set xs" using reg pi by (auto simp: registry_def prov_inv_def index_map_Some_iff [OF ut.idents])
  then have wf: "stream_wf sv st" using sv by (simp add: process_inv_def stream_ok_def)
  have "live (clients s) (h_client (HD s hnd))" using cl by (simp add: client_inv_def)
  from remote_fetch_ok [OF P pi reg wf h cl(2) this mem env, of n] show ?thesis by (blast dest: cstr_at_text)
qed

theorem remote_fetch_end_to_end_witness:
  "\<exists>b nm q s' a x y. aggregator_remote_stream_fetch sim_prims
      \<lparr>me_bulk_create = Some 6, me_create = HG_SUCCESS, me_forward = serve_fetch sim_prims (1, None, []) 1 sv4\<rparr> 1 5 cl2 =
      Inr (ret_code AGGREGATOR_SUCCESS, 2, Some (b, nm, q), s') \<and>
    cells (cbufs s') b = Some a \<and> take 2 (aslice a 0 (alen a)) = [x, y] \<and> val x = 0x3FF0000000000000 \<and> val y = 0x4000000000000000 \<and>
    map_option cstring (cells (cstrs s') nm) = Some [110, 97, 109, 101]"
proof -
  obtain x y where xy: "samples sv4 1 = [x, y]" "val x = 0x3FF0000000000000" "val y = 0x4000000000000000"
    using sv4_svals by (auto simp: svals_def map_eq_Cons_conv)
  have i: "h_stream_id (HD cl2 1) = demo_id" using cl2_handle by simp
  have reg: "registry sv4 [1] (h_stream_id (HD cl2 1)) = Some 1" unfolding i using sv4_registry by simp
  have m: "False \<notin> set (coom cl2)" "heap_ok (cbufs cl2)" "heap_ok (cstrs cl2)"
    unfolding cl2_mem by (simp_all add: heap_empty_def heap_ok_def)
  have k: "unat (clamp_count 5) = 5" by (simp add: unat_clamp_count STREAM_BUFFER_SIZE_def)
  have mn: "min 5 (length (samples sv4 1)) = 2" "last_n 5 (samples sv4 1) = [x, y]" unfolding xy(1) by (simp_all add: last_n_def)
  from remote_fetch_end_to_end [OF sim_prims_ok sv4_ok reg cl2_inv cl2_live_handle m refl, of 6 "(1, None, [])" 5] obtain c b nm q s' a where
    r: "aggregator_remote_stream_fetch sim_prims
      \<lparr>me_bulk_create = Some 6, me_create = HG_SUCCESS, me_forward = serve_fetch sim_prims (1, None, []) 1 sv4\<rparr> 1 5 cl2 =
      Inr (ret_code AGGREGATOR_SUCCESS, c, Some (b, nm, q), s')" "unat c = 2" "cells (cbufs s') b = Some a"
      "take (unat c) (aslice a 0 (alen a)) = [x, y]"
      "map_option cstring (cells (cstrs s') nm) = Some [110, 97, 109, 101]"
    unfolding k mn sv4_stream by blast
  from r(2) have "c = 2" by (simp add: word_unat_eq_iff)
  with r xy(2,3) show ?thesis by (intro exI conjI) auto
qed

text \<open>
  C6: a remote listing. The client's array gets the identifiers of the provider's first streams, in
  the order of their creation, as many as it has room for; the rest of the array is left alone.
\<close>

theorem remote_list_end_to_end:
  assumes P: "prims_ok P e32 e64 esz estr eblk" and sv: "process_inv mv sv p xs"
    and C: "live (clients s) c" and D: "cells (cids s) ids = Some D" "ids \<noteq> NULL" "unat cnt \<le> alen D"
    and mem: "False \<notin> set (coom s)" "heap_ok (cids s)"
    and env: "me_create env = HG_SUCCESS" "me_forward env = serve_list P lost p sv"
  shows "\<exists>k s' D'. aggregator_remote_list_streams P env c pid ids cnt s = Inr (ret_code AGGREGATOR_SUCCESS, k, s') \<and>
    unat k = min (length xs) (unat cnt) \<and> cells (cids s') = (cells (cids s))(ids \<mapsto> D') \<and> alen D' = alen D \<and>
    aslice D' 0 (unat k) = take (unat cnt) (map (SID sv) xs) \<and> (\<forall>j. unat k \<le> j \<longrightarrow> adat D' j = adat D j)"
proof -
  have "prov_inv sv p xs" "no_oom sv" "heap_ok (idarrs sv)" using sv by (simp_all add: process_inv_def mem_ok_def)
  from remote_list_ok [OF P this C D mem env, of pid] show ?thesis by blast
qed

theorem remote_list_end_to_end_witness:
  "\<exists>s' D'. aggregator_remote_list_streams sim_prims
      \<lparr>me_bulk_create = None, me_create = HG_SUCCESS, me_forward = serve_list sim_prims (1, None, []) 1 sv4\<rparr> 1 3 1 4 cl1 =
      Inr (ret_code AGGREGATOR_SUCCESS, 1, s') \<and> cells (cids s') 1 = Some D' \<and> adat D' 0 = demo_id"
proof -
  let ?env = "\<lparr>me_bulk_create = None, me_create = HG_SUCCESS, me_forward = serve_list sim_prims (1, None, []) 1 sv4\<rparr>"
  have ids: "cids cl1 = \<lparr>cells = [1 \<mapsto> azero 4 0], brk = 2\<rparr>" unfolding cl1_mem cl0_def by simp
  have d: "cells (cids cl1) 1 = Some (azero 4 0)" "(1 :: addr) \<noteq> NULL" "unat (4 :: u64) \<le> alen (azero 4 (0 :: u32))"
    unfolding ids by (simp_all add: azero_def)
  have m: "False \<notin> set (coom cl1)" "heap_ok (cids cl1)" unfolding cl1_mem cl0_def by (auto simp: heap_ok_def)
  have i: "SID sv4 1 = demo_id" using sv4_registry by (rule sid_of_registry)
  have x: "min (length [1 :: addr]) (unat (4 :: u64)) = 1" "take (unat (4 :: u64)) (map (SID sv4) [1]) = [demo_id]"
    using i by simp_all
  from remote_list_end_to_end [OF sim_prims_ok sv4_ok cl1_live d m, of ?env "(1, None, [])" 3] obtain k s' D' where
    r: "aggregator_remote_list_streams sim_prims ?env 1 3 1 4 cl1 = Inr (ret_code AGGREGATOR_SUCCESS, k, s')" "unat k = 1"
      "cells (cids s') = (cells (cids cl1))(1 \<mapsto> D')" "aslice D' 0 (unat k) = [demo_id]"
    unfolding x by auto
  from r(2) have "k = 1" by (simp add: word_unat_eq_iff)
  moreover have "adat D' 0 = demo_id" using r(4) unfolding r(2) by (simp add: aslice_def)
  ultimately show ?thesis using r(1,3) by (intro exI conjI) auto
qed

text \<open>
  C8: the names are the address. Under the identifier a client computes from namespace, name and
  tags, in its own memory, the provider finds after a creation with them the stream that was created, or, if the
  identifier was in use, the stream that had it before; creation reports success in both cases. Texts and tags fit their
  fields, every allocation succeeds, and there is room in the table (\<open>ut_room\<close>).
\<close>

theorem get_id_matches_create:
  assumes A: "argobots_ok A mv" and inv: "process_inv mv s p xs" and tags: "tags_at s tgl b va"
    and fits: "str_fits 36 (Some ns)" "str_fits 36 (Some name)" "str_fits 200 dsc"
    and room: "ut_room s (streams (PR s p)) xs" and tags': "tags_at sc tgl' b' va"
  shows "\<exists>i st s'. aggregator_remote_stream_get_id (Some ns) (Some name) tgl' sc = Inr (AGGREGATOR_SUCCESS, Some i) \<and>
    aggregator_stream_create A (Some ns) (Some name) t dsc tgl p s = Inr (AGGREGATOR_SUCCESS, Some st, s') \<and>
    find_stream p (Id_var i) s' = Inr (case registry s xs i of None \<Rightarrow> st | Some x \<Rightarrow> x) \<and>
    process_inv mv s' p (if registry s xs i = None then xs @ [st] else xs) \<and> \<not> live (elems s) st"
proof -
  let ?i = "stream_id_spec ns name va" and ?st = "brk (elems s)"
  let ?xs = "if registry s xs ?i = None then xs @ [?st] else xs"
  have pi: "prov_inv s p xs" by (rule process_inv_prov [OF inv])
  have "no_oom s" using inv by (simp add: process_inv_def mem_ok_def)
  note pre = create_pre_tags [OF tags fits this]
  have "process_all mv s p xs []" using inv by simp
  from process_all_create [OF A this pre room, of t] obtain s' where
    s': "aggregator_stream_create A (Some ns) (Some name) t dsc tgl p s = Inr (AGGREGATOR_SUCCESS, Some ?st, s')"
      "process_inv mv s' p ?xs" by (blast dest: process_all_inv)
  from stream_create_cases [OF pre pi room, of A t] s'(1)
  have "registry s' ?xs ?i = Some (case registry s xs ?i of None \<Rightarrow> ?st | Some x \<Rightarrow> x)"
    by (auto simp: aggregator_stream_create_def split: option.splits if_splits)
  then have "find_stream p (Id_var ?i) s' = Inr (case registry s xs ?i of None \<Rightarrow> ?st | Some x \<Rightarrow> x)"
    using find_stream_ok [OF process_inv_prov [OF s'(2)], of "Id_var ?i" ?i] by simp
  moreover have "terminated ns" "terminated name" using fits by (simp_all add: str_fits_def)
  note get_id_tags [OF tags' this]
  moreover have "\<not> live (elems s) ?st"
    using pi heap_ok_fresh [of "elems s"] by (simp add: prov_inv_def ut_inv_def ut_mem_ok_def live_def)
  ultimately show ?thesis using s' by blast
qed

theorem get_id_matches_create_witness:
  "\<exists>st s'. aggregator_remote_stream_get_id (Some demo_ns) (Some demo_name) 1 sv2 = Inr (AGGREGATOR_SUCCESS, Some demo_id) \<and>
    aggregator_stream_create sim_abt (Some demo_ns) (Some demo_name) AGGREGATOR_TYPE_GAUGE (Some demo_desc) 1 1 sv2 =
      Inr (AGGREGATOR_SUCCESS, Some st, s') \<and> find_stream 1 (Id_var demo_id) s' = Inr st"
proof -
  have n: "registry sv2 [] i = None" for i by (simp add: registry_def index_map_def)
  have g: "aggregator_remote_stream_get_id (Some demo_ns) (Some demo_name) 1 sv2 = Inr (AGGREGATOR_SUCCESS, Some demo_id)"
    using get_id_tags [OF sv2_tags demo_texts(1,2)] by (simp add: demo_id_def)
  from get_id_matches_create [OF sim_abt_ok sv2_ok sv2_tags demo_fits sv2_room sv2_tags, of AGGREGATOR_TYPE_GAUGE] g
  show ?thesis by (auto simp: n)
qed

section \<open>The command-line client\<close>

text \<open>
  C3: the command-line client, run with its two arguments against a provider that answers its listing. If the provider holds the stream whose names the
  program has built in, and serves the fetch, the program ends with status 0, prints the stream's identifier, the first five
  identifiers of the provider and the last five samples of the stream with its name and namespace,
  and gives its client and its handle back. If the fetch fails - its request cannot be made, or the
  forward or the decoding of the response reports any error - the program prints pointers that were never
  set: the result of the fetch is not looked at. Margo's other calls and every allocation succeed (\<open>main_ready\<close>).
\<close>

theorem client_program:
  assumes P: "prims_ok P e32 e64 esz estr eblk" and sv: "process_inv mv sv p xs" and rd: "main_ready env s t"
    and ls: "mn_list env = \<lparr>me_bulk_create = lb, me_create = HG_SUCCESS, me_forward = serve_list P lost p sv\<rparr>"
  shows "(\<forall>st blk. registry sv xs (stream_id_spec main_ns main_name main_tags) = Some st \<and>
      mn_fetch env = \<lparr>me_bulk_create = Some blk, me_create = HG_SUCCESS, me_forward = serve_fetch P lost p sv\<rparr> \<longrightarrow>
      (\<exists>s' t'. client_main P env s t =
        Inr (0, Stream_id (stream_id_spec main_ns main_name main_tags) #
          Total (of_nat (min (length xs) 5)) # map Listed_id (take 5 (map (SID sv) xs)) @
          Fetched_from (of_nat (min 5 (length (samples sv st)))) (cstring (sname (ST sv st))) (cstring (sns (ST sv st))) #
          map (\<lambda>x. Sample (val x) (time x)) (last_n 5 (samples sv st)), s', t') \<and>
        refs s' = refs s \<and> live (clients s') = live (clients s))) \<and>
    (me_create (mn_fetch env) \<noteq> HG_SUCCESS \<or> (\<forall>m. fst (me_forward (mn_fetch env) m) \<noteq> HG_SUCCESS \<or>
        fst (hg_proc_stream_fetch_out_t P HG_DECODE zero_fetch_out (snd (snd (me_forward (mn_fetch env) m)))) \<noteq> HG_SUCCESS) \<longrightarrow>
      client_main P env s t = Inl Uninit)"
proof -
  let ?i = "stream_id_spec main_ns main_name main_tags"
  have ls': "me_create (mn_list env) = HG_SUCCESS" "me_forward (mn_list env) = serve_list P lost p sv" using ls by simp_all
  from client_main_until_fetch [OF P sv rd ls'] obtain clt rh s1 t1 where
    r: "client_main P env s t = main_fetch P env clt rh (Stream_id ?i # Total (of_nat (min (length xs) 5)) #
        map Listed_id (take 5 (map (SID sv) xs))) s1 t1"
      "client_inv s1" "refs s rh = None" "refs s1 = (refs s)(rh \<mapsto> 1)" "h_client (HD s1 rh) = clt" "h_stream_id (HD s1 rh) = ?i"
      "\<forall>c. live (clients s1) c \<longleftrightarrow> c = clt \<or> live (clients s) c" "\<not> live (clients s) clt"
      "False \<notin> set (coom s1)" "heap_ok (cbufs s1)" "heap_ok (cstrs s1)"
    by blast
  have one: "refs s1 rh = Some 1" using r(4) by simp
  have af: "mn_addr_free env = HG_SUCCESS" using rd by (simp add: main_ready_def)
  have found: "\<exists>s' t'. client_main P env s t =
        Inr (0, Stream_id ?i # Total (of_nat (min (length xs) 5)) # map Listed_id (take 5 (map (SID sv) xs)) @
          Fetched_from (of_nat (min 5 (length (samples sv st)))) (cstring (sname (ST sv st))) (cstring (sns (ST sv st))) #
          map (\<lambda>x. Sample (val x) (time x)) (last_n 5 (samples sv st)), s', t') \<and>
        refs s' = refs s \<and> live (clients s') = live (clients s)"
    if st: "registry sv xs ?i = Some st"
      and ft: "mn_fetch env = \<lparr>me_bulk_create = Some blk, me_create = HG_SUCCESS, me_forward = serve_fetch P lost p sv\<rparr>" for st blk
  proof -
    from main_fetch_ok [OF P sv st [folded r(6)] r(2) one r(5) r(9-11) ft af] obtain s' where
      m: "client_main P env s t = Inr (0, (Stream_id ?i # Total (of_nat (min (length xs) 5)) # map Listed_id (take 5 (map (SID sv) xs))) @
          Fetched_from (of_nat (min 5 (length (samples sv st)))) (cstring (sname (ST sv st))) (cstring (sns (ST sv st))) #
          map (\<lambda>x. Sample (val x) (time x)) (last_n 5 (samples sv st)), s', t1)"
        "refs s' = (refs s1)(rh := None)" "\<forall>c. live (clients s') c \<longleftrightarrow> c \<noteq> clt \<and> live (clients s1) c"
      unfolding r(1) by blast
    have "refs s' = refs s" using m(2) r(3,4) by (simp add: fun_upd_idem)
    moreover have "live (clients s') = live (clients s)" using m(3) r(7,8) by (auto simp: fun_eq_iff)
    ultimately show ?thesis using m(1) by simp
  qed
  show ?thesis
    by (intro conjI allI impI, elim conjE, erule (1) found, subst r(1), rule main_fetch_failed [OF r(2) one r(9)])
qed

text \<open>A provider with the stream that the program asks for.\<close>

lemma main_server: "\<exists>sv x. process_inv sim_mv sv 1 [x] \<and>
  registry sv [x] (stream_id_spec main_ns main_name main_tags) = Some x \<and> SID sv x = stream_id_spec main_ns main_name main_tags \<and>
  samples sv x = [] \<and> cstring (sname (ST sv x)) = cstring main_name \<and> cstring (sns (ST sv x)) = cstring main_ns"
proof -
  let ?i = "stream_id_spec main_ns main_name main_tags"
  from process_taglist [OF sv1_ok main_texts(4)] obtain tgl b s where
    s: "process_inv sim_mv s 1 []" "tags_at s tgl b main_tags" by blast
  have fits: "str_fits 36 (Some main_ns)" "str_fits 36 (Some main_name)"
    by (simp_all add: str_fits_def main_texts(1,2)) (simp_all add: main_ns_def main_name_def)
  have "no_oom s" using s(1) by (simp add: process_inv_def mem_ok_def)
  note pre = create_pre_tags [OF s(2) fits demo_fits(3) this]
  have "streams (PR s 1) = NULL" using s(1) by (simp add: process_inv_def prov_inv_def)
  then have room: "ut_room s (streams (PR s 1)) []" by (simp add: ut_room_def ut_log2_def)
  have r0: "registry s [] ?i = None" by (simp add: registry_def index_map_def)
  from process_create [OF sim_abt_ok s(1) pre room, of AGGREGATOR_TYPE_GAUGE] r0 obtain st s' where
    s': "process_inv sim_mv s' 1 [st]"
      "astreams s' [st] = [(?i, \<lparr>as_handle = st, as_type = AGGREGATOR_TYPE_GAUGE, as_ns = cstring main_ns, as_name = cstring main_name,
         as_desc = cstring demo_desc, as_vals = []\<rparr>)]" by auto
  then have "SID s' st = ?i" "strm s' st = \<lparr>as_handle = st, as_type = AGGREGATOR_TYPE_GAUGE, as_ns = cstring main_ns, as_name = cstring main_name,
         as_desc = cstring demo_desc, as_vals = []\<rparr>" by (simp_all add: astreams_def)
  then have "registry s' [st] ?i = Some st" "samples s' st = []" "cstring (sname (ST s' st)) = cstring main_name"
    "cstring (sns (ST s' st)) = cstring main_ns" "SID s' st = ?i"
    by (simp_all add: registry_def index_map_def strm_def svals_def)
  with s'(1) show ?thesis by blast
qed

theorem client_program_witness:
  "\<exists>env s' t'. client_main sim_prims env cl0 sv1 =
    Inr (0, [Stream_id (stream_id_spec main_ns main_name main_tags), Total 1, Listed_id (stream_id_spec main_ns main_name main_tags),
      Fetched_from 0 (cstring main_name) (cstring main_ns)], s', t') \<and> refs s' = Map.empty \<and>
    client_main sim_prims (env\<lparr>mn_fetch := \<lparr>me_bulk_create = Some 6, me_create = HG_SUCCESS, me_forward = \<lambda>_. (11, None, [])\<rparr>\<rparr>) cl0 sv1 =
      Inl Uninit"
proof -
  from main_server obtain sv x where
    sv: "process_inv sim_mv sv 1 [x]" "registry sv [x] (stream_id_spec main_ns main_name main_tags) = Some x"
      "SID sv x = stream_id_spec main_ns main_name main_tags" "samples sv x = []" "cstring (sname (ST sv x)) = cstring main_name"
      "cstring (sns (ST sv x)) = cstring main_ns" by blast
  let ?ls = "\<lparr>me_bulk_create = None, me_create = HG_SUCCESS, me_forward = serve_list sim_prims (1, None, []) 1 sv\<rparr>"
  let ?ft = "\<lparr>me_bulk_create = Some 6, me_create = HG_SUCCESS, me_forward = serve_fetch sim_prims (1, None, []) 1 sv\<rparr>"
  let ?bad = "\<lparr>me_bulk_create = Some 6, me_create = HG_SUCCESS, me_forward = \<lambda>_. (11, None, [])\<rparr>"
  define env where "env f = \<lparr>mn_argc = 3, mn_pid = 42, mn_mid = 9, mn_lookup = (HG_SUCCESS, 3), mn_init = demo_ienv,
    mn_list = ?ls, mn_dup = (HG_SUCCESS, 4), mn_fetch = f, mn_addr_free = HG_SUCCESS\<rparr>" for f
  have "client_inv cl0" "coom cl0 = []" "heap_ok (cids cl0)" "heap_ok (cbufs cl0)" "heap_ok (cstrs cl0)"
    using cl0_inv by (simp_all add: cl0_def heap_empty_def) (auto simp: heap_ok_def)
  then have rd: "main_ready (env f) cl0 sv1" for f using sv1_ok by (simp add: main_ready_def process_inv_def env_def)
  have ls: "mn_list (env f) = ?ls" "mn_fetch (env f) = f" for f by (simp_all add: env_def)
  have rf: "refs cl0 = Map.empty" by (simp add: refs_def cl0_def heap_empty_def live_def fun_eq_iff)
  have l: "last_n 5 ([] :: aggregator_stream_sample list) = []" by (simp add: last_n_def)
  from conjunct1 [OF client_program [OF sim_prims_ok sv(1) rd ls(1), of ?ft], rule_format, of x 6] obtain s' t' where
    g: "client_main sim_prims (env ?ft) cl0 sv1 = Inr (0, [Stream_id (stream_id_spec main_ns main_name main_tags), Total 1,
      Listed_id (stream_id_spec main_ns main_name main_tags), Fetched_from 0 (cstring main_name) (cstring main_ns)], s', t')"
      "refs s' = Map.empty"
    by (auto simp: sv(2-) l rf ls(2))
  have "client_main sim_prims (env ?bad) cl0 sv1 = Inl Uninit"
    by (rule conjunct2 [OF client_program [OF sim_prims_ok sv(1) rd ls(1), of ?bad], rule_format]) (simp add: ls(2))
  moreover have "env ?bad = (env ?ft)\<lparr>mn_fetch := ?bad\<rparr>" by (simp add: env_def)
  ultimately show ?thesis using g by (intro exI [of _ "env ?ft"] exI [of _ s'] exI [of _ t']) simp
qed

end
